(* ===== verification/Nsq_Prelude.thy ===== *)
theory Nsq_Prelude
  imports Main "HOL-Library.Word" "HOL-Library.AList" "HOL-Library.Multiset" "HOL-Library.Monad_Syntax"
begin

text \<open>
  The shared vocabulary of the development: the machine-integer type names, byte buffers with
  writes at explicit offsets (what the codecs do through a raw pointer), ordered association
  lists standing for \<^verbatim>\<open>std::map\<close> with a comparator, and the generic list and word lemmas
  that the component theories rely on.
\<close>

unbundle bit_operations_syntax

section \<open>Machine integers\<close>

type_synonym u8 = "8 word"
type_synonym u16 = "16 word"
type_synonym u32 = "32 word"
type_synonym u64 = "64 word"
type_synonym bytes = "u8 list"

named_theorems buf_simps \<open>reading a byte buffer after writes at other offsets\<close>
named_theorems codec_defs \<open>the field layouts of the message codecs\<close>
named_theorems book_simps \<open>unfolding the abstraction of a book into its parts\<close>
named_theorems book_intros \<open>introduction rules for the invariants of the books\<close>

lemma word_gt0_iff [simp]: "(0 < (w :: 'a :: len word)) = (w \<noteq> 0)"
  by (simp add: word_neq_0_conv)

lemma word_diff_eq0_iff: "((a :: 'a :: len word) - b = 0) = (a = b)"
  by simp

lemma unat_sub_less: "(b :: 'a :: len word) \<le> a \<Longrightarrow> b \<noteq> 0 \<Longrightarrow> unat (a - b) < unat a"
  by (metis diff_less unat_eq_zero unat_sub word_le_nat_alt bot_nat_0.not_eq_extremum
      le_zero_eq)

lemma sum_unat_word:
  "of_nat (sum_list (map unat (ws :: 'a :: len word list))) = sum_list ws"
  by (induction ws) simp_all

lemma unat_sum_list_no_wrap:
  assumes "sum_list (map unat (ws :: 'a :: len word list)) < 2 ^ LENGTH('a)"
  shows "unat (sum_list ws) = sum_list (map unat ws)"
  using assms by (metis mod_less sum_unat_word unat_of_nat)

section \<open>Byte buffers\<close>

text \<open>
  \<open>poke p i bs\<close> stores the bytes \<open>bs\<close> from offset \<open>i\<close> on, \<open>peek p i n\<close> reads \<open>n\<close> bytes from
  offset \<open>i\<close>: \<^verbatim>\<open>memcpy(p + i, bs, n)\<close> and \<^verbatim>\<open>memcpy(dst, p + i, n)\<close>. A store never changes the
  length of the buffer.
\<close>

fun poke :: "'a list \<Rightarrow> nat \<Rightarrow> 'a list \<Rightarrow> 'a list" where
  "poke p i [] = p"
| "poke p i (b # bs) = poke (p[i := b]) (Suc i) bs"

definition peek :: "'a list \<Rightarrow> nat \<Rightarrow> nat \<Rightarrow> 'a list" where
  "peek p i n = take n (drop i p)"

lemma length_poke [simp]: "length (poke p i bs) = length p"
  by (induction p i bs rule: poke.induct) simp_all

lemma nth_poke_other [buf_simps]:
  "k < i \<or> i + length bs \<le> k \<Longrightarrow> poke p i bs ! k = p ! k"
  by (induction p i bs rule: poke.induct) auto

lemma nth_poke_same [buf_simps]:
  "i \<le> k \<Longrightarrow> k < i + length bs \<Longrightarrow> k < length p \<Longrightarrow> poke p i bs ! k = bs ! (k - i)"
proof (induction p i bs rule: poke.induct)
  case (1 p i)
  then show ?case by simp
next
  case (2 p i b bs)
  show ?case
  proof (cases "k = i")
    case True
    then show ?thesis using 2 by (simp add: nth_poke_other)
  next
    case False
    then have "Suc i \<le> k" using 2 by simp
    moreover from False 2 have "k - i = Suc (k - Suc i)" by simp
    ultimately show ?thesis using 2 by simp
  qed
qed

lemma length_peek [simp]: "i + n \<le> length p \<Longrightarrow> length (peek p i n) = n"
  by (simp add: peek_def)

lemma peek_poke_other [buf_simps]:
  assumes "j + n \<le> i \<or> i + length bs \<le> j"
  shows "peek (poke p i bs) j n = peek p j n"
  unfolding peek_def
proof (rule nth_equalityI)
  show "length (take n (drop j (poke p i bs))) = length (take n (drop j p))" by simp
  fix k assume "k < length (take n (drop j (poke p i bs)))"
  then have "k < n" "k < length p - j" by auto
  moreover from this assms have "j + k < i \<or> i + length bs \<le> j + k" by auto
  ultimately show "take n (drop j (poke p i bs)) ! k = take n (drop j p) ! k"
    by (simp add: nth_poke_other)
qed

lemma peek_poke_same [buf_simps]:
  assumes "n = length bs" "i + length bs \<le> length p"
  shows "peek (poke p i bs) i n = bs"
  unfolding peek_def
proof (rule nth_equalityI)
  show "length (take n (drop i (poke p i bs))) = length bs" using assms by simp
  fix k assume "k < length (take n (drop i (poke p i bs)))"
  then have "k < length bs" using assms by simp
  then show "take n (drop i (poke p i bs)) ! k = bs ! k"
    using assms by (simp add: nth_poke_same)
qed

lemma list_update_poke: "p[i := b] = poke p i [b]"
  by simp

lemma poke_self [simp]: "i + n \<le> length p \<Longrightarrow> poke p i (peek p i n) = p"
proof (rule nth_equalityI)
  assume *: "i + n \<le> length p"
  show "length (poke p i (peek p i n)) = length p" by simp
  fix k assume "k < length (poke p i (peek p i n))"
  then show "poke p i (peek p i n) ! k = p ! k"
    using * by (cases "i \<le> k \<and> k < i + n") (auto simp: nth_poke_same nth_poke_other peek_def)
qed

text \<open>Accesses within a prefix of the memory do not see what follows it.\<close>

lemma poke_append_right [buf_simps]:
  "i + length bs \<le> length p \<Longrightarrow> poke (p @ r) i bs = poke p i bs @ r"
  by (induction p i bs rule: poke.induct) (auto simp: list_update_append)

lemma peek_append_right [buf_simps]: "i + n \<le> length p \<Longrightarrow> peek (p @ r) i n = peek p i n"
  by (simp add: peek_def)

text \<open>
  Two buffers agree up to offset \<open>k\<close>. Storing the next \<open>n\<close> bytes of \<open>p\<close> extends the agreement by
  \<open>n\<close>: the rule by which an encoder that stores consecutive fields reproduces the whole buffer.
\<close>

definition agree :: "'a list \<Rightarrow> 'a list \<Rightarrow> nat \<Rightarrow> bool" where
  "agree q p k \<longleftrightarrow> length q = length p \<and> take k q = take k p"

lemma agree_0: "length q = length p \<Longrightarrow> agree q p 0"
  by (simp add: agree_def)

lemma agree_all: "agree q p (length p) \<Longrightarrow> q = p"
  by (auto simp: agree_def)

lemma agree_poke:
  assumes "agree q p i" "k = i + length bs" "k \<le> length p" "bs = peek p i (length bs)"
  shows "agree (poke q i bs) p k"
proof -
  have "poke q i bs ! j = p ! j" if "j < k" for j
  proof (cases "j < i")
    case True
    then have "q ! j = p ! j" using assms(1) by (metis agree_def nth_take)
    then show ?thesis using True by (simp add: nth_poke_other)
  next
    case False
    have "bs ! (j - i) = peek p i (length bs) ! (j - i)" using assms(4) by simp
    also have "\<dots> = p ! j" using False that assms(2,3) by (simp add: peek_def)
    finally have "bs ! (j - i) = p ! j" .
    then show ?thesis using False that assms(1-3) by (simp add: agree_def nth_poke_same)
  qed
  then show ?thesis using assms(1,3) by (auto simp: agree_def intro!: nth_equalityI)
qed

lemma peek_1: "i < length p \<Longrightarrow> peek p i 1 = [p ! i]" "i < length p \<Longrightarrow> peek p i (Suc 0) = [p ! i]"
  by (simp_all add: peek_def take_Suc hd_drop_conv_nth)

section \<open>Ordered maps\<close>

text \<open>
  A \<^verbatim>\<open>std::map<K, V, Cmp>\<close> is its key-value pairs in iteration order: an association list whose
  keys are strictly increasing with respect to the comparator \<open>lt\<close>. \<^verbatim>\<open>begin()\<close> is the head,
  \<^verbatim>\<open>find\<close> is \<^const>\<open>map_of\<close>, \<^verbatim>\<open>erase\<close> is \<^const>\<open>AList.delete\<close>, and storing under a key
  (\<^verbatim>\<open>m[k] = v\<close>) is \<open>omap_upd\<close>.
\<close>

fun omap_upd :: "('k \<Rightarrow> 'k \<Rightarrow> bool) \<Rightarrow> 'k \<Rightarrow> 'v \<Rightarrow> ('k \<times> 'v) list \<Rightarrow> ('k \<times> 'v) list" where
  "omap_upd lt k v [] = [(k, v)]"
| "omap_upd lt k v ((k', v') # m) =
     (if lt k k' then (k, v) # (k', v') # m
      else if k = k' then (k, v) # m
      else (k', v') # omap_upd lt k v m)"

abbreviation omap_sorted :: "('k \<Rightarrow> 'k \<Rightarrow> bool) \<Rightarrow> ('k \<times> 'v) list \<Rightarrow> bool" where
  "omap_sorted lt m \<equiv> sorted_wrt lt (map fst m)"

lemma set_fst_omap_upd [simp]: "fst ` set (omap_upd lt k v m) = insert k (fst ` set m)"
  by (induction lt k v m rule: omap_upd.induct) (simp_all add: insert_commute)

lemma omap_upd_not_Nil [simp]: "omap_upd lt k v m \<noteq> []"
  by (cases m) (auto split: if_splits)

lemma set_omap_upd_subset: "set (omap_upd lt k v m) \<subseteq> insert (k, v) (set m)"
  by (induction m) (auto split: if_splits)

lemma in_omap_upd: "(k, v) \<in> set (omap_upd lt k v m)"
  by (induction m) (auto split: if_splits)

text \<open>The laws of a comparator, and what the ordered map guarantees under them.\<close>

locale std_map =
  fixes lt :: "'k \<Rightarrow> 'k \<Rightarrow> bool"
  assumes irrefl: "\<not> lt k k"
    and trans: "lt j k \<Longrightarrow> lt k l \<Longrightarrow> lt j l"
    and total: "lt j k \<or> j = k \<or> lt k j"
begin

lemma asym: "lt j k \<Longrightarrow> \<not> lt k j"
  using irrefl trans by blast

text \<open>A strictly sorted list is determined by its elements.\<close>

lemma sorted_unique: "sorted_wrt lt xs \<Longrightarrow> sorted_wrt lt ys \<Longrightarrow> set xs = set ys \<Longrightarrow> xs = ys"
proof (induction xs arbitrary: ys)
  case (Cons x xs)
  then obtain y ys' where ys: "ys = y # ys'" by (cases ys) auto
  have "x = y"
  proof (rule ccontr)
    assume "x \<noteq> y"
    then have "lt x y" "lt y x" using Cons.prems by (auto simp: ys)
    then show False using asym by blast
  qed
  moreover have "x \<notin> set xs" "y \<notin> set ys'" using Cons.prems irrefl by (auto simp: ys)
  ultimately have "set xs = set ys'" using Cons.prems(3) by (simp add: ys insert_ident)
  then show ?case using Cons.IH Cons.prems(1,2) \<open>x = y\<close> by (simp add: ys)
qed simp

lemma sorted_distinct: "omap_sorted lt m \<Longrightarrow> distinct (map fst m)"
  by (induction m) (use irrefl in \<open>fastforce\<close>)+

lemma sorted_omap_upd: "omap_sorted lt m \<Longrightarrow> omap_sorted lt (omap_upd lt k v m)"
proof (induction m)
  case (Cons a m)
  obtain k' v' where a: "a = (k', v')" by (cases a)
  have IH: "omap_sorted lt (omap_upd lt k v m)" using Cons by simp
  consider "lt k k'" | "k = k'" | "lt k' k" using total by blast
  then show ?case
  proof cases
    case 1 then show ?thesis using Cons.prems trans by (fastforce simp: a)
  next
    case 2 then show ?thesis using Cons.prems irrefl by (auto simp: a)
  next
    case 3
    then have "\<not> lt k k'" "k \<noteq> k'" using asym irrefl by auto
    moreover have "\<forall>x\<in>set (map fst (omap_upd lt k v m)). lt k' x"
      using Cons.prems 3 by (auto simp: a)
    ultimately show ?thesis using IH by (simp add: a)
  qed
qed simp

lemma sorted_delete: "omap_sorted lt m \<Longrightarrow> omap_sorted lt (AList.delete k m)"
  by (induction m) (auto simp: AList.delete_eq)

lemma map_of_omap_upd:
  "omap_sorted lt m \<Longrightarrow> map_of (omap_upd lt k v m) = (map_of m)(k \<mapsto> v)"
proof (induction m)
  case (Cons a m)
  obtain k' v' where a: "a = (k', v')" by (cases a)
  show ?case using Cons asym[of k k'] irrefl by (auto simp: a fun_eq_iff)
qed simp

text \<open>
  A present key splits the map; overwriting it replaces the value in place, deleting it drops
  exactly that entry.
\<close>

lemma split_present:
  assumes "omap_sorted lt m" "map_of m k = Some v"
  obtains m1 m2 where "m = m1 @ (k, v) # m2"
    "\<forall>x\<in>set m1. lt (fst x) k" "\<forall>x\<in>set m2. lt k (fst x)"
    "\<forall>w. omap_upd lt k w m = m1 @ (k, w) # m2"
    "AList.delete k m = m1 @ m2"
proof -
  have "\<exists>m1 m2. m = m1 @ (k, v) # m2 \<and> (\<forall>x\<in>set m1. lt (fst x) k)
    \<and> (\<forall>x\<in>set m2. lt k (fst x)) \<and> (\<forall>w. omap_upd lt k w m = m1 @ (k, w) # m2)
    \<and> AList.delete k m = m1 @ m2"
    using assms
  proof (induction m)
    case (Cons a m)
    obtain k' v' where a: "a = (k', v')" by (cases a)
    show ?case
    proof (cases "k' = k")
      case True
      then have "a = (k, v)" using Cons.prems a by simp
      moreover have "AList.delete k m = m"
        using Cons.prems True irrefl by (force intro: delete_id simp: a)
      ultimately show ?thesis using Cons.prems irrefl
        by (intro exI[of _ "[]"] exI[of _ m]) (auto simp: a)
    next
      case False
      then have "map_of m k = Some v" "omap_sorted lt m" using Cons.prems a by auto
      then obtain m1 m2 where *: "m = m1 @ (k, v) # m2" "\<forall>x\<in>set m1. lt (fst x) k"
        "\<forall>x\<in>set m2. lt k (fst x)" "\<forall>w. omap_upd lt k w m = m1 @ (k, w) # m2"
        "AList.delete k m = m1 @ m2" using Cons.IH by blast
      have "lt k' k" using Cons.prems *(1) by (auto simp: a)
      then show ?thesis using * False asym
        by (intro exI[of _ "a # m1"] exI[of _ m2]) (auto simp: a)
    qed
  qed simp
  then show ?thesis using that by blast
qed

lemma split_absent:
  assumes "omap_sorted lt m" "map_of m k = None"
  obtains m1 m2 where "m = m1 @ m2"
    "\<forall>x\<in>set m1. lt (fst x) k" "\<forall>x\<in>set m2. lt k (fst x)"
    "\<forall>w. omap_upd lt k w m = m1 @ (k, w) # m2"
proof -
  have "\<exists>m1 m2. m = m1 @ m2 \<and> (\<forall>x\<in>set m1. lt (fst x) k)
    \<and> (\<forall>x\<in>set m2. lt k (fst x)) \<and> (\<forall>w. omap_upd lt k w m = m1 @ (k, w) # m2)"
    using assms
  proof (induction m)
    case (Cons a m)
    obtain k' v' where a: "a = (k', v')" by (cases a)
    have ne: "k' \<noteq> k" "map_of m k = None" using Cons.prems a by (auto split: if_splits)
    show ?case
    proof (cases "lt k k'")
      case True
      then show ?thesis using Cons.prems trans
        by (intro exI[of _ "[]"] exI[of _ "a # m"]) (auto simp: a)
    next
      case False
      then have lt': "lt k' k" using total ne by blast
      from Cons ne obtain m1 m2 where *: "m = m1 @ m2" "\<forall>x\<in>set m1. lt (fst x) k"
        "\<forall>x\<in>set m2. lt k (fst x)" "\<forall>w. omap_upd lt k w m = m1 @ (k, w) # m2" by auto
      then show ?thesis using lt' False ne
        by (intro exI[of _ "a # m1"] exI[of _ m2]) (auto simp: a)
    qed
  qed simp
  then show ?thesis using that by blast
qed

lemma omap_upd_split:
  "\<forall>x\<in>set m1. lt (fst x) k \<Longrightarrow> omap_upd lt k w (m1 @ (k, v) # m2) = m1 @ (k, w) # m2"
  by (induction m1) (use irrefl asym in auto)

end

text \<open>The two comparators the books use: \<^verbatim>\<open>std::less\<close> for asks, \<^verbatim>\<open>std::greater\<close> for bids.\<close>

interpretation asc: std_map "(<) :: int \<Rightarrow> int \<Rightarrow> bool"
  by unfold_locales auto

interpretation desc: std_map "(>) :: int \<Rightarrow> int \<Rightarrow> bool"
  by unfold_locales auto

section \<open>Association lists for hash maps\<close>

text \<open>
  A \<^verbatim>\<open>std::unordered_map\<close> whose iteration order is never used is an association list with
  distinct keys. \<open>alist_emplace\<close> is \<^verbatim>\<open>emplace\<close>: it keeps an existing entry.
\<close>

definition alist_emplace :: "'k \<Rightarrow> 'v \<Rightarrow> ('k \<times> 'v) list \<Rightarrow> ('k \<times> 'v) list" where
  "alist_emplace k v m = (case map_of m k of None \<Rightarrow> (k, v) # m | Some _ \<Rightarrow> m)"

lemma map_of_alist_emplace:
  "map_of (alist_emplace k v m) = (if map_of m k = None then (map_of m)(k \<mapsto> v) else map_of m)"
  by (auto simp: alist_emplace_def split: option.splits)

lemma distinct_alist_emplace:
  "distinct (map fst m) \<Longrightarrow> distinct (map fst (alist_emplace k v m))"
  by (auto simp: alist_emplace_def map_of_eq_None_iff split: option.splits)

lemma length_alist_dom: "distinct (map fst m) \<Longrightarrow> length m = card (dom (map_of m))"
  by (metis distinct_card dom_map_of_conv_image_fst length_map list.set_map)

text \<open>
  \<open>index_ok m es\<close>: the hash map \<open>m\<close> holds exactly the entries \<open>es\<close>, which another structure
  determines. The order of either list does not matter.
\<close>

definition index_ok :: "('k \<times> 'v) list \<Rightarrow> ('k \<times> 'v) list \<Rightarrow> bool" where
  "index_ok m es \<longleftrightarrow> distinct (map fst m) \<and> distinct (map fst es) \<and> map_of m = map_of es"

lemma index_ok_perm:
  assumes "index_ok m es" "mset es = mset es'"
  shows "index_ok m es'"
proof -
  have "mset (map fst es) = mset (map fst es')" using assms(2) by simp
  then have d: "distinct (map fst es')" using assms(1) mset_eq_imp_distinct_iff
    unfolding index_ok_def by blast
  moreover have "set es = set es'" using assms(2) by (rule mset_eq_setD)
  ultimately have "map_of es = map_of es'" using assms(1) by (simp add: index_ok_def map_of_inject_set)
  with assms(1) d show ?thesis by (simp add: index_ok_def)
qed

lemma index_ok_delete:
  assumes "index_ok m es"
  shows "index_ok (AList.delete k m) (filter (\<lambda>e. fst e \<noteq> k) es)"
proof -
  have "filter (\<lambda>e. fst e \<noteq> k) es = AList.delete k es"
    by (auto simp: AList.delete_eq case_prod_unfold intro: filter_cong)
  then show ?thesis using assms by (simp add: index_ok_def delete_conv' distinct_delete)
qed

lemma index_ok_delete_hd:
  assumes "index_ok m (e # es)"
  shows "index_ok (AList.delete (fst e) m) es"
proof -
  have "filter (\<lambda>x. fst x \<noteq> fst e) es = es" using assms by (auto simp: index_ok_def filter_id_conv image_iff)
  then show ?thesis using index_ok_delete[OF assms, of "fst e"] by simp
qed

lemma index_ok_emplace:
  assumes "index_ok m es" "k \<notin> fst ` set es"
  shows "index_ok (alist_emplace k v m) ((k, v) # es)"
  using assms
  by (auto simp: index_ok_def map_of_alist_emplace distinct_alist_emplace map_of_eq_None_iff)

lemma index_ok_length:
  assumes "index_ok m es"
  shows "length m = length es"
  using assms length_alist_dom[of m] length_alist_dom[of es] by (simp add: index_ok_def)

lemma index_ok_Some: "index_ok m es \<Longrightarrow> map_of m k = Some v \<longleftrightarrow> (k, v) \<in> set es"
  by (simp add: index_ok_def)

lemma index_ok_None: "index_ok m es \<Longrightarrow> map_of m k = None \<longleftrightarrow> k \<notin> fst ` set es"
  by (simp add: index_ok_def map_of_eq_None_iff)

section \<open>Lists with distinct keys\<close>

lemma filter_key_absent: "k \<notin> f ` set xs \<Longrightarrow> filter (\<lambda>y. f y \<noteq> k) xs = xs"
  by (auto simp: filter_id_conv)

lemma filter_key_split:
  "distinct (map f (xs @ x # ys)) \<Longrightarrow> filter (\<lambda>y. f y \<noteq> f x) (xs @ x # ys) = xs @ ys"
  by (simp add: filter_key_absent)

lemma map_if_key_absent: "k \<notin> f ` set xs \<Longrightarrow> map (\<lambda>y. if f y = k then g y else y) xs = xs"
  by (induction xs) auto

lemma map_if_key_split:
  "distinct (map f (xs @ x # ys)) \<Longrightarrow>
   map (\<lambda>y. if f y = f x then g y else y) (xs @ x # ys) = xs @ g x # ys"
  by (simp add: map_if_key_absent)

lemma distinct_map_inj: "distinct (map f xs) \<Longrightarrow> x \<in> set xs \<Longrightarrow> y \<in> set xs \<Longrightarrow> f x = f y \<Longrightarrow> x = y"
  by (simp add: distinct_map inj_on_def)

lemma delete_split:
  "distinct (map fst (xs @ (k, v) # ys)) \<Longrightarrow> AList.delete k (xs @ (k, v) # ys) = xs @ ys"
  by (induction xs) auto

end
