(* ===== verification/Common_Types.thy ===== *)
theory Common_Types
  imports Nsq_Prelude
begin

text \<open>
  The domain types of \<^verbatim>\<open>src/common/types.hpp\<close>: fixed-point prices, share quantities, order
  identifiers, sides, and the 8-character space-padded symbols, with their printing and padding
  helpers. A C++ \<^verbatim>\<open>char\<close> is a byte here; a \<^verbatim>\<open>Side\<close> is any byte, since the enumeration has a fixed
  underlying type and the decoders cast wire bytes to it. A price is an integer: it is an
  \<^verbatim>\<open>int64_t\<close> whose overflow is undefined, and every price that reaches a book comes from a 32-bit
  wire field.
\<close>

section \<open>Prices, quantities, sides\<close>

type_synonym price = int
type_synonym qty = u32
type_synonym order_id = u64
type_synonym side = u8
type_synonym symbol = bytes

definition Buy :: side where "Buy = 0x42"
definition Sell :: side where "Sell = 0x53"

lemma Buy_Sell [simp]: "Buy \<noteq> Sell" "Sell \<noteq> Buy"
  by (simp_all add: Buy_def Sell_def)

abbreviation valid_side :: "side \<Rightarrow> bool" where
  "valid_side s \<equiv> s = Buy \<or> s = Sell"

definition kPriceScale :: price where "kPriceScale = 10000"

definition make_price :: "int \<Rightarrow> int \<Rightarrow> price" where
  "make_price dollars tenthousandths = dollars * kPriceScale + tenthousandths"

section \<open>Decimal printing\<close>

text \<open>\<open>to_string_nat\<close> and \<open>to_string\<close> are \<^verbatim>\<open>std::to_string\<close>: ASCII decimal digits, no padding.\<close>

fun to_string_nat :: "nat \<Rightarrow> bytes" where
  "to_string_nat n =
     (if n < 10 then [0x30 + of_nat n] else to_string_nat (n div 10) @ [0x30 + of_nat (n mod 10)])"

declare to_string_nat.simps [simp del]

definition to_string :: "int \<Rightarrow> bytes" where
  "to_string i = (if i < 0 then 0x2D # to_string_nat (nat (- i)) else to_string_nat (nat i))"

text \<open>C++ \<^verbatim>\<open>/\<close> and \<^verbatim>\<open>%\<close> truncate towards zero.\<close>

definition cdiv :: "int \<Rightarrow> int \<Rightarrow> int" where
  "cdiv a b = sgn a * sgn b * (\<bar>a\<bar> div \<bar>b\<bar>)"

definition cmod :: "int \<Rightarrow> int \<Rightarrow> int" where
  "cmod a b = a - b * cdiv a b"

text \<open>
  \<^verbatim>\<open>s.append(4 - frac.size(), '0')\<close> takes an unsigned count: with more than four characters in
  \<open>frac\<close> the count wraps and \<^verbatim>\<open>append\<close> throws \<^verbatim>\<open>std::length_error\<close>, which is \<open>None\<close> here.
\<close>

definition price_to_string :: "price \<Rightarrow> bytes option" where
  "price_to_string p =
     (let s = to_string (cdiv p kPriceScale) @ [0x2E];
          frac = to_string (cmod p kPriceScale)
      in if length frac \<le> 4 then Some (s @ replicate (4 - length frac) 0x30 @ frac) else None)"

text \<open>The value of a digit string, as the receivers of decimal fields compute it.\<close>

definition dec_value :: "nat \<Rightarrow> bytes \<Rightarrow> nat" where
  "dec_value acc ds = foldl (\<lambda>v c. v * 10 + unat (c - 0x30)) acc ds"

definition is_digit :: "u8 \<Rightarrow> bool" where
  "is_digit c \<longleftrightarrow> 0x30 \<le> c \<and> c \<le> 0x39"

lemma digit_byte: "d < 10 \<Longrightarrow> is_digit (0x30 + of_nat d) \<and> unat (0x30 + of_nat d - 0x30 :: u8) = d"
  by (auto simp: is_digit_def word_le_nat_alt unat_word_ariths unat_of_nat)

lemma to_string_nat_digits: "\<forall>c \<in> set (to_string_nat n). is_digit c"
proof (induction n rule: to_string_nat.induct)
  case (1 n)
  then show ?case by (subst to_string_nat.simps) (auto simp: digit_byte)
qed

lemma to_string_nat_not_Nil [simp]: "to_string_nat n \<noteq> []"
  by (subst to_string_nat.simps) simp

lemma dec_value_to_string: "dec_value 0 (to_string_nat n) = n"
proof (induction n rule: to_string_nat.induct)
  case (1 n)
  show ?case
  proof (cases "n < 10")
    case True
    then show ?thesis using digit_byte[of n]
      by (subst to_string_nat.simps) (simp add: dec_value_def)
  next
    case False
    then show ?thesis using 1 digit_byte[of "n mod 10"]
      by (subst to_string_nat.simps) (simp add: dec_value_def)
  qed
qed

lemma length_to_string_nat: "n < 10 ^ Suc k \<Longrightarrow> length (to_string_nat n) \<le> Suc k"
proof (induction n arbitrary: k rule: to_string_nat.induct)
  case (1 n)
  show ?case
  proof (cases "n < 10")
    case True
    then show ?thesis by (subst to_string_nat.simps) simp
  next
    case False
    then obtain k' where k: "k = Suc k'" using 1(2) by (cases k) auto
    then have "n div 10 < 10 ^ Suc k'" using 1(2) by auto
    then show ?thesis using 1(1)[OF False] k False by (subst to_string_nat.simps) simp
  qed
qed

lemma length_to_string_nat_ge: "10 ^ k \<le> n \<Longrightarrow> Suc k \<le> length (to_string_nat n)"
proof (induction k arbitrary: n)
  case (Suc k)
  have "(1 :: nat) \<le> 10 ^ k" by simp
  then have "\<not> n < 10" using Suc.prems unfolding power_Suc by linarith
  moreover have "10 ^ k \<le> n div 10" using Suc.prems by (simp add: less_eq_div_iff_mult_less_eq)
  ultimately show ?case using Suc.IH[of "n div 10"] by (subst to_string_nat.simps) simp
qed (simp add: Suc_le_eq)

lemma dec_value_append: "dec_value a (xs @ ys) = dec_value (dec_value a xs) ys"
  by (simp add: dec_value_def)

lemma dec_value_zeros: "dec_value 0 (replicate k 0x30 @ ds) = dec_value 0 ds"
  by (induction k) (simp_all add: dec_value_def)

section \<open>Space-padded symbols\<close>

definition make_symbol :: "bytes \<Rightarrow> symbol" where
  "make_symbol sv = poke (replicate 8 0x20) 0 (take 8 sv)"

text \<open>The trimming loop: the length left after dropping trailing spaces.\<close>

fun view_len :: "bytes \<Rightarrow> nat \<Rightarrow> nat" where
  "view_len s 0 = 0"
| "view_len s (Suc n) = (if s ! n = 0x20 then view_len s n else Suc n)"

definition symbol_view :: "symbol \<Rightarrow> bytes" where
  "symbol_view s = take (view_len s (length s)) s"

lemma view_len_le: "view_len s n \<le> n"
  by (induction n) auto

lemma view_len_spaces: "view_len s n \<le> k \<Longrightarrow> k < n \<Longrightarrow> s ! k = 0x20"
  by (induction n) (auto split: if_splits simp: less_Suc_eq)

lemma view_len_cong: "\<forall>i<n. s ! i = s' ! i \<Longrightarrow> view_len s n = view_len s' n"
  by (induction n) auto

lemma view_len_pad:
  "(sv = [] \<or> last sv \<noteq> 0x20) \<Longrightarrow> view_len (sv @ replicate k 0x20) (length sv + k) = length sv"
proof (induction k)
  case 0
  then show ?case by (cases sv rule: rev_cases) auto
next
  case (Suc k)
  have "view_len (sv @ replicate (Suc k) 0x20) (length sv + k) =
    view_len (sv @ replicate k 0x20) (length sv + k)"
    by (rule view_len_cong) (simp add: nth_append del: replicate.simps)
  then show ?case using Suc by (simp add: nth_append del: replicate.simps)
qed

lemma poke_pad: "length sv \<le> n \<Longrightarrow> poke (replicate n x) 0 sv = sv @ replicate (n - length sv) x"
  by (rule nth_equalityI) (auto simp: nth_append nth_poke_same nth_poke_other not_less)

text \<open>Padding and trimming are inverse on strings that fit and do not end in a space.\<close>

lemma trim_pad:
  assumes "length sv \<le> n" "sv = [] \<or> last sv \<noteq> 0x20"
  shows "take (view_len (poke (replicate n 0x20) 0 sv) n) (poke (replicate n 0x20) 0 sv) = sv"
  using view_len_pad[OF assms(2), of "n - length sv"] assms(1) by (simp add: poke_pad)

lemma pad_trim:
  assumes "length s = n"
  shows "poke (replicate n 0x20) 0 (take (view_len s n) s) = s"
  using assms view_len_le[of s n] view_len_spaces[of s n]
  by (intro nth_equalityI) (auto simp: nth_poke_same nth_poke_other not_less poke_pad nth_append)

lemma length_make_symbol [simp]: "length (make_symbol sv) = 8"
  by (simp add: make_symbol_def)

end
