(* ===== verification/Book_Types.thy ===== *)
theory Book_Types
  imports Common_Types
begin

text \<open>
  The vocabulary both order books share, from \<^verbatim>\<open>src/book/order_book.hpp\<close>: the events a book
  reports to its listener, the result of an add, and the snapshot structures. A listener callback
  is synchronous and never calls back into the book, so the calls a book operation makes are the
  list of events it returns, in order.
\<close>

record added_event =
  ad_id :: order_id
  ad_side :: side
  ad_price :: price
  ad_qty :: qty

record executed_event =
  xe_resting_id :: order_id
  xe_aggressor_id :: order_id
  xe_aggressor_side :: side
  xe_price :: price
  xe_qty :: qty
  xe_match_id :: u64

record canceled_event =
  ce_id :: order_id
  ce_canceled_qty :: qty
  ce_removed :: bool

record replaced_event =
  re_old_id :: order_id
  re_new_id :: order_id
  re_side :: side
  re_price :: price
  re_qty :: qty

datatype book_event =
    EvAdded added_event
  | EvExecuted executed_event
  | EvCanceled canceled_event
  | EvReplaced replaced_event

datatype add_status = Ok | DuplicateId | BadPrice | BadQty

record add_result =
  ar_status :: add_status
  ar_filled :: qty
  ar_resting :: qty

record snapshot_order =
  so_id :: order_id
  so_qty :: qty

record snapshot_level =
  sl_price :: price
  sl_orders :: "snapshot_order list"

record book_snapshot =
  bs_bids :: "snapshot_level list"
  bs_asks :: "snapshot_level list"

text \<open>Does an order of the given side and limit trade with a resting price?\<close>

definition crosses :: "side \<Rightarrow> price \<Rightarrow> price \<Rightarrow> bool" where
  "crosses aggressor_side aggressor_limit resting_price =
     (if aggressor_side = Buy then resting_price \<le> aggressor_limit
      else resting_price \<ge> aggressor_limit)"

end
