(* ===== verification/Book_Spec.thy ===== *)
theory Book_Spec
  imports Book_Types
begin

text \<open>
  The abstract limit order book both implementations are measured against. Each side is one queue
  in price-time priority order: better prices first, and within a price the order that came first.
  Matching sweeps the opposite queue from its head; resting an order puts it behind every order of
  an equal or better price. The lemmas give what the design promises: conservation of shares,
  executions only in priority order at the resting price, an uncrossed book.
\<close>

section \<open>The abstract state\<close>

record resting =
  rs_id :: order_id
  rs_price :: price
  rs_qty :: qty

record spec_book =
  sb_bids :: "resting list"
  sb_asks :: "resting list"
  sb_match :: u64

definition opp :: "side \<Rightarrow> side" where
  "opp s = (if s = Buy then Sell else Buy)"

definition queue_of :: "side \<Rightarrow> spec_book \<Rightarrow> resting list" where
  "queue_of s sb = (if s = Buy then sb_bids sb else sb_asks sb)"

definition set_queue :: "side \<Rightarrow> resting list \<Rightarrow> spec_book \<Rightarrow> spec_book" where
  "set_queue s q sb = (if s = Buy then sb\<lparr>sb_bids := q\<rparr> else sb\<lparr>sb_asks := q\<rparr>)"

text \<open>\<open>better s p q\<close>: on side \<open>s\<close> the price \<open>p\<close> comes strictly before \<open>q\<close>.\<close>

definition better :: "side \<Rightarrow> price \<Rightarrow> price \<Rightarrow> bool" where
  "better s p q = (if s = Buy then p > q else p < q)"

interpretation better: std_map "better s" for s
  by unfold_locales (auto simp: better_def)

section \<open>Operations\<close>

definition exec_event :: "resting \<Rightarrow> order_id \<Rightarrow> side \<Rightarrow> qty \<Rightarrow> u64 \<Rightarrow> book_event" where
  "exec_event r oid side q mid = EvExecuted \<lparr>xe_resting_id = rs_id r, xe_aggressor_id = oid,
     xe_aggressor_side = side, xe_price = rs_price r, xe_qty = q, xe_match_id = mid\<rparr>"

text \<open>The result is the events, the quantity left, the next match number and the queue left.\<close>

fun sweep :: "order_id \<Rightarrow> side \<Rightarrow> price \<Rightarrow> u64 \<Rightarrow> qty \<Rightarrow> resting list \<Rightarrow>
    book_event list \<times> qty \<times> u64 \<times> resting list" where
  "sweep oid side limit mid q [] = ([], q, mid, [])"
| "sweep oid side limit mid q (r # rs) =
     (if q = 0 \<or> \<not> crosses side limit (rs_price r) then ([], q, mid, r # rs)
      else if q < rs_qty r then
        ([exec_event r oid side q mid], 0, mid + 1, r\<lparr>rs_qty := rs_qty r - q\<rparr> # rs)
      else
        (case sweep oid side limit (mid + 1) (q - rs_qty r) rs of
           (evs, q', mid', rs') \<Rightarrow> (exec_event r oid side (rs_qty r) mid # evs, q', mid', rs')))"

fun enqueue :: "side \<Rightarrow> resting \<Rightarrow> resting list \<Rightarrow> resting list" where
  "enqueue s r [] = [r]"
| "enqueue s r (x # xs) =
     (if better s (rs_price r) (rs_price x) then r # x # xs else x # enqueue s r xs)"

definition spec_rest :: "order_id \<Rightarrow> side \<Rightarrow> price \<Rightarrow> qty \<Rightarrow> spec_book \<Rightarrow> spec_book" where
  "spec_rest oid side p q sb =
     set_queue side (enqueue side \<lparr>rs_id = oid, rs_price = p, rs_qty = q\<rparr> (queue_of side sb)) sb"

definition spec_match :: "order_id \<Rightarrow> side \<Rightarrow> price \<Rightarrow> qty \<Rightarrow> spec_book \<Rightarrow>
    spec_book \<times> book_event list \<times> qty" where
  "spec_match oid side limit q sb =
     (case sweep oid side limit (sb_match sb) q (queue_of (opp side) sb) of
        (evs, left, mid, rs) \<Rightarrow> (set_queue (opp side) rs (sb\<lparr>sb_match := mid\<rparr>), evs, q - left))"

text \<open>The lifecycle of an accepted order: match, then rest what is left.\<close>

definition spec_enter :: "order_id \<Rightarrow> side \<Rightarrow> price \<Rightarrow> qty \<Rightarrow> spec_book \<Rightarrow>
    spec_book \<times> book_event list \<times> qty" where
  "spec_enter oid side p q sb =
     (case spec_match oid side p q sb of
        (sb', evs, filled) \<Rightarrow>
          (if q - filled > 0 then
             (spec_rest oid side p (q - filled) sb',
              evs @ [EvAdded \<lparr>ad_id = oid, ad_side = side, ad_price = p, ad_qty = q - filled\<rparr>],
              filled)
           else (sb', evs, filled)))"

definition spec_ids :: "spec_book \<Rightarrow> order_id list" where
  "spec_ids sb = map rs_id (sb_bids sb @ sb_asks sb)"

definition spec_add :: "spec_book \<Rightarrow> order_id \<Rightarrow> side \<Rightarrow> price \<Rightarrow> qty \<Rightarrow>
    spec_book \<times> book_event list \<times> add_result" where
  "spec_add sb oid side p q =
     (if p \<le> 0 then (sb, [], \<lparr>ar_status = BadPrice, ar_filled = 0, ar_resting = 0\<rparr>)
      else if q = 0 then (sb, [], \<lparr>ar_status = BadQty, ar_filled = 0, ar_resting = 0\<rparr>)
      else if oid \<in> set (spec_ids sb) then
        (sb, [], \<lparr>ar_status = DuplicateId, ar_filled = 0, ar_resting = 0\<rparr>)
      else (case spec_enter oid side p q sb of
        (sb', evs, filled) \<Rightarrow>
          (sb', evs, \<lparr>ar_status = Ok, ar_filled = filled, ar_resting = q - filled\<rparr>)))"

text \<open>The side and the entry of a resting order.\<close>

definition spec_find :: "spec_book \<Rightarrow> order_id \<Rightarrow> (side \<times> resting) option" where
  "spec_find sb oid =
     (case find (\<lambda>r. rs_id r = oid) (sb_bids sb) of
        Some r \<Rightarrow> Some (Buy, r)
      | None \<Rightarrow> map_option (Pair Sell) (find (\<lambda>r. rs_id r = oid) (sb_asks sb)))"

definition spec_remove :: "order_id \<Rightarrow> spec_book \<Rightarrow> spec_book" where
  "spec_remove oid sb = sb\<lparr>sb_bids := filter (\<lambda>r. rs_id r \<noteq> oid) (sb_bids sb),
     sb_asks := filter (\<lambda>r. rs_id r \<noteq> oid) (sb_asks sb)\<rparr>"

definition set_qty :: "order_id \<Rightarrow> qty \<Rightarrow> resting list \<Rightarrow> resting list" where
  "set_qty oid q = map (\<lambda>r. if rs_id r = oid then r\<lparr>rs_qty := q\<rparr> else r)"

definition spec_reduce :: "order_id \<Rightarrow> qty \<Rightarrow> spec_book \<Rightarrow> spec_book" where
  "spec_reduce oid q sb = sb\<lparr>sb_bids := set_qty oid q (sb_bids sb),
     sb_asks := set_qty oid q (sb_asks sb)\<rparr>"

definition spec_cancel :: "spec_book \<Rightarrow> order_id \<Rightarrow> qty \<Rightarrow> spec_book \<times> book_event list \<times> bool" where
  "spec_cancel sb oid keep =
     (case spec_find sb oid of
        None \<Rightarrow> (sb, [], False)
      | Some (s, r) \<Rightarrow>
          if keep \<ge> rs_qty r then (sb, [], False)
          else if keep = 0 then
            (spec_remove oid sb,
             [EvCanceled \<lparr>ce_id = oid, ce_canceled_qty = rs_qty r, ce_removed = True\<rparr>], True)
          else
            (spec_reduce oid keep sb,
             [EvCanceled \<lparr>ce_id = oid, ce_canceled_qty = rs_qty r - keep, ce_removed = False\<rparr>],
             True))"

definition spec_would_cross :: "spec_book \<Rightarrow> side \<Rightarrow> price \<Rightarrow> bool" where
  "spec_would_cross sb side p =
     (case queue_of (opp side) sb of [] \<Rightarrow> False | r # _ \<Rightarrow> crosses side p (rs_price r))"

definition spec_replace :: "spec_book \<Rightarrow> order_id \<Rightarrow> order_id \<Rightarrow> price \<Rightarrow> qty \<Rightarrow>
    spec_book \<times> book_event list \<times> bool" where
  "spec_replace sb old_id new_id p q =
     (case spec_find sb old_id of
        None \<Rightarrow> (sb, [], False)
      | Some (s, r) \<Rightarrow>
          if new_id = old_id \<or> new_id \<in> set (spec_ids sb) then (sb, [], False)
          else if p \<le> 0 \<or> q = 0 then (sb, [], False)
          else let sb' = spec_remove old_id sb in
            if spec_would_cross sb' s p then
              (case spec_enter new_id s p q sb' of
                 (sb'', evs, filled) \<Rightarrow>
                   (sb'', EvCanceled \<lparr>ce_id = old_id, ce_canceled_qty = rs_qty r,
                      ce_removed = True\<rparr> # evs, True))
            else
              (spec_rest new_id s p q sb',
               [EvReplaced \<lparr>re_old_id = old_id, re_new_id = new_id, re_side = s, re_price = p,
                  re_qty = q\<rparr>], True))"

text \<open>Total opposite quantity an order could trade with, wrapping as the 32-bit sum does.\<close>

definition spec_matchable :: "spec_book \<Rightarrow> side \<Rightarrow> price \<Rightarrow> qty" where
  "spec_matchable sb side limit =
     sum_list (map rs_qty (filter (\<lambda>r. crosses side limit (rs_price r)) (queue_of (opp side) sb)))"

section \<open>Snapshots\<close>

text \<open>A priority queue cut into its price levels.\<close>

fun group_levels :: "resting list \<Rightarrow> snapshot_level list" where
  "group_levels [] = []"
| "group_levels (r # rs) =
     (let o1 = \<lparr>so_id = rs_id r, so_qty = rs_qty r\<rparr> in
      case group_levels rs of
        [] \<Rightarrow> [\<lparr>sl_price = rs_price r, sl_orders = [o1]\<rparr>]
      | l # ls \<Rightarrow>
          if sl_price l = rs_price r then l\<lparr>sl_orders := o1 # sl_orders l\<rparr> # ls
          else \<lparr>sl_price = rs_price r, sl_orders = [o1]\<rparr> # l # ls)"

definition spec_snapshot :: "spec_book \<Rightarrow> book_snapshot" where
  "spec_snapshot sb = \<lparr>bs_bids = group_levels (sb_bids sb), bs_asks = group_levels (sb_asks sb)\<rparr>"

definition spec_best :: "side \<Rightarrow> spec_book \<Rightarrow> price option" where
  "spec_best s sb = (case queue_of s sb of [] \<Rightarrow> None | r # _ \<Rightarrow> Some (rs_price r))"

definition spec_empty :: spec_book where
  "spec_empty = \<lparr>sb_bids = [], sb_asks = [], sb_match = 1\<rparr>"

section \<open>Matching\<close>

lemma opp_simps [simp]: "opp Buy = Sell" "opp Sell = Buy" "valid_side s \<Longrightarrow> opp (opp s) = s"
  "valid_side (opp s)"
  by (auto simp: opp_def)

lemma crosses_simps [simp]: "crosses Buy l p \<longleftrightarrow> p \<le> l" "crosses Sell l p \<longleftrightarrow> p \<ge> l"
  by (simp_all add: crosses_def)

lemma better_simps [simp]: "better Buy p q \<longleftrightarrow> p > q" "better Sell p q \<longleftrightarrow> p < q"
  by (simp_all add: better_def)

text \<open>A price that trades makes every price that comes before it trade.\<close>

lemma crosses_better:
  "crosses side l p \<Longrightarrow> \<not> better (opp side) p p' \<Longrightarrow> crosses side l p'"
  by (auto simp: crosses_def better_def opp_def split: if_splits)

definition prio_sorted :: "side \<Rightarrow> resting list \<Rightarrow> bool" where
  "prio_sorted s q = sorted_wrt (\<lambda>a b. \<not> better s (rs_price b) (rs_price a)) q"

lemma prio_sorted_simps [simp]:
  "prio_sorted s []"
  "prio_sorted s (r # rs) \<longleftrightarrow> (\<forall>x\<in>set rs. \<not> better s (rs_price x) (rs_price r)) \<and> prio_sorted s rs"
  by (auto simp: prio_sorted_def)

lemma prio_sorted_append:
  "prio_sorted s (xs @ ys) \<longleftrightarrow> prio_sorted s xs \<and> prio_sorted s ys \<and>
     (\<forall>x\<in>set xs. \<forall>y\<in>set ys. \<not> better s (rs_price y) (rs_price x))"
  by (auto simp: prio_sorted_def sorted_wrt_append)

text \<open>The identity of a resting order in the priority order: sweeping and reducing keep it.\<close>

abbreviation rs_key :: "resting \<Rightarrow> order_id \<times> price" where
  "rs_key r \<equiv> (rs_id r, rs_price r)"

fun ev_fill :: "book_event \<Rightarrow> (order_id \<times> price) \<times> qty" where
  "ev_fill (EvExecuted e) = ((xe_resting_id e, xe_price e), xe_qty e)"
| "ev_fill _ = ((0, 0), 0)"

lemma ev_fill_exec [simp]: "ev_fill (exec_event r oid side q mid) = (rs_key r, q)"
  by (simp add: exec_event_def)

text \<open>The sweep trades with a prefix of the queue, in its order, and leaves the rest.\<close>

lemma sweep_prefix:
  "sweep oid side limit mid q rs = (evs, q', mid', rs') \<Longrightarrow>
   map (fst \<circ> ev_fill) evs = map rs_key (take (length evs) rs)"
  by (induction oid side limit mid q rs arbitrary: evs q' mid' rs' rule: sweep.induct)
    (auto split: if_splits prod.splits)

lemma sweep_suffix:
  "sweep oid side limit mid q rs = (evs, q', mid', rs') \<Longrightarrow>
   \<exists>k. map rs_key rs' = map rs_key (drop k rs)"
proof (induction oid side limit mid q rs arbitrary: evs q' mid' rs' rule: sweep.induct)
  case (2 oid side limit mid q r rs)
  consider "q = 0 \<or> \<not> crosses side limit (rs_price r)" | "q \<noteq> 0" "crosses side limit (rs_price r)" "q < rs_qty r"
    | "q \<noteq> 0" "crosses side limit (rs_price r)" "\<not> q < rs_qty r" by blast
  then show ?case
  proof cases
    case 3
    then obtain evs1 where "sweep oid side limit (mid + 1) (q - rs_qty r) rs = (evs1, q', mid', rs')"
      using 2(2) by (auto split: prod.splits)
    then obtain k where "map rs_key rs' = map rs_key (drop k rs)" using 2(1) 3 by blast
    then show ?thesis by (intro exI[of _ "Suc k"]) simp
  qed (use 2(2) in \<open>auto intro: exI[of _ 0]\<close>)
qed simp

lemma sweep_set:
  assumes "sweep oid side limit mid q rs = (evs, q', mid', rs')"
  shows "rs_key ` set rs' \<subseteq> rs_key ` set rs"
proof -
  obtain k where "map rs_key rs' = map rs_key (drop k rs)" using sweep_suffix[OF assms] ..
  from arg_cong[OF this, of set] have "rs_key ` set rs' = rs_key ` set (drop k rs)" by simp
  also have "\<dots> \<subseteq> rs_key ` set rs" by (rule image_mono) (rule set_drop_subset)
  finally show ?thesis .
qed

text \<open>Every order but the last one traded is filled completely before the next is touched.\<close>

lemma sweep_fills:
  "sweep oid side limit mid q rs = (evs, q', mid', rs') \<Longrightarrow>
   \<forall>i < length evs. crosses side limit (rs_price (rs ! i)) \<and>
     (Suc i < length evs \<longrightarrow> snd (ev_fill (evs ! i)) = rs_qty (rs ! i)) \<and>
     snd (ev_fill (evs ! i)) \<le> rs_qty (rs ! i)"
  by (induction oid side limit mid q rs arbitrary: evs q' mid' rs' rule: sweep.induct)
    (auto split: if_splits prod.splits simp: nth_Cons less_Suc_eq_0_disj)

text \<open>Shares are conserved, without wrap-around.\<close>

lemma sweep_conserves:
  "sweep oid side limit mid q rs = (evs, q', mid', rs') \<Longrightarrow>
   unat q = unat q' + sum_list (map (unat \<circ> snd \<circ> ev_fill) evs)"
proof (induction oid side limit mid q rs arbitrary: evs q' mid' rs' rule: sweep.induct)
  case (2 oid side limit mid q r rs)
  then show ?case
    by (auto split: if_splits prod.splits simp: unat_sub not_less word_le_nat_alt)
qed simp

lemma sweep_le: "sweep oid side limit mid q rs = (evs, q', mid', rs') \<Longrightarrow> q' \<le> q"
  using sweep_conserves by (metis le_add1 word_le_nat_alt)

text \<open>The sweep stops only when nothing is left to fill or nothing is left that trades.\<close>

lemma sweep_maximal:
  "sweep oid side limit mid q rs = (evs, q', mid', rs') \<Longrightarrow> prio_sorted (opp side) rs \<Longrightarrow>
   q' \<noteq> 0 \<Longrightarrow> \<forall>r\<in>set rs'. \<not> crosses side limit (rs_price r)"
proof (induction oid side limit mid q rs arbitrary: evs q' mid' rs' rule: sweep.induct)
  case (2 oid side limit mid q r rs)
  then show ?case
    by (auto split: if_splits prod.splits dest: crosses_better)
qed simp

lemma sweep_qty:
  "sweep oid side limit mid q rs = (evs, q', mid', rs') \<Longrightarrow> \<forall>r\<in>set rs. rs_qty r \<noteq> 0 \<Longrightarrow>
   \<forall>r\<in>set rs'. rs_qty r \<noteq> 0"
  by (induction oid side limit mid q rs arbitrary: evs q' mid' rs' rule: sweep.induct)
    (auto split: if_splits prod.splits)

lemma sweep_sorted:
  "sweep oid side limit mid q rs = (evs, q', mid', rs') \<Longrightarrow> prio_sorted s rs \<Longrightarrow> prio_sorted s rs'"
  by (induction oid side limit mid q rs arbitrary: evs q' mid' rs' rule: sweep.induct)
    (auto split: if_splits prod.splits)

lemma sweep_append:
  "sweep oid side limit mid q (xs @ ys) =
     (case sweep oid side limit mid q xs of
        (evs, q', mid', xs') \<Rightarrow>
          if xs' = [] then
            (case sweep oid side limit mid' q' ys of
               (evs', q'', mid'', ys') \<Rightarrow> (evs @ evs', q'', mid'', ys'))
          else (evs, q', mid', xs' @ ys))"
  by (induction xs arbitrary: mid q) (auto split: prod.splits)

lemma sweep_0: "sweep oid side limit mid 0 rs = ([], 0, mid, rs)"
  by (cases rs) auto

lemma sweep_no_cross:
  "rs = [] \<or> \<not> crosses side limit (rs_price (hd rs)) \<Longrightarrow>
   sweep oid side limit mid q rs = ([], q, mid, rs)"
  by (cases rs) auto

text \<open>The shares of a queue, without wrap-around; a sweep takes out what it trades.\<close>

definition shares :: "resting list \<Rightarrow> nat" where
  "shares rs = (\<Sum>r\<leftarrow>rs. unat (rs_qty r))"

lemma shares_simps [simp]:
  "shares [] = 0" "shares (r # rs) = unat (rs_qty r) + shares rs" "shares (rs @ rs') = shares rs + shares rs'"
  by (simp_all add: shares_def)

lemma sweep_shares:
  "sweep oid side limit mid q rs = (evs, q', mid', rs') \<Longrightarrow> shares rs + unat q' = shares rs' + unat q"
proof (induction oid side limit mid q rs arbitrary: evs q' mid' rs' rule: sweep.induct)
  case (2 oid side limit mid q r rs)
  then show ?case
    by (fastforce split: if_splits prod.splits simp: unat_sub not_less word_le_nat_alt word_less_nat_alt)
qed simp

fun is_exec :: "book_event \<Rightarrow> bool" where
  "is_exec (EvExecuted _) = True"
| "is_exec _ = False"

lemma sweep_is_exec: "sweep oid side limit mid q rs = (evs, q', mid', rs') \<Longrightarrow> filter is_exec evs = evs"
  by (induction oid side limit mid q rs arbitrary: evs q' mid' rs' rule: sweep.induct)
    (auto split: if_splits prod.splits simp: exec_event_def)

section \<open>Resting\<close>

lemma set_enqueue [simp]: "set (enqueue s r q) = insert r (set q)"
  by (induction s r q rule: enqueue.induct) auto

lemma enqueue_split:
  "prio_sorted s q \<Longrightarrow> \<exists>q1 q2. q = q1 @ q2 \<and> enqueue s r q = q1 @ r # q2 \<and>
     (\<forall>x\<in>set q1. \<not> better s (rs_price r) (rs_price x)) \<and>
     (\<forall>x\<in>set q2. better s (rs_price r) (rs_price x))"
proof (induction s r q rule: enqueue.induct)
  case (2 s r x xs)
  show ?case
  proof (cases "better s (rs_price r) (rs_price x)")
    case True
    then have "\<forall>y\<in>set (x # xs). better s (rs_price r) (rs_price y)"
      using 2(2) better.trans better.total by fastforce
    then show ?thesis using True by (intro exI[of _ "[]"] exI[of _ "x # xs"]) simp
  next
    case False
    then obtain q1 q2 where "xs = q1 @ q2" "enqueue s r xs = q1 @ r # q2"
      "\<forall>x\<in>set q1. \<not> better s (rs_price r) (rs_price x)"
      "\<forall>x\<in>set q2. better s (rs_price r) (rs_price x)" using 2 by auto
    then show ?thesis using False by (intro exI[of _ "x # q1"] exI[of _ q2]) simp
  qed
qed simp

lemma sorted_enqueue: "prio_sorted s q \<Longrightarrow> prio_sorted s (enqueue s r q)"
  using enqueue_split[of s q r] better.asym by (fastforce simp: prio_sorted_append)

lemma mset_ids_enqueue: "mset (map rs_id (enqueue s r q)) = add_mset (rs_id r) (mset (map rs_id q))"
  by (induction s r q rule: enqueue.induct) auto

section \<open>The invariant\<close>

definition spec_inv :: "spec_book \<Rightarrow> bool" where
  "spec_inv sb \<longleftrightarrow>
     prio_sorted Buy (sb_bids sb) \<and> prio_sorted Sell (sb_asks sb) \<and>
     distinct (spec_ids sb) \<and>
     (\<forall>r\<in>set (sb_bids sb) \<union> set (sb_asks sb). rs_qty r \<noteq> 0 \<and> rs_price r > 0) \<and>
     (\<forall>b\<in>set (sb_bids sb). \<forall>a\<in>set (sb_asks sb). rs_price b < rs_price a)"

lemma spec_inv_empty: "spec_inv spec_empty"
  by (simp add: spec_inv_def spec_empty_def spec_ids_def)

lemma spec_inv_queue:
  assumes "spec_inv sb" "valid_side s"
  shows "prio_sorted s (queue_of s sb)" "\<forall>r\<in>set (queue_of s sb). rs_qty r \<noteq> 0 \<and> rs_price r > 0"
  using assms by (auto simp: spec_inv_def queue_of_def)

text \<open>Replacing a queue by one with fewer orders of the same prices keeps the invariant.\<close>

lemma spec_inv_shrink:
  assumes "spec_inv sb" "valid_side s" "rs_key ` set q \<subseteq> rs_key ` set (queue_of s sb)"
    "distinct (map rs_id q)" "prio_sorted s q" "\<forall>r\<in>set q. rs_qty r \<noteq> 0"
  shows "spec_inv (set_queue s q sb)"
proof -
  have key: "\<exists>r'\<in>set (queue_of s sb). rs_id r' = rs_id r \<and> rs_price r' = rs_price r" if "r \<in> set q" for r
    using assms(3) that by (force simp: image_subset_iff image_iff)
  have ids: "rs_id ` set q \<subseteq> rs_id ` set (queue_of s sb)" using key by (metis image_eqI image_subsetI)
  have pos: "\<forall>r\<in>set q. rs_price r > 0" using key spec_inv_queue(2)[OF assms(1,2)] by metis
  have dis: "rs_id ` set q \<inter> rs_id ` set (queue_of (opp s) sb) = {}"
  proof -
    have "rs_id ` set (queue_of s sb) \<inter> rs_id ` set (queue_of (opp s) sb) = {}"
      using assms(1,2) by (auto simp: spec_inv_def spec_ids_def queue_of_def opp_def)
    then show ?thesis using ids by blast
  qed
  from assms(2) show ?thesis
  proof
    assume "s = Buy"
    moreover from this have "\<forall>b\<in>set q. \<forall>a\<in>set (sb_asks sb). rs_price b < rs_price a"
      using key assms(1) by (metis queue_of_def spec_inv_def)
    ultimately show ?thesis using assms(1,4-) dis pos
      by (auto simp: spec_inv_def set_queue_def queue_of_def spec_ids_def Int_commute)
  next
    assume "s = Sell"
    moreover from this have "\<forall>b\<in>set (sb_bids sb). \<forall>a\<in>set q. rs_price b < rs_price a"
      using key assms(1) by (metis Buy_Sell(2) queue_of_def spec_inv_def)
    ultimately show ?thesis using assms(1,4-) dis pos
      by (auto simp: spec_inv_def set_queue_def queue_of_def spec_ids_def Int_commute)
  qed
qed

lemma spec_inv_match_id [simp]: "spec_inv (sb\<lparr>sb_match := mid\<rparr>) = spec_inv sb"
  by (simp add: spec_inv_def spec_ids_def)

lemma queue_of_simps [simp]:
  "queue_of s (sb\<lparr>sb_match := mid\<rparr>) = queue_of s sb"
  "queue_of s (set_queue s q sb) = q"
  "valid_side s \<Longrightarrow> queue_of s (set_queue (opp s) q sb) = queue_of s sb"
  "queue_of Buy (set_queue Sell q sb) = queue_of Buy sb"
  "queue_of Sell (set_queue Buy q sb) = queue_of Sell sb"
  by (auto simp: queue_of_def set_queue_def opp_def)

lemma distinct_sub_ids:
  assumes "map rs_key q' = map rs_key (drop k q)" "distinct (map rs_id q)"
  shows "distinct (map rs_id q')"
proof -
  from arg_cong[OF assms(1), of "map fst"] have "map rs_id q' = drop k (map rs_id q)"
    by (simp add: drop_map comp_def)
  then show ?thesis using assms(2) by (simp add: distinct_drop)
qed

lemma spec_match_inv:
  assumes inv: "spec_inv sb" and side: "valid_side side"
    and m: "spec_match oid side limit q sb = (sb', evs, filled)"
  shows "spec_inv sb'" "set (spec_ids sb') \<subseteq> set (spec_ids sb)"
    "q - filled \<noteq> 0 \<Longrightarrow> \<forall>r\<in>set (queue_of (opp side) sb'). \<not> crosses side limit (rs_price r)"
    "filled \<le> q" "queue_of side sb' = queue_of side sb"
proof -
  let ?o = "opp side"
  obtain left mid rs where sw: "sweep oid side limit (sb_match sb) q (queue_of ?o sb) = (evs, left, mid, rs)"
    and sb': "sb' = set_queue ?o rs (sb\<lparr>sb_match := mid\<rparr>)" and fl: "filled = q - left"
    using m by (auto simp: spec_match_def split: prod.splits)
  note keys = sweep_set[OF sw]
  have o: "valid_side ?o" by simp
  have srt: "prio_sorted ?o (queue_of ?o sb)" and ok: "\<forall>r\<in>set (queue_of ?o sb). rs_qty r \<noteq> 0"
    using spec_inv_queue[OF inv o] by auto
  have "distinct (map rs_id (queue_of ?o sb))"
    using inv by (auto simp: spec_inv_def spec_ids_def queue_of_def)
  then have dist: "distinct (map rs_id rs)" using sweep_suffix[OF sw] distinct_sub_ids by blast
  show "spec_inv sb'" unfolding sb'
    using inv o keys dist sweep_sorted[OF sw srt] sweep_qty[OF sw ok] by (intro spec_inv_shrink) auto
  have "rs_id ` set rs \<subseteq> rs_id ` set (queue_of ?o sb)"
    using image_mono[OF keys, of fst] by (simp add: image_image)
  then show "set (spec_ids sb') \<subseteq> set (spec_ids sb)"
    by (cases "side = Buy") (auto simp: sb' spec_ids_def set_queue_def queue_of_def opp_def)
  show "\<forall>r\<in>set (queue_of ?o sb'). \<not> crosses side limit (rs_price r)" if "q - filled \<noteq> 0"
    using sweep_maximal[OF sw srt] that by (simp add: fl sb')
  show "filled \<le> q" using sweep_le[OF sw] by (simp add: fl word_sub_le)
  show "queue_of side sb' = queue_of side sb" using side by (simp add: sb')
qed

lemma spec_rest_inv:
  assumes inv: "spec_inv sb" and side: "valid_side side"
    and "oid \<notin> set (spec_ids sb)" "p > 0" "q \<noteq> 0"
    and nc: "\<forall>r\<in>set (queue_of (opp side) sb). \<not> crosses side p (rs_price r)"
  shows "spec_inv (spec_rest oid side p q sb)"
    "set (spec_ids (spec_rest oid side p q sb)) = insert oid (set (spec_ids sb))"
proof -
  let ?r = "\<lparr>rs_id = oid, rs_price = p, rs_qty = q\<rparr>"
  have srt: "prio_sorted side (enqueue side ?r (queue_of side sb))"
    by (rule sorted_enqueue[OF spec_inv_queue(1)[OF inv side]])
  have "mset (map rs_id (enqueue side ?r (queue_of side sb))) = mset (oid # map rs_id (queue_of side sb))"
    using mset_ids_enqueue[of side ?r "queue_of side sb"] by simp
  then have "distinct (map rs_id (enqueue side ?r (queue_of side sb))) =
    distinct (oid # map rs_id (queue_of side sb))" by (rule mset_eq_imp_distinct_iff)
  moreover have "distinct (oid # map rs_id (queue_of side sb))"
    using inv assms(3) by (auto simp: spec_inv_def spec_ids_def queue_of_def)
  ultimately have "distinct (map rs_id (enqueue side ?r (queue_of side sb)))" by simp
  then show "spec_inv (spec_rest oid side p q sb)"
    using side srt assms
    by (auto simp: spec_inv_def spec_rest_def set_queue_def queue_of_def spec_ids_def opp_def not_le)
  show "set (spec_ids (spec_rest oid side p q sb)) = insert oid (set (spec_ids sb))"
    by (auto simp: spec_rest_def set_queue_def queue_of_def spec_ids_def)
qed

lemma spec_enter_inv:
  assumes inv: "spec_inv sb" and side: "valid_side side" and fresh: "oid \<notin> set (spec_ids sb)" and p: "p > 0"
    and e: "spec_enter oid side p q sb = (sb', evs, filled)"
  shows "spec_inv sb'" "filled \<le> q" "set (spec_ids sb') \<subseteq> insert oid (set (spec_ids sb))"
proof -
  obtain sb1 evs1 where m: "spec_match oid side p q sb = (sb1, evs1, filled)"
    using e by (auto simp: spec_enter_def split: prod.splits if_splits)
  note M = spec_match_inv[OF inv side m]
  have fresh1: "oid \<notin> set (spec_ids sb1)" using M(2) fresh by blast
  show "filled \<le> q" by (rule M(4))
  show "spec_inv sb'"
  proof (cases "q - filled = 0")
    case False
    then have "sb' = spec_rest oid side p (q - filled) sb1" using e m by (simp add: spec_enter_def)
    then show ?thesis using spec_rest_inv(1)[OF M(1) side fresh1 p False M(3)] False by simp
  qed (use e m M(1) in \<open>simp add: spec_enter_def\<close>)
  show "set (spec_ids sb') \<subseteq> insert oid (set (spec_ids sb))"
  proof (cases "q - filled = 0")
    case False
    then have "sb' = spec_rest oid side p (q - filled) sb1" using e m by (simp add: spec_enter_def)
    then show ?thesis using spec_rest_inv(2)[OF M(1) side fresh1 p False M(3)] M(2) False by auto
  qed (use e m M(2) in \<open>auto simp: spec_enter_def\<close>)
qed

lemma spec_remove_inv:
  assumes "spec_inv sb"
  shows "spec_inv (spec_remove oid sb)" "set (spec_ids (spec_remove oid sb)) = set (spec_ids sb) - {oid}"
proof -
  have "distinct (spec_ids (spec_remove oid sb))"
    using assms by (auto simp: spec_inv_def spec_ids_def spec_remove_def distinct_map_filter)
  then show "spec_inv (spec_remove oid sb)"
    using assms by (auto simp: spec_inv_def spec_remove_def prio_sorted_def sorted_wrt_filter)
  show "set (spec_ids (spec_remove oid sb)) = set (spec_ids sb) - {oid}"
    by (auto simp: spec_ids_def spec_remove_def)
qed

lemma set_qty_simps [simp]:
  "map rs_id (set_qty oid q rs) = map rs_id rs" "map rs_price (set_qty oid q rs) = map rs_price rs"
  by (auto simp: set_qty_def)

lemma prio_sorted_prices: "prio_sorted s q = sorted_wrt (\<lambda>a b. \<not> better s b a) (map rs_price q)"
  by (simp add: prio_sorted_def sorted_wrt_map)

lemma spec_reduce_inv:
  assumes "spec_inv sb" "q \<noteq> 0"
  shows "spec_inv (spec_reduce oid q sb)" "spec_ids (spec_reduce oid q sb) = spec_ids sb"
proof -
  show ids: "spec_ids (spec_reduce oid q sb) = spec_ids sb"
    by (simp add: spec_ids_def spec_reduce_def)
  have "prio_sorted s (set_qty oid q rs) = prio_sorted s rs" for s rs by (simp add: prio_sorted_prices)
  then show "spec_inv (spec_reduce oid q sb)"
    using assms ids by (auto simp: spec_inv_def spec_reduce_def) (auto simp: set_qty_def)
qed

lemma spec_find_Some:
  assumes "spec_find sb oid = Some (s, r)"
  shows "valid_side s" "r \<in> set (queue_of s sb)" "rs_id r = oid" "oid \<in> set (spec_ids sb)"
  using assms
  by (auto simp: spec_find_def find_Some_iff queue_of_def spec_ids_def split: option.splits)

lemma spec_find_None: "spec_find sb oid = None \<longleftrightarrow> oid \<notin> set (spec_ids sb)"
proof
  assume "spec_find sb oid = None"
  then show "oid \<notin> set (spec_ids sb)"
    by (auto simp: spec_find_def find_None_iff spec_ids_def split: option.splits)
next
  assume *: "oid \<notin> set (spec_ids sb)"
  show "spec_find sb oid = None"
  proof (cases "spec_find sb oid")
    case (Some sr)
    then show ?thesis using * spec_find_Some(4)[of sb oid "fst sr" "snd sr"] by simp
  qed simp
qed

lemma spec_find_ids:
  assumes d: "distinct (spec_ids sb)" and s: "valid_side s" and r: "r \<in> set (queue_of s sb)"
  shows "spec_find sb (rs_id r) = Some (s, r)"
proof -
  have "rs_id r \<in> set (spec_ids sb)" using r s by (auto simp: spec_ids_def queue_of_def)
  then obtain s' r' where F: "spec_find sb (rs_id r) = Some (s', r')"
    using spec_find_None[of sb "rs_id r"] by (cases "spec_find sb (rs_id r)") auto
  note S = spec_find_Some[OF F]
  have "distinct (map rs_id (sb_bids sb @ sb_asks sb))" using d by (simp add: spec_ids_def)
  moreover have "r \<in> set (sb_bids sb @ sb_asks sb)" "r' \<in> set (sb_bids sb @ sb_asks sb)"
    using r s S(1,2) by (auto simp: queue_of_def)
  ultimately have "r' = r" using S(3) by (intro distinct_map_inj[of rs_id])
  moreover have "set (sb_bids sb) \<inter> set (sb_asks sb) = {}"
    using d by (auto simp: spec_ids_def)
  ultimately have "s' = s" using r s S(1,2) by (auto simp: queue_of_def)
  then show ?thesis using F \<open>r' = r\<close> by simp
qed

lemma spec_find_eq:
  assumes "spec_inv sb" "valid_side s" "r \<in> set (queue_of s sb)"
  shows "spec_find sb (rs_id r) = Some (s, r)"
  using assms by (intro spec_find_ids) (simp_all add: spec_inv_def)

text \<open>Removing and reducing touch the one order, in its own queue.\<close>

lemma spec_remove_split:
  assumes "valid_side s" "queue_of s sb = xs @ r # ys" "rs_id r = oid"
    "distinct (map rs_id (xs @ r # ys))" "oid \<notin> rs_id ` set (queue_of (opp s) sb)"
  shows "spec_remove oid sb = set_queue s (xs @ ys) sb"
  using assms(1,2,5) filter_key_split[OF assms(4)] assms(3)
  by (auto simp: spec_remove_def queue_of_def set_queue_def opp_def filter_key_absent)

lemma spec_reduce_split:
  assumes "valid_side s" "queue_of s sb = xs @ r # ys" "rs_id r = oid"
    "distinct (map rs_id (xs @ r # ys))" "oid \<notin> rs_id ` set (queue_of (opp s) sb)"
  shows "spec_reduce oid q sb = set_queue s (xs @ r\<lparr>rs_qty := q\<rparr> # ys) sb"
  using assms(1,2,5) map_if_key_split[OF assms(4), of "\<lambda>r. r\<lparr>rs_qty := q\<rparr>"] assms(3)
  by (auto simp: spec_reduce_def set_qty_def queue_of_def set_queue_def opp_def map_if_key_absent)

lemma spec_inv_ids: "spec_inv sb \<Longrightarrow> valid_side s \<Longrightarrow> distinct (map rs_id (queue_of s sb))"
  by (auto simp: spec_inv_def spec_ids_def queue_of_def)

lemma spec_inv_delete_at:
  assumes "spec_inv sb" "valid_side s" "queue_of s sb = xs @ r # ys"
  shows "spec_inv (set_queue s (xs @ ys) sb)"
  using assms spec_inv_queue[OF assms(1,2)] spec_inv_ids[OF assms(1,2)]
  by (intro spec_inv_shrink) (auto simp: prio_sorted_append)

lemma spec_inv_set_qty_at:
  assumes "spec_inv sb" "valid_side s" "queue_of s sb = xs @ r # ys" "q \<noteq> 0"
  shows "spec_inv (set_queue s (xs @ r\<lparr>rs_qty := q\<rparr> # ys) sb)"
  using assms spec_inv_queue[OF assms(1,2)] spec_inv_ids[OF assms(1,2)]
  by (intro spec_inv_shrink) (auto simp: prio_sorted_append)

text \<open>Every operation keeps the invariant.\<close>

lemma spec_add_inv:
  assumes "spec_inv sb" "valid_side side"
  shows "spec_inv (fst (spec_add sb oid side p q))"
  using assms spec_enter_inv(1)[OF assms, of oid p q]
  by (auto simp: spec_add_def not_le split: prod.splits)

lemma spec_cancel_inv: "spec_inv sb \<Longrightarrow> spec_inv (fst (spec_cancel sb oid keep))"
  by (auto simp: spec_cancel_def spec_remove_inv spec_reduce_inv split: option.splits)

lemma spec_replace_inv:
  assumes inv: "spec_inv sb"
  shows "spec_inv (fst (spec_replace sb old_id new_id p q))"
proof (cases "spec_find sb old_id")
  case (Some sr)
  obtain s r where sr: "sr = (s, r)" by (cases sr)
  note F = spec_find_Some[OF Some[unfolded sr]]
  let ?sb = "spec_remove old_id sb"
  note R = spec_remove_inv[OF inv, of old_id]
  show ?thesis
  proof (cases "new_id = old_id \<or> new_id \<in> set (spec_ids sb) \<or> p \<le> 0 \<or> q = 0")
    case False
    then have fresh: "new_id \<notin> set (spec_ids ?sb)" and "p > 0" "q \<noteq> 0" using R(2) by auto
    show ?thesis
    proof (cases "spec_would_cross ?sb s p")
      case True
      then show ?thesis using spec_enter_inv(1)[OF R(1) F(1) fresh \<open>p > 0\<close>] Some False sr
        by (auto simp: spec_replace_def split: prod.splits)
    next
      case nc: False
      have "\<forall>x\<in>set (queue_of (opp s) ?sb). \<not> crosses s p (rs_price x)"
        using nc spec_inv_queue(1)[OF R(1), of "opp s"]
        by (auto simp: spec_would_cross_def split: list.splits dest: crosses_better)
      then show ?thesis using spec_rest_inv(1)[OF R(1) F(1) fresh \<open>p > 0\<close> \<open>q \<noteq> 0\<close>] Some False sr nc
        by (simp add: spec_replace_def)
    qed
  qed (use Some sr inv in \<open>auto simp: spec_replace_def\<close>)
qed (use inv in \<open>simp add: spec_replace_def\<close>)

section \<open>What an accepted order does\<close>

lemma shares_enqueue [simp]: "shares (enqueue s r q) = unat (rs_qty r) + shares q"
  by (induction s r q rule: enqueue.induct) auto

lemma spec_add_Ok:
  assumes "spec_add sb oid side p q = (sb', evs, res)" "ar_status res = Ok" "valid_side side"
  obtains xs mid rs where
    "sweep oid side p (sb_match sb) q (queue_of (opp side) sb) = (xs, ar_resting res, mid, rs)"
    "filter is_exec evs = xs" "ar_filled res = q - ar_resting res"
    "queue_of (opp side) sb' = rs"
    "queue_of side sb' = (if ar_resting res = 0 then queue_of side sb
       else enqueue side \<lparr>rs_id = oid, rs_price = p, rs_qty = ar_resting res\<rparr> (queue_of side sb))"
proof -
  obtain xs left mid rs where sw: "sweep oid side p (sb_match sb) q (queue_of (opp side) sb) = (xs, left, mid, rs)"
    by (metis prod_cases4)
  have *: "ar_resting res = left \<and> filter is_exec evs = xs \<and> ar_filled res = q - left \<and> queue_of (opp side) sb' = rs \<and>
    queue_of side sb' = (if left = 0 then queue_of side sb
       else enqueue side \<lparr>rs_id = oid, rs_price = p, rs_qty = left\<rparr> (queue_of side sb))"
    using assms sw sweep_is_exec[OF sw]
    by (auto simp: spec_add_def spec_enter_def spec_match_def spec_rest_def split: if_splits prod.splits)
  with sw show ?thesis using that[of xs mid rs] by simp
qed

section \<open>The number of resting orders\<close>

definition spec_size :: "spec_book \<Rightarrow> nat" where
  "spec_size sb = length (sb_bids sb) + length (sb_asks sb)"

lemma length_enqueue [simp]: "length (enqueue s r q) = Suc (length q)"
  by (induction s r q rule: enqueue.induct) auto

lemma spec_rest_size: "spec_size (spec_rest oid s p q sb) = Suc (spec_size sb)"
  by (simp add: spec_size_def spec_rest_def set_queue_def queue_of_def)

lemma sweep_length: "sweep oid side limit mid q rs = (evs, q', mid', rs') \<Longrightarrow> length rs' \<le> length rs"
  by (induction oid side limit mid q rs arbitrary: evs q' mid' rs' rule: sweep.induct)
    (auto split: if_splits prod.splits simp: le_SucI)

lemma spec_match_size: "spec_match oid side limit q sb = (sb', evs, filled) \<Longrightarrow> spec_size sb' \<le> spec_size sb"
  by (auto simp: spec_match_def spec_size_def set_queue_def queue_of_def opp_def split: prod.splits if_splits
    dest!: sweep_length)

lemma spec_enter_size: "spec_enter oid side p q sb = (sb', evs, filled) \<Longrightarrow> spec_size sb' \<le> Suc (spec_size sb)"
  by (auto simp: spec_enter_def spec_rest_size split: prod.splits if_splits dest: spec_match_size)

lemma spec_remove_size: "spec_size (spec_remove oid sb) \<le> spec_size sb"
  using length_filter_le[of "\<lambda>r. rs_id r \<noteq> oid" "sb_bids sb"] length_filter_le[of "\<lambda>r. rs_id r \<noteq> oid" "sb_asks sb"]
  unfolding spec_size_def spec_remove_def by (simp del: length_filter_le)

section \<open>Snapshots of a queue\<close>

lemma group_levels_Nil [simp]: "group_levels rs = [] \<longleftrightarrow> rs = []"
  by (cases rs) (auto simp: Let_def split: list.splits)

lemma group_levels_hd: "rs \<noteq> [] \<Longrightarrow> sl_price (hd (group_levels rs)) = rs_price (hd rs)"
  by (cases rs) (auto simp: Let_def split: list.splits)

text \<open>A block of orders at one price, in front of other prices, is one level.\<close>

lemma group_levels_block:
  assumes "rs \<noteq> []" "\<forall>r\<in>set rs. rs_price r = p" "rest = [] \<or> rs_price (hd rest) \<noteq> p"
  shows "group_levels (rs @ rest) =
    \<lparr>sl_price = p, sl_orders = map (\<lambda>r. \<lparr>so_id = rs_id r, so_qty = rs_qty r\<rparr>) rs\<rparr> # group_levels rest"
  using assms(1,2)
proof (induction rs)
  case (Cons r rs)
  show ?case
  proof (cases "rs = []")
    case True
    then show ?thesis using Cons.prems assms(3) group_levels_hd[of rest]
      by (cases "rest = []") (auto simp: Let_def split: list.splits)
  qed (use Cons in \<open>simp add: Let_def\<close>)
qed simp

text \<open>The orders a snapshot lists, level by level: what it shows of a queue is the queue.\<close>

definition snap_side :: "side \<Rightarrow> book_snapshot \<Rightarrow> snapshot_level list" where
  "snap_side s sn = (if s = Buy then bs_bids sn else bs_asks sn)"

definition snap_orders :: "snapshot_level list \<Rightarrow> resting list" where
  "snap_orders ls = concat (map (\<lambda>l. map (\<lambda>x. \<lparr>rs_id = so_id x, rs_price = sl_price l, rs_qty = so_qty x\<rparr>) (sl_orders l)) ls)"

lemma snap_orders_group [simp]: "snap_orders (group_levels rs) = rs"
  by (induction rs) (auto simp: snap_orders_def Let_def split: list.splits)

lemma snap_side_spec [simp]: "snap_side s (spec_snapshot sb) = group_levels (queue_of s sb)"
  by (simp add: snap_side_def spec_snapshot_def queue_of_def)

section \<open>What an order can trade with\<close>

definition avail :: "side \<Rightarrow> price \<Rightarrow> resting list \<Rightarrow> nat" where
  "avail side limit rs = shares (filter (\<lambda>r. crosses side limit (rs_price r)) rs)"

lemma avail_simps [simp]:
  "avail side limit [] = 0"
  "avail side limit (r # rs) = (if crosses side limit (rs_price r) then unat (rs_qty r) else 0) + avail side limit rs"
  by (simp_all add: avail_def)

lemma avail_none: "\<forall>r\<in>set rs. \<not> crosses side limit (rs_price r) \<Longrightarrow> avail side limit rs = 0"
  by (induction rs) auto

text \<open>A sweep takes all it can: the whole order or all that is available.\<close>

lemma sweep_avail:
  "sweep oid side limit mid q rs = (evs, q', mid', rs') \<Longrightarrow> prio_sorted (opp side) rs \<Longrightarrow>
   unat q = unat q' + min (unat q) (avail side limit rs)"
proof (induction oid side limit mid q rs arbitrary: evs q' mid' rs' rule: sweep.induct)
  case (2 oid side limit mid q r rs)
  consider "q = 0" | "\<not> crosses side limit (rs_price r)" | "q \<noteq> 0" "crosses side limit (rs_price r)" "q < rs_qty r"
    | "q \<noteq> 0" "crosses side limit (rs_price r)" "\<not> q < rs_qty r" by blast
  then show ?case
  proof cases
    case 2
    then have "avail side limit rs = 0" using "2.prems"(2) by (intro avail_none) (auto dest: crosses_better)
    then show ?thesis using 2 "2.prems"(1) by auto
  next
    case 3
    then show ?thesis using "2.prems"(1) by (auto simp: word_less_nat_alt)
  next
    case 4
    then obtain evs1 where S: "sweep oid side limit (mid + 1) (q - rs_qty r) rs = (evs1, q', mid', rs')"
      using "2.prems"(1) by (auto split: prod.splits)
    show ?thesis using "2.IH"[OF _ _ S] 4 "2.prems"(2) by (auto simp: unat_sub word_le_nat_alt not_less)
  qed (use "2.prems"(1) in auto)
qed simp

lemma unat_sum_qty: "unat (\<Sum>r\<leftarrow>rs. rs_qty r) = shares rs mod 2 ^ 32"
  by (induction rs) (simp_all add: unat_word_ariths mod_add_right_eq)

lemma unat_matchable: "unat (spec_matchable sb side limit) = avail side limit (queue_of (opp side) sb) mod 2 ^ 32"
  by (simp add: spec_matchable_def avail_def unat_sum_qty)

end
