(* ===== verification/Order_Book.thy ===== *)
theory Order_Book
  imports Book_Spec
begin

text \<open>
  The reference book of \<^verbatim>\<open>src/book/order_book.{hpp,cpp}\<close>. A side is an ordered map from price to
  level, a level its aggregate quantity and a \<^verbatim>\<open>std::list\<close> of orders, and the index maps an order
  id to a handle with a list iterator. A list node has an address that never changes while the
  node lives; an iterator is that address. Dereferencing an iterator or a map position that does
  not exist is undefined behaviour, and then the model returns \<open>None\<close>: that an operation returns
  \<open>Some\<close> includes that it never does so.
\<close>

section \<open>State\<close>

type_synonym node_ptr = nat

record order =
  o_id :: order_id
  o_side :: side
  o_price :: price
  o_open :: qty

type_synonym level_queue = "(node_ptr \<times> order) list"

record level =
  lv_total :: qty
  lv_orders :: level_queue

record handle =
  h_side :: side
  h_price :: price
  h_it :: node_ptr

type_synonym side_map = "(price \<times> level) list"
type_synonym handle_index = "(order_id \<times> handle) list"

text \<open>\<open>ob_next_node\<close> stands for the allocator: the address of the next list node.\<close>

record order_book =
  ob_bids :: side_map
  ob_asks :: side_map
  ob_index :: handle_index
  ob_next_match_id :: u64
  ob_next_node :: node_ptr

definition ob_empty :: order_book where
  "ob_empty = \<lparr>ob_bids = [], ob_asks = [], ob_index = [], ob_next_match_id = 1, ob_next_node = 0\<rparr>"

section \<open>Matching\<close>

text \<open>
  The inner loop of \<^verbatim>\<open>match\<close> over the orders of one level. The result is the level's total and
  orders, the index, the next match id, the quantity left, the quantity filled and the events.
\<close>

function ob_match_level :: "order_id \<Rightarrow> side \<Rightarrow> qty \<Rightarrow> level_queue \<Rightarrow> handle_index \<Rightarrow> u64 \<Rightarrow> qty \<Rightarrow>
    qty \<times> level_queue \<times> handle_index \<times> u64 \<times> qty \<times> qty \<times> book_event list" where
  "ob_match_level oid side tot [] idx mid q = (tot, [], idx, mid, q, 0, [])"
| "ob_match_level oid side tot ((a, rest) # orders) idx mid q =
     (if q > 0 then
        (let exec = (if q < o_open rest then q else o_open rest);
             rest' = rest\<lparr>o_open := o_open rest - exec\<rparr>;
             ev = EvExecuted \<lparr>xe_resting_id = o_id rest, xe_aggressor_id = oid,
                    xe_aggressor_side = side, xe_price = o_price rest, xe_qty = exec,
                    xe_match_id = mid\<rparr>
         in if o_open rest' = 0 then
              (case ob_match_level oid side (tot - exec) orders
                      (AList.delete (o_id rest) idx) (mid + 1) (q - exec) of
                 (t, os, ix, m, q', filled, evs) \<Rightarrow> (t, os, ix, m, q', exec + filled, ev # evs))
            else
              (case ob_match_level oid side (tot - exec) ((a, rest') # orders)
                      idx (mid + 1) (q - exec) of
                 (t, os, ix, m, q', filled, evs) \<Rightarrow> (t, os, ix, m, q', exec + filled, ev # evs)))
      else (tot, (a, rest) # orders, idx, mid, q, 0, []))"
  by pat_completeness auto
termination
  by (relation "measures [\<lambda>(_, _, _, os, _). length os, \<lambda>(_, _, _, _, _, _, q). unat q]")
    (auto split: if_splits simp: unat_gt_0)

declare ob_match_level.simps [simp del]

text \<open>
  A second round on the same node does nothing: either the order was used up and is gone, or the
  incoming quantity was. So the loop is a recursion along the list.
\<close>

lemma ob_match_level_0:
  "ob_match_level oid side tot os idx mid 0 = (tot, os, idx, mid, 0, 0, [])"
  by (cases os) (auto simp: ob_match_level.simps)

lemma ob_match_level_Nil [simp]:
  "ob_match_level oid side tot [] idx mid q = (tot, [], idx, mid, q, 0, [])"
  by (simp add: ob_match_level.simps)

definition ob_exec_event :: "order \<Rightarrow> order_id \<Rightarrow> side \<Rightarrow> qty \<Rightarrow> u64 \<Rightarrow> book_event" where
  "ob_exec_event ord oid side q mid = EvExecuted \<lparr>xe_resting_id = o_id ord, xe_aggressor_id = oid,
     xe_aggressor_side = side, xe_price = o_price ord, xe_qty = q, xe_match_id = mid\<rparr>"

lemma ob_match_level_Cons [simp]:
  "ob_match_level oid side tot ((a, ord) # os) idx mid q =
     (if q = 0 then (tot, (a, ord) # os, idx, mid, q, 0, [])
      else if q < o_open ord then
        (tot - q, (a, ord\<lparr>o_open := o_open ord - q\<rparr>) # os, idx, mid + 1, 0, q,
         [ob_exec_event ord oid side q mid])
      else
        (case ob_match_level oid side (tot - o_open ord) os (AList.delete (o_id ord) idx) (mid + 1)
                (q - o_open ord) of
           (t, os', ix, m, q', filled, evs) \<Rightarrow>
             (t, os', ix, m, q', o_open ord + filled, ob_exec_event ord oid side (o_open ord) mid # evs)))"
proof (cases "q \<noteq> 0 \<and> q < o_open ord")
  case True
  then have "o_open ord - q \<noteq> 0" by auto
  with True show ?thesis
    by (subst ob_match_level.simps) (simp add: Let_def ob_match_level_0 ob_exec_event_def)
next
  case False
  then show ?thesis
    by (subst ob_match_level.simps) (auto simp: Let_def ob_exec_event_def split: prod.splits)
qed

lemma ob_match_level_left:
  "ob_match_level oid side tot os idx mid q = (t, os', ix, m, q', filled, evs) \<Longrightarrow> os' \<noteq> [] \<Longrightarrow> q' = 0"
  by (induction os arbitrary: tot idx mid q t os' ix m q' filled evs)
    (auto split: if_splits prod.splits)

text \<open>The outer loop of \<^verbatim>\<open>match\<close> over the levels of the opposite side.\<close>

function ob_match :: "order_id \<Rightarrow> side \<Rightarrow> price \<Rightarrow> side_map \<Rightarrow> handle_index \<Rightarrow> u64 \<Rightarrow> qty \<Rightarrow>
    side_map \<times> handle_index \<times> u64 \<times> qty \<times> book_event list" where
  "ob_match oid side limit [] idx mid q = ([], idx, mid, 0, [])"
| "ob_match oid side limit ((p, lvl) # opposite) idx mid q =
     (if q > 0 then
        (if \<not> crosses side limit p then ((p, lvl) # opposite, idx, mid, 0, [])
         else
           (case ob_match_level oid side (lv_total lvl) (lv_orders lvl) idx mid q of
              (t, os, ix, m, q', got, evs) \<Rightarrow>
                (case (if os = [] then ob_match oid side limit opposite ix m q'
                       else ob_match oid side limit
                              ((p, lvl\<lparr>lv_total := t, lv_orders := os\<rparr>) # opposite) ix m q') of
                   (mp, ix', m', filled, evs') \<Rightarrow> (mp, ix', m', got + filled, evs @ evs'))))
      else ((p, lvl) # opposite, idx, mid, 0, []))"
  by pat_completeness auto
termination
  by (relation "measures [\<lambda>(_, _, _, mp, _). length mp, \<lambda>(_, _, _, _, _, _, q). unat q]")
    (auto simp: unat_gt_0 dest: ob_match_level_left[OF sym])

declare ob_match.simps [simp del]

lemma ob_match_0: "ob_match oid side limit mp idx mid 0 = (mp, idx, mid, 0, [])"
  by (cases mp) (auto simp: ob_match.simps)

lemma ob_match_Nil [simp]: "ob_match oid side limit [] idx mid q = ([], idx, mid, 0, [])"
  by (simp add: ob_match.simps)

lemma ob_match_Cons [simp]:
  "ob_match oid side limit ((p, lvl) # mp) idx mid q =
     (if q = 0 \<or> \<not> crosses side limit p then ((p, lvl) # mp, idx, mid, 0, [])
      else
        (case ob_match_level oid side (lv_total lvl) (lv_orders lvl) idx mid q of
           (t, os, ix, m, q', got, evs) \<Rightarrow>
             if os = [] then
               (case ob_match oid side limit mp ix m q' of
                  (mp', ix', m', filled, evs') \<Rightarrow> (mp', ix', m', got + filled, evs @ evs'))
             else ((p, lvl\<lparr>lv_total := t, lv_orders := os\<rparr>) # mp, ix, m, got, evs)))"
  by (subst ob_match.simps)
    (auto simp: ob_match_0 dest: ob_match_level_left split: prod.splits)

section \<open>Resting and removing\<close>

definition ob_rest :: "order_book \<Rightarrow> order_id \<Rightarrow> side \<Rightarrow> price \<Rightarrow> qty \<Rightarrow> order_book" where
  "ob_rest b oid side p q =
     (let mp = (if side = Buy then ob_bids b else ob_asks b);
          lvl = (case map_of mp p of Some l \<Rightarrow> l | None \<Rightarrow> \<lparr>lv_total = 0, lv_orders = []\<rparr>);
          a = ob_next_node b;
          lvl' = \<lparr>lv_total = lv_total lvl + q,
                  lv_orders = lv_orders lvl @
                    [(a, \<lparr>o_id = oid, o_side = side, o_price = p, o_open = q\<rparr>)]\<rparr>;
          b' = (if side = Buy then b\<lparr>ob_bids := omap_upd (>) p lvl' mp\<rparr>
                else b\<lparr>ob_asks := omap_upd (<) p lvl' mp\<rparr>)
      in b'\<lparr>ob_index := alist_emplace oid \<lparr>h_side = side, h_price = p, h_it = a\<rparr> (ob_index b),
            ob_next_node := a + 1\<rparr>)"

text \<open>\<^verbatim>\<open>erase_from\<close>, on the side map the handle names.\<close>

definition ob_erase_from :: "(price \<Rightarrow> price \<Rightarrow> bool) \<Rightarrow> side_map \<Rightarrow> handle \<Rightarrow> side_map option" where
  "ob_erase_from lt mp h = do {
     lvl \<leftarrow> map_of mp (h_price h);
     ord \<leftarrow> map_of (lv_orders lvl) (h_it h);
     let lvl' = \<lparr>lv_total = lv_total lvl - o_open ord, lv_orders = AList.delete (h_it h) (lv_orders lvl)\<rparr>;
     Some (if lv_orders lvl' = [] then AList.delete (h_price h) mp
           else omap_upd lt (h_price h) lvl' mp)
   }"

definition ob_remove :: "order_book \<Rightarrow> order_id \<Rightarrow> handle \<Rightarrow> order_book option" where
  "ob_remove b oid h = do {
     b' \<leftarrow> (if h_side h = Buy then
             map_option (\<lambda>mp. b\<lparr>ob_bids := mp\<rparr>) (ob_erase_from (>) (ob_bids b) h)
           else map_option (\<lambda>mp. b\<lparr>ob_asks := mp\<rparr>) (ob_erase_from (<) (ob_asks b) h));
     Some (b'\<lparr>ob_index := AList.delete oid (ob_index b')\<rparr>)
   }"

text \<open>All list nodes of the book, and the access through an iterator.\<close>

definition map_nodes :: "side_map \<Rightarrow> level_queue" where
  "map_nodes mp = concat (map (\<lambda>(p, l). lv_orders l) mp)"

definition ob_nodes :: "order_book \<Rightarrow> level_queue" where
  "ob_nodes b = map_nodes (ob_bids b) @ map_nodes (ob_asks b)"

definition ob_deref :: "order_book \<Rightarrow> node_ptr \<Rightarrow> order option" where
  "ob_deref b a = map_of (ob_nodes b) a"

definition node_set_open :: "node_ptr \<Rightarrow> qty \<Rightarrow> level_queue \<Rightarrow> level_queue" where
  "node_set_open a q = map (\<lambda>(a', ord). (a', if a' = a then ord\<lparr>o_open := q\<rparr> else ord))"

definition map_set_open :: "node_ptr \<Rightarrow> qty \<Rightarrow> side_map \<Rightarrow> side_map" where
  "map_set_open a q = map (\<lambda>(p, l). (p, l\<lparr>lv_orders := node_set_open a q (lv_orders l)\<rparr>))"

definition map_sub_total :: "price \<Rightarrow> qty \<Rightarrow> side_map \<Rightarrow> side_map option" where
  "map_sub_total p q mp = do {
     lvl \<leftarrow> map_of mp p;
     Some (map (\<lambda>(p', l). (p', if p' = p then l\<lparr>lv_total := lv_total l - q\<rparr> else l)) mp)
   }"

section \<open>The public operations\<close>

text \<open>\<^verbatim>\<open>match\<close> against the opposite side of the book.\<close>

definition ob_match_book :: "order_book \<Rightarrow> order_id \<Rightarrow> side \<Rightarrow> price \<Rightarrow> qty \<Rightarrow>
    order_book \<times> qty \<times> book_event list" where
  "ob_match_book b oid side limit q =
     (if side = Buy then
        (case ob_match oid side limit (ob_asks b) (ob_index b) (ob_next_match_id b) q of
           (mp, ix, m, filled, evs) \<Rightarrow>
             (b\<lparr>ob_asks := mp, ob_index := ix, ob_next_match_id := m\<rparr>, filled, evs))
      else
        (case ob_match oid side limit (ob_bids b) (ob_index b) (ob_next_match_id b) q of
           (mp, ix, m, filled, evs) \<Rightarrow>
             (b\<lparr>ob_bids := mp, ob_index := ix, ob_next_match_id := m\<rparr>, filled, evs)))"

definition ob_add :: "order_book \<Rightarrow> order_id \<Rightarrow> side \<Rightarrow> price \<Rightarrow> qty \<Rightarrow>
    order_book \<times> book_event list \<times> add_result" where
  "ob_add b oid side p q =
     (if p \<le> 0 then (b, [], \<lparr>ar_status = BadPrice, ar_filled = 0, ar_resting = 0\<rparr>)
      else if q = 0 then (b, [], \<lparr>ar_status = BadQty, ar_filled = 0, ar_resting = 0\<rparr>)
      else if map_of (ob_index b) oid \<noteq> None then
        (b, [], \<lparr>ar_status = DuplicateId, ar_filled = 0, ar_resting = 0\<rparr>)
      else (case ob_match_book b oid side p q of
        (b', filled, evs) \<Rightarrow>
          let resting = q - filled;
              (b'', evs') = (if resting > 0 then
                (ob_rest b' oid side p resting,
                 evs @ [EvAdded \<lparr>ad_id = oid, ad_side = side, ad_price = p, ad_qty = resting\<rparr>])
                else (b', evs))
          in (b'', evs', \<lparr>ar_status = Ok, ar_filled = filled, ar_resting = resting\<rparr>)))"

definition ob_cancel :: "order_book \<Rightarrow> order_id \<Rightarrow> qty \<Rightarrow> (order_book \<times> book_event list \<times> bool) option" where
  "ob_cancel b oid keep_qty =
     (case map_of (ob_index b) oid of
        None \<Rightarrow> Some (b, [], False)
      | Some h \<Rightarrow> do {
          ord \<leftarrow> ob_deref b (h_it h);
          if keep_qty \<ge> o_open ord then Some (b, [], False)
          else if keep_qty = 0 then do {
            b' \<leftarrow> ob_remove b oid h;
            Some (b', [EvCanceled \<lparr>ce_id = oid, ce_canceled_qty = o_open ord, ce_removed = True\<rparr>], True)
          }
          else do {
            let canceled = o_open ord - keep_qty;
            let b1 = b\<lparr>ob_bids := map_set_open (h_it h) keep_qty (ob_bids b),
                       ob_asks := map_set_open (h_it h) keep_qty (ob_asks b)\<rparr>;
            b2 \<leftarrow> (if h_side h = Buy then
                    map_option (\<lambda>mp. b1\<lparr>ob_bids := mp\<rparr>) (map_sub_total (h_price h) canceled (ob_bids b1))
                  else map_option (\<lambda>mp. b1\<lparr>ob_asks := mp\<rparr>) (map_sub_total (h_price h) canceled (ob_asks b1)));
            Some (b2, [EvCanceled \<lparr>ce_id = oid, ce_canceled_qty = canceled, ce_removed = False\<rparr>], True)
          }
        })"

definition ob_would_cross :: "order_book \<Rightarrow> side \<Rightarrow> price \<Rightarrow> bool" where
  "ob_would_cross b side p =
     (if side = Buy then ob_asks b \<noteq> [] \<and> fst (hd (ob_asks b)) \<le> p
      else ob_bids b \<noteq> [] \<and> fst (hd (ob_bids b)) \<ge> p)"

definition ob_replace :: "order_book \<Rightarrow> order_id \<Rightarrow> order_id \<Rightarrow> price \<Rightarrow> qty \<Rightarrow>
    (order_book \<times> book_event list \<times> bool) option" where
  "ob_replace b old_id new_id new_price new_qty =
     (case map_of (ob_index b) old_id of
        None \<Rightarrow> Some (b, [], False)
      | Some h \<Rightarrow>
          if new_id = old_id \<or> map_of (ob_index b) new_id \<noteq> None then Some (b, [], False)
          else if new_price \<le> 0 \<or> new_qty = 0 then Some (b, [], False)
          else do {
            let side = h_side h;
            ord \<leftarrow> ob_deref b (h_it h);
            let old_open = o_open ord;
            b1 \<leftarrow> ob_remove b old_id h;
            Some (if ob_would_cross b1 side new_price then
                (case ob_match_book b1 new_id side new_price new_qty of
                   (b2, filled, evs) \<Rightarrow>
                     let resting = new_qty - filled;
                         cev = EvCanceled \<lparr>ce_id = old_id, ce_canceled_qty = old_open, ce_removed = True\<rparr>
                     in if resting > 0 then
                          (ob_rest b2 new_id side new_price resting,
                           cev # evs @ [EvAdded \<lparr>ad_id = new_id, ad_side = side, ad_price = new_price,
                             ad_qty = resting\<rparr>], True)
                        else (b2, cev # evs, True))
              else
                (ob_rest b1 new_id side new_price new_qty,
                 [EvReplaced \<lparr>re_old_id = old_id, re_new_id = new_id, re_side = side,
                    re_price = new_price, re_qty = new_qty\<rparr>], True))
          })"

definition ob_best_bid :: "order_book \<Rightarrow> price option" where
  "ob_best_bid b = (if ob_bids b = [] then None else Some (fst (hd (ob_bids b))))"

definition ob_best_ask :: "order_book \<Rightarrow> price option" where
  "ob_best_ask b = (if ob_asks b = [] then None else Some (fst (hd (ob_asks b))))"

definition ob_fill_levels :: "side_map \<Rightarrow> snapshot_level list" where
  "ob_fill_levels mp = map (\<lambda>(p, l). \<lparr>sl_price = p,
     sl_orders = map (\<lambda>(a, ord). \<lparr>so_id = o_id ord, so_qty = o_open ord\<rparr>) (lv_orders l)\<rparr>) mp"

definition ob_snapshot :: "order_book \<Rightarrow> book_snapshot" where
  "ob_snapshot b = \<lparr>bs_bids = ob_fill_levels (ob_bids b), bs_asks = ob_fill_levels (ob_asks b)\<rparr>"

section \<open>The invariant check of the code\<close>

text \<open>
  \<^verbatim>\<open>check_invariants\<close> throws with the message on the first violation, and returns otherwise: the
  message is the left value here. \<open>ob_check_orders\<close> is the loop over one level and returns the sum.
\<close>

fun ob_check_orders :: "handle_index \<Rightarrow> price \<Rightarrow> side \<Rightarrow> qty \<Rightarrow> level_queue \<Rightarrow> string + qty" where
  "ob_check_orders idx p side acc [] = Inr acc"
| "ob_check_orders idx p side acc ((a, ord) # os) =
     (if o_open ord = 0 then Inl ''resting order with zero open qty''
      else if o_price ord \<noteq> p then Inl ''order price != level price''
      else if o_side ord \<noteq> side then Inl ''order side != book side''
      else (case map_of idx (o_id ord) of
        None \<Rightarrow> Inl ''resting order missing from index''
      | Some h \<Rightarrow>
          if h_it h \<noteq> a then Inl ''index handle does not point at order''
          else if h_price h \<noteq> p \<or> h_side h \<noteq> side then Inl ''index handle side/price mismatch''
          else ob_check_orders idx p side (acc + o_open ord) os))"

fun ob_check_side :: "handle_index \<Rightarrow> side \<Rightarrow> nat \<Rightarrow> side_map \<Rightarrow> string + nat" where
  "ob_check_side idx side cnt [] = Inr cnt"
| "ob_check_side idx side cnt ((p, lvl) # mp) =
     (if lv_orders lvl = [] then Inl ''empty price level not erased''
      else (case ob_check_orders idx p side 0 (lv_orders lvl) of
        Inl e \<Rightarrow> Inl e
      | Inr acc \<Rightarrow>
          if acc \<noteq> lv_total lvl then Inl ''level total != sum of open quantities''
          else ob_check_side idx side (cnt + length (lv_orders lvl)) mp))"

definition ob_check_invariants :: "order_book \<Rightarrow> string + unit" where
  "ob_check_invariants b =
     (case ob_check_side (ob_index b) Buy 0 (ob_bids b) of
        Inl e \<Rightarrow> Inl e
      | Inr n \<Rightarrow> (case ob_check_side (ob_index b) Sell n (ob_asks b) of
          Inl e \<Rightarrow> Inl e
        | Inr order_count \<Rightarrow>
            if order_count \<noteq> length (ob_index b) then Inl ''index size != resting order count''
            else if ob_bids b \<noteq> [] \<and> ob_asks b \<noteq> [] \<and> fst (hd (ob_bids b)) \<ge> fst (hd (ob_asks b))
            then Inl ''book is crossed or locked at rest''
            else Inr ()))"

section \<open>Abstraction and invariant\<close>

definition rs_of :: "node_ptr \<times> order \<Rightarrow> resting" where
  "rs_of n = \<lparr>rs_id = o_id (snd n), rs_price = o_price (snd n), rs_qty = o_open (snd n)\<rparr>"

definition ob_abs :: "order_book \<Rightarrow> spec_book" where
  "ob_abs b = \<lparr>sb_bids = map rs_of (map_nodes (ob_bids b)), sb_asks = map rs_of (map_nodes (ob_asks b)),
     sb_match = ob_next_match_id b\<rparr>"

definition level_ok :: "side \<Rightarrow> price \<Rightarrow> level \<Rightarrow> bool" where
  "level_ok s p l \<longleftrightarrow> lv_orders l \<noteq> [] \<and> lv_total l = sum_list (map (\<lambda>n. o_open (snd n)) (lv_orders l)) \<and>
     (\<forall>n\<in>set (lv_orders l). o_price (snd n) = p \<and> o_side (snd n) = s)"

definition side_ok :: "side \<Rightarrow> side_map \<Rightarrow> bool" where
  "side_ok s mp \<longleftrightarrow> omap_sorted (better s) mp \<and> (\<forall>(p, l)\<in>set mp. level_ok s p l)"

text \<open>The index entry that belongs to a node.\<close>

definition node_entry :: "side \<Rightarrow> node_ptr \<times> order \<Rightarrow> order_id \<times> handle" where
  "node_entry s n = (o_id (snd n), \<lparr>h_side = s, h_price = o_price (snd n), h_it = fst n\<rparr>)"

definition ob_entries :: "order_book \<Rightarrow> handle_index" where
  "ob_entries b = map (node_entry Buy) (map_nodes (ob_bids b)) @ map (node_entry Sell) (map_nodes (ob_asks b))"

text \<open>
  \<open>ob_core\<close> is the invariant of the structure; \<open>ob_inv\<close> adds that the allocator's next address is
  above all live ones.
\<close>

definition ob_core :: "order_book \<Rightarrow> bool" where
  "ob_core b \<longleftrightarrow> side_ok Buy (ob_bids b) \<and> side_ok Sell (ob_asks b) \<and>
     index_ok (ob_index b) (ob_entries b) \<and> distinct (map fst (ob_nodes b)) \<and> spec_inv (ob_abs b)"

definition ob_inv :: "order_book \<Rightarrow> bool" where
  "ob_inv b \<longleftrightarrow> ob_core b \<and> fst ` set (ob_nodes b) \<subseteq> {..<ob_next_node b}"

lemma rs_of_simps [simp]:
  "rs_id (rs_of n) = o_id (snd n)" "rs_price (rs_of n) = o_price (snd n)" "rs_qty (rs_of n) = o_open (snd n)"
  by (simp_all add: rs_of_def)

lemma rs_of_update [simp]: "rs_of (a, ord\<lparr>o_open := q\<rparr>) = (rs_of (a, ord))\<lparr>rs_qty := q\<rparr>"
  by (simp add: rs_of_def)

lemma node_entry_simps [simp]: "fst (node_entry s n) = o_id (snd n)" "fst \<circ> node_entry s = o_id \<circ> snd"
  "node_entry s (a, ord\<lparr>o_open := q\<rparr>) = node_entry s (a, ord)"
  by (auto simp: node_entry_def)

lemma map_nodes_simps [simp]:
  "map_nodes [] = []" "map_nodes ((p, l) # mp) = lv_orders l @ map_nodes mp"
  "map_nodes (mp @ mp') = map_nodes mp @ map_nodes mp'"
  by (simp_all add: map_nodes_def)

lemma side_ok_simps [simp]:
  "side_ok s []"
  "side_ok s ((p, l) # mp) \<longleftrightarrow> level_ok s p l \<and> side_ok s mp \<and> (\<forall>x\<in>set mp. better s p (fst x))"
  by (auto simp: side_ok_def)

lemma side_ok_append:
  "side_ok s (mp @ mp') \<longleftrightarrow> side_ok s mp \<and> side_ok s mp' \<and>
     (\<forall>x\<in>set mp. \<forall>y\<in>set mp'. better s (fst x) (fst y))"
  by (auto simp: side_ok_def sorted_wrt_append)

lemma spec_ids_ob_abs: "spec_ids (ob_abs b) = map fst (ob_entries b)"
  by (simp add: spec_ids_def ob_abs_def ob_entries_def)

section \<open>Matching refines the sweep\<close>

text \<open>What a node keeps when its open quantity changes.\<close>

abbreviation node_key :: "node_ptr \<times> order \<Rightarrow> node_ptr \<times> order_id \<times> side \<times> price" where
  "node_key n \<equiv> (fst n, o_id (snd n), o_side (snd n), o_price (snd n))"

lemma node_entry_key: "map node_key ns = map node_key ns' \<Longrightarrow> map (node_entry s) ns = map (node_entry s) ns'"
  by (induction ns ns' rule: list_induct2') (auto simp: node_entry_def)

lemma exec_event_rs_of [simp]: "exec_event (rs_of (a, ord)) oid side q mid = ob_exec_event ord oid side q mid"
  by (simp add: exec_event_def ob_exec_event_def)

lemma match_level_refines:
  assumes "ob_match_level oid side tot ns idx mid q = (t, ns', ix, m, q', filled, evs)"
    and "\<forall>n\<in>set ns. crosses side limit (o_price (snd n))"
  shows "sweep oid side limit mid q (map rs_of ns) = (evs, q', m, map rs_of ns') \<and> filled = q - q' \<and>
    (tot = sum_list (map (\<lambda>n. o_open (snd n)) ns) \<longrightarrow> t = sum_list (map (\<lambda>n. o_open (snd n)) ns')) \<and>
    (\<exists>k. map node_key ns' = map node_key (drop k ns))"
  using assms
proof (induction ns arbitrary: tot idx mid q t ns' ix m q' filled evs)
  case (Cons n ns)
  obtain a ord where n: "n = (a, ord)" by (cases n)
  consider "q = 0" | "q \<noteq> 0" "q < o_open ord" | "q \<noteq> 0" "\<not> q < o_open ord" by blast
  then show ?case
  proof cases
    case 1
    then show ?thesis using Cons.prems by (auto simp: n intro: exI[of _ 0])
  next
    case 2
    then show ?thesis using Cons.prems
      by (auto simp: n algebra_simps intro!: exI[of _ 0])
  next
    case 3
    then obtain f1 e1 where m: "ob_match_level oid side (tot - o_open ord) ns
        (AList.delete (o_id ord) idx) (mid + 1) (q - o_open ord) = (t, ns', ix, m, q', f1, e1)"
      and fe: "filled = o_open ord + f1" "evs = ob_exec_event ord oid side (o_open ord) mid # e1"
      using Cons.prems(1) by (auto simp: n split: prod.splits)
    have "\<forall>n\<in>set ns. crosses side limit (o_price (snd n))" using Cons.prems(2) by simp
    from Cons.IH[OF m this] obtain k where
      *: "sweep oid side limit (mid + 1) (q - o_open ord) (map rs_of ns) = (e1, q', m, map rs_of ns')"
        "f1 = q - o_open ord - q'"
        "tot - o_open ord = sum_list (map (\<lambda>n. o_open (snd n)) ns) \<longrightarrow> t = sum_list (map (\<lambda>n. o_open (snd n)) ns')"
        "map node_key ns' = map node_key (drop k ns)" by blast
    then show ?thesis using 3 Cons.prems(2) fe
      by (auto simp: n algebra_simps intro: exI[of _ "Suc k"])
  qed
qed auto

lemma match_level_index:
  assumes "ob_match_level oid side tot ns idx mid q = (t, ns', ix, m, q', filled, evs)"
    and "index_ok idx (map (node_entry s) ns @ R)"
  shows "index_ok ix (map (node_entry s) ns' @ R)"
  using assms
proof (induction ns arbitrary: tot idx mid q t ns' ix m q' filled evs)
  case (Cons n ns)
  obtain a ord where n: "n = (a, ord)" by (cases n)
  have "index_ok (AList.delete (o_id ord) idx) (map (node_entry s) ns @ R)"
    using index_ok_delete_hd[of idx "node_entry s n"] Cons.prems(2) by (simp add: n)
  then show ?case using Cons by (auto simp: n split: if_splits prod.splits)
qed simp

lemma match_index:
  assumes "ob_match oid side limit mp idx mid q = (mp', ix, m, filled, evs)"
    and "index_ok idx (map (node_entry s) (map_nodes mp) @ R)"
  shows "index_ok ix (map (node_entry s) (map_nodes mp') @ R)"
  using assms
proof (induction mp arbitrary: idx mid q mp' ix m filled evs)
  case (Cons x mp)
  obtain p l where x: "x = (p, l)" by (cases x)
  obtain t os ix1 m1 q1 got evs1 where
    L: "ob_match_level oid side (lv_total l) (lv_orders l) idx mid q = (t, os, ix1, m1, q1, got, evs1)"
    by (metis prod_cases7)
  have I: "index_ok ix1 (map (node_entry s) os @ map (node_entry s) (map_nodes mp) @ R)"
    using Cons.prems(2) by (intro match_level_index[OF L]) (simp add: x)
  show ?case using Cons I L by (auto simp: x split: if_splits prod.splits)
qed simp

lemma level_ok_key:
  assumes "level_ok s p l" "map node_key ns = map node_key (drop k (lv_orders l))" "ns \<noteq> []"
    "t = (\<Sum>n\<leftarrow>ns. o_open (snd n))"
  shows "level_ok s p (l\<lparr>lv_total := t, lv_orders := ns\<rparr>)"
proof -
  have "o_price (snd n) = p \<and> o_side (snd n) = s" if "n \<in> set ns" for n
  proof -
    have "node_key n \<in> node_key ` set (drop k (lv_orders l))"
      using imageI[OF that, of node_key] arg_cong[OF assms(2), of set] by simp
    then obtain n' where "n' \<in> set (drop k (lv_orders l))" "node_key n = node_key n'" by (rule imageE)
    moreover from this have "n' \<in> set (lv_orders l)" by (auto dest: in_set_dropD)
    ultimately
    show ?thesis using assms(1) by (simp add: level_ok_def)
  qed
  then show ?thesis using assms(3,4) by (simp add: level_ok_def)
qed

lemma match_refines:
  assumes "ob_match oid side limit mp idx mid q = (mp', ix, m, filled, evs)" "side_ok s mp"
  shows "\<exists>q'. sweep oid side limit mid q (map rs_of (map_nodes mp)) = (evs, q', m, map rs_of (map_nodes mp')) \<and>
      filled = q - q' \<and> side_ok s mp' \<and> fst ` set mp' \<subseteq> fst ` set mp \<and>
      (\<exists>k. map node_key (map_nodes mp') = map node_key (drop k (map_nodes mp)))"
  using assms
proof (induction mp arbitrary: idx mid q mp' ix m filled evs)
  case (Cons x mp)
  obtain p l where x: "x = (p, l)" by (cases x)
  have lok: "level_ok s p l" and sok: "side_ok s mp" using Cons.prems(2) by (auto simp: x)
  then obtain n ns where nn: "lv_orders l = n # ns" "o_price (snd n) = p"
    by (cases "lv_orders l") (auto simp: level_ok_def)
  show ?case
  proof (cases "q = 0 \<or> \<not> crosses side limit p")
    case True
    then show ?thesis using Cons.prems nn
      by (intro exI[of _ q]) (auto simp: x sweep_no_cross sweep_0 intro: exI[of _ 0])
  next
    case False
    obtain t os ix1 m1 q1 got evs1 where
      L: "ob_match_level oid side (lv_total l) (lv_orders l) idx mid q = (t, os, ix1, m1, q1, got, evs1)"
      by (metis prod_cases7)
    have "\<forall>n\<in>set (lv_orders l). crosses side limit (o_price (snd n))"
      using False lok by (simp add: level_ok_def)
    from match_level_refines[OF L this] lok obtain k where
      R: "sweep oid side limit mid q (map rs_of (lv_orders l)) = (evs1, q1, m1, map rs_of os)" "got = q - q1"
        "t = (\<Sum>n\<leftarrow>os. o_open (snd n))" "map node_key os = map node_key (drop k (lv_orders l))"
      by (auto simp: level_ok_def)
    show ?thesis
    proof (cases "os = []")
      case True
      then obtain f1 e1 where M: "ob_match oid side limit mp ix1 m1 q1 = (mp', ix, m, f1, e1)"
        and fe: "filled = got + f1" "evs = evs1 @ e1"
        using Cons.prems(1) False L by (auto simp: x split: prod.splits)
      from Cons.IH[OF M sok] obtain q' k' where
        "sweep oid side limit m1 q1 (map rs_of (map_nodes mp)) = (e1, q', m, map rs_of (map_nodes mp'))"
        "f1 = q1 - q'" "side_ok s mp'" "fst ` set mp' \<subseteq> fst ` set mp"
        "map node_key (map_nodes mp') = map node_key (drop k' (map_nodes mp))" by blast
      then show ?thesis using R(1,2) True fe
        by (intro exI[of _ q']) (auto simp: x sweep_append intro!: exI[of _ "length (lv_orders l) + k'"])
    next
      case ne: False
      then have r: "mp' = (p, l\<lparr>lv_total := t, lv_orders := os\<rparr>) # mp" "m = m1" "filled = got" "evs = evs1"
        using Cons.prems(1) False L by (auto simp: x)
      have "k < length (lv_orders l)"
        using arg_cong[OF R(4), of length] ne by (cases os) auto
      then have "map node_key (map_nodes mp') = map node_key (drop k (map_nodes ((p, l) # mp)))"
        using R(4) by (simp add: r(1))
      then show ?thesis using R ne r level_ok_key[OF lok R(4) ne R(3)] Cons.prems(2)
        by (intro exI[of _ q1]) (auto simp: x sweep_append)
    qed
  qed
qed (auto intro: exI[of _ q])

end
