(* ===== verification/Matching_Book.thy ===== *)
theory Matching_Book
  imports Book_Spec
begin

text \<open>
  The interface both books implement, and what follows for any implementation: a sequence of
  commands never gets stuck, has exactly the events and results of the abstract book, and keeps
  the abstract invariant. \<open>room\<close> is the capacity an implementation needs before it takes an order.
\<close>

section \<open>Command sequences\<close>

datatype book_cmd =
    Add order_id side price qty
  | Cancel order_id qty
  | Replace order_id order_id price qty

datatype cmd_result = RAdd add_result | RFlag bool

type_synonym 'b add_fn = "'b \<Rightarrow> order_id \<Rightarrow> side \<Rightarrow> price \<Rightarrow> qty \<Rightarrow> ('b \<times> book_event list \<times> add_result) option"
type_synonym 'b cancel_fn = "'b \<Rightarrow> order_id \<Rightarrow> qty \<Rightarrow> ('b \<times> book_event list \<times> bool) option"
type_synonym 'b replace_fn = "'b \<Rightarrow> order_id \<Rightarrow> order_id \<Rightarrow> price \<Rightarrow> qty \<Rightarrow> ('b \<times> book_event list \<times> bool) option"
type_synonym cmd_output = "book_event list \<times> cmd_result"

fun book_step :: "'b add_fn \<Rightarrow> 'b cancel_fn \<Rightarrow> 'b replace_fn \<Rightarrow> 'b \<Rightarrow> book_cmd \<Rightarrow> ('b \<times> cmd_output) option" where
  "book_step ad ca re b (Add i s p q) = map_option (\<lambda>(b', evs, r). (b', evs, RAdd r)) (ad b i s p q)"
| "book_step ad ca re b (Cancel i q) = map_option (\<lambda>(b', evs, r). (b', evs, RFlag r)) (ca b i q)"
| "book_step ad ca re b (Replace i j p q) = map_option (\<lambda>(b', evs, r). (b', evs, RFlag r)) (re b i j p q)"

fun book_run :: "'b add_fn \<Rightarrow> 'b cancel_fn \<Rightarrow> 'b replace_fn \<Rightarrow> 'b \<Rightarrow> book_cmd list \<Rightarrow>
    ('b \<times> cmd_output list) option" where
  "book_run ad ca re b [] = Some (b, [])"
| "book_run ad ca re b (c # cs) = do {
     (b1, r) \<leftarrow> book_step ad ca re b c;
     (b2, rs) \<leftarrow> book_run ad ca re b1 cs;
     Some (b2, r # rs)
   }"

fun spec_step :: "spec_book \<Rightarrow> book_cmd \<Rightarrow> spec_book \<times> cmd_output" where
  "spec_step sb (Add i s p q) = (case spec_add sb i s p q of (sb', evs, r) \<Rightarrow> (sb', evs, RAdd r))"
| "spec_step sb (Cancel i q) = (case spec_cancel sb i q of (sb', evs, r) \<Rightarrow> (sb', evs, RFlag r))"
| "spec_step sb (Replace i j p q) = (case spec_replace sb i j p q of (sb', evs, r) \<Rightarrow> (sb', evs, RFlag r))"

fun spec_run :: "spec_book \<Rightarrow> book_cmd list \<Rightarrow> spec_book \<times> cmd_output list" where
  "spec_run sb [] = (sb, [])"
| "spec_run sb (c # cs) =
     (case spec_step sb c of (sb1, r) \<Rightarrow> case spec_run sb1 cs of (sb2, rs) \<Rightarrow> (sb2, r # rs))"

text \<open>Commands as the wire delivers them carry one of the two sides; \<open>room\<close> holds before each add.\<close>

fun valid_cmd :: "book_cmd \<Rightarrow> bool" where
  "valid_cmd (Add i s p q) = valid_side s"
| "valid_cmd _ = True"

fun room_run :: "(spec_book \<Rightarrow> bool) \<Rightarrow> spec_book \<Rightarrow> book_cmd list \<Rightarrow> bool" where
  "room_run room sb [] = True"
| "room_run room sb (c # cs) = (room sb \<and> room_run room (fst (spec_step sb c)) cs)"

lemma spec_step_inv: "spec_inv sb \<Longrightarrow> valid_cmd c \<Longrightarrow> spec_inv (fst (spec_step sb c))"
  using spec_add_inv[of sb] spec_cancel_inv[of sb] spec_replace_inv[of sb]
  by (cases c) (simp_all add: case_prod_beta)

lemma spec_run_inv: "spec_inv sb \<Longrightarrow> \<forall>c\<in>set cs. valid_cmd c \<Longrightarrow> spec_inv (fst (spec_run sb cs))"
  by (induction cs arbitrary: sb) (auto simp: case_prod_beta spec_step_inv)

lemma spec_step_size: "spec_size (fst (spec_step sb c)) \<le> Suc (spec_size sb)"
proof (cases c)
  case (Add i s p q)
  then show ?thesis by (auto simp: spec_add_def split: prod.splits dest: spec_enter_size)
next
  case (Cancel i q)
  have "spec_size (spec_reduce i q sb) = spec_size sb" by (simp add: spec_size_def spec_reduce_def set_qty_def)
  then show ?thesis using Cancel spec_remove_size[of i sb]
    by (auto simp: spec_cancel_def split: option.splits prod.splits)
next
  case (Replace i j p q)
  then show ?thesis using spec_remove_size[of i sb]
    by (auto simp: spec_replace_def Let_def spec_rest_size split: option.splits prod.splits dest!: spec_enter_size)
qed

lemma room_run_True: "room_run (\<lambda>_. True) sb cs"
  by (induction cs arbitrary: sb) auto

section \<open>The interface\<close>

locale matching_book =
  fixes sim :: "'b \<Rightarrow> spec_book \<Rightarrow> bool"
    and room :: "spec_book \<Rightarrow> bool"
    and new :: "'b \<Rightarrow> bool"
    and add :: "'b add_fn"
    and cancel :: "'b cancel_fn"
    and replace :: "'b replace_fn"
    and snapshot :: "'b \<Rightarrow> book_snapshot option"
  assumes sim_new: "new b \<Longrightarrow> sim b spec_empty"
    and sim_spec: "sim b sb \<Longrightarrow> spec_inv sb"
    and add_ok: "sim b sb \<Longrightarrow> valid_side s \<Longrightarrow> room sb \<Longrightarrow> spec_add sb i s p q = (sb', evs, r) \<Longrightarrow>
      \<exists>b'. add b i s p q = Some (b', evs, r) \<and> sim b' sb'"
    and cancel_ok: "sim b sb \<Longrightarrow> spec_cancel sb i q = (sb', evs, f) \<Longrightarrow>
      \<exists>b'. cancel b i q = Some (b', evs, f) \<and> sim b' sb'"
    and replace_ok: "sim b sb \<Longrightarrow> room sb \<Longrightarrow> spec_replace sb i j p q = (sb', evs, f) \<Longrightarrow>
      \<exists>b'. replace b i j p q = Some (b', evs, f) \<and> sim b' sb'"
    and snapshot_ok: "sim b sb \<Longrightarrow> snapshot b = Some (spec_snapshot sb)"
begin

lemma step_ok:
  assumes "sim b sb" "valid_cmd c" "room sb" "spec_step sb c = (sb', r)"
  shows "\<exists>b'. book_step add cancel replace b c = Some (b', r) \<and> sim b' sb'"
proof (cases c)
  case (Add i s p q)
  then show ?thesis using assms add_ok[of b sb s i p q] by (fastforce split: prod.splits)
next
  case (Cancel i q)
  then show ?thesis using assms cancel_ok[of b sb i q] by (fastforce split: prod.splits)
next
  case (Replace i j p q)
  then show ?thesis using assms replace_ok[of b sb i j p q] by (fastforce split: prod.splits)
qed

lemma run_ok:
  assumes "sim b sb" "\<forall>c\<in>set cs. valid_cmd c" "room_run room sb cs" "spec_run sb cs = (sb', rs)"
  shows "\<exists>b'. book_run add cancel replace b cs = Some (b', rs) \<and> sim b' sb'"
  using assms
proof (induction cs arbitrary: b sb rs)
  case (Cons c cs)
  obtain sb1 r where s: "spec_step sb c = (sb1, r)" by (metis surj_pair)
  from Cons.prems step_ok[OF _ _ _ s] obtain b1 where
    b1: "book_step add cancel replace b c = Some (b1, r)" "sim b1 sb1" by auto
  obtain rs1 where rs1: "spec_run sb1 cs = (sb', rs1)" "rs = r # rs1"
    using Cons.prems(4) s by (auto split: prod.splits)
  from Cons.IH[of b1 sb1 rs1] Cons.prems b1 rs1 s show ?case by auto
qed simp

lemma run_from_new:
  assumes "new b" "\<forall>c\<in>set cs. valid_cmd c" "room_run room spec_empty cs" "spec_run spec_empty cs = (sb', rs)"
  shows "\<exists>b'. book_run add cancel replace b cs = Some (b', rs) \<and> sim b' sb' \<and>
    snapshot b' = Some (spec_snapshot sb')"
  using run_ok[OF sim_new[OF assms(1)] assms(2-)] snapshot_ok by blast

text \<open>What every reachable book satisfies, whatever the implementation.\<close>

lemma reachable_sim:
  assumes "new b0" "\<forall>c\<in>set cs. valid_cmd c" "room_run room spec_empty cs"
    "book_run add cancel replace b0 cs = Some (b, rs)"
  shows "\<exists>sb. sim b sb \<and> spec_inv sb \<and> spec_run spec_empty cs = (sb, rs)"
proof -
  obtain sb' rs' where s: "spec_run spec_empty cs = (sb', rs')" by (metis surj_pair)
  from run_from_new[OF assms(1-3) s] assms(4) have "sim b sb'" "rs = rs'" by auto
  then show ?thesis using sim_spec s by blast
qed

end

section \<open>Two implementations\<close>

text \<open>Two books with the interface cannot be told apart by commands, events, results and snapshots.\<close>

locale two_books =
  one: matching_book sim1 room1 new1 add1 cancel1 replace1 snapshot1 +
  two: matching_book sim2 room2 new2 add2 cancel2 replace2 snapshot2
  for sim1 :: "'a \<Rightarrow> spec_book \<Rightarrow> bool" and room1 new1 add1 cancel1 replace1 snapshot1
    and sim2 :: "'b \<Rightarrow> spec_book \<Rightarrow> bool" and room2 new2 add2 cancel2 replace2 snapshot2
begin

lemma runs_agree:
  assumes "new1 a0" "new2 b0" "\<forall>c\<in>set cs. valid_cmd c" "room_run room1 spec_empty cs" "room_run room2 spec_empty cs"
  shows "\<exists>a b rs. book_run add1 cancel1 replace1 a0 cs = Some (a, rs) \<and>
    book_run add2 cancel2 replace2 b0 cs = Some (b, rs) \<and> snapshot1 a = snapshot2 b \<and> snapshot1 a \<noteq> None"
proof -
  obtain sb rs where s: "spec_run spec_empty cs = (sb, rs)" by (metis surj_pair)
  from one.run_from_new[OF assms(1,3,4) s] two.run_from_new[OF assms(2,3,5) s] show ?thesis by auto
qed

end

end
