(* ===== verification/Order_Book_Refine.thy ===== *)
theory Order_Book_Refine
  imports Order_Book Matching_Book
begin

text \<open>
  The reference book refines the abstract book: on a well-formed book every operation returns (no
  iterator or map position is dereferenced that does not exist), keeps the book well-formed, and
  has the effect, the events and the result of the abstract operation.
\<close>

section \<open>One side of the book\<close>

definition ob_side :: "side \<Rightarrow> order_book \<Rightarrow> side_map" where
  "ob_side s b = (if s = Buy then ob_bids b else ob_asks b)"

definition ob_set_side :: "side \<Rightarrow> side_map \<Rightarrow> order_book \<Rightarrow> order_book" where
  "ob_set_side s mp b = (if s = Buy then b\<lparr>ob_bids := mp\<rparr> else b\<lparr>ob_asks := mp\<rparr>)"

lemma ob_set_side_simps [simp]:
  "ob_index (ob_set_side s mp b) = ob_index b"
  "ob_next_node (ob_set_side s mp b) = ob_next_node b"
  "ob_next_match_id (ob_set_side s mp b) = ob_next_match_id b"
  "ob_side s (ob_set_side s mp b) = mp"
  "ob_side (opp s) (ob_set_side s mp b) = ob_side (opp s) b"
  "valid_side s \<Longrightarrow> ob_side s (ob_set_side (opp s) mp b) = ob_side s b"
  "ob_side s (b\<lparr>ob_index := ix\<rparr>) = ob_side s b"
  "ob_side s (b\<lparr>ob_next_match_id := m\<rparr>) = ob_side s b"
  "ob_side s (b\<lparr>ob_next_node := a\<rparr>) = ob_side s b"
  by (auto simp: ob_side_def ob_set_side_def opp_def)

lemma better_fun: "better Buy = (>)" "better Sell = (<)"
  by (simp_all add: fun_eq_iff)

lemma ob_abs_simps [simp]:
  "queue_of s (ob_abs b) = map rs_of (map_nodes (ob_side s b))"
  "ob_abs (ob_set_side s mp b) = set_queue s (map rs_of (map_nodes mp)) (ob_abs b)"
  "sb_match (ob_abs b) = ob_next_match_id b"
  "ob_abs (b\<lparr>ob_index := ix\<rparr>) = ob_abs b"
  "ob_abs (b\<lparr>ob_next_node := a\<rparr>) = ob_abs b"
  "ob_abs (b\<lparr>ob_next_match_id := m\<rparr>) = (ob_abs b)\<lparr>sb_match := m\<rparr>"
  by (auto simp: ob_abs_def queue_of_def set_queue_def ob_side_def ob_set_side_def)

text \<open>The invariant seen from one side, the other being the opposite one.\<close>

abbreviation side_entries :: "side \<Rightarrow> order_book \<Rightarrow> handle_index" where
  "side_entries s b \<equiv> map (node_entry s) (map_nodes (ob_side s b))"

abbreviation side_nodes :: "side \<Rightarrow> order_book \<Rightarrow> level_queue" where
  "side_nodes s b \<equiv> map_nodes (ob_side s b)"

lemma index_ok_commute: "index_ok m (xs @ ys) \<longleftrightarrow> index_ok m (ys @ xs)"
  by (auto intro: index_ok_perm)

lemma ob_core_side:
  assumes "valid_side s"
  shows "ob_core b \<longleftrightarrow> side_ok s (ob_side s b) \<and> side_ok (opp s) (ob_side (opp s) b) \<and>
     index_ok (ob_index b) (side_entries s b @ side_entries (opp s) b) \<and>
     distinct (map fst (side_nodes s b @ side_nodes (opp s) b)) \<and> spec_inv (ob_abs b)"
  using assms index_ok_commute[of "ob_index b"]
  by (auto simp: ob_core_def ob_entries_def ob_nodes_def ob_side_def)

text \<open>An update of one side keeps the invariant if it keeps that side's part and the index.\<close>

lemma ob_core_update:
  assumes core: "ob_core b" and s: "valid_side s" and opp: "ob_side (opp s) b' = ob_side (opp s) b"
    and ok: "side_ok s (ob_side s b')" "index_ok (ob_index b') (side_entries s b' @ side_entries (opp s) b)"
    and dis: "distinct (map fst (side_nodes s b'))"
    and sub: "fst ` set (side_nodes s b') \<inter> fst ` set (side_nodes (opp s) b) = {}"
    and spec: "spec_inv (ob_abs b')"
  shows "ob_core b'"
  using core ok dis sub spec by (auto simp: ob_core_side[OF s] opp)

lemma ob_nodes_side: "valid_side s \<Longrightarrow> set (ob_nodes b) = set (side_nodes s b) \<union> set (side_nodes (opp s) b)"
  by (auto simp: ob_nodes_def ob_side_def)

lemma ob_core_spec: "ob_core b \<Longrightarrow> spec_inv (ob_abs b)"
  by (simp add: ob_core_def)

lemma ob_core_disjoint:
  "ob_core b \<Longrightarrow> valid_side s \<Longrightarrow> fst ` set (side_nodes s b) \<inter> fst ` set (side_nodes (opp s) b) = {}"
  by (simp add: ob_core_side)

lemma ob_inv_core: "ob_inv b \<Longrightarrow> ob_core b"
  by (simp add: ob_inv_def)

lemma ob_inv_shrink:
  "ob_inv b \<Longrightarrow> ob_core b' \<Longrightarrow> fst ` set (ob_nodes b') \<subseteq> fst ` set (ob_nodes b) \<Longrightarrow>
   ob_next_node b' = ob_next_node b \<Longrightarrow> ob_inv b'"
  by (auto simp: ob_inv_def)

lemma spec_ids_side:
  "valid_side s \<Longrightarrow> set (spec_ids (ob_abs b)) = fst ` set (side_entries s b @ side_entries (opp s) b)"
  by (auto simp add: spec_ids_def ob_abs_def ob_side_def image_Un image_image)

lemma ob_inv_empty: "ob_inv ob_empty" "ob_abs ob_empty = spec_empty"
  by (simp_all add: ob_inv_def ob_core_def ob_empty_def ob_entries_def ob_nodes_def index_ok_def ob_abs_def
      spec_inv_empty[unfolded spec_empty_def] spec_empty_def)

section \<open>Matching\<close>

lemma drop_key:
  assumes "map node_key ns' = map node_key (drop k ns)"
  shows "set (map fst ns') \<subseteq> set (map fst ns)" "distinct (map fst ns) \<Longrightarrow> distinct (map fst ns')"
proof -
  from arg_cong[OF assms, of "map fst"] have "map fst ns' = drop k (map fst ns)"
    by (simp add: comp_def drop_map)
  then show "set (map fst ns') \<subseteq> set (map fst ns)" "distinct (map fst ns) \<Longrightarrow> distinct (map fst ns')"
    using set_drop_subset[of k "map fst ns"] by (simp_all only: distinct_drop)
qed

lemma ob_match_book_side:
  "ob_match_book b oid side limit q =
     (case ob_match oid side limit (ob_side (opp side) b) (ob_index b) (ob_next_match_id b) q of
        (mp, ix, m, filled, evs) \<Rightarrow>
          ((ob_set_side (opp side) mp b)\<lparr>ob_index := ix, ob_next_match_id := m\<rparr>, filled, evs))"
  by (auto simp: ob_match_book_def ob_side_def ob_set_side_def opp_def split: prod.splits)

lemma ob_match_book_core:
  assumes inv: "ob_core b" and side: "valid_side side"
    and m: "ob_match_book b oid side limit q = (b', filled, evs)"
  shows "spec_match oid side limit q (ob_abs b) = (ob_abs b', evs, filled)" "ob_core b'"
    "fst ` set (ob_nodes b') \<subseteq> fst ` set (ob_nodes b)" "ob_next_node b' = ob_next_node b"
proof -
  let ?o = "opp side"
  obtain mp ix mid where M: "ob_match oid side limit (ob_side ?o b) (ob_index b) (ob_next_match_id b) q =
      (mp, ix, mid, filled, evs)"
    and b': "b' = (ob_set_side ?o mp b)\<lparr>ob_index := ix, ob_next_match_id := mid\<rparr>"
    using m by (auto simp: ob_match_book_side split: prod.splits)
  have o: "valid_side ?o" "opp ?o = side" using side by auto
  note I = inv[unfolded ob_core_side[OF o(1)] o(2)]
  then have so: "side_ok ?o (ob_side ?o b)" by (rule conjunct1)
  obtain q' k where sw: "sweep oid side limit (ob_next_match_id b) q (map rs_of (side_nodes ?o b)) =
      (evs, q', mid, map rs_of (map_nodes mp))" and f: "filled = q - q'" and ok: "side_ok ?o mp"
    and key: "map node_key (map_nodes mp) = map node_key (drop k (side_nodes ?o b))"
    using match_refines[OF M so] by blast
  show S: "spec_match oid side limit q (ob_abs b) = (ob_abs b', evs, filled)"
    using sw by (simp add: spec_match_def b' f)
      (auto simp: set_queue_def)
  have "index_ok ix (map (node_entry ?o) (map_nodes mp) @ side_entries side b)"
    using I by (intro match_index[OF M]) simp
  moreover have "fst ` set (map_nodes mp) \<inter> fst ` set (side_nodes side b) = {}"
    using drop_key(1)[OF key] I by auto
  ultimately show "ob_core b'" using I ok drop_key(2)[OF key] o spec_match_inv(1)[OF _ side S]
    by (intro ob_core_update[OF inv o(1)]) (auto simp: b' ob_set_side_simps(6)[OF side])
  show "fst ` set (ob_nodes b') \<subseteq> fst ` set (ob_nodes b)"
    using drop_key(1)[OF key] o(2)
    by (auto simp: ob_nodes_side[OF o(1)] b' ob_set_side_simps(6)[OF side] image_Un)
  show "ob_next_node b' = ob_next_node b" by (simp add: b')
qed

lemma ob_match_book_refines:
  assumes "ob_inv b" "valid_side side" "ob_match_book b oid side limit q = (b', filled, evs)"
  shows "spec_match oid side limit q (ob_abs b) = (ob_abs b', evs, filled)" "ob_inv b'"
  using ob_match_book_core[OF ob_inv_core[OF assms(1)] assms(2,3)] ob_inv_shrink[OF assms(1)] by blast+

section \<open>Resting\<close>

lemma enqueue_append:
  "\<forall>x\<in>set xs. \<not> better s (rs_price r) (rs_price x) \<Longrightarrow> enqueue s r (xs @ ys) = xs @ enqueue s r ys"
  by (induction xs) auto

lemma enqueue_front: "\<forall>x\<in>set xs. better s (rs_price r) (rs_price x) \<Longrightarrow> enqueue s r xs = r # xs"
  by (cases xs) auto

lemma map_nodes_price:
  "side_ok s mp \<Longrightarrow> n \<in> set (map_nodes mp) \<Longrightarrow> o_price (snd n) \<in> fst ` set mp \<and> o_side (snd n) = s"
  by (induction mp) (auto simp: level_ok_def)

text \<open>Appending a node to its price level enqueues its order in the flat queue.\<close>

lemma rest_level:
  assumes ok: "side_ok s mp"
    and l: "l = (case map_of mp p of Some l \<Rightarrow> l | None \<Rightarrow> \<lparr>lv_total = 0, lv_orders = []\<rparr>)"
    and n: "o_price (snd n) = p" "o_side (snd n) = s"
    and mp': "mp' = omap_upd (better s) p
      \<lparr>lv_total = lv_total l + o_open (snd n), lv_orders = lv_orders l @ [n]\<rparr> mp"
  shows "side_ok s mp'" "map rs_of (map_nodes mp') = enqueue s (rs_of n) (map rs_of (map_nodes mp))"
    "mset (map_nodes mp') = add_mset n (mset (map_nodes mp))"
proof -
  have srt: "omap_sorted (better s) mp" using ok by (simp add: side_ok_def)
  obtain m1 ls m2 where sp: "mp = m1 @ ls @ m2" "mp' = m1 @
      (p, \<lparr>lv_total = lv_total l + o_open (snd n), lv_orders = lv_orders l @ [n]\<rparr>) # m2"
    "\<forall>x\<in>set m1. better s (fst x) p" "\<forall>x\<in>set m2. better s p (fst x)"
    "ls = [] \<and> lv_orders l = [] \<and> lv_total l = 0 \<or> ls = [(p, l)]"
  proof (cases "map_of mp p")
    case None
    then have l': "l = \<lparr>lv_total = 0, lv_orders = []\<rparr>" using l by simp
    obtain m1 m2 where "mp = m1 @ m2" "\<forall>x\<in>set m1. better s (fst x) p" "\<forall>x\<in>set m2. better s p (fst x)"
      "\<forall>w. omap_upd (better s) p w mp = m1 @ (p, w) # m2" by (rule better.split_absent[OF srt None])
    then show ?thesis using l' by (intro that[of m1 "[]" m2]) (simp_all add: mp')
  next
    case (Some l')
    then have l': "l = l'" using l by simp
    obtain m1 m2 where "mp = m1 @ (p, l') # m2" "\<forall>x\<in>set m1. better s (fst x) p"
      "\<forall>x\<in>set m2. better s p (fst x)" "\<forall>w. omap_upd (better s) p w mp = m1 @ (p, w) # m2"
      by (rule better.split_present[OF srt Some])
    then show ?thesis using l' by (intro that[of m1 "[(p, l)]" m2]) (simp_all add: mp')
  qed
  have L: "map_nodes ls = lv_orders l" using sp(5) by auto
  have ls: "\<forall>x\<in>set (lv_orders l). o_price (snd x) = p \<and> o_side (snd x) = s"
    "lv_total l = (\<Sum>n\<leftarrow>lv_orders l. o_open (snd n))"
    using sp(5) ok by (fastforce simp: sp(1) side_ok_append level_ok_def)+
  show "side_ok s mp'" using ok ls sp(3,4) n by (fastforce simp: sp(1,2) side_ok_append level_ok_def)
  have m12: "side_ok s m1" "side_ok s m2" using ok by (auto simp: sp(1) side_ok_append)
  have "\<not> better s p (o_price (snd x))" if "x \<in> set (map_nodes m1)" for x
    using map_nodes_price[OF m12(1) that] sp(3) better.asym by auto
  moreover have "better s p (o_price (snd x))" if "x \<in> set (map_nodes m2)" for x
    using map_nodes_price[OF m12(2) that] sp(4) by auto
  ultimately show "map rs_of (map_nodes mp') = enqueue s (rs_of n) (map rs_of (map_nodes mp))"
    using n ls better.irrefl by (simp add: sp(1,2) L enqueue_append enqueue_front)
  show "mset (map_nodes mp') = add_mset n (mset (map_nodes mp))" by (simp add: sp(1,2) L)
qed

lemma ob_rest_core:
  assumes inv: "ob_core b" and side: "valid_side side" and fresh: "oid \<notin> set (spec_ids (ob_abs b))"
    and addr: "ob_next_node b \<notin> fst ` set (ob_nodes b)"
    and spec: "spec_inv (spec_rest oid side p q (ob_abs b))"
  shows "ob_abs (ob_rest b oid side p q) = spec_rest oid side p q (ob_abs b)"
    "ob_core (ob_rest b oid side p q)"
    "fst ` set (ob_nodes (ob_rest b oid side p q)) = insert (ob_next_node b) (fst ` set (ob_nodes b))"
    "ob_next_node (ob_rest b oid side p q) = ob_next_node b + 1"
proof -
  let ?n = "(ob_next_node b, \<lparr>o_id = oid, o_side = side, o_price = p, o_open = q\<rparr>)"
  define l where "l = (case map_of (ob_side side b) p of Some l \<Rightarrow> l | None \<Rightarrow> \<lparr>lv_total = 0, lv_orders = []\<rparr>)"
  define mp where "mp = omap_upd (better side) p
      \<lparr>lv_total = lv_total l + o_open (snd ?n), lv_orders = lv_orders l @ [?n]\<rparr> (ob_side side b)"
  note I = inv[unfolded ob_core_side[OF side]]
  note R = rest_level[OF conjunct1[OF I] l_def _ _ mp_def, simplified]
  have b': "ob_rest b oid side p q = (ob_set_side side mp b)\<lparr>ob_index :=
      alist_emplace oid \<lparr>h_side = side, h_price = p, h_it = ob_next_node b\<rparr> (ob_index b),
      ob_next_node := ob_next_node b + 1\<rparr>"
    using side by (auto simp: ob_rest_def mp_def l_def ob_side_def ob_set_side_def Let_def better_fun)
  show A: "ob_abs (ob_rest b oid side p q) = spec_rest oid side p q (ob_abs b)"
    by (simp add: b' R(2) spec_rest_def) (simp add: rs_of_def)
  have ix: "index_ok (alist_emplace oid \<lparr>h_side = side, h_price = p, h_it = ob_next_node b\<rparr> (ob_index b))
      (map (node_entry side) (map_nodes mp) @ side_entries (opp side) b)"
    using I fresh R(3) spec_ids_side[OF side, of b]
    by (intro index_ok_perm[OF index_ok_emplace]) (auto simp: node_entry_def)
  have st: "set (map_nodes mp) = insert ?n (set (side_nodes side b))"
    using arg_cong[OF R(3), of set_mset] by simp
  have "mset (map fst (map_nodes mp)) = mset (map fst (?n # side_nodes side b))"
    using R(3) by simp
  then have "distinct (map fst (map_nodes mp)) = distinct (map fst (?n # side_nodes side b))"
    by (rule mset_eq_imp_distinct_iff)
  moreover have a: "ob_next_node b \<notin> fst ` set (side_nodes side b)" "ob_next_node b \<notin> fst ` set (side_nodes (opp side) b)"
    using addr by (auto simp: ob_nodes_side[OF side])
  then have "distinct (map fst (?n # side_nodes side b))" using I by auto
  moreover have "fst ` set (map_nodes mp) \<inter> fst ` set (side_nodes (opp side) b) = {}"
    using a ob_core_disjoint[OF inv side] by (simp add: st)
  ultimately show "ob_core (ob_rest b oid side p q)" using R(1) ix st spec A
    by (intro ob_core_update[OF inv side]) (auto simp: b')
  show "fst ` set (ob_nodes (ob_rest b oid side p q)) = insert (ob_next_node b) (fst ` set (ob_nodes b))"
    by (simp add: ob_nodes_side[OF side] b' st)
  show "ob_next_node (ob_rest b oid side p q) = ob_next_node b + 1" by (simp add: b')
qed

lemma ob_rest_refines:
  assumes "ob_inv b" "valid_side side" "oid \<notin> set (spec_ids (ob_abs b))"
    "spec_inv (spec_rest oid side p q (ob_abs b))"
  shows "ob_abs (ob_rest b oid side p q) = spec_rest oid side p q (ob_abs b)"
    "ob_inv (ob_rest b oid side p q)"
proof -
  have "ob_next_node b \<notin> fst ` set (ob_nodes b)" using assms(1) by (auto simp: ob_inv_def)
  note R = ob_rest_core[OF ob_inv_core[OF assms(1)] assms(2,3) this assms(4)]
  then show "ob_abs (ob_rest b oid side p q) = spec_rest oid side p q (ob_abs b)"
    "ob_inv (ob_rest b oid side p q)" using assms(1) by (auto simp: ob_inv_def)
qed

section \<open>Entering an order\<close>

lemma ob_index_ids: "ob_core b \<Longrightarrow> map_of (ob_index b) oid = None \<longleftrightarrow> oid \<notin> set (spec_ids (ob_abs b))"
  by (simp add: ob_core_def index_ok_None spec_ids_ob_abs)

text \<open>Matching and resting the remainder, as \<open>ob_add\<close> and \<open>ob_replace\<close> both do.\<close>

lemma ob_enter_refines:
  assumes inv: "ob_inv b" and side: "valid_side side" and fresh: "oid \<notin> set (spec_ids (ob_abs b))" and p: "p > 0"
    and m: "ob_match_book b oid side p q = (b1, filled, evs)"
    and e: "spec_enter oid side p q (ob_abs b) = (sb', evs', filled')"
  shows "filled' = filled"
    "q - filled > 0 \<Longrightarrow> ob_abs (ob_rest b1 oid side p (q - filled)) = sb' \<and> ob_inv (ob_rest b1 oid side p (q - filled)) \<and>
       evs' = evs @ [EvAdded \<lparr>ad_id = oid, ad_side = side, ad_price = p, ad_qty = q - filled\<rparr>]"
    "q - filled = 0 \<Longrightarrow> ob_abs b1 = sb' \<and> ob_inv b1 \<and> evs' = evs"
proof -
  note M = ob_match_book_refines[OF inv side m]
  show "filled' = filled" using e M(1) by (auto simp: spec_enter_def split: if_splits)
  have si: "spec_inv (ob_abs b)" using inv by (simp add: ob_inv_def ob_core_def)
  note E = spec_enter_inv[OF si side fresh p e]
  have f1: "oid \<notin> set (spec_ids (ob_abs b1))" using spec_match_inv(2)[OF si side M(1)] fresh by blast
  show "q - filled > 0 \<Longrightarrow> ob_abs (ob_rest b1 oid side p (q - filled)) = sb' \<and> ob_inv (ob_rest b1 oid side p (q - filled)) \<and>
       evs' = evs @ [EvAdded \<lparr>ad_id = oid, ad_side = side, ad_price = p, ad_qty = q - filled\<rparr>]"
    using e M E ob_rest_refines[OF M(2) side f1, of p "q - filled"] by (auto simp: spec_enter_def)
  show "q - filled = 0 \<Longrightarrow> ob_abs b1 = sb' \<and> ob_inv b1 \<and> evs' = evs"
    using e M by (simp add: spec_enter_def)
qed

lemma ob_add_refines:
  assumes inv: "ob_inv b" and side: "valid_side side"
    and s: "spec_add (ob_abs b) oid side p q = (sb', evs, res)"
  shows "\<exists>b'. ob_add b oid side p q = (b', evs, res) \<and> ob_inv b' \<and> ob_abs b' = sb'"
proof (cases "p \<le> 0 \<or> q = 0 \<or> map_of (ob_index b) oid \<noteq> None")
  case True
  then show ?thesis using s inv ob_index_ids[OF ob_inv_core[OF inv], of oid]
    by (auto simp: ob_add_def spec_add_def split: if_splits)
next
  case False
  then have fresh: "oid \<notin> set (spec_ids (ob_abs b))" and p: "p > 0" and q: "q \<noteq> 0"
    using ob_index_ids[OF ob_inv_core[OF inv], of oid] by auto
  obtain b1 filled evs1 where m: "ob_match_book b oid side p q = (b1, filled, evs1)" by (metis prod_cases3)
  obtain filled' where e: "spec_enter oid side p q (ob_abs b) = (sb', evs, filled')"
    and r: "res = \<lparr>ar_status = Ok, ar_filled = filled', ar_resting = q - filled'\<rparr>"
    using s fresh p q by (auto simp: spec_add_def split: prod.splits)
  note E = ob_enter_refines[OF inv side fresh p m e]
  show ?thesis using False m r E
    by (cases "q - filled = 0") (auto simp: ob_add_def Let_def)
qed

section \<open>Finding an order through the index\<close>

lemma map_nodes_level:
  assumes "side_ok s mp" "n \<in> set (map_nodes mp)"
  obtains m1 l m2 ns1 ns2 where "mp = m1 @ (o_price (snd n), l) # m2" "lv_orders l = ns1 @ n # ns2"
proof -
  obtain p l where l: "(p, l) \<in> set mp" "n \<in> set (lv_orders l)"
    using assms(2) by (auto simp: map_nodes_def)
  then have "p = o_price (snd n)" using assms(1) by (auto simp: side_ok_def level_ok_def)
  then show ?thesis using split_list[OF l(1)] split_list[OF l(2)] that by blast
qed

text \<open>
  Where a live handle leads: to a level of its side and a node in it, which the dereferences reach.
\<close>

definition ob_located :: "order_book \<Rightarrow> order_id \<Rightarrow> handle \<Rightarrow> order \<Rightarrow> side_map \<Rightarrow> level \<Rightarrow> side_map \<Rightarrow>
    level_queue \<Rightarrow> level_queue \<Rightarrow> bool" where
  "ob_located b oid h ord m1 l m2 ns1 ns2 \<longleftrightarrow> valid_side (h_side h) \<and>
     ob_side (h_side h) b = m1 @ (h_price h, l) # m2 \<and> lv_orders l = ns1 @ (h_it h, ord) # ns2 \<and>
     o_id ord = oid \<and> o_price ord = h_price h \<and> o_side ord = h_side h"

lemma ob_lookup:
  assumes inv: "ob_core b" and h: "map_of (ob_index b) oid = Some h"
  obtains ord m1 l m2 ns1 ns2 where "ob_located b oid h ord m1 l m2 ns1 ns2"
    "ob_deref b (h_it h) = Some ord"
    "spec_find (ob_abs b) oid = Some (h_side h, rs_of (h_it h, ord))"
proof -
  have "(oid, h) \<in> set (ob_entries b)" using inv h index_ok_Some[of "ob_index b"] by (auto simp: ob_core_def)
  then have "(oid, h) \<in> set (side_entries Buy b) \<or> (oid, h) \<in> set (side_entries Sell b)"
    by (simp add: ob_entries_def ob_side_def)
  then obtain s where s: "valid_side s" and "(oid, h) \<in> set (side_entries s b)" by blast
  then obtain n where n: "n \<in> set (side_nodes s b)" "node_entry s n = (oid, h)" by auto
  obtain ord where ord: "n = (h_it h, ord)" "o_id ord = oid" "h_side h = s" "h_price h = o_price ord"
    using n(2) by (cases n) (auto simp: node_entry_def)
  have ok: "side_ok s (ob_side s b)" and si: "spec_inv (ob_abs b)" using inv by (auto simp: ob_core_side[OF s])
  obtain m1 l m2 ns1 ns2 where "ob_side s b = m1 @ (o_price (snd n), l) # m2" "lv_orders l = ns1 @ n # ns2"
    by (rule map_nodes_level[OF ok n(1)])
  then have "ob_located b oid h ord m1 l m2 ns1 ns2"
    using s ord map_nodes_price[OF ok n(1)] by (simp add: ob_located_def)
  moreover have "(h_it h, ord) \<in> set (ob_nodes b)"
    using n(1) s ord(1) by (auto simp: ob_nodes_def ob_side_def)
  then have "ob_deref b (h_it h) = Some ord" using inv by (simp add: ob_deref_def ob_core_def)
  moreover have "rs_of n \<in> set (queue_of s (ob_abs b))" using n(1) by simp
  from spec_find_eq[OF si s this] have "spec_find (ob_abs b) oid = Some (h_side h, rs_of (h_it h, ord))"
    by (simp add: ord)
  ultimately show ?thesis by (rule that)
qed

text \<open>What the uniqueness of keys says about the parts around a located node.\<close>

lemma ob_located_unique:
  assumes inv: "ob_core b" and loc: "ob_located b oid h ord m1 l m2 ns1 ns2"
  shows "map_of (m1 @ (h_price h, l) # m2) (h_price h) = Some l"
    "h_price h \<notin> fst ` set m1" "h_price h \<notin> fst ` set m2"
    "distinct (map fst (map_nodes m1 @ (ns1 @ (h_it h, ord) # ns2) @ map_nodes m2))"
    "h_it h \<notin> fst ` set (side_nodes (opp (h_side h)) b)"
    "distinct (map (o_id \<circ> snd) (map_nodes m1 @ (ns1 @ (h_it h, ord) # ns2) @ map_nodes m2))"
    "oid \<notin> (o_id \<circ> snd) ` set (side_nodes (opp (h_side h)) b)"
proof -
  have s: "valid_side (h_side h)" using loc by (simp add: ob_located_def)
  note I = inv[unfolded ob_core_side[OF s]]
  have "distinct (map fst (m1 @ (h_price h, l) # m2))"
    using I loc by (intro better.sorted_distinct[of "h_side h"]) (simp add: ob_located_def side_ok_def)
  then show "h_price h \<notin> fst ` set m1" "h_price h \<notin> fst ` set m2"
    "map_of (m1 @ (h_price h, l) # m2) (h_price h) = Some l" by (auto simp: map_add_Some_iff map_of_eq_None_iff)
  show "distinct (map fst (map_nodes m1 @ (ns1 @ (h_it h, ord) # ns2) @ map_nodes m2))"
    "h_it h \<notin> fst ` set (side_nodes (opp (h_side h)) b)"
    using I loc by (auto simp: ob_located_def)
  have "distinct (map fst (side_entries (h_side h) b @ side_entries (opp (h_side h)) b))"
    using I by (simp add: index_ok_def)
  then show "distinct (map (o_id \<circ> snd) (map_nodes m1 @ (ns1 @ (h_it h, ord) # ns2) @ map_nodes m2))"
    "oid \<notin> (o_id \<circ> snd) ` set (side_nodes (opp (h_side h)) b)"
    using loc by (auto simp: ob_located_def)
qed

section \<open>Removing and reducing an order\<close>

lemma level_ok_delete:
  assumes "level_ok s p l" "lv_orders l = ns1 @ (a, ord) # ns2" "ns1 @ ns2 \<noteq> []"
  shows "level_ok s p \<lparr>lv_total = lv_total l - o_open ord, lv_orders = ns1 @ ns2\<rparr>"
  using assms by (fastforce simp: level_ok_def)

lemma ob_erase_from_located:
  assumes inv: "ob_core b" and loc: "ob_located b oid h ord m1 l m2 ns1 ns2"
  shows "\<exists>mp'. ob_erase_from (better (h_side h)) (ob_side (h_side h) b) h = Some mp' \<and> side_ok (h_side h) mp' \<and>
    map_nodes mp' = map_nodes m1 @ (ns1 @ ns2) @ map_nodes m2"
proof -
  let ?s = "h_side h" and ?p = "h_price h"
  let ?l' = "\<lparr>lv_total = lv_total l - o_open ord, lv_orders = ns1 @ ns2\<rparr>"
  let ?mp = "if ns1 @ ns2 = [] then m1 @ m2 else m1 @ (?p, ?l') # m2"
  note U = ob_located_unique[OF inv loc]
  have s: "valid_side ?s" and mp: "ob_side ?s b = m1 @ (?p, l) # m2"
    and os: "lv_orders l = ns1 @ (h_it h, ord) # ns2" using loc by (auto simp: ob_located_def)
  have ok: "side_ok ?s (m1 @ (?p, l) # m2)" using inv mp by (auto simp: ob_core_side[OF s])
  then have b1: "\<forall>x\<in>set m1. better ?s (fst x) ?p" and lok: "level_ok ?s ?p l" by (auto simp: side_ok_append)
  have "AList.delete ?p (m1 @ (?p, l) # m2) = m1 @ m2"
    using U(2,3) ok by (intro delete_split better.sorted_distinct[of ?s]) (simp add: side_ok_def)
  moreover have D: "distinct (map fst (ns1 @ (h_it h, ord) # ns2))"
    using U(4) unfolding map_append distinct_append by blast
  then have "AList.delete (h_it h) (lv_orders l) = ns1 @ ns2" unfolding os by (rule delete_split)
  moreover have "map_of (lv_orders l) (h_it h) = Some ord"
    unfolding os using D by (rule map_of_is_SomeI) simp
  ultimately have "ob_erase_from (better ?s) (ob_side ?s b) h = Some ?mp"
    using U(1) better.omap_upd_split[OF b1] by (simp add: ob_erase_from_def mp Let_def)
  moreover have "side_ok ?s ?mp"
    using ok level_ok_delete[OF lok os] by (auto simp: side_ok_append dest: better.trans)
  ultimately show ?thesis by (intro exI[of _ ?mp]) simp
qed

lemma ob_remove_core:
  assumes inv: "ob_core b" and loc: "ob_located b oid h ord m1 l m2 ns1 ns2"
  shows "\<exists>b'. ob_remove b oid h = Some b' \<and> ob_core b' \<and> ob_abs b' = spec_remove oid (ob_abs b) \<and>
    fst ` set (ob_nodes b') \<subseteq> fst ` set (ob_nodes b) \<and> ob_next_node b' = ob_next_node b"
proof -
  let ?s = "h_side h"
  note U = ob_located_unique[OF inv loc]
  have s: "valid_side ?s" and mp: "ob_side ?s b = m1 @ (h_price h, l) # m2" and oid: "o_id ord = oid"
    and os: "lv_orders l = ns1 @ (h_it h, ord) # ns2" using loc by (auto simp: ob_located_def)
  obtain mp' where E: "ob_erase_from (better ?s) (ob_side ?s b) h = Some mp'" and ok: "side_ok ?s mp'"
    and nodes: "map_nodes mp' = map_nodes m1 @ (ns1 @ ns2) @ map_nodes m2"
    using ob_erase_from_located[OF inv loc] by blast
  let ?b = "(ob_set_side ?s mp' b)\<lparr>ob_index := AList.delete oid (ob_index b)\<rparr>"
  have R: "ob_remove b oid h = Some ?b"
    using E s by (auto simp: ob_remove_def ob_side_def ob_set_side_def better_fun)
  have A: "ob_abs ?b = spec_remove oid (ob_abs b)"
    using s U(6,7) oid
    by (subst spec_remove_split[where xs = "map rs_of (map_nodes m1 @ ns1)" and r = "rs_of (h_it h, ord)"
          and ys = "map rs_of (ns2 @ map_nodes m2)" and s = ?s])
      (auto simp: mp os nodes comp_def image_image)
  have "index_ok (AList.delete oid (ob_index b)) (map (node_entry ?s) (map_nodes mp') @ side_entries (opp ?s) b)"
  proof -
    have "index_ok (ob_index b) (side_entries ?s b @ side_entries (opp ?s) b)"
      using inv by (simp add: ob_core_side[OF s])
    from index_ok_delete[OF this, of oid] show ?thesis
      using U(6,7) oid filter_key_split[of "o_id \<circ> snd" "map_nodes m1 @ ns1" "(h_it h, ord)" "ns2 @ map_nodes m2"]
      by (simp add: filter_map comp_def mp os nodes filter_key_absent image_image)
  qed
  moreover have sub: "fst ` set (map_nodes mp') \<subseteq> fst ` set (side_nodes ?s b)" by (auto simp: nodes mp os)
  ultimately have "ob_core ?b"
    using ok U(4) A spec_remove_inv(1)[OF ob_core_spec[OF inv], of oid] ob_core_disjoint[OF inv s]
    by (intro ob_core_update[OF inv s]) (auto simp: nodes mp os)
  moreover have "fst ` set (ob_nodes ?b) \<subseteq> fst ` set (ob_nodes b)"
    using sub by (auto simp: ob_nodes_side[OF s] image_Un)
  ultimately show ?thesis using R A by auto
qed

lemma ob_remove_refines:
  assumes "ob_inv b" "ob_located b oid h ord m1 l m2 ns1 ns2"
  shows "\<exists>b'. ob_remove b oid h = Some b' \<and> ob_inv b' \<and> ob_abs b' = spec_remove oid (ob_abs b)"
  using ob_remove_core[OF ob_inv_core[OF assms(1)] assms(2)] ob_inv_shrink[OF assms(1)] by blast

lemma node_set_open_absent: "a \<notin> fst ` set ns \<Longrightarrow> node_set_open a q ns = ns"
  by (induction ns) (auto simp: node_set_open_def)

lemma map_set_open_absent: "a \<notin> fst ` set (map_nodes mp) \<Longrightarrow> map_set_open a q mp = mp"
  by (induction mp) (auto simp: map_set_open_def node_set_open_absent image_Un)

lemma map_set_open_split:
  assumes "lv_orders l = ns1 @ (a, ord) # ns2"
    "distinct (map fst (map_nodes m1 @ (ns1 @ (a, ord) # ns2) @ map_nodes m2))"
  shows "map_set_open a q (m1 @ (p, l) # m2) =
    m1 @ (p, l\<lparr>lv_orders := ns1 @ (a, ord\<lparr>o_open := q\<rparr>) # ns2\<rparr>) # m2"
proof -
  have "a \<notin> fst ` set (map_nodes m1)" "a \<notin> fst ` set (map_nodes m2)" "a \<notin> fst ` set ns1" "a \<notin> fst ` set ns2"
    using assms(2) by auto
  then have "map_set_open a q m1 = m1" "map_set_open a q m2 = m2"
    "node_set_open a q ns1 = ns1" "node_set_open a q ns2 = ns2"
    by (simp_all only: map_set_open_absent node_set_open_absent not_False_eq_True)
  then show ?thesis using assms(1) by (simp add: map_set_open_def) (simp add: node_set_open_def)
qed

lemma map_sub_total_split:
  "p \<notin> fst ` set m1 \<Longrightarrow> p \<notin> fst ` set m2 \<Longrightarrow>
   map_sub_total p c (m1 @ (p, l) # m2) = Some (m1 @ (p, l\<lparr>lv_total := lv_total l - c\<rparr>) # m2)"
proof -
  have "p \<notin> fst ` set mp \<Longrightarrow> map (\<lambda>(p', l). (p', if p' = p then l\<lparr>lv_total := lv_total l - c\<rparr> else l)) mp = mp"
    for mp :: side_map by (induction mp) auto
  then show "p \<notin> fst ` set m1 \<Longrightarrow> p \<notin> fst ` set m2 \<Longrightarrow> ?thesis"
    by (simp add: map_sub_total_def map_add_def split: option.splits)
qed

text \<open>The partial cancel of \<open>ob_cancel\<close>: the open quantity through the iterator, then the level total.\<close>

lemma ob_reduce_core:
  assumes inv: "ob_core b" and loc: "ob_located b oid h ord m1 l m2 ns1 ns2" and q: "q \<noteq> 0"
    and b1: "b1 = b\<lparr>ob_bids := map_set_open (h_it h) q (ob_bids b), ob_asks := map_set_open (h_it h) q (ob_asks b)\<rparr>"
  shows "\<exists>b'. (if h_side h = Buy then
        map_option (\<lambda>mp. b1\<lparr>ob_bids := mp\<rparr>) (map_sub_total (h_price h) (o_open ord - q) (ob_bids b1))
      else map_option (\<lambda>mp. b1\<lparr>ob_asks := mp\<rparr>) (map_sub_total (h_price h) (o_open ord - q) (ob_asks b1))) = Some b' \<and>
    ob_core b' \<and> ob_abs b' = spec_reduce oid q (ob_abs b) \<and>
    fst ` set (ob_nodes b') \<subseteq> fst ` set (ob_nodes b) \<and> ob_next_node b' = ob_next_node b \<and>
    b' = ob_set_side (h_side h) (m1 @ (h_price h, \<lparr>lv_total = lv_total l - (o_open ord - q),
      lv_orders = ns1 @ (h_it h, ord\<lparr>o_open := q\<rparr>) # ns2\<rparr>) # m2) b"
proof -
  let ?s = "h_side h" and ?p = "h_price h"
  note U = ob_located_unique[OF inv loc]
  have s: "valid_side ?s" and mp: "ob_side ?s b = m1 @ (?p, l) # m2" and oid: "o_id ord = oid"
    and os: "lv_orders l = ns1 @ (h_it h, ord) # ns2"
    and os': "o_price ord = ?p" "o_side ord = ?s" using loc by (auto simp: ob_located_def)
  let ?l = "\<lparr>lv_total = lv_total l - (o_open ord - q), lv_orders = ns1 @ (h_it h, ord\<lparr>o_open := q\<rparr>) # ns2\<rparr>"
  let ?b = "ob_set_side ?s (m1 @ (?p, ?l) # m2) b"
  have "map_set_open (h_it h) q (ob_side (opp ?s) b) = ob_side (opp ?s) b" by (rule map_set_open_absent[OF U(5)])
  moreover have "map_sub_total ?p (o_open ord - q) (map_set_open (h_it h) q (m1 @ (?p, l) # m2)) =
      Some (m1 @ (?p, ?l) # m2)"
    by (simp add: map_set_open_split[OF os U(4)] map_sub_total_split[OF U(2,3)])
  ultimately have R: "(if h_side h = Buy then
        map_option (\<lambda>mp. b1\<lparr>ob_bids := mp\<rparr>) (map_sub_total ?p (o_open ord - q) (ob_bids b1))
      else map_option (\<lambda>mp. b1\<lparr>ob_asks := mp\<rparr>) (map_sub_total ?p (o_open ord - q) (ob_asks b1))) = Some ?b"
    using s mp by (auto simp: b1 ob_side_def ob_set_side_def)
  have A: "ob_abs ?b = spec_reduce oid q (ob_abs b)"
    using s U(6,7) oid
    by (subst spec_reduce_split[where xs = "map rs_of (map_nodes m1 @ ns1)" and r = "rs_of (h_it h, ord)"
          and ys = "map rs_of (ns2 @ map_nodes m2)" and s = ?s])
      (auto simp: mp os comp_def image_image)
  have I: "side_ok ?s (m1 @ (?p, l) # m2)" "spec_inv (ob_abs b)"
    "index_ok (ob_index b) (side_entries ?s b @ side_entries (opp ?s) b)"
    using inv mp by (auto simp: ob_core_side[OF s])
  have "level_ok ?s ?p ?l" using I(1) os os' by (fastforce simp: side_ok_append level_ok_def)
  then have "side_ok ?s (m1 @ (?p, ?l) # m2)" using I(1) by (simp add: side_ok_append)
  then have "ob_core ?b" using U(4) A spec_reduce_inv(1)[OF I(2) q, of oid] I(3) ob_core_disjoint[OF inv s]
    by (intro ob_core_update[OF inv s]) (auto simp: mp os)
  moreover have "fst ` set (ob_nodes ?b) \<subseteq> fst ` set (ob_nodes b)"
    by (auto simp: ob_nodes_side[OF s] image_Un mp os)
  ultimately show ?thesis using R A by auto
qed

section \<open>Cancel and replace\<close>

lemma ob_cancel_refines:
  assumes inv: "ob_inv b" and s: "spec_cancel (ob_abs b) oid keep = (sb', evs, res)"
  shows "\<exists>b'. ob_cancel b oid keep = Some (b', evs, res) \<and> ob_inv b' \<and> ob_abs b' = sb'"
proof (cases "map_of (ob_index b) oid")
  case None
  then have "spec_find (ob_abs b) oid = None" using ob_index_ids[OF ob_inv_core[OF inv]] by (simp add: spec_find_None)
  then show ?thesis using s inv None by (simp add: spec_cancel_def ob_cancel_def)
next
  case (Some h)
  obtain ord m1 l m2 ns1 ns2 where L: "ob_located b oid h ord m1 l m2 ns1 ns2"
    and D: "ob_deref b (h_it h) = Some ord"
    and F: "spec_find (ob_abs b) oid = Some (h_side h, rs_of (h_it h, ord))" by (rule ob_lookup[OF ob_inv_core[OF inv] Some])
  consider "keep \<ge> o_open ord" | "\<not> keep \<ge> o_open ord" "keep = 0" | "\<not> keep \<ge> o_open ord" "keep \<noteq> 0" by blast
  then show ?thesis
  proof cases
    case 1 then show ?thesis using s inv by (simp add: spec_cancel_def ob_cancel_def F D Some)
  next
    case 2 then show ?thesis using s ob_remove_refines[OF inv L]
      by (auto simp: spec_cancel_def ob_cancel_def F D Some)
  next
    case 3 then show ?thesis using s ob_reduce_core[OF ob_inv_core[OF inv] L 3(2) refl] ob_inv_shrink[OF inv]
      by (auto simp: spec_cancel_def ob_cancel_def F D Some Let_def)
  qed
qed

lemma side_ok_hd:
  assumes "side_ok s mp" "mp \<noteq> []"
  shows "map_nodes mp \<noteq> []" "o_price (snd (hd (map_nodes mp))) = fst (hd mp)"
  using assms by (cases mp; auto simp: level_ok_def)+

lemma map_nodes_Nil: "side_ok s mp \<Longrightarrow> map_nodes mp = [] \<longleftrightarrow> mp = []"
  using side_ok_hd by (cases "mp = []") auto

lemma ob_best_side:
  assumes "ob_core b" "valid_side s"
  shows "spec_best s (ob_abs b) = (if ob_side s b = [] then None else Some (fst (hd (ob_side s b))))"
proof -
  have ok: "side_ok s (ob_side s b)" using assms by (simp add: ob_core_side)
  show ?thesis
  proof (cases "ob_side s b = []")
    case False
    then obtain n ns where "side_nodes s b = n # ns" using side_ok_hd(1)[OF ok] by (cases "side_nodes s b") auto
    then show ?thesis using False side_ok_hd(2)[OF ok False] by (simp add: spec_best_def)
  qed (simp add: spec_best_def)
qed

lemma ob_best_refines:
  assumes "ob_core b"
  shows "ob_best_bid b = spec_best Buy (ob_abs b)" "ob_best_ask b = spec_best Sell (ob_abs b)"
  using ob_best_side[OF assms] by (simp_all add: ob_best_bid_def ob_best_ask_def ob_side_def)

lemma spec_would_cross_best:
  "spec_would_cross sb s p \<longleftrightarrow> (case spec_best (opp s) sb of None \<Rightarrow> False | Some x \<Rightarrow> crosses s p x)"
  by (simp add: spec_would_cross_def spec_best_def split: list.splits)

lemma ob_would_cross_refines:
  assumes "ob_core b" "valid_side s"
  shows "ob_would_cross b s p = spec_would_cross (ob_abs b) s p"
  using assms ob_best_side[OF assms(1), of "opp s"]
  by (auto simp: spec_would_cross_best ob_would_cross_def ob_side_def)

lemma ob_replace_refines:
  assumes inv: "ob_inv b" and s: "spec_replace (ob_abs b) old_id new_id p q = (sb', evs, res)"
  shows "\<exists>b'. ob_replace b old_id new_id p q = Some (b', evs, res) \<and> ob_inv b' \<and> ob_abs b' = sb'"
proof (cases "map_of (ob_index b) old_id")
  case None
  then have "spec_find (ob_abs b) old_id = None" using ob_index_ids[OF ob_inv_core[OF inv]] by (simp add: spec_find_None)
  then show ?thesis using s inv None by (simp add: spec_replace_def ob_replace_def)
next
  case (Some h)
  obtain ord m1 l m2 ns1 ns2 where L: "ob_located b old_id h ord m1 l m2 ns1 ns2"
    and D: "ob_deref b (h_it h) = Some ord"
    and F: "spec_find (ob_abs b) old_id = Some (h_side h, rs_of (h_it h, ord))" by (rule ob_lookup[OF ob_inv_core[OF inv] Some])
  have side: "valid_side (h_side h)" using L by (simp add: ob_located_def)
  show ?thesis
  proof (cases "new_id = old_id \<or> map_of (ob_index b) new_id \<noteq> None \<or> p \<le> 0 \<or> q = 0")
    case True
    then show ?thesis using s inv ob_index_ids[OF ob_inv_core[OF inv], of new_id]
      by (auto simp: spec_replace_def ob_replace_def F Some)
  next
    case ok: False
    obtain b1 where R: "ob_remove b old_id h = Some b1" and I: "ob_inv b1"
      and A: "ob_abs b1 = spec_remove old_id (ob_abs b)" using ob_remove_refines[OF inv L] by blast
    have si: "spec_inv (ob_abs b)" using inv by (simp add: ob_inv_def ob_core_def)
    have fresh: "new_id \<notin> set (spec_ids (ob_abs b))" "new_id \<notin> set (spec_ids (ob_abs b1))" and p: "p > 0" and q: "q > 0"
      using ok ob_index_ids[OF ob_inv_core[OF inv], of new_id] spec_remove_inv(2)[OF si, of old_id] A by auto
    note defs = spec_replace_def ob_replace_def F Some D R Let_def ob_would_cross_refines[OF ob_inv_core[OF I] side] A
    show ?thesis
    proof (cases "spec_would_cross (ob_abs b1) (h_side h) p")
      case True
      obtain b2 filled evs1 where m: "ob_match_book b1 new_id (h_side h) p q = (b2, filled, evs1)"
        by (metis prod_cases3)
      obtain sb2 evs2 filled2 where e: "spec_enter new_id (h_side h) p q (ob_abs b1) = (sb2, evs2, filled2)"
        by (metis prod_cases3)
      note E = ob_enter_refines[OF I side fresh(2) p m e]
      show ?thesis using s True ok fresh m e E
        by (cases "q - filled = 0") (auto simp: defs)
    next
      case False
      then have "spec_inv (spec_rest new_id (h_side h) p q (ob_abs b1))"
        using spec_replace_inv[OF si, of old_id new_id p q] ok fresh(1) by (simp add: defs)
      from ob_rest_refines[OF I side fresh(2) this] show ?thesis using s False ok fresh
        by (auto simp: defs)
    qed
  qed
qed

section \<open>The snapshot and the invariant check\<close>

lemma ob_fill_levels_refines: "side_ok s mp \<Longrightarrow> ob_fill_levels mp = group_levels (map rs_of (map_nodes mp))"
proof (induction mp)
  case (Cons x mp)
  obtain p l where x: "x = (p, l)" by (cases x)
  have ok: "level_ok s p l" "side_ok s mp" "\<forall>y\<in>set mp. better s p (fst y)" using Cons.prems by (auto simp: x)
  have "map rs_of (map_nodes mp) = [] \<or> rs_price (hd (map rs_of (map_nodes mp))) \<noteq> p"
  proof (cases "mp = []")
    case False
    then have "better s p (fst (hd mp))" using ok(3) by simp
    then show ?thesis using side_ok_hd[OF ok(2) False] better.irrefl[of s p] by (auto simp: hd_map)
  qed simp
  from group_levels_block[OF _ _ this, of "map rs_of (lv_orders l)"] show ?case
    using ok(1) Cons.IH[OF ok(2)] by (auto simp: x ob_fill_levels_def level_ok_def case_prod_unfold)
qed (simp add: ob_fill_levels_def)

lemma ob_snapshot_refines: "ob_core b \<Longrightarrow> ob_snapshot b = spec_snapshot (ob_abs b)"
  using ob_fill_levels_refines[of Buy "ob_bids b"] ob_fill_levels_refines[of Sell "ob_asks b"]
  by (simp add: ob_snapshot_def spec_snapshot_def ob_core_def) (simp add: ob_abs_def)

lemma ob_check_orders_ok:
  assumes "\<forall>n\<in>set ns. o_open (snd n) \<noteq> 0 \<and> o_price (snd n) = p \<and> o_side (snd n) = s \<and>
    map_of idx (o_id (snd n)) = Some \<lparr>h_side = s, h_price = p, h_it = fst n\<rparr>"
  shows "ob_check_orders idx p s acc ns = Inr (acc + (\<Sum>n\<leftarrow>ns. o_open (snd n)))"
  using assms by (induction ns arbitrary: acc) (auto simp: add.assoc)

lemma ob_check_side_ok:
  assumes "side_ok s mp"
    and "\<forall>n\<in>set (map_nodes mp). o_open (snd n) \<noteq> 0 \<and> map_of idx (o_id (snd n)) = Some (snd (node_entry s n))"
  shows "ob_check_side idx s cnt mp = Inr (cnt + length (map_nodes mp))"
  using assms
proof (induction mp arbitrary: cnt)
  case (Cons x mp)
  obtain p l where x: "x = (p, l)" by (cases x)
  have l: "level_ok s p l" using Cons.prems by (simp add: x)
  then have "ob_check_orders idx p s 0 (lv_orders l) = Inr (0 + (\<Sum>n\<leftarrow>lv_orders l. o_open (snd n)))"
    using Cons.prems by (intro ob_check_orders_ok) (auto simp: x level_ok_def node_entry_def)
  then show ?case using Cons l by (simp add: x level_ok_def)
qed simp

lemma ob_check_invariants_ok:
  assumes inv: "ob_core b"
  shows "ob_check_invariants b = Inr ()"
proof -
  have ok: "side_ok Buy (ob_bids b)" "side_ok Sell (ob_asks b)" and si: "spec_inv (ob_abs b)"
    and ix: "index_ok (ob_index b) (ob_entries b)" using inv by (auto simp: ob_core_def)
  have e: "map_of (ob_index b) (o_id (snd n)) = Some (snd (node_entry s n))"
    if "node_entry s n \<in> set (ob_entries b)" for s n
    using that index_ok_Some[OF ix] by (cases "node_entry s n") (auto simp: node_entry_def)
  have "\<forall>n\<in>set (map_nodes (ob_bids b)). o_open (snd n) \<noteq> 0" "\<forall>n\<in>set (map_nodes (ob_asks b)). o_open (snd n) \<noteq> 0"
    using spec_inv_queue(2)[OF si, of Buy] spec_inv_queue(2)[OF si, of Sell] by (simp_all add: ob_side_def)
  then have c: "ob_check_side (ob_index b) Buy 0 (ob_bids b) = Inr (0 + length (map_nodes (ob_bids b)))"
    "ob_check_side (ob_index b) Sell n (ob_asks b) = Inr (n + length (map_nodes (ob_asks b)))" for n
    using ok e by (intro ob_check_side_ok; simp add: ob_entries_def)+
  have "length (ob_index b) = length (map_nodes (ob_bids b)) + length (map_nodes (ob_asks b))"
    using index_ok_length[OF ix] by (simp add: ob_entries_def)
  moreover have "fst (hd (ob_bids b)) < fst (hd (ob_asks b))" if "ob_bids b \<noteq> []" "ob_asks b \<noteq> []"
  proof -
    have "hd (map_nodes (ob_bids b)) \<in> set (map_nodes (ob_bids b))" "hd (map_nodes (ob_asks b)) \<in> set (map_nodes (ob_asks b))"
      using side_ok_hd(1)[OF ok(1)] side_ok_hd(1)[OF ok(2)] that by auto
    then have "o_price (snd (hd (map_nodes (ob_bids b)))) < o_price (snd (hd (map_nodes (ob_asks b))))"
      using si by (simp add: spec_inv_def ob_abs_def)
    then show ?thesis using side_ok_hd(2)[OF ok(1)] side_ok_hd(2)[OF ok(2)] that by simp
  qed
  ultimately show ?thesis using c by (auto simp: ob_check_invariants_def)
qed

section \<open>The reference book implements the interface\<close>

definition ob_add_opt :: "order_book add_fn" where
  "ob_add_opt b oid side p q = Some (ob_add b oid side p q)"

text \<open>The simulation is functional here: the abstract book is read off the concrete one.\<close>

definition ob_sim :: "order_book \<Rightarrow> spec_book \<Rightarrow> bool" where
  "ob_sim b sb \<longleftrightarrow> ob_inv b \<and> ob_abs b = sb"

lemma ob_inv_spec: "ob_inv b \<Longrightarrow> spec_inv (ob_abs b)"
  by (simp add: ob_inv_def ob_core_def)

interpretation ref_book: matching_book ob_sim "\<lambda>_. True" "\<lambda>b. b = ob_empty" ob_add_opt ob_cancel ob_replace
  "\<lambda>b. Some (ob_snapshot b)"
  by unfold_locales (use ob_add_refines ob_cancel_refines ob_replace_refines ob_snapshot_refines ob_inv_empty
      ob_inv_spec ob_inv_core in \<open>auto simp: ob_add_opt_def ob_sim_def\<close>)

end
