(* ===== verification/Order_Book_Props.thy ===== *)
theory Order_Book_Props
  imports Order_Book_Refine
begin

text \<open>
  What the reference book guarantees, for every book its operations can reach: the invariant check
  of the code never fails, matching is in price-time priority, conserves shares and leaves nothing
  that could still trade, and cancel and replace treat priority as the exchange rules say.
\<close>

section \<open>Reachable books\<close>

inductive ob_reachable :: "order_book \<Rightarrow> bool" where
  ob_reachable_new: "ob_reachable ob_empty"
| ob_reachable_add: "ob_reachable b \<Longrightarrow> valid_side side \<Longrightarrow> ob_add b oid side p q = (b', evs, r) \<Longrightarrow> ob_reachable b'"
| ob_reachable_cancel: "ob_reachable b \<Longrightarrow> ob_cancel b oid keep = Some (b', evs, f) \<Longrightarrow> ob_reachable b'"
| ob_reachable_replace: "ob_reachable b \<Longrightarrow> ob_replace b old_id new_id p q = Some (b', evs, f) \<Longrightarrow> ob_reachable b'"

lemma ob_add_inv:
  assumes "ob_inv b" "valid_side side" "ob_add b oid side p q = (b', evs, r)"
  shows "ob_inv b'" "spec_add (ob_abs b) oid side p q = (ob_abs b', evs, r)"
proof -
  obtain sb e r' where s: "spec_add (ob_abs b) oid side p q = (sb, e, r')" by (metis prod_cases3)
  from ob_add_refines[OF assms(1,2) s] assms(3) s show "ob_inv b'"
    "spec_add (ob_abs b) oid side p q = (ob_abs b', evs, r)" by auto
qed

lemma ob_cancel_inv:
  assumes "ob_inv b" "ob_cancel b oid keep = Some (b', evs, f)"
  shows "ob_inv b'" "spec_cancel (ob_abs b) oid keep = (ob_abs b', evs, f)"
proof -
  obtain sb e f' where s: "spec_cancel (ob_abs b) oid keep = (sb, e, f')" by (metis prod_cases3)
  from ob_cancel_refines[OF assms(1) s] assms(2) s show "ob_inv b'"
    "spec_cancel (ob_abs b) oid keep = (ob_abs b', evs, f)" by auto
qed

lemma ob_replace_inv:
  assumes "ob_inv b" "ob_replace b old_id new_id p q = Some (b', evs, f)"
  shows "ob_inv b'" "spec_replace (ob_abs b) old_id new_id p q = (ob_abs b', evs, f)"
proof -
  obtain sb e f' where s: "spec_replace (ob_abs b) old_id new_id p q = (sb, e, f')" by (metis prod_cases3)
  from ob_replace_refines[OF assms(1) s] assms(2) s show "ob_inv b'"
    "spec_replace (ob_abs b) old_id new_id p q = (ob_abs b', evs, f)" by auto
qed

lemma ob_reachable_inv: "ob_reachable b \<Longrightarrow> ob_inv b"
  by (induction rule: ob_reachable.induct)
    (auto intro: ob_inv_empty ob_add_inv(1) ob_cancel_inv(1) ob_replace_inv(1))

text \<open>A small book for the examples: two asks at 100, one at 101, one bid at 95.\<close>

definition demo_book :: order_book where
  "demo_book = fst (ob_add (fst (ob_add (fst (ob_add (fst (ob_add ob_empty
     1 Sell 100 5)) 2 Sell 100 4)) 3 Sell 101 7)) 4 Buy 95 6)"

lemma demo_book_reachable: "ob_reachable demo_book"
proof -
  have *: "ob_reachable (fst (ob_add b oid side p q))" if "ob_reachable b" "valid_side side" for b oid side p q
    using that ob_reachable_add[of b side oid p q] by (metis prod.collapse)
  show ?thesis unfolding demo_book_def by (intro * ob_reachable_new) simp_all
qed

section \<open>Properties\<close>

text \<open>
  C1. No operation on a reachable book dereferences a dangling iterator or a missing level: every
  sequence of adds, cancels and replaces runs to its end, and its events, results and final
  snapshot are those of the abstract price-time priority book.
\<close>

theorem ob_run_refines_spec:
  assumes "\<forall>c\<in>set cs. valid_cmd c" "spec_run spec_empty cs = (sb, outs)"
  shows "\<exists>b. book_run ob_add_opt ob_cancel ob_replace ob_empty cs = Some (b, outs) \<and>
    ob_abs b = sb \<and> ob_snapshot b = spec_snapshot sb \<and> spec_inv sb"
proof -
  from ref_book.run_from_new[OF refl assms(1) room_run_True assms(2)] obtain b where
    "book_run ob_add_opt ob_cancel ob_replace ob_empty cs = Some (b, outs)" "ob_sim b sb"
    "ob_snapshot b = spec_snapshot sb" by auto
  then show ?thesis using ref_book.sim_spec by (auto simp: ob_sim_def)
qed

definition demo_cmds :: "book_cmd list" where
  "demo_cmds = [Add 1 Sell 100 5, Add 2 Sell 100 4, Add 3 Buy 100 7, Cancel 2 1, Replace 2 5 99 3]"

theorem ob_run_refines_spec_witness:
  "\<exists>sb outs b. spec_run spec_empty demo_cmds = (sb, outs) \<and> sb_asks sb = [\<lparr>rs_id = 5, rs_price = 99, rs_qty = 3\<rparr>] \<and>
     book_run ob_add_opt ob_cancel ob_replace ob_empty demo_cmds = Some (b, outs) \<and> ob_abs b = sb"
proof -
  have v: "\<forall>c\<in>set demo_cmds. valid_cmd c" by (simp add: demo_cmds_def)
  obtain sb outs where s: "spec_run spec_empty demo_cmds = (sb, outs)" by (metis surj_pair)
  moreover have "sb_asks (fst (spec_run spec_empty demo_cmds)) = [\<lparr>rs_id = 5, rs_price = 99, rs_qty = 3\<rparr>]"
    by code_simp
  ultimately show ?thesis using ob_run_refines_spec[OF v s] by auto
qed

text \<open>
  C18. \<^verbatim>\<open>check_invariants\<close> never throws on a reachable book: levels are non-empty and at their own
  price, level totals are the sums of the open quantities, the index leads to every resting order
  and to nothing else, and the book is neither crossed nor locked.
\<close>

theorem ob_check_invariants_never_fails:
  assumes "ob_reachable b"
  shows "ob_check_invariants b = Inr ()"
  using assms by (intro ob_check_invariants_ok ob_inv_core ob_reachable_inv)

theorem ob_check_invariants_never_fails_witness: "ob_check_invariants demo_book = Inr ()"
  by (rule ob_check_invariants_never_fails[OF demo_book_reachable])

text \<open>
  C19. Price-time priority: the executions of an incoming order are, in their order, with the first
  orders of the opposite queue, at the resting price; each of these prices is within the limit,
  and an order is filled completely before the next one is touched.
\<close>

theorem ob_add_price_time_priority:
  assumes "ob_reachable b" "valid_side side" "ob_add b oid side p q = (b', evs, res)"
    "Q = queue_of (opp side) (ob_abs b)" "xs = filter is_exec evs"
  shows "prio_sorted (opp side) Q \<and> length xs \<le> length Q \<and>
    map (fst \<circ> ev_fill) xs = map rs_key (take (length xs) Q) \<and>
    (\<forall>i < length xs. crosses side p (rs_price (Q ! i)) \<and> snd (ev_fill (xs ! i)) \<le> rs_qty (Q ! i) \<and>
      (Suc i < length xs \<longrightarrow> snd (ev_fill (xs ! i)) = rs_qty (Q ! i)))"
proof -
  have inv: "ob_inv b" using assms(1) by (rule ob_reachable_inv)
  have Q: "prio_sorted (opp side) Q"
    unfolding assms(4) using inv by (intro spec_inv_queue(1) ob_inv_spec) auto
  note A = ob_add_inv(2)[OF inv assms(2,3)]
  show ?thesis
  proof (cases "ar_status res = Ok")
    case True
    obtain ys mid rs where S: "sweep oid side p (sb_match (ob_abs b)) q Q = (ys, ar_resting res, mid, rs)"
      "xs = ys" unfolding assms(4,5) by (rule spec_add_Ok[OF A True assms(2)]) blast
    have L: "map (fst \<circ> ev_fill) xs = map rs_key (take (length xs) Q)" using sweep_prefix[OF S(1)] S(2) by simp
    then have "length xs \<le> length Q" using arg_cong[OF L, of length]
      unfolding length_map length_take by linarith
    then show ?thesis using Q L sweep_fills[OF S(1)] S(2) by simp
  next
    case False
    then have "xs = []" using A assms(5) by (auto simp: spec_add_def split: if_splits prod.splits)
    then show ?thesis using Q by simp
  qed
qed

theorem ob_add_price_time_priority_witness:
  "\<exists>b' evs res. ob_reachable demo_book \<and> ob_add demo_book 9 Buy 101 11 = (b', evs, res) \<and>
     map (fst \<circ> ev_fill) (filter is_exec evs) = [(1, 100), (2, 100), (3, 101)]"
proof -
  obtain b' evs res where a: "ob_add demo_book 9 Buy 101 11 = (b', evs, res)" by (metis prod_cases3)
  have "length (filter is_exec (fst (snd (ob_add demo_book 9 Buy 101 11)))) = 3"
    "map rs_key (take 3 (queue_of Sell (ob_abs demo_book))) = [(1, 100), (2, 100), (3, 101)]" by code_simp+
  with a ob_add_price_time_priority[OF demo_book_reachable _ a refl refl] demo_book_reachable show ?thesis by simp
qed

text \<open>
  C20. Conservation: the quantity of an accepted order is what it filled plus what it rests with,
  the fill is the sum of its executions, the opposite side loses exactly the fill and the order's
  own side gains exactly the remainder; no 32-bit sum wraps.
\<close>

theorem ob_add_conserves_shares:
  assumes "ob_reachable b" "valid_side side" "ob_add b oid side p q = (b', evs, res)" "ar_status res = Ok"
  shows "unat q = unat (ar_filled res) + unat (ar_resting res) \<and>
    unat (ar_filled res) = (\<Sum>e\<leftarrow>filter is_exec evs. unat (snd (ev_fill e))) \<and>
    shares (queue_of (opp side) (ob_abs b)) = shares (queue_of (opp side) (ob_abs b')) + unat (ar_filled res) \<and>
    shares (queue_of side (ob_abs b')) = shares (queue_of side (ob_abs b)) + unat (ar_resting res)"
proof -
  note A = ob_add_inv(2)[OF ob_reachable_inv[OF assms(1)] assms(2,3)]
  obtain xs mid rs where S: "sweep oid side p (sb_match (ob_abs b)) q (queue_of (opp side) (ob_abs b)) =
      (xs, ar_resting res, mid, rs)" "filter is_exec evs = xs" "ar_filled res = q - ar_resting res"
    "queue_of (opp side) (ob_abs b') = rs"
    "queue_of side (ob_abs b') = (if ar_resting res = 0 then queue_of side (ob_abs b)
       else enqueue side \<lparr>rs_id = oid, rs_price = p, rs_qty = ar_resting res\<rparr> (queue_of side (ob_abs b)))"
    by (rule spec_add_Ok[OF A assms(4,2)])
  have f: "unat (ar_filled res) = unat q - unat (ar_resting res)" "unat (ar_resting res) \<le> unat q"
    using sweep_le[OF S(1)] S(3) by (simp_all add: unat_sub word_le_nat_alt)
  show ?thesis using f sweep_conserves[OF S(1)] sweep_shares[OF S(1)] S(2,4,5) by (auto simp: comp_def)
qed

theorem ob_add_conserves_shares_witness:
  "\<exists>b' evs res. ob_add demo_book 9 Buy 100 11 = (b', evs, res) \<and> ar_status res = Ok \<and>
     11 = unat (ar_filled res) + unat (ar_resting res) \<and> unat (ar_resting res) = 2"
proof -
  obtain b' evs res where a: "ob_add demo_book 9 Buy 100 11 = (b', evs, res)" by (metis prod_cases3)
  have "ar_status (snd (snd (ob_add demo_book 9 Buy 100 11))) = Ok"
    "unat (ar_resting (snd (snd (ob_add demo_book 9 Buy 100 11)))) = 2" by code_simp+
  with a ob_add_conserves_shares[OF demo_book_reachable _ a] show ?thesis by simp
qed

text \<open>
  C21. Matching is maximal: an order rests only if nothing is left on the other side that its limit
  could still trade with.
\<close>

theorem ob_add_rests_only_uncrossed:
  assumes "ob_reachable b" "valid_side side" "ob_add b oid side p q = (b', evs, res)" "ar_resting res \<noteq> 0"
  shows "\<forall>r\<in>set (queue_of (opp side) (ob_abs b')). \<not> crosses side p (rs_price r)"
proof -
  have inv: "ob_inv b" using assms(1) by (rule ob_reachable_inv)
  note A = ob_add_inv(2)[OF inv assms(2,3)]
  have ok: "ar_status res = Ok" using A assms(4) by (auto simp: spec_add_def split: if_splits prod.splits)
  have "prio_sorted (opp side) (queue_of (opp side) (ob_abs b))"
    using inv by (intro spec_inv_queue(1) ob_inv_spec) auto
  then show ?thesis using assms(4) spec_add_Ok[OF A ok assms(2)] sweep_maximal by metis
qed

theorem ob_add_rests_only_uncrossed_witness:
  "\<exists>b' evs res. ob_add demo_book 9 Buy 100 11 = (b', evs, res) \<and>
     (\<forall>r\<in>set (queue_of Sell (ob_abs b')). \<not> crosses Buy 100 (rs_price r)) \<and>
     map rs_id (queue_of Sell (ob_abs b')) = [3]"
proof -
  obtain b' evs res where a: "ob_add demo_book 9 Buy 100 11 = (b', evs, res)" by (metis prod_cases3)
  have "ar_resting (snd (snd (ob_add demo_book 9 Buy 100 11))) \<noteq> 0"
    "map rs_id (queue_of Sell (ob_abs (fst (ob_add demo_book 9 Buy 100 11)))) = [3]" by code_simp+
  with a ob_add_rests_only_uncrossed[OF demo_book_reachable _ a] show ?thesis by simp
qed

text \<open>What the position of an order in its queue says about it.\<close>

lemma queue_position:
  assumes "spec_inv sb" "valid_side s" "queue_of s sb = xs @ r # ys"
  shows "spec_find sb (rs_id r) = Some (s, r)" "distinct (map rs_id (xs @ r # ys))"
    "rs_id r \<notin> rs_id ` set (queue_of (opp s) sb)"
proof -
  show "spec_find sb (rs_id r) = Some (s, r)" using assms by (intro spec_find_eq) auto
  have d: "distinct (map rs_id (queue_of s sb))" "rs_id ` set (queue_of s sb) \<inter> rs_id ` set (queue_of (opp s) sb) = {}"
    using assms(1,2) by (auto simp: spec_inv_def spec_ids_def queue_of_def opp_def)
  show "distinct (map rs_id (xs @ r # ys))" using d(1) assms(3) by simp
  have "rs_id r \<in> rs_id ` set (queue_of s sb)" using assms(3) by simp
  then show "rs_id r \<notin> rs_id ` set (queue_of (opp s) sb)" using d(2) by blast
qed

text \<open>
  C22. Cancel reduces an order to a smaller quantity in its place of the queue, so it keeps its time
  priority, or takes it out when nothing is to be kept; a request that would not reduce it fails.
  Nothing else in the book changes.
\<close>

theorem ob_cancel_keeps_priority:
  assumes "ob_reachable b" "valid_side s" "queue_of s (ob_abs b) = xs @ r # ys" "rs_id r = oid"
  shows "(keep \<ge> rs_qty r \<longrightarrow> ob_cancel b oid keep = Some (b, [], False)) \<and>
    (keep < rs_qty r \<longrightarrow> (\<exists>b'. ob_cancel b oid keep = Some (b',
        [EvCanceled \<lparr>ce_id = oid, ce_canceled_qty = rs_qty r - keep, ce_removed = (keep = 0)\<rparr>], True) \<and>
      queue_of s (ob_abs b') = (if keep = 0 then xs @ ys else xs @ r\<lparr>rs_qty := keep\<rparr> # ys) \<and>
      queue_of (opp s) (ob_abs b') = queue_of (opp s) (ob_abs b)))"
proof -
  have inv: "ob_inv b" using assms(1) by (rule ob_reachable_inv)
  have si: "spec_inv (ob_abs b)" using inv by (rule ob_inv_spec)
  note Q = queue_position[OF si assms(2,3), unfolded assms(4)]
  note split = spec_remove_split[OF assms(2,3,4) Q(2,3)] spec_reduce_split[OF assms(2,3,4) Q(2,3)]
  obtain sb evs f where s: "spec_cancel (ob_abs b) oid keep = (sb, evs, f)" by (metis prod_cases3)
  obtain b' where b': "ob_cancel b oid keep = Some (b', evs, f)" "ob_abs b' = sb"
    using ob_cancel_refines[OF inv s] by blast
  have "ob_cancel b oid keep = Some (b, [], False)" if "keep \<ge> rs_qty r"
  proof -
    obtain h where h: "map_of (ob_index b) oid = Some h"
      using ob_index_ids[OF ob_inv_core[OF inv], of oid] Q(1) spec_find_None[of "ob_abs b" oid] by auto
    obtain ord m1 l m2 ns1 ns2 where "ob_located b oid h ord m1 l m2 ns1 ns2"
      and D: "ob_deref b (h_it h) = Some ord"
      and F: "spec_find (ob_abs b) oid = Some (h_side h, rs_of (h_it h, ord))" by (rule ob_lookup[OF ob_inv_core[OF inv] h])
    then have "keep \<ge> o_open ord" using Q(1) that by auto
    then show ?thesis by (simp add: ob_cancel_def h D)
  qed
  moreover have "queue_of s sb = (if keep = 0 then xs @ ys else xs @ r\<lparr>rs_qty := keep\<rparr> # ys) \<and>
      queue_of (opp s) sb = queue_of (opp s) (ob_abs b) \<and> f \<and>
      evs = [EvCanceled \<lparr>ce_id = oid, ce_canceled_qty = rs_qty r - keep, ce_removed = (keep = 0)\<rparr>]"
    if "keep < rs_qty r"
    using s that assms(2,3) Q(1) by (auto simp: spec_cancel_def split split: if_splits)
  ultimately show ?thesis using b' by auto
qed

theorem ob_cancel_keeps_priority_witness:
  "\<exists>b' evs. ob_cancel demo_book 1 2 = Some (b', evs, True) \<and>
     map rs_id (queue_of Sell (ob_abs b')) = [1, 2, 3]"
proof -
  let ?q = "queue_of Sell (ob_abs demo_book)"
  have q: "?q = [] @ hd ?q # tl ?q" "rs_id (hd ?q) = 1" "2 < rs_qty (hd ?q)" "map rs_id (tl ?q) = [2, 3]"
    by code_simp+
  show ?thesis using ob_cancel_keeps_priority[OF demo_book_reachable _ q(1,2), of 2] q(2-4) by auto
qed

text \<open>Cancelling or replacing an order that does not rest changes nothing and reports failure.\<close>

lemma ob_unknown_order:
  assumes "ob_reachable b" "oid \<notin> set (spec_ids (ob_abs b))"
  shows "ob_cancel b oid keep = Some (b, [], False) \<and> ob_replace b oid new_id p q = Some (b, [], False)"
  using assms ob_index_ids[OF ob_inv_core[OF ob_reachable_inv[OF assms(1)]], of oid]
  by (simp add: ob_cancel_def ob_replace_def)

text \<open>The lookup behind a successful replace: the side of the old order and the freshness of the new id.\<close>

lemma ob_replace_lookup:
  assumes inv: "ob_inv b" and s: "valid_side s" and q: "queue_of s (ob_abs b) = xs @ r # ys"
  obtains h ord where "map_of (ob_index b) (rs_id r) = Some h" "h_side h = s" "ob_deref b (h_it h) = Some ord"
    "o_open ord = rs_qty r" "ob_remove b (rs_id r) h \<noteq> None"
proof -
  have si: "spec_inv (ob_abs b)" using inv by (rule ob_inv_spec)
  note Q = queue_position[OF si s q]
  obtain h where h: "map_of (ob_index b) (rs_id r) = Some h"
    using ob_index_ids[OF ob_inv_core[OF inv], of "rs_id r"] Q(1) spec_find_None[of "ob_abs b" "rs_id r"] by auto
  obtain ord m1 l m2 ns1 ns2 where L: "ob_located b (rs_id r) h ord m1 l m2 ns1 ns2"
    and D: "ob_deref b (h_it h) = Some ord"
    and F: "spec_find (ob_abs b) (rs_id r) = Some (h_side h, rs_of (h_it h, ord))" by (rule ob_lookup[OF ob_inv_core[OF inv] h])
  from ob_remove_refines[OF inv L] obtain b1 where "ob_remove b (rs_id r) h = Some b1" by blast
  moreover have "h_side h = s" "rs_of (h_it h, ord) = r" using F Q(1) by auto
  moreover from this have "o_open ord = rs_qty r" using rs_of_simps(3)[of "(h_it h, ord)"] by simp
  ultimately show ?thesis using that[OF h _ D] by simp
qed

text \<open>
  C23. Replace is the cancel of the old order followed by the entry of the new one on the same side:
  the book, exactly, is the one these two operations produce. When the new order could trade, the
  events are theirs as well; otherwise the pair is reported as one replacement.
\<close>

theorem ob_replace_is_cancel_then_add:
  assumes "ob_reachable b" "valid_side s" "queue_of s (ob_abs b) = xs @ r # ys"
    "new_id \<notin> set (spec_ids (ob_abs b))" "p > 0" "q > 0"
  shows "\<exists>b1 ec b2 ea res evs. ob_cancel b (rs_id r) 0 = Some (b1, ec, True) \<and>
    ob_add b1 new_id s p q = (b2, ea, res) \<and> ar_status res = Ok \<and>
    ob_replace b (rs_id r) new_id p q = Some (b2, evs, True) \<and>
    evs = (if ob_would_cross b1 s p then ec @ ea
       else [EvReplaced \<lparr>re_old_id = rs_id r, re_new_id = new_id, re_side = s, re_price = p, re_qty = q\<rparr>])"
proof -
  have inv: "ob_inv b" using assms(1) by (rule ob_reachable_inv)
  have si: "spec_inv (ob_abs b)" using inv by (rule ob_inv_spec)
  obtain h ord b1 where L: "map_of (ob_index b) (rs_id r) = Some h" "h_side h = s" "ob_deref b (h_it h) = Some ord"
    "o_open ord = rs_qty r" "ob_remove b (rs_id r) h = Some b1"
    using ob_replace_lookup[OF inv assms(2,3)] by blast
  have r: "rs_qty r \<noteq> 0" "rs_id r \<in> set (spec_ids (ob_abs b))"
    using spec_inv_queue(2)[OF si assms(2)] assms(2,3) by (auto simp: spec_ids_def queue_of_def)
  have new: "new_id \<noteq> rs_id r" "map_of (ob_index b) new_id = None"
    using assms(4) r(2) ob_index_ids[OF ob_inv_core[OF inv], of new_id] by auto
  have c: "ob_cancel b (rs_id r) 0 = Some (b1,
      [EvCanceled \<lparr>ce_id = rs_id r, ce_canceled_qty = rs_qty r, ce_removed = True\<rparr>], True)"
    using L r(1) by (simp add: ob_cancel_def)
  have "ob_index b1 = AList.delete (rs_id r) (ob_index b)"
    using L(5) by (auto simp: ob_remove_def bind_eq_Some_conv split: if_splits)
  then have n1: "map_of (ob_index b1) new_id = None" using new by (simp add: delete_conv')
  have nc: "ob_match_book b1 new_id s p q = (b1, 0, [])" if "\<not> ob_would_cross b1 s p"
    using that assms(2,6)
    by (cases "ob_asks b1"; cases "ob_bids b1") (auto simp: ob_match_book_def ob_would_cross_def)
  show ?thesis unfolding c
    using assms(5,6) new n1 L nc
    by (cases "ob_would_cross b1 s p")
      (auto simp: ob_replace_def ob_add_def Let_def split: prod.splits)
qed

theorem ob_replace_is_cancel_then_add_witness:
  "\<exists>b1 ec b2 ea res. ob_cancel demo_book 4 0 = Some (b1, ec, True) \<and>
     ob_add b1 9 Buy 100 3 = (b2, ea, res) \<and> ob_replace demo_book 4 9 100 3 = Some (b2, ec @ ea, True)"
proof -
  let ?q = "queue_of Buy (ob_abs demo_book)"
  have q: "?q = [] @ hd ?q # tl ?q" "rs_id (hd ?q) = 4" "9 \<notin> set (spec_ids (ob_abs demo_book))"
    "case ob_cancel demo_book 4 0 of Some (b1, ec, f) \<Rightarrow> ob_would_cross b1 Buy 100 | None \<Rightarrow> False" by code_simp+
  from ob_replace_is_cancel_then_add[OF demo_book_reachable _ q(1,3), of 100 3] q(2,4)
  show ?thesis by auto
qed

text \<open>
  C27. A replacement that does not trade loses time priority: the new order stands behind every order
  of an equal or better price and before every worse one, and no other order moves.
\<close>

theorem ob_replace_loses_priority:
  assumes "ob_reachable b" "valid_side s" "queue_of s (ob_abs b) = xs @ r # ys"
    "new_id \<notin> set (spec_ids (ob_abs b))" "p > 0" "q > 0"
    "\<forall>x\<in>set (queue_of (opp s) (ob_abs b)). \<not> crosses s p (rs_price x)"
  shows "\<exists>b' evs us vs. ob_replace b (rs_id r) new_id p q = Some (b', evs, True) \<and>
    queue_of s (ob_abs b') = us @ \<lparr>rs_id = new_id, rs_price = p, rs_qty = q\<rparr> # vs \<and> us @ vs = xs @ ys \<and>
    (\<forall>u\<in>set us. \<not> better s p (rs_price u)) \<and> (\<forall>v\<in>set vs. better s p (rs_price v)) \<and>
    queue_of (opp s) (ob_abs b') = queue_of (opp s) (ob_abs b)"
proof -
  have inv: "ob_inv b" using assms(1) by (rule ob_reachable_inv)
  have si: "spec_inv (ob_abs b)" using inv by (rule ob_inv_spec)
  note Q = queue_position[OF si assms(2,3)]
  let ?sb = "set_queue s (xs @ ys) (ob_abs b)" and ?r = "\<lparr>rs_id = new_id, rs_price = p, rs_qty = q\<rparr>"
  have rem: "spec_remove (rs_id r) (ob_abs b) = ?sb" by (rule spec_remove_split[OF assms(2,3) refl Q(2,3)])
  have opp: "queue_of (opp s) (set_queue s u sb) = queue_of (opp s) sb" for u sb using assms(2) by auto
  have "prio_sorted s (queue_of s ?sb)"
    using spec_inv_queue(1)[OF spec_remove_inv(1)[OF si] assms(2), of "rs_id r"] rem by simp
  then obtain us vs where E: "xs @ ys = us @ vs" "enqueue s ?r (xs @ ys) = us @ ?r # vs"
    "\<forall>u\<in>set us. \<not> better s p (rs_price u)" "\<forall>v\<in>set vs. better s p (rs_price v)"
    using enqueue_split[of s "xs @ ys" ?r] by auto
  have "new_id \<noteq> rs_id r" using assms(2-4) by (auto simp: spec_ids_def queue_of_def)
  moreover have "\<not> spec_would_cross ?sb s p"
    using assms(7) by (auto simp: spec_would_cross_def opp split: list.splits)
  ultimately obtain evs where s: "spec_replace (ob_abs b) (rs_id r) new_id p q = (spec_rest new_id s p q ?sb, evs, True)"
    using Q(1) assms(4-6) by (simp add: spec_replace_def rem Let_def)
  then obtain b' where b': "ob_replace b (rs_id r) new_id p q = Some (b', evs, True)"
    "ob_abs b' = spec_rest new_id s p q ?sb" using ob_replace_refines[OF inv s] by blast
  have "queue_of s (ob_abs b') = us @ ?r # vs" "queue_of (opp s) (ob_abs b') = queue_of (opp s) (ob_abs b)"
    by (simp_all only: b'(2) spec_rest_def queue_of_simps E(2) opp)
  then show ?thesis using b'(1) E by metis
qed

theorem ob_replace_loses_priority_witness:
  "\<exists>b' evs us vs. ob_replace demo_book 1 9 100 3 = Some (b', evs, True) \<and>
     queue_of Sell (ob_abs b') = us @ \<lparr>rs_id = 9, rs_price = 100, rs_qty = 3\<rparr> # vs \<and> map rs_id (us @ vs) = [2, 3]"
proof -
  let ?q = "queue_of Sell (ob_abs demo_book)"
  have q: "?q = [] @ hd ?q # tl ?q" "rs_id (hd ?q) = 1" "9 \<notin> set (spec_ids (ob_abs demo_book))"
    "\<forall>x\<in>set (queue_of (opp Sell) (ob_abs demo_book)). \<not> crosses Sell 100 (rs_price x)"
    "map rs_id (tl ?q) = [2, 3]" by code_simp+
  from ob_replace_loses_priority[OF demo_book_reachable _ q(1,3) _ _ q(4), of 3]
  obtain b' evs us vs where R: "ob_replace demo_book (rs_id (hd ?q)) 9 100 3 = Some (b', evs, True)"
    "queue_of Sell (ob_abs b') = us @ \<lparr>rs_id = 9, rs_price = 100, rs_qty = 3\<rparr> # vs" "us @ vs = [] @ tl ?q" by auto
  moreover have "map rs_id (us @ vs) = [2, 3]" using R(3) q(5) by (simp only: append_Nil)
  ultimately show ?thesis using q(2) by metis
qed

end
