(* ===== verification/Endian.thy ===== *)
theory Endian
  imports Nsq_Prelude
begin

text \<open>
  The big-endian primitives of \<^verbatim>\<open>src/common/endian.hpp\<close>. A pointer \<^verbatim>\<open>p + i\<close> into a buffer is the
  buffer and the offset. Each \<open>put\<close> writes its bytes one by one, each \<open>get\<close> reassembles them with
  shifts and ors; the lemmas give the field laws the codecs use: reading back what was written,
  and leaving every other field alone.
\<close>

definition put_be16 :: "bytes \<Rightarrow> nat \<Rightarrow> u16 \<Rightarrow> bytes" where
  "put_be16 p i v = p[i := ucast (drop_bit 8 v), i + 1 := ucast v]"

definition get_be16 :: "bytes \<Rightarrow> nat \<Rightarrow> u16" where
  "get_be16 p i = push_bit 8 (ucast (p ! i)) OR ucast (p ! (i + 1))"

definition put_be32 :: "bytes \<Rightarrow> nat \<Rightarrow> u32 \<Rightarrow> bytes" where
  "put_be32 p i v = p[i := ucast (drop_bit 24 v), i + 1 := ucast (drop_bit 16 v),
     i + 2 := ucast (drop_bit 8 v), i + 3 := ucast v]"

definition get_be32 :: "bytes \<Rightarrow> nat \<Rightarrow> u32" where
  "get_be32 p i = push_bit 24 (ucast (p ! i)) OR push_bit 16 (ucast (p ! (i + 1))) OR
     push_bit 8 (ucast (p ! (i + 2))) OR ucast (p ! (i + 3))"

text \<open>The 48-bit field keeps the low six bytes of its argument.\<close>

definition put_be48 :: "bytes \<Rightarrow> nat \<Rightarrow> u64 \<Rightarrow> bytes" where
  "put_be48 p i v = p[i := ucast (drop_bit 40 v), i + 1 := ucast (drop_bit 32 v),
     i + 2 := ucast (drop_bit 24 v), i + 3 := ucast (drop_bit 16 v),
     i + 4 := ucast (drop_bit 8 v), i + 5 := ucast v]"

definition get_be48 :: "bytes \<Rightarrow> nat \<Rightarrow> u64" where
  "get_be48 p i = push_bit 40 (ucast (p ! i)) OR push_bit 32 (ucast (p ! (i + 1))) OR
     push_bit 24 (ucast (p ! (i + 2))) OR push_bit 16 (ucast (p ! (i + 3))) OR
     push_bit 8 (ucast (p ! (i + 4))) OR ucast (p ! (i + 5))"

definition put_be64 :: "bytes \<Rightarrow> nat \<Rightarrow> u64 \<Rightarrow> bytes" where
  "put_be64 p i v = put_be32 (put_be32 p i (ucast (drop_bit 32 v))) (i + 4) (ucast v)"

definition get_be64 :: "bytes \<Rightarrow> nat \<Rightarrow> u64" where
  "get_be64 p i = push_bit 32 (ucast (get_be32 p i)) OR ucast (get_be32 p (i + 4))"

section \<open>A put is one store of a fixed number of bytes\<close>

definition be16 :: "u16 \<Rightarrow> bytes" where
  "be16 v = [ucast (drop_bit 8 v), ucast v]"

definition be32 :: "u32 \<Rightarrow> bytes" where
  "be32 v = [ucast (drop_bit 24 v), ucast (drop_bit 16 v), ucast (drop_bit 8 v), ucast v]"

definition be48 :: "u64 \<Rightarrow> bytes" where
  "be48 v = [ucast (drop_bit 40 v), ucast (drop_bit 32 v), ucast (drop_bit 24 v),
     ucast (drop_bit 16 v), ucast (drop_bit 8 v), ucast v]"

definition be64 :: "u64 \<Rightarrow> bytes" where
  "be64 v = be32 (ucast (drop_bit 32 v)) @ be32 (ucast v)"

lemma length_be [simp]:
  "length (be16 a) = 2" "length (be32 b) = 4" "length (be48 c) = 6" "length (be64 d) = 8"
  by (simp_all add: be16_def be32_def be48_def be64_def)

lemma put_be16_poke [buf_simps]: "put_be16 p i v = poke p i (be16 v)"
  by (simp add: put_be16_def be16_def)

lemma put_be32_poke [buf_simps]: "put_be32 p i v = poke p i (be32 v)"
  by (simp add: put_be32_def be32_def eval_nat_numeral)

lemma put_be48_poke [buf_simps]: "put_be48 p i v = poke p i (be48 v)"
  by (simp add: put_be48_def be48_def eval_nat_numeral)

lemma put_be64_poke [buf_simps]: "put_be64 p i v = poke p i (be64 v)"
  by (simp add: put_be64_def be64_def put_be32_poke be32_def eval_nat_numeral)

section \<open>Reading a field after a store\<close>

lemma get_be16_other [buf_simps]:
  "i + 2 \<le> j \<or> j + length bs \<le> i \<Longrightarrow> get_be16 (poke p j bs) i = get_be16 p i"
  by (auto simp: get_be16_def nth_poke_other)

lemma get_be32_other [buf_simps]:
  "i + 4 \<le> j \<or> j + length bs \<le> i \<Longrightarrow> get_be32 (poke p j bs) i = get_be32 p i"
  by (auto simp: get_be32_def nth_poke_other)

lemma get_be48_other [buf_simps]:
  "i + 6 \<le> j \<or> j + length bs \<le> i \<Longrightarrow> get_be48 (poke p j bs) i = get_be48 p i"
  by (auto simp: get_be48_def nth_poke_other)

lemma get_be64_other [buf_simps]:
  "i + 8 \<le> j \<or> j + length bs \<le> i \<Longrightarrow> get_be64 (poke p j bs) i = get_be64 p i"
  by (auto simp: get_be64_def get_be32_other)

lemma get_be16_same [buf_simps]: "i + 2 \<le> length p \<Longrightarrow> get_be16 (poke p i (be16 v)) i = v"
  by (rule bit_word_eqI) (auto simp: get_be16_def be16_def bit_simps)

text \<open>Reassembling the bytes of a word gives the word back; six bytes give its low 48 bits.\<close>

lemma bit_byte_field:
  "bit (push_bit k (ucast (ucast (drop_bit k v) :: u8)) :: 'a :: len word) n \<longleftrightarrow>
     k \<le> n \<and> n < k + 8 \<and> bit (v :: 'a word) n"
  by (auto simp: bit_simps dest: bit_imp_le_length)

lemma bit_low_byte:
  "bit (ucast (ucast v :: u8) :: 'a :: len word) n \<longleftrightarrow> n < 8 \<and> bit (v :: 'a word) n"
  by (auto simp: bit_simps bit_imp_le_length)

lemma join32:
  "push_bit 24 (ucast (ucast (drop_bit 24 v) :: u8)) OR push_bit 16 (ucast (ucast (drop_bit 16 v) :: u8)) OR
   push_bit 8 (ucast (ucast (drop_bit 8 v) :: u8)) OR ucast (ucast v :: u8) = (v :: u32)"
proof (rule bit_word_eqI, goal_cases)
  case (1 n)
  have "(24 \<le> n \<and> n < 32 \<or> 16 \<le> n \<and> n < 24 \<or> 8 \<le> n \<and> n < 16 \<or> n < 8) = (n < 32)" by arith
  then show ?case using 1 by (cases "bit v n") (simp_all add: bit_or_iff bit_byte_field bit_low_byte)
qed

lemma join48:
  "push_bit 40 (ucast (ucast (drop_bit 40 v) :: u8)) OR push_bit 32 (ucast (ucast (drop_bit 32 v) :: u8)) OR
   push_bit 24 (ucast (ucast (drop_bit 24 v) :: u8)) OR push_bit 16 (ucast (ucast (drop_bit 16 v) :: u8)) OR
   push_bit 8 (ucast (ucast (drop_bit 8 v) :: u8)) OR ucast (ucast v :: u8) = take_bit 48 (v :: u64)"
proof (rule bit_word_eqI, goal_cases)
  case (1 n)
  have "(40 \<le> n \<and> n < 48 \<or> 32 \<le> n \<and> n < 40 \<or> 24 \<le> n \<and> n < 32 \<or> 16 \<le> n \<and> n < 24 \<or>
    8 \<le> n \<and> n < 16 \<or> n < 8) = (n < 48)" by arith
  then show ?case
    by (cases "bit v n") (simp_all add: bit_or_iff bit_byte_field bit_low_byte bit_take_bit_iff)
qed

lemma join64:
  "push_bit 32 (ucast (ucast (drop_bit 32 v) :: u32)) OR ucast (ucast v :: u32) = (v :: u64)"
  by (rule bit_word_eqI) (auto simp: bit_simps)

lemma get_be32_same [buf_simps]: "i + 4 \<le> length p \<Longrightarrow> get_be32 (poke p i (be32 v)) i = v"
  unfolding get_be32_def by (simp add: nth_poke_same be32_def join32 del: poke.simps)

lemma get_be48_same [buf_simps]:
  "i + 6 \<le> length p \<Longrightarrow> get_be48 (poke p i (be48 v)) i = take_bit 48 v"
  unfolding get_be48_def by (simp add: nth_poke_same be48_def join48 del: poke.simps)

lemma poke_append: "poke p i (xs @ ys) = poke (poke p i xs) (i + length xs) ys"
  by (induction p i xs rule: poke.induct) auto

lemma get_be64_same [buf_simps]: "i + 8 \<le> length p \<Longrightarrow> get_be64 (poke p i (be64 v)) i = v"
  unfolding get_be64_def
  by (simp add: be64_def poke_append get_be32_same get_be32_other join64 del: poke.simps)

section \<open>Storing what was read\<close>

lemma peek_nth: "i + n \<le> length p \<Longrightarrow> peek p i n = map (\<lambda>k. p ! (i + k)) [0..<n]"
  by (rule nth_equalityI) (simp_all add: peek_def)

lemma bit_beyond: "LENGTH('a) \<le> n \<Longrightarrow> \<not> bit (w :: 'a :: len word) n"
  using bit_imp_le_length not_less by blast

lemma bit_push_ucast:
  "bit (push_bit k (ucast (a :: u8)) :: 'a :: len word) n \<longleftrightarrow> k \<le> n \<and> n < LENGTH('a) \<and> bit a (n - k)"
  by (auto simp: bit_simps)

lemma split_bytes16:
  "ucast (drop_bit 8 (push_bit 8 (ucast a) OR ucast b :: u16)) = (a :: u8)"
  "ucast (push_bit 8 (ucast a) OR ucast b :: u16) = (b :: u8)"
  by (rule bit_word_eqI, force simp: bit_simps dest: bit_imp_le_length)+

lemma split_bytes32:
  fixes a b c d :: u8
  defines "w \<equiv> push_bit 24 (ucast a) OR push_bit 16 (ucast b) OR push_bit 8 (ucast c) OR ucast d :: u32"
  shows "ucast (drop_bit 24 w) = a" "ucast (drop_bit 16 w) = b" "ucast (drop_bit 8 w) = c" "ucast w = d"
  unfolding w_def by (rule bit_word_eqI, force simp: bit_simps dest: bit_imp_le_length)+

lemma split_bytes48:
  fixes a b c d e f :: u8
  defines "w \<equiv> push_bit 40 (ucast a) OR push_bit 32 (ucast b) OR push_bit 24 (ucast c) OR
    push_bit 16 (ucast d) OR push_bit 8 (ucast e) OR ucast f :: u64"
  shows "ucast (drop_bit 40 w) = a" "ucast (drop_bit 32 w) = b" "ucast (drop_bit 24 w) = c"
    "ucast (drop_bit 16 w) = d" "ucast (drop_bit 8 w) = e" "ucast w = f" 
  unfolding w_def
  by (rule bit_word_eqI, simp add: bit_or_iff bit_push_ucast bit_ucast_iff bit_drop_bit_eq bit_beyond)+

lemma low48:
  "take_bit 48 (push_bit 40 (ucast (a :: u8)) OR push_bit 32 (ucast (b :: u8)) OR
    push_bit 24 (ucast (c :: u8)) OR push_bit 16 (ucast (d :: u8)) OR push_bit 8 (ucast (e :: u8)) OR
    ucast (f :: u8)) = (push_bit 40 (ucast a) OR push_bit 32 (ucast b) OR push_bit 24 (ucast c) OR
    push_bit 16 (ucast d) OR push_bit 8 (ucast e) OR ucast f :: u64)"
proof (rule bit_word_eqI, goal_cases)
  case (1 n)
  show ?case
    by (cases "n < 48") (simp_all add: bit_or_iff bit_take_bit_iff bit_push_ucast bit_ucast_iff bit_beyond)
qed

lemma split_words64:
  fixes a b :: u32
  shows "ucast (drop_bit 32 (push_bit 32 (ucast a) OR ucast b :: u64)) = a"
    "ucast (push_bit 32 (ucast a) OR ucast b :: u64) = b"
  by (rule bit_word_eqI, force simp: bit_simps dest: bit_imp_le_length)+

lemma be16_get [buf_simps]: "i + 2 \<le> length p \<Longrightarrow> be16 (get_be16 p i) = peek p i 2"
  unfolding be16_def get_be16_def split_bytes16 by (simp add: peek_nth upt_conv_Cons eval_nat_numeral)

lemma be32_get [buf_simps]: "i + 4 \<le> length p \<Longrightarrow> be32 (get_be32 p i) = peek p i 4"
  unfolding be32_def get_be32_def split_bytes32 by (simp add: peek_nth upt_conv_Cons eval_nat_numeral)

lemma be48_get [buf_simps]: "i + 6 \<le> length p \<Longrightarrow> be48 (get_be48 p i) = peek p i 6"
  unfolding be48_def get_be48_def split_bytes48 by (simp add: peek_nth upt_conv_Cons eval_nat_numeral)

lemma take_bit_get_be48 [simp]: "take_bit 48 (get_be48 p i) = get_be48 p i"
  unfolding get_be48_def low48 by (rule refl)

lemma be64_get [buf_simps]:
  assumes "i + 8 \<le> length p"
  shows "be64 (get_be64 p i) = peek p i 8"
proof -
  have "be64 (get_be64 p i) = be32 (get_be32 p i) @ be32 (get_be32 p (i + 4))"
    unfolding be64_def get_be64_def split_words64 by (rule refl)
  also have "\<dots> = peek p i 8"
    using assms by (simp add: be32_get peek_nth upt_conv_Cons eval_nat_numeral)
  finally show ?thesis .
qed

section \<open>Fields within a prefix of the memory\<close>

lemma get_be16_append [buf_simps]: "i + 2 \<le> length p \<Longrightarrow> get_be16 (p @ r) i = get_be16 p i"
  by (simp add: get_be16_def nth_append)

lemma get_be32_append [buf_simps]: "i + 4 \<le> length p \<Longrightarrow> get_be32 (p @ r) i = get_be32 p i"
  by (simp add: get_be32_def nth_append)

lemma get_be48_append [buf_simps]: "i + 6 \<le> length p \<Longrightarrow> get_be48 (p @ r) i = get_be48 p i"
  by (simp add: get_be48_def nth_append)

lemma get_be64_append [buf_simps]: "i + 8 \<le> length p \<Longrightarrow> get_be64 (p @ r) i = get_be64 p i"
  by (simp add: get_be64_def get_be32_append)

end
