(* ===== verification/Codec.thy ===== *)
theory Codec
  imports Common_Types Endian
begin

text \<open>
  What the message codecs have in common: prices on the wire, and the interface of an exact codec,
  one whose decoder accepts precisely the encodings of well-formed messages. Both protocol codecs
  interpret it, so that injectivity and independence of the buffer's old contents are proved once.
\<close>

text \<open>Prices the 32-bit field carries without loss.\<close>

definition wire_price :: "price \<Rightarrow> bool" where
  "wire_price v \<longleftrightarrow> 0 \<le> v \<and> v < 2 ^ 32"

text \<open>
  A decoder takes the memory its pointer sees and the message length \<open>n\<close>; the memory may go on
  past the message. \<open>ok\<close> selects the messages whose layout stays within their size: for these the
  codec is exact and local, reading and writing nothing beyond the message.
\<close>

locale exact_codec =
  fixes enc :: "'m \<Rightarrow> bytes \<Rightarrow> bytes"
    and dec :: "bytes \<Rightarrow> nat \<Rightarrow> 'm option"
    and wf :: "'m \<Rightarrow> bool"
    and sz :: "'m \<Rightarrow> nat"
    and ok :: "'m \<Rightarrow> bool"
  assumes length_enc: "length (enc m p) = length p"
    and dec_enc: "ok m \<Longrightarrow> wf m \<Longrightarrow> length p = sz m \<Longrightarrow> dec (enc m p) (sz m) = Some m"
    and dec_wf: "ok m \<Longrightarrow> dec p (length p) = Some m \<Longrightarrow> length p = sz m \<and> wf m"
    and enc_dec: "ok m \<Longrightarrow> dec p (length p) = Some m \<Longrightarrow> length q = sz m \<Longrightarrow>
      agree (enc m q) p (sz m)"
    and enc_local: "ok m \<Longrightarrow> wf m \<Longrightarrow> length p = sz m \<Longrightarrow> enc m (p @ r) = enc m p @ r"
    and dec_local: "ok m \<Longrightarrow> dec (p @ r) (length p) = Some m \<longleftrightarrow> dec p (length p) = Some m"
begin

text \<open>The encoder writes into a zeroed buffer of the message's size, as its callers do.\<close>

lemma dec_iff:
  assumes "ok m"
  shows "dec p (length p) = Some m \<longleftrightarrow> wf m \<and> p = enc m (replicate (sz m) 0)"
proof
  assume *: "dec p (length p) = Some m"
  then have "agree (enc m (replicate (sz m) 0)) p (length p)" using assms enc_dec dec_wf by simp
  then show "wf m \<and> p = enc m (replicate (sz m) 0)" using dec_wf[OF assms *] agree_all by metis
qed (simp add: assms dec_enc length_enc)

lemma enc_inj:
  assumes "ok m" "ok m'" "wf m" "wf m'"
    and "enc m (replicate (sz m) 0) = enc m' (replicate (sz m') 0)"
  shows "m = m'"
  using assms by (metis dec_iff option.inject)

lemma enc_fills: "ok m \<Longrightarrow> wf m \<Longrightarrow> length q = sz m \<Longrightarrow> enc m q = enc m (replicate (sz m) 0)"
  using dec_enc dec_iff length_enc by metis

text \<open>A message decodes at the front of any memory that holds it.\<close>

lemma dec_enc_append:
  "ok m \<Longrightarrow> wf m \<Longrightarrow> length p = sz m \<Longrightarrow> dec (enc m p @ r) (sz m) = Some m"
  by (metis dec_enc dec_local length_enc)

end

end
