(* ===== verification/Ouch.thy ===== *)
theory Ouch
  imports Codec
begin

text \<open>
  The OUCH 4.2 codec of \<^verbatim>\<open>src/ouch/ouch.hpp\<close>: one record per message struct, one \<open>encode\<close> that
  stores every field at its wire offset in the caller's buffer, and one \<open>decode\<close> that checks length
  and type byte and reads the fields back. A decoder takes the memory its pointer sees and the
  message length. Character arrays are byte lists; \<open>wf\<close> predicates state their fixed lengths
  and that a price fits the 32-bit wire field. The lemmas show every encoder and decoder to be
  inverse, and that every decoder refuses exactly the inputs of the wrong length or type.
\<close>

section \<open>Tokens and field primitives\<close>

type_synonym token = bytes
type_synonym firm = bytes

definition kTifIOC :: u32 where "kTifIOC = 0"
definition kTifDay :: u32 where "kTifDay = 99999"
definition kMarketPrice :: price where "kMarketPrice = 0x7FFFFFFF"

definition make_token :: "bytes \<Rightarrow> token" where
  "make_token sv = poke (replicate 14 0x20) 0 (take 14 sv)"

definition token_view :: "token \<Rightarrow> bytes" where
  "token_view t = take (view_len t (length t)) t"

definition put_chars :: "bytes \<Rightarrow> nat \<Rightarrow> bytes \<Rightarrow> nat \<Rightarrow> bytes" where
  "put_chars p i s n = poke p i (take n s)"

definition get_chars :: "bytes \<Rightarrow> nat \<Rightarrow> nat \<Rightarrow> bytes" where
  "get_chars p i n = peek p i n"

text \<open>A price is truncated to its low 32 bits on the wire and read back as an unsigned value.\<close>

definition put_price :: "bytes \<Rightarrow> nat \<Rightarrow> price \<Rightarrow> bytes" where
  "put_price p i v = put_be32 p i (word_of_int v)"

definition get_price :: "bytes \<Rightarrow> nat \<Rightarrow> price" where
  "get_price p i = uint (get_be32 p i)"

section \<open>Inbound messages\<close>

record enter_order =
  eo_token :: token
  eo_side :: side
  eo_shares :: qty
  eo_stock :: symbol
  eo_price :: price
  eo_tif :: u32
  eo_firm :: firm
  eo_display :: u8
  eo_capacity :: u8
  eo_intermarket_sweep :: u8
  eo_min_qty :: qty
  eo_cross_type :: u8
  eo_customer_type :: u8

definition kEnterOrderSize :: nat where [codec_defs]: "kEnterOrderSize = 49"

definition encode_enter_order :: "enter_order \<Rightarrow> bytes \<Rightarrow> bytes" where [codec_defs]:
  "encode_enter_order m p =
     (let p = p[0 := 0x4F];
          p = put_chars p 1 (eo_token m) 14;
          p = p[15 := eo_side m];
          p = put_be32 p 16 (eo_shares m);
          p = put_chars p 20 (eo_stock m) 8;
          p = put_price p 28 (eo_price m);
          p = put_be32 p 32 (eo_tif m);
          p = put_chars p 36 (eo_firm m) 4;
          p = p[40 := eo_display m];
          p = p[41 := eo_capacity m];
          p = p[42 := eo_intermarket_sweep m];
          p = put_be32 p 43 (eo_min_qty m);
          p = p[47 := eo_cross_type m];
          p = p[48 := eo_customer_type m]
      in p)"

definition decode_enter_order :: "bytes \<Rightarrow> nat \<Rightarrow> enter_order option" where [codec_defs]:
  "decode_enter_order p n =
     (if n \<noteq> kEnterOrderSize \<or> p ! 0 \<noteq> 0x4F then None
      else Some \<lparr>eo_token = get_chars p 1 14,
            eo_side = p ! 15,
            eo_shares = get_be32 p 16,
            eo_stock = get_chars p 20 8,
            eo_price = get_price p 28,
            eo_tif = get_be32 p 32,
            eo_firm = get_chars p 36 4,
            eo_display = p ! 40,
            eo_capacity = p ! 41,
            eo_intermarket_sweep = p ! 42,
            eo_min_qty = get_be32 p 43,
            eo_cross_type = p ! 47,
            eo_customer_type = p ! 48\<rparr>)"

record cancel_order =
  co_token :: token
  co_shares :: qty

definition kCancelOrderSize :: nat where [codec_defs]: "kCancelOrderSize = 19"

definition encode_cancel_order :: "cancel_order \<Rightarrow> bytes \<Rightarrow> bytes" where [codec_defs]:
  "encode_cancel_order m p =
     (let p = p[0 := 0x58];
          p = put_chars p 1 (co_token m) 14;
          p = put_be32 p 15 (co_shares m)
      in p)"

definition decode_cancel_order :: "bytes \<Rightarrow> nat \<Rightarrow> cancel_order option" where [codec_defs]:
  "decode_cancel_order p n =
     (if n \<noteq> kCancelOrderSize \<or> p ! 0 \<noteq> 0x58 then None
      else Some \<lparr>co_token = get_chars p 1 14,
            co_shares = get_be32 p 15\<rparr>)"

record replace_order =
  ro_existing_token :: token
  ro_replacement_token :: token
  ro_shares :: qty
  ro_price :: price
  ro_tif :: u32
  ro_display :: u8
  ro_intermarket_sweep :: u8
  ro_min_qty :: qty

definition kReplaceOrderSize :: nat where [codec_defs]: "kReplaceOrderSize = 47"

definition encode_replace_order :: "replace_order \<Rightarrow> bytes \<Rightarrow> bytes" where [codec_defs]:
  "encode_replace_order m p =
     (let p = p[0 := 0x55];
          p = put_chars p 1 (ro_existing_token m) 14;
          p = put_chars p 15 (ro_replacement_token m) 14;
          p = put_be32 p 29 (ro_shares m);
          p = put_price p 33 (ro_price m);
          p = put_be32 p 37 (ro_tif m);
          p = p[41 := ro_display m];
          p = p[42 := ro_intermarket_sweep m];
          p = put_be32 p 43 (ro_min_qty m)
      in p)"

definition decode_replace_order :: "bytes \<Rightarrow> nat \<Rightarrow> replace_order option" where [codec_defs]:
  "decode_replace_order p n =
     (if n \<noteq> kReplaceOrderSize \<or> p ! 0 \<noteq> 0x55 then None
      else Some \<lparr>ro_existing_token = get_chars p 1 14,
            ro_replacement_token = get_chars p 15 14,
            ro_shares = get_be32 p 29,
            ro_price = get_price p 33,
            ro_tif = get_be32 p 37,
            ro_display = p ! 41,
            ro_intermarket_sweep = p ! 42,
            ro_min_qty = get_be32 p 43\<rparr>)"

section \<open>Outbound messages\<close>

record ouch_system_event =
  se_timestamp :: u64
  se_event_code :: u8

definition kSystemEventSize :: nat where [codec_defs]: "kSystemEventSize = 10"

definition encode_ouch_system_event :: "ouch_system_event \<Rightarrow> bytes \<Rightarrow> bytes" where [codec_defs]:
  "encode_ouch_system_event m p =
     (let p = p[0 := 0x53];
          p = put_be64 p 1 (se_timestamp m);
          p = p[9 := se_event_code m]
      in p)"

definition decode_ouch_system_event :: "bytes \<Rightarrow> nat \<Rightarrow> ouch_system_event option" where [codec_defs]:
  "decode_ouch_system_event p n =
     (if n \<noteq> kSystemEventSize \<or> p ! 0 \<noteq> 0x53 then None
      else Some \<lparr>se_timestamp = get_be64 p 1,
            se_event_code = p ! 9\<rparr>)"

record accepted =
  ac_timestamp :: u64
  ac_token :: token
  ac_side :: side
  ac_shares :: qty
  ac_stock :: symbol
  ac_price :: price
  ac_tif :: u32
  ac_firm :: firm
  ac_display :: u8
  ac_order_ref :: u64
  ac_capacity :: u8
  ac_intermarket_sweep :: u8
  ac_min_qty :: qty
  ac_cross_type :: u8
  ac_order_state :: u8
  ac_bbo_weight_indicator :: u8

definition kAcceptedSize :: nat where [codec_defs]: "kAcceptedSize = 66"

text \<open>Accepted and Replaced share a 66-byte body; only the type byte differs.\<close>

definition put_accepted_body :: "accepted \<Rightarrow> bytes \<Rightarrow> bytes" where [codec_defs]:
  "put_accepted_body m p =
     (let p = put_be64 p 1 (ac_timestamp m);
          p = put_chars p 9 (ac_token m) 14;
          p = p[23 := ac_side m];
          p = put_be32 p 24 (ac_shares m);
          p = put_chars p 28 (ac_stock m) 8;
          p = put_price p 36 (ac_price m);
          p = put_be32 p 40 (ac_tif m);
          p = put_chars p 44 (ac_firm m) 4;
          p = p[48 := ac_display m];
          p = put_be64 p 49 (ac_order_ref m);
          p = p[57 := ac_capacity m];
          p = p[58 := ac_intermarket_sweep m];
          p = put_be32 p 59 (ac_min_qty m);
          p = p[63 := ac_cross_type m];
          p = p[64 := ac_order_state m];
          p = p[65 := ac_bbo_weight_indicator m]
      in p)"

definition get_accepted_body :: "bytes \<Rightarrow> accepted" where [codec_defs]:
  "get_accepted_body p =
     \<lparr>ac_timestamp = get_be64 p 1,
            ac_token = get_chars p 9 14,
            ac_side = p ! 23,
            ac_shares = get_be32 p 24,
            ac_stock = get_chars p 28 8,
            ac_price = get_price p 36,
            ac_tif = get_be32 p 40,
            ac_firm = get_chars p 44 4,
            ac_display = p ! 48,
            ac_order_ref = get_be64 p 49,
            ac_capacity = p ! 57,
            ac_intermarket_sweep = p ! 58,
            ac_min_qty = get_be32 p 59,
            ac_cross_type = p ! 63,
            ac_order_state = p ! 64,
            ac_bbo_weight_indicator = p ! 65\<rparr>"

definition encode_accepted :: "accepted \<Rightarrow> bytes \<Rightarrow> bytes" where [codec_defs]:
  "encode_accepted m p = (let p = p[0 := 0x41] in put_accepted_body m p)"

definition decode_accepted :: "bytes \<Rightarrow> nat \<Rightarrow> accepted option" where [codec_defs]:
  "decode_accepted p n =
     (if n \<noteq> kAcceptedSize \<or> p ! 0 \<noteq> 0x41 then None else Some (get_accepted_body p))"

record replaced =
  rp_timestamp :: u64
  rp_replacement_token :: token
  rp_side :: side
  rp_shares :: qty
  rp_stock :: symbol
  rp_price :: price
  rp_tif :: u32
  rp_firm :: firm
  rp_display :: u8
  rp_order_ref :: u64
  rp_capacity :: u8
  rp_intermarket_sweep :: u8
  rp_min_qty :: qty
  rp_cross_type :: u8
  rp_order_state :: u8
  rp_bbo_weight_indicator :: u8
  rp_previous_token :: token

definition kReplacedSize :: nat where [codec_defs]: "kReplacedSize = 80"

definition replaced_body :: "replaced \<Rightarrow> accepted" where [codec_defs]:
  "replaced_body m =
     \<lparr>ac_timestamp = rp_timestamp m,
            ac_token = rp_replacement_token m,
            ac_side = rp_side m,
            ac_shares = rp_shares m,
            ac_stock = rp_stock m,
            ac_price = rp_price m,
            ac_tif = rp_tif m,
            ac_firm = rp_firm m,
            ac_display = rp_display m,
            ac_order_ref = rp_order_ref m,
            ac_capacity = rp_capacity m,
            ac_intermarket_sweep = rp_intermarket_sweep m,
            ac_min_qty = rp_min_qty m,
            ac_cross_type = rp_cross_type m,
            ac_order_state = rp_order_state m,
            ac_bbo_weight_indicator = rp_bbo_weight_indicator m\<rparr>"

definition encode_replaced :: "replaced \<Rightarrow> bytes \<Rightarrow> bytes" where [codec_defs]:
  "encode_replaced m p =
     (let p = p[0 := 0x55];
          p = put_accepted_body (replaced_body m) p;
          p = put_chars p 66 (rp_previous_token m) 14
      in p)"

definition decode_replaced :: "bytes \<Rightarrow> nat \<Rightarrow> replaced option" where [codec_defs]:
  "decode_replaced p n =
     (if n \<noteq> kReplacedSize \<or> p ! 0 \<noteq> 0x55 then None
      else let body = get_accepted_body p in
        Some \<lparr>rp_timestamp = ac_timestamp body,
            rp_replacement_token = ac_token body,
            rp_side = ac_side body,
            rp_shares = ac_shares body,
            rp_stock = ac_stock body,
            rp_price = ac_price body,
            rp_tif = ac_tif body,
            rp_firm = ac_firm body,
            rp_display = ac_display body,
            rp_order_ref = ac_order_ref body,
            rp_capacity = ac_capacity body,
            rp_intermarket_sweep = ac_intermarket_sweep body,
            rp_min_qty = ac_min_qty body,
            rp_cross_type = ac_cross_type body,
            rp_order_state = ac_order_state body,
            rp_bbo_weight_indicator = ac_bbo_weight_indicator body,
            rp_previous_token = get_chars p 66 14\<rparr>)"

record executed =
  ex_timestamp :: u64
  ex_token :: token
  ex_executed_shares :: qty
  ex_execution_price :: price
  ex_liquidity_flag :: u8
  ex_match_number :: u64

definition kExecutedSize :: nat where [codec_defs]: "kExecutedSize = 40"

definition encode_executed :: "executed \<Rightarrow> bytes \<Rightarrow> bytes" where [codec_defs]:
  "encode_executed m p =
     (let p = p[0 := 0x45];
          p = put_be64 p 1 (ex_timestamp m);
          p = put_chars p 9 (ex_token m) 14;
          p = put_be32 p 23 (ex_executed_shares m);
          p = put_price p 27 (ex_execution_price m);
          p = p[31 := ex_liquidity_flag m];
          p = put_be64 p 32 (ex_match_number m)
      in p)"

definition decode_executed :: "bytes \<Rightarrow> nat \<Rightarrow> executed option" where [codec_defs]:
  "decode_executed p n =
     (if n \<noteq> kExecutedSize \<or> p ! 0 \<noteq> 0x45 then None
      else Some \<lparr>ex_timestamp = get_be64 p 1,
            ex_token = get_chars p 9 14,
            ex_executed_shares = get_be32 p 23,
            ex_execution_price = get_price p 27,
            ex_liquidity_flag = p ! 31,
            ex_match_number = get_be64 p 32\<rparr>)"

record canceled =
  ca_timestamp :: u64
  ca_token :: token
  ca_decrement_shares :: qty
  ca_reason :: u8

definition kCanceledSize :: nat where [codec_defs]: "kCanceledSize = 28"

definition encode_canceled :: "canceled \<Rightarrow> bytes \<Rightarrow> bytes" where [codec_defs]:
  "encode_canceled m p =
     (let p = p[0 := 0x43];
          p = put_be64 p 1 (ca_timestamp m);
          p = put_chars p 9 (ca_token m) 14;
          p = put_be32 p 23 (ca_decrement_shares m);
          p = p[27 := ca_reason m]
      in p)"

definition decode_canceled :: "bytes \<Rightarrow> nat \<Rightarrow> canceled option" where [codec_defs]:
  "decode_canceled p n =
     (if n \<noteq> kCanceledSize \<or> p ! 0 \<noteq> 0x43 then None
      else Some \<lparr>ca_timestamp = get_be64 p 1,
            ca_token = get_chars p 9 14,
            ca_decrement_shares = get_be32 p 23,
            ca_reason = p ! 27\<rparr>)"

record rejected =
  rj_timestamp :: u64
  rj_token :: token
  rj_reason :: u8

definition kRejectedSize :: nat where [codec_defs]: "kRejectedSize = 24"

definition encode_rejected :: "rejected \<Rightarrow> bytes \<Rightarrow> bytes" where [codec_defs]:
  "encode_rejected m p =
     (let p = p[0 := 0x4A];
          p = put_be64 p 1 (rj_timestamp m);
          p = put_chars p 9 (rj_token m) 14;
          p = p[23 := rj_reason m]
      in p)"

definition decode_rejected :: "bytes \<Rightarrow> nat \<Rightarrow> rejected option" where [codec_defs]:
  "decode_rejected p n =
     (if n \<noteq> kRejectedSize \<or> p ! 0 \<noteq> 0x4A then None
      else Some \<lparr>rj_timestamp = get_be64 p 1,
            rj_token = get_chars p 9 14,
            rj_reason = p ! 23\<rparr>)"

section \<open>Well-formed messages\<close>

definition wf_enter_order :: "enter_order \<Rightarrow> bool" where [codec_defs]:
  "wf_enter_order m \<longleftrightarrow> length (eo_token m) = 14 \<and> length (eo_stock m) = 8 \<and> wire_price (eo_price m) \<and> length (eo_firm m) = 4"

definition wf_cancel_order :: "cancel_order \<Rightarrow> bool" where [codec_defs]:
  "wf_cancel_order m \<longleftrightarrow> length (co_token m) = 14"

definition wf_replace_order :: "replace_order \<Rightarrow> bool" where [codec_defs]:
  "wf_replace_order m \<longleftrightarrow> length (ro_existing_token m) = 14 \<and> length (ro_replacement_token m) = 14 \<and> wire_price (ro_price m)"

definition wf_ouch_system_event :: "ouch_system_event \<Rightarrow> bool" where [codec_defs]:
  "wf_ouch_system_event m \<longleftrightarrow> True"

definition wf_accepted :: "accepted \<Rightarrow> bool" where [codec_defs]:
  "wf_accepted m \<longleftrightarrow> length (ac_token m) = 14 \<and> length (ac_stock m) = 8 \<and> wire_price (ac_price m) \<and> length (ac_firm m) = 4"

definition wf_replaced :: "replaced \<Rightarrow> bool" where [codec_defs]:
  "wf_replaced m \<longleftrightarrow> length (rp_replacement_token m) = 14 \<and> length (rp_stock m) = 8 \<and> wire_price (rp_price m) \<and> length (rp_firm m) = 4 \<and> length (rp_previous_token m) = 14"

definition wf_executed :: "executed \<Rightarrow> bool" where [codec_defs]:
  "wf_executed m \<longleftrightarrow> length (ex_token m) = 14 \<and> wire_price (ex_execution_price m)"

definition wf_canceled :: "canceled \<Rightarrow> bool" where [codec_defs]:
  "wf_canceled m \<longleftrightarrow> length (ca_token m) = 14"

definition wf_rejected :: "rejected \<Rightarrow> bool" where [codec_defs]:
  "wf_rejected m \<longleftrightarrow> length (rj_token m) = 14"

section \<open>Field laws\<close>

lemma put_chars_poke [buf_simps]: "put_chars p i s n = poke p i (take n s)"
  by (simp add: put_chars_def)

lemma put_price_poke [buf_simps]: "put_price p i v = poke p i (be32 (word_of_int v))"
  by (simp add: put_price_def put_be32_poke)

lemma get_chars_other [buf_simps]:
  "j + n \<le> i \<or> i + length bs \<le> j \<Longrightarrow> get_chars (poke p i bs) j n = get_chars p j n"
  by (simp add: get_chars_def peek_poke_other)

lemma get_chars_same [buf_simps]:
  "n = length bs \<Longrightarrow> i + length bs \<le> length p \<Longrightarrow> get_chars (poke p i bs) i n = bs"
  by (simp add: get_chars_def peek_poke_same)

lemma get_price_other [buf_simps]:
  "i + 4 \<le> j \<or> j + length bs \<le> i \<Longrightarrow> get_price (poke p j bs) i = get_price p i"
  by (simp add: get_price_def get_be32_other)

lemma get_price_same [buf_simps]:
  "i + 4 \<le> length p \<Longrightarrow> wire_price v \<Longrightarrow> get_price (poke p i (be32 (word_of_int v))) i = v"
  by (simp add: get_price_def get_be32_same wire_price_def uint_word_of_int)

lemma take_get_chars [simp]: "take n (get_chars p i n) = get_chars p i n"
  by (simp add: get_chars_def peek_def)

lemma length_get_chars [simp]: "i + n \<le> length p \<Longrightarrow> length (get_chars p i n) = n"
  by (simp add: get_chars_def)

lemma get_chars_append [buf_simps]: "i + n \<le> length p \<Longrightarrow> get_chars (p @ r) i n = get_chars p i n"
  by (simp add: get_chars_def peek_append_right)

lemma get_price_append [buf_simps]: "i + 4 \<le> length p \<Longrightarrow> get_price (p @ r) i = get_price p i"
  by (simp add: get_price_def get_be32_append)

lemma wire_price_get [simp]: "wire_price (get_price p i)"
  using uint_lt2p[of "get_be32 p i"] by (simp add: wire_price_def get_price_def)

lemma be32_get_price [buf_simps]:
  "i + 4 \<le> length p \<Longrightarrow> be32 (word_of_int (get_price p i)) = peek p i 4"
  by (simp add: get_price_def be32_get)

text \<open>The bundle of layout and buffer facts that decides all codecs of this theory.\<close>

lemmas codec_simps = codec_defs buf_simps Let_def list_update_poke agree_poke agree_0 peek_1

interpretation enter_order: exact_codec encode_enter_order decode_enter_order wf_enter_order "\<lambda>_. kEnterOrderSize" "\<lambda>_. True"
proof
  show "decode_enter_order (encode_enter_order m p) kEnterOrderSize = Some m" if "wf_enter_order m" "length p = kEnterOrderSize" for m p
    using that by (cases m) (simp add: codec_simps del: poke.simps)
  show "agree (encode_enter_order m q) p kEnterOrderSize"
    if "decode_enter_order p (length p) = Some m" "length q = kEnterOrderSize" for p m q
    using that by (auto simp: codec_simps get_chars_def simp del: poke.simps split: if_splits)
qed (auto simp: codec_simps nth_append simp del: poke.simps split: if_splits)

interpretation cancel_order: exact_codec encode_cancel_order decode_cancel_order wf_cancel_order "\<lambda>_. kCancelOrderSize" "\<lambda>_. True"
proof
  show "decode_cancel_order (encode_cancel_order m p) kCancelOrderSize = Some m" if "wf_cancel_order m" "length p = kCancelOrderSize" for m p
    using that by (cases m) (simp add: codec_simps del: poke.simps)
  show "agree (encode_cancel_order m q) p kCancelOrderSize"
    if "decode_cancel_order p (length p) = Some m" "length q = kCancelOrderSize" for p m q
    using that by (auto simp: codec_simps get_chars_def simp del: poke.simps split: if_splits)
qed (auto simp: codec_simps nth_append simp del: poke.simps split: if_splits)

interpretation replace_order: exact_codec encode_replace_order decode_replace_order wf_replace_order "\<lambda>_. kReplaceOrderSize" "\<lambda>_. True"
proof
  show "decode_replace_order (encode_replace_order m p) kReplaceOrderSize = Some m" if "wf_replace_order m" "length p = kReplaceOrderSize" for m p
    using that by (cases m) (simp add: codec_simps del: poke.simps)
  show "agree (encode_replace_order m q) p kReplaceOrderSize"
    if "decode_replace_order p (length p) = Some m" "length q = kReplaceOrderSize" for p m q
    using that by (auto simp: codec_simps get_chars_def simp del: poke.simps split: if_splits)
qed (auto simp: codec_simps nth_append simp del: poke.simps split: if_splits)

interpretation ouch_system_event: exact_codec encode_ouch_system_event decode_ouch_system_event wf_ouch_system_event "\<lambda>_. kSystemEventSize" "\<lambda>_. True"
proof
  show "decode_ouch_system_event (encode_ouch_system_event m p) kSystemEventSize = Some m" if "wf_ouch_system_event m" "length p = kSystemEventSize" for m p
    using that by (cases m) (simp add: codec_simps del: poke.simps)
  show "agree (encode_ouch_system_event m q) p kSystemEventSize"
    if "decode_ouch_system_event p (length p) = Some m" "length q = kSystemEventSize" for p m q
    using that by (auto simp: codec_simps get_chars_def simp del: poke.simps split: if_splits)
qed (auto simp: codec_simps nth_append simp del: poke.simps split: if_splits)

interpretation accepted: exact_codec encode_accepted decode_accepted wf_accepted "\<lambda>_. kAcceptedSize" "\<lambda>_. True"
proof
  show "decode_accepted (encode_accepted m p) kAcceptedSize = Some m" if "wf_accepted m" "length p = kAcceptedSize" for m p
    using that by (cases m) (simp add: codec_simps del: poke.simps)
  show "agree (encode_accepted m q) p kAcceptedSize"
    if "decode_accepted p (length p) = Some m" "length q = kAcceptedSize" for p m q
    using that by (auto simp: codec_simps get_chars_def simp del: poke.simps split: if_splits)
qed (auto simp: codec_simps nth_append simp del: poke.simps split: if_splits)

interpretation replaced: exact_codec encode_replaced decode_replaced wf_replaced "\<lambda>_. kReplacedSize" "\<lambda>_. True"
proof
  show "decode_replaced (encode_replaced m p) kReplacedSize = Some m" if "wf_replaced m" "length p = kReplacedSize" for m p
    using that by (cases m) (simp add: codec_simps del: poke.simps)
  show "agree (encode_replaced m q) p kReplacedSize"
    if "decode_replaced p (length p) = Some m" "length q = kReplacedSize" for p m q
    using that by (auto simp: codec_simps get_chars_def simp del: poke.simps split: if_splits)
qed (auto simp: codec_simps nth_append simp del: poke.simps split: if_splits)

interpretation executed: exact_codec encode_executed decode_executed wf_executed "\<lambda>_. kExecutedSize" "\<lambda>_. True"
proof
  show "decode_executed (encode_executed m p) kExecutedSize = Some m" if "wf_executed m" "length p = kExecutedSize" for m p
    using that by (cases m) (simp add: codec_simps del: poke.simps)
  show "agree (encode_executed m q) p kExecutedSize"
    if "decode_executed p (length p) = Some m" "length q = kExecutedSize" for p m q
    using that by (auto simp: codec_simps get_chars_def simp del: poke.simps split: if_splits)
qed (auto simp: codec_simps nth_append simp del: poke.simps split: if_splits)

interpretation canceled: exact_codec encode_canceled decode_canceled wf_canceled "\<lambda>_. kCanceledSize" "\<lambda>_. True"
proof
  show "decode_canceled (encode_canceled m p) kCanceledSize = Some m" if "wf_canceled m" "length p = kCanceledSize" for m p
    using that by (cases m) (simp add: codec_simps del: poke.simps)
  show "agree (encode_canceled m q) p kCanceledSize"
    if "decode_canceled p (length p) = Some m" "length q = kCanceledSize" for p m q
    using that by (auto simp: codec_simps get_chars_def simp del: poke.simps split: if_splits)
qed (auto simp: codec_simps nth_append simp del: poke.simps split: if_splits)

interpretation rejected: exact_codec encode_rejected decode_rejected wf_rejected "\<lambda>_. kRejectedSize" "\<lambda>_. True"
proof
  show "decode_rejected (encode_rejected m p) kRejectedSize = Some m" if "wf_rejected m" "length p = kRejectedSize" for m p
    using that by (cases m) (simp add: codec_simps del: poke.simps)
  show "agree (encode_rejected m q) p kRejectedSize"
    if "decode_rejected p (length p) = Some m" "length q = kRejectedSize" for p m q
    using that by (auto simp: codec_simps get_chars_def simp del: poke.simps split: if_splits)
qed (auto simp: codec_simps nth_append simp del: poke.simps split: if_splits)

end
