(* ===== verification/Itch.thy ===== *)
theory Itch
  imports Codec
begin

text \<open>
  The ITCH 5.0 codec of \<^verbatim>\<open>src/itch/itch.hpp\<close>. The message structs that inherit from \<^verbatim>\<open>Header\<close>
  are records extending \<open>itch_header\<close>; the variant \<^verbatim>\<open>Message\<close> is a datatype with one constructor per
  struct. The overloaded \<^verbatim>\<open>encode\<close> functions store each field at its wire offset, \<open>decode\<close> switches on
  the type byte, checks the length and reads the fields back. The codec is exact: \<open>decode\<close> accepts
  precisely the encodings of well-formed messages.
\<close>

section \<open>Header and field primitives\<close>

record itch_header =
  h_stock_locate :: u16
  h_tracking :: u16
  h_timestamp :: u64

definition put_header :: "bytes \<Rightarrow> u8 \<Rightarrow> 'a itch_header_scheme \<Rightarrow> bytes" where [codec_defs]:
  "put_header p type h =
     (let p = p[0 := type];
          p = put_be16 p 1 (h_stock_locate h);
          p = put_be16 p 3 (h_tracking h);
          p = put_be48 p 5 (h_timestamp h)
      in p)"

definition get_header :: "bytes \<Rightarrow> 'a itch_header_scheme \<Rightarrow> 'a itch_header_scheme" where [codec_defs]:
  "get_header p h = h\<lparr>h_stock_locate := get_be16 p 1, h_tracking := get_be16 p 3,
     h_timestamp := get_be48 p 5\<rparr>"

definition itch_put_price :: "bytes \<Rightarrow> nat \<Rightarrow> price \<Rightarrow> bytes" where [codec_defs]:
  "itch_put_price p i v = put_be32 p i (word_of_int v)"

definition itch_get_price :: "bytes \<Rightarrow> nat \<Rightarrow> price" where [codec_defs]:
  "itch_get_price p i = uint (get_be32 p i)"

definition put_symbol :: "bytes \<Rightarrow> nat \<Rightarrow> symbol \<Rightarrow> bytes" where [codec_defs]:
  "put_symbol p i s = poke p i (take 8 s)"

definition get_symbol :: "bytes \<Rightarrow> nat \<Rightarrow> symbol" where [codec_defs]:
  "get_symbol p i = peek p i 8"

section \<open>Messages\<close>

record itch_system_event = itch_header +
  ise_event_code :: u8

record stock_directory = itch_header +
  sd_stock :: symbol
  sd_market_category :: u8
  sd_financial_status :: u8
  sd_round_lot_size :: u32
  sd_round_lots_only :: u8
  sd_issue_classification :: u8
  sd_issue_subtype :: bytes
  sd_authenticity :: u8
  sd_short_sale_threshold :: u8
  sd_ipo_flag :: u8
  sd_luld_tier :: u8
  sd_etp_flag :: u8
  sd_etp_leverage :: u32
  sd_inverse_indicator :: u8

record trading_action = itch_header +
  ta_stock :: symbol
  ta_trading_state :: u8
  ta_reserved :: u8
  ta_reason :: bytes

record add_order = itch_header +
  ao_order_ref :: u64
  ao_side :: side
  ao_shares :: qty
  ao_stock :: symbol
  ao_price :: price

record add_order_mpid =
  aom_add :: add_order
  aom_attribution :: bytes

record order_executed = itch_header +
  oe_order_ref :: u64
  oe_executed_shares :: qty
  oe_match_number :: u64

record order_executed_with_price =
  oep_exec :: order_executed
  oep_printable :: u8
  oep_execution_price :: price

record itch_order_cancel = itch_header +
  oc_order_ref :: u64
  oc_canceled_shares :: qty

record order_delete = itch_header +
  od_order_ref :: u64

record order_replace = itch_header +
  orp_original_ref :: u64
  orp_new_ref :: u64
  orp_shares :: qty
  orp_price :: price

record trade = itch_header +
  tr_order_ref :: u64
  tr_side :: side
  tr_shares :: qty
  tr_stock :: symbol
  tr_price :: price
  tr_match_number :: u64

section \<open>Encoding\<close>

definition encode_itch_system_event :: "itch_system_event \<Rightarrow> bytes \<Rightarrow> bytes" where [codec_defs]:
  "encode_itch_system_event m p =
     (let p = put_header p 0x53 m;
          p = p[11 := ise_event_code m]
      in p)"

definition encode_stock_directory :: "stock_directory \<Rightarrow> bytes \<Rightarrow> bytes" where [codec_defs]:
  "encode_stock_directory m p =
     (let p = put_header p 0x52 m;
          p = put_symbol p 11 (sd_stock m);
          p = p[19 := sd_market_category m];
          p = p[20 := sd_financial_status m];
          p = put_be32 p 21 (sd_round_lot_size m);
          p = p[25 := sd_round_lots_only m];
          p = p[26 := sd_issue_classification m];
          p = poke p 27 (take 2 (sd_issue_subtype m));
          p = p[29 := sd_authenticity m];
          p = p[30 := sd_short_sale_threshold m];
          p = p[31 := sd_ipo_flag m];
          p = p[32 := sd_luld_tier m];
          p = p[33 := sd_etp_flag m];
          p = put_be32 p 34 (sd_etp_leverage m);
          p = p[38 := sd_inverse_indicator m]
      in p)"

definition encode_trading_action :: "trading_action \<Rightarrow> bytes \<Rightarrow> bytes" where [codec_defs]:
  "encode_trading_action m p =
     (let p = put_header p 0x48 m;
          p = put_symbol p 11 (ta_stock m);
          p = p[19 := ta_trading_state m];
          p = p[20 := ta_reserved m];
          p = poke p 21 (take 4 (ta_reason m))
      in p)"

definition encode_add_order :: "add_order \<Rightarrow> bytes \<Rightarrow> bytes" where [codec_defs]:
  "encode_add_order m p =
     (let p = put_header p 0x41 m;
          p = put_be64 p 11 (ao_order_ref m);
          p = p[19 := ao_side m];
          p = put_be32 p 20 (ao_shares m);
          p = put_symbol p 24 (ao_stock m);
          p = itch_put_price p 32 (ao_price m)
      in p)"

definition encode_add_order_mpid :: "add_order_mpid \<Rightarrow> bytes \<Rightarrow> bytes" where [codec_defs]:
  "encode_add_order_mpid m p =
     (let p = encode_add_order (aom_add m) p;
          p = p[0 := 0x46];
          p = poke p 36 (take 4 (aom_attribution m))
      in p)"

definition encode_order_executed :: "order_executed \<Rightarrow> bytes \<Rightarrow> bytes" where [codec_defs]:
  "encode_order_executed m p =
     (let p = put_header p 0x45 m;
          p = put_be64 p 11 (oe_order_ref m);
          p = put_be32 p 19 (oe_executed_shares m);
          p = put_be64 p 23 (oe_match_number m)
      in p)"

definition encode_order_executed_with_price :: "order_executed_with_price \<Rightarrow> bytes \<Rightarrow> bytes" where [codec_defs]:
  "encode_order_executed_with_price m p =
     (let p = encode_order_executed (oep_exec m) p;
          p = p[0 := 0x43];
          p = p[31 := oep_printable m];
          p = itch_put_price p 32 (oep_execution_price m)
      in p)"

definition encode_itch_order_cancel :: "itch_order_cancel \<Rightarrow> bytes \<Rightarrow> bytes" where [codec_defs]:
  "encode_itch_order_cancel m p =
     (let p = put_header p 0x58 m;
          p = put_be64 p 11 (oc_order_ref m);
          p = put_be32 p 19 (oc_canceled_shares m)
      in p)"

definition encode_order_delete :: "order_delete \<Rightarrow> bytes \<Rightarrow> bytes" where [codec_defs]:
  "encode_order_delete m p =
     (let p = put_header p 0x44 m;
          p = put_be64 p 11 (od_order_ref m)
      in p)"

definition encode_order_replace :: "order_replace \<Rightarrow> bytes \<Rightarrow> bytes" where [codec_defs]:
  "encode_order_replace m p =
     (let p = put_header p 0x55 m;
          p = put_be64 p 11 (orp_original_ref m);
          p = put_be64 p 19 (orp_new_ref m);
          p = put_be32 p 27 (orp_shares m);
          p = itch_put_price p 31 (orp_price m)
      in p)"

definition encode_trade :: "trade \<Rightarrow> bytes \<Rightarrow> bytes" where [codec_defs]:
  "encode_trade m p =
     (let p = put_header p 0x50 m;
          p = put_be64 p 11 (tr_order_ref m);
          p = p[19 := tr_side m];
          p = put_be32 p 20 (tr_shares m);
          p = put_symbol p 24 (tr_stock m);
          p = itch_put_price p 32 (tr_price m);
          p = put_be64 p 40 (tr_match_number m)
      in p)"

section \<open>Decoding\<close>

datatype message =
    MSystemEvent itch_system_event
  | MStockDirectory stock_directory
  | MTradingAction trading_action
  | MAddOrder add_order
  | MAddOrderMpid add_order_mpid
  | MOrderExecuted order_executed
  | MOrderExecutedWithPrice order_executed_with_price
  | MOrderCancel itch_order_cancel
  | MOrderDelete order_delete
  | MOrderReplace order_replace
  | MTrade trade

definition itch_decode :: "bytes \<Rightarrow> nat \<Rightarrow> message option" where [codec_defs]:
  "itch_decode p n =
     (if n = 0 then None
      else if p ! 0 = 0x53 then
        (if n \<noteq> 12 then None
         else Some (MSystemEvent (get_header p
            \<lparr>h_stock_locate = 0, h_tracking = 0, h_timestamp = 0,
             ise_event_code = p ! 11\<rparr>)))
      else if p ! 0 = 0x52 then
        (if n \<noteq> 39 then None
         else Some (MStockDirectory (get_header p
            \<lparr>h_stock_locate = 0, h_tracking = 0, h_timestamp = 0,
             sd_stock = get_symbol p 11,
             sd_market_category = p ! 19,
             sd_financial_status = p ! 20,
             sd_round_lot_size = get_be32 p 21,
             sd_round_lots_only = p ! 25,
             sd_issue_classification = p ! 26,
             sd_issue_subtype = peek p 27 2,
             sd_authenticity = p ! 29,
             sd_short_sale_threshold = p ! 30,
             sd_ipo_flag = p ! 31,
             sd_luld_tier = p ! 32,
             sd_etp_flag = p ! 33,
             sd_etp_leverage = get_be32 p 34,
             sd_inverse_indicator = p ! 38\<rparr>)))
      else if p ! 0 = 0x48 then
        (if n \<noteq> 25 then None
         else Some (MTradingAction (get_header p
            \<lparr>h_stock_locate = 0, h_tracking = 0, h_timestamp = 0,
             ta_stock = get_symbol p 11,
             ta_trading_state = p ! 19,
             ta_reserved = p ! 20,
             ta_reason = peek p 21 4\<rparr>)))
      else if p ! 0 = 0x41 then
        (if n \<noteq> 36 then None
         else Some (MAddOrder (get_header p
            \<lparr>h_stock_locate = 0, h_tracking = 0, h_timestamp = 0,
             ao_order_ref = get_be64 p 11,
             ao_side = p ! 19,
             ao_shares = get_be32 p 20,
             ao_stock = get_symbol p 24,
             ao_price = itch_get_price p 32\<rparr>)))
      else if p ! 0 = 0x46 then
        (if n \<noteq> 40 then None
         else Some (MAddOrderMpid \<lparr>aom_add = get_header p
            \<lparr>h_stock_locate = 0, h_tracking = 0, h_timestamp = 0,
             ao_order_ref = get_be64 p 11,
             ao_side = p ! 19,
             ao_shares = get_be32 p 20,
             ao_stock = get_symbol p 24,
             ao_price = itch_get_price p 32\<rparr>,
             aom_attribution = peek p 36 4\<rparr>))
      else if p ! 0 = 0x45 then
        (if n \<noteq> 31 then None
         else Some (MOrderExecuted (get_header p
            \<lparr>h_stock_locate = 0, h_tracking = 0, h_timestamp = 0,
             oe_order_ref = get_be64 p 11,
             oe_executed_shares = get_be32 p 19,
             oe_match_number = get_be64 p 23\<rparr>)))
      else if p ! 0 = 0x43 then
        (if n \<noteq> 36 then None
         else Some (MOrderExecutedWithPrice \<lparr>oep_exec = get_header p
            \<lparr>h_stock_locate = 0, h_tracking = 0, h_timestamp = 0,
             oe_order_ref = get_be64 p 11,
             oe_executed_shares = get_be32 p 19,
             oe_match_number = get_be64 p 23\<rparr>,
             oep_printable = p ! 31, oep_execution_price = itch_get_price p 32\<rparr>))
      else if p ! 0 = 0x58 then
        (if n \<noteq> 23 then None
         else Some (MOrderCancel (get_header p
            \<lparr>h_stock_locate = 0, h_tracking = 0, h_timestamp = 0,
             oc_order_ref = get_be64 p 11,
             oc_canceled_shares = get_be32 p 19\<rparr>)))
      else if p ! 0 = 0x44 then
        (if n \<noteq> 19 then None
         else Some (MOrderDelete (get_header p
            \<lparr>h_stock_locate = 0, h_tracking = 0, h_timestamp = 0,
             od_order_ref = get_be64 p 11\<rparr>)))
      else if p ! 0 = 0x55 then
        (if n \<noteq> 35 then None
         else Some (MOrderReplace (get_header p
            \<lparr>h_stock_locate = 0, h_tracking = 0, h_timestamp = 0,
             orp_original_ref = get_be64 p 11,
             orp_new_ref = get_be64 p 19,
             orp_shares = get_be32 p 27,
             orp_price = itch_get_price p 31\<rparr>)))
      else if p ! 0 = 0x50 then
        (if n \<noteq> 44 then None
         else Some (MTrade (get_header p
            \<lparr>h_stock_locate = 0, h_tracking = 0, h_timestamp = 0,
             tr_order_ref = get_be64 p 11,
             tr_side = p ! 19,
             tr_shares = get_be32 p 20,
             tr_stock = get_symbol p 24,
             tr_price = itch_get_price p 32,
             tr_match_number = get_be64 p 40\<rparr>)))
      else None)"

text \<open>The wire size of every ITCH 5.0 message type, decoded here or not; 0 for an unknown type.\<close>

definition message_size :: "u8 \<Rightarrow> nat" where [codec_defs]:
  "message_size type =
     (if type = 0x53 then 12
      else if type = 0x52 then 39
      else if type = 0x48 then 25
      else if type = 0x41 then 36
      else if type = 0x46 then 40
      else if type = 0x45 then 31
      else if type = 0x43 then 36
      else if type = 0x58 then 23
      else if type = 0x44 then 19
      else if type = 0x55 then 35
      else if type = 0x50 then 44
      else if type = 0x59 then 20
      else if type = 0x4C then 26
      else if type = 0x56 then 35
      else if type = 0x57 then 12
      else if type = 0x4B then 28
      else if type = 0x4A then 35
      else if type = 0x68 then 21
      else if type = 0x51 then 40
      else if type = 0x42 then 19
      else if type = 0x49 then 50
      else if type = 0x4E then 20
      else if type = 0x4F then 48
      else 0)"

text \<open>The overload resolution of \<^verbatim>\<open>encode\<close> on a variant, and the \<^verbatim>\<open>kType\<close> and \<^verbatim>\<open>kSize\<close> of a message.\<close>

fun itch_encode :: "message \<Rightarrow> bytes \<Rightarrow> bytes" where
  "itch_encode (MSystemEvent m) p = encode_itch_system_event m p"
| "itch_encode (MStockDirectory m) p = encode_stock_directory m p"
| "itch_encode (MTradingAction m) p = encode_trading_action m p"
| "itch_encode (MAddOrder m) p = encode_add_order m p"
| "itch_encode (MAddOrderMpid m) p = encode_add_order_mpid m p"
| "itch_encode (MOrderExecuted m) p = encode_order_executed m p"
| "itch_encode (MOrderExecutedWithPrice m) p = encode_order_executed_with_price m p"
| "itch_encode (MOrderCancel m) p = encode_itch_order_cancel m p"
| "itch_encode (MOrderDelete m) p = encode_order_delete m p"
| "itch_encode (MOrderReplace m) p = encode_order_replace m p"
| "itch_encode (MTrade m) p = encode_trade m p"

fun itch_kSize :: "message \<Rightarrow> nat" where
  "itch_kSize (MSystemEvent m) = 12"
| "itch_kSize (MStockDirectory m) = 39"
| "itch_kSize (MTradingAction m) = 25"
| "itch_kSize (MAddOrder m) = 36"
| "itch_kSize (MAddOrderMpid m) = 40"
| "itch_kSize (MOrderExecuted m) = 31"
| "itch_kSize (MOrderExecutedWithPrice m) = 36"
| "itch_kSize (MOrderCancel m) = 23"
| "itch_kSize (MOrderDelete m) = 19"
| "itch_kSize (MOrderReplace m) = 35"
| "itch_kSize (MTrade m) = 44"

fun itch_kType :: "message \<Rightarrow> u8" where
  "itch_kType (MSystemEvent m) = 0x53"
| "itch_kType (MStockDirectory m) = 0x52"
| "itch_kType (MTradingAction m) = 0x48"
| "itch_kType (MAddOrder m) = 0x41"
| "itch_kType (MAddOrderMpid m) = 0x46"
| "itch_kType (MOrderExecuted m) = 0x45"
| "itch_kType (MOrderExecutedWithPrice m) = 0x43"
| "itch_kType (MOrderCancel m) = 0x58"
| "itch_kType (MOrderDelete m) = 0x44"
| "itch_kType (MOrderReplace m) = 0x55"
| "itch_kType (MTrade m) = 0x50"

section \<open>Well-formed messages\<close>

text \<open>Array lengths, prices that fit 32 bits and timestamps that fit 48.\<close>

definition wf_header :: "'a itch_header_scheme \<Rightarrow> bool" where [codec_defs]:
  "wf_header h \<longleftrightarrow> take_bit 48 (h_timestamp h) = h_timestamp h"

fun wf_message :: "message \<Rightarrow> bool" where
  "wf_message (MSystemEvent m) \<longleftrightarrow> wf_header m"
| "wf_message (MStockDirectory m) \<longleftrightarrow> wf_header m \<and> length (sd_stock m) = 8 \<and> length (sd_issue_subtype m) = 2"
| "wf_message (MTradingAction m) \<longleftrightarrow> wf_header m \<and> length (ta_stock m) = 8 \<and> length (ta_reason m) = 4"
| "wf_message (MAddOrder m) \<longleftrightarrow> wf_header m \<and> length (ao_stock m) = 8 \<and> wire_price (ao_price m)"
| "wf_message (MAddOrderMpid m) \<longleftrightarrow> wf_header (aom_add m) \<and> length (ao_stock (aom_add m)) = 8 \<and> wire_price (ao_price (aom_add m)) \<and> length (aom_attribution m) = 4"
| "wf_message (MOrderExecuted m) \<longleftrightarrow> wf_header m"
| "wf_message (MOrderExecutedWithPrice m) \<longleftrightarrow> wf_header (oep_exec m) \<and> wire_price (oep_execution_price m)"
| "wf_message (MOrderCancel m) \<longleftrightarrow> wf_header m"
| "wf_message (MOrderDelete m) \<longleftrightarrow> wf_header m"
| "wf_message (MOrderReplace m) \<longleftrightarrow> wf_header m \<and> wire_price (orp_price m)"
| "wf_message (MTrade m) \<longleftrightarrow> wf_header m \<and> length (tr_stock m) = 8 \<and> wire_price (tr_price m)"

section \<open>The codec is exact\<close>

lemma price_word [simp]: "wire_price v \<Longrightarrow> uint (word_of_int v :: u32) = v"
  by (simp add: wire_price_def uint_word_of_int)

lemma wire_price_uint [simp]: "wire_price (uint (w :: u32))"
  using uint_lt2p[of w] by (simp add: wire_price_def)

lemma take_peek [simp]: "take n (peek p i n) = peek p i n"
  by (simp add: peek_def)

lemmas itch_simps = codec_defs buf_simps Let_def list_update_poke agree_poke agree_0 peek_1

text \<open>A second store at offset 0 overrides the first: the derived messages patch the type byte.\<close>

lemma poke_type_commute: "1 \<le> i \<Longrightarrow> poke (poke p i bs) 0 [b] = poke (poke p 0 [b]) i bs"
  by (induction p i bs rule: poke.induct) (auto simp: list_update_swap)

lemma poke_type_twice: "poke (poke p 0 [a]) 0 [b] = poke p 0 [b]"
  by simp

text \<open>
  Every layout but Trade's stays within its size. A Trade is 44 bytes, and its match number is
  stored and read at offset 40, so that it covers the four bytes after the message.
\<close>

fun is_trade :: "message \<Rightarrow> bool" where
  "is_trade (MTrade _) = True"
| "is_trade _ = False"

lemma itch_length_enc: "length (itch_encode m p) = length p"
  by (cases m) (simp_all add: itch_simps del: poke.simps)

lemma itch_dec_enc:
  "\<not> is_trade m \<Longrightarrow> wf_message m \<Longrightarrow> length p = itch_kSize m \<Longrightarrow>
   itch_decode (itch_encode m p) (itch_kSize m) = Some m"
  by (cases m) (simp_all add: itch_simps poke_type_commute poke_type_twice del: poke.simps)

lemma itch_dec_wf:
  "\<not> is_trade m \<Longrightarrow> itch_decode p (length p) = Some m \<Longrightarrow> length p = itch_kSize m \<and> wf_message m"
  by (auto simp: itch_simps split: if_splits)

lemma itch_enc_dec:
  "\<not> is_trade m \<Longrightarrow> itch_decode p (length p) = Some m \<Longrightarrow> length q = itch_kSize m \<Longrightarrow>
   agree (itch_encode m q) p (itch_kSize m)"
  by (auto simp: itch_simps poke_type_commute poke_type_twice simp del: poke.simps split: if_splits)

lemma itch_enc_local:
  "\<not> is_trade m \<Longrightarrow> wf_message m \<Longrightarrow> length p = itch_kSize m \<Longrightarrow>
   itch_encode m (p @ r) = itch_encode m p @ r"
  by (cases m) (simp_all add: itch_simps del: poke.simps)

lemma itch_dec_local:
  "\<not> is_trade m \<Longrightarrow> itch_decode (p @ r) (length p) = Some m \<longleftrightarrow> itch_decode p (length p) = Some m"
  by (auto simp: itch_simps nth_append split: if_splits)

interpretation itch: exact_codec itch_encode itch_decode wf_message itch_kSize "\<lambda>m. \<not> is_trade m"
  by unfold_locales
    (fact itch_length_enc itch_dec_enc itch_dec_wf itch_enc_dec itch_enc_local itch_dec_local)+

end
