(* ===== verification/Codec_Props.thy ===== *)
theory Codec_Props
  imports Ouch Itch
begin

text \<open>
  What the two message codecs guarantee: decoders that accept exactly the encodings of well-formed
  messages, and never read or write past a message. The one exception is the ITCH Trade message,
  whose layout is longer than its size.
\<close>

text \<open>
  C35. The inbound OUCH codec is exact: a decoder accepts a message if and only if it is, byte for
  byte, the encoding of the decoded value, with every field in range. So a decoded order means the
  same as the bytes the client sent, and two different orders never share an encoding.
\<close>

theorem ouch_inbound_exact:
  "(decode_enter_order p (length p) = Some eo \<longleftrightarrow>
      wf_enter_order eo \<and> p = encode_enter_order eo (replicate kEnterOrderSize 0)) \<and>
   (decode_cancel_order p (length p) = Some co \<longleftrightarrow>
      wf_cancel_order co \<and> p = encode_cancel_order co (replicate kCancelOrderSize 0)) \<and>
   (decode_replace_order p (length p) = Some ro \<longleftrightarrow>
      wf_replace_order ro \<and> p = encode_replace_order ro (replicate kReplaceOrderSize 0))"
  using enter_order.dec_iff[of p eo] cancel_order.dec_iff[of p co] replace_order.dec_iff[of p ro] by simp

text \<open>C36. The outbound OUCH codec is exact in the same sense, for all six messages the exchange sends.\<close>

theorem ouch_outbound_exact:
  "(decode_ouch_system_event p (length p) = Some se \<longleftrightarrow>
      wf_ouch_system_event se \<and> p = encode_ouch_system_event se (replicate kSystemEventSize 0)) \<and>
   (decode_accepted p (length p) = Some ac \<longleftrightarrow>
      wf_accepted ac \<and> p = encode_accepted ac (replicate kAcceptedSize 0)) \<and>
   (decode_replaced p (length p) = Some rp \<longleftrightarrow>
      wf_replaced rp \<and> p = encode_replaced rp (replicate kReplacedSize 0)) \<and>
   (decode_executed p (length p) = Some ex \<longleftrightarrow>
      wf_executed ex \<and> p = encode_executed ex (replicate kExecutedSize 0)) \<and>
   (decode_canceled p (length p) = Some ca \<longleftrightarrow>
      wf_canceled ca \<and> p = encode_canceled ca (replicate kCanceledSize 0)) \<and>
   (decode_rejected p (length p) = Some rj \<longleftrightarrow>
      wf_rejected rj \<and> p = encode_rejected rj (replicate kRejectedSize 0))"
  using ouch_system_event.dec_iff[of p se] accepted.dec_iff[of p ac] replaced.dec_iff[of p rp]
    executed.dec_iff[of p ex] canceled.dec_iff[of p ca] rejected.dec_iff[of p rj] by simp

text \<open>
  C37. The ITCH decoder is exact on every message but Trade: it accepts the encodings of well-formed
  messages of the ten types, from exactly the message's bytes, and nothing else.
\<close>

theorem itch_exact:
  assumes "\<not> is_trade m"
  shows "(itch_decode p (length p) = Some m \<longleftrightarrow> wf_message m \<and> p = itch_encode m (replicate (itch_kSize m) 0)) \<and>
    (itch_decode (p @ r) (length p) = Some m \<longleftrightarrow> itch_decode p (length p) = Some m)"
  using itch.dec_iff[OF assms, of p] itch.dec_local[OF assms, of p r] by blast

definition demo_delete :: message where
  "demo_delete = MOrderDelete \<lparr>h_stock_locate = 1, h_tracking = 2, h_timestamp = 3, od_order_ref = 0x0102030405060708\<rparr>"

theorem itch_exact_witness:
  "\<not> is_trade demo_delete \<and> wf_message demo_delete \<and>
   itch_decode (itch_encode demo_delete (replicate 19 0)) 19 = Some demo_delete"
proof -
  have "\<not> is_trade demo_delete" "wf_message demo_delete" "itch_kSize demo_delete = 19"
    by (simp_all add: demo_delete_def wf_header_def)
  with itch_exact[of demo_delete "itch_encode demo_delete (replicate 19 0)"] itch.length_enc[of demo_delete]
  show ?thesis by simp
qed

text \<open>
  C38. The Trade message does not fit its size: encoding one into a 44-byte buffer overwrites the
  four bytes behind it with the low half of the match number, whatever they held, and decoding a
  44-byte message takes the low half of the match number from the four bytes behind it.
\<close>

theorem itch_trade_overruns:
  assumes "length p = itch_kSize (MTrade t)" "length r = 4" "length (tr_stock t) = 8"
  shows "drop (itch_kSize (MTrade t)) (itch_encode (MTrade t) (p @ r)) = be32 (ucast (tr_match_number t)) \<and>
    (p ! 0 = itch_kType (MTrade t) \<longrightarrow> (\<exists>t'. itch_decode (p @ r) (length p) = Some (MTrade t') \<and>
       ucast (tr_match_number t') = get_be32 r 0))"
proof -
  obtain q where q: "encode_trade t (p @ r) = put_be64 q 40 (tr_match_number t)" "length q = 48"
    using assms by (simp add: encode_trade_def Let_def itch_simps del: poke.simps)
  then have "encode_trade t (p @ r) = poke (poke q 40 (be32 (ucast (drop_bit 32 (tr_match_number t))))) 44
      (be32 (ucast (tr_match_number t)))"
    by (simp add: put_be64_poke be64_def poke_append del: poke.simps)
  then have "peek (encode_trade t (p @ r)) 44 4 = be32 (ucast (tr_match_number t))"
    using q(2) by (simp add: peek_poke_same del: poke.simps)
  moreover have "length (encode_trade t (p @ r)) = 48" using q by (simp add: put_be64_poke)
  ultimately have "drop 44 (encode_trade t (p @ r)) = be32 (ucast (tr_match_number t))"
    by (simp add: peek_def)
  moreover have "get_be32 (p @ r) 44 = get_be32 r 0"
    using assms by (simp add: get_be32_def nth_append numeral_2_eq_2)
  then have "ucast (get_be64 (p @ r) 40) = get_be32 r 0"
    unfolding get_be64_def by (simp only: split_words64) simp
  ultimately show ?thesis using assms by (auto simp: itch_decode_def nth_append get_header_def)
qed

text \<open>A Trade with match number 1 in a buffer of its size, with four bytes of other data behind it.\<close>

definition demo_trade :: trade where
  "demo_trade = \<lparr>h_stock_locate = 1, h_tracking = 2, h_timestamp = 3, tr_order_ref = 4, tr_side = 0x42,
     tr_shares = 100, tr_stock = replicate 8 0x20, tr_price = 1000000, tr_match_number = 0x01020304\<rparr>"

theorem itch_trade_overruns_witness:
  "drop 44 (itch_encode (MTrade demo_trade) (replicate 44 0 @ [9, 9, 9, 9])) = [1, 2, 3, 4]"
proof -
  have "be32 (ucast (tr_match_number demo_trade)) = [1, 2, 3, 4]" by code_simp
  with itch_trade_overruns[of "replicate 44 0" demo_trade "[9, 9, 9, 9]"] show ?thesis
    by (simp add: demo_trade_def)
qed

text \<open>
  The framing table agrees with the decoder: a message decodes only at the size that
  \<^verbatim>\<open>message_size\<close> gives for its type byte, which is the size its encoder assumes.
\<close>

lemma itch_message_size_agrees:
  assumes "itch_decode p n = Some m"
  shows "p ! 0 = itch_kType m \<and> n = message_size (p ! 0) \<and> n = itch_kSize m"
  using assms by (auto simp: itch_decode_def message_size_def split: if_splits)

text \<open>
  Symbols survive padding and trimming: a name of at most eight characters that does not end in
  a blank is read back unchanged, and every stored symbol is the padding of its own view.
\<close>

lemma symbol_pad_trim:
  "(length sv \<le> 8 \<and> (sv = [] \<or> last sv \<noteq> 0x20) \<longrightarrow> symbol_view (make_symbol sv) = sv) \<and>
   (length s = 8 \<longrightarrow> make_symbol (symbol_view s) = s)"
proof -
  have "min 8 (view_len s 8) = view_len s 8" using view_len_le[of s 8] by simp
  then show ?thesis using trim_pad[of sv 8] pad_trim[of s 8]
    by (simp add: symbol_view_def make_symbol_def)
qed

text \<open>
  A non-negative price prints as its dollars, a point and exactly four digits, and the digits
  give the price back.
\<close>

lemma price_to_string_value:
  assumes "0 \<le> p"
  shows "\<exists>ds fs. price_to_string p = Some (ds @ [0x2E] @ fs) \<and> length fs = 4 \<and>
    (\<forall>c\<in>set (ds @ fs). is_digit c) \<and> int (dec_value 0 ds) * kPriceScale + int (dec_value 0 fs) = p"
proof -
  let ?d = "to_string_nat (nat (p div 10000))" and ?f = "to_string_nat (nat (p mod 10000))"
  have l: "length ?f \<le> 4" by (rule length_to_string_nat[of _ 3, simplified]) simp
  have c: "cdiv p 10000 = p div 10000" "cmod p 10000 = p mod 10000"
    using assms by (auto simp: cdiv_def cmod_def sgn_if minus_mult_div_eq_mod)
  then have s: "price_to_string p = Some (?d @ [0x2E] @ replicate (4 - length ?f) 0x30 @ ?f)"
    using assms l by (simp add: price_to_string_def kPriceScale_def to_string_def Let_def pos_imp_zdiv_neg_iff)
  have "is_digit 0x30" by (simp add: is_digit_def)
  then have "\<forall>c\<in>set (?d @ replicate (4 - length ?f) 0x30 @ ?f). is_digit c"
    using to_string_nat_digits by auto
  moreover have "int (dec_value 0 ?d) * kPriceScale + int (dec_value 0 (replicate (4 - length ?f) 0x30 @ ?f)) = p"
    using assms pos_imp_zdiv_nonneg_iff[of 10000 p] by (simp add: dec_value_zeros dec_value_to_string kPriceScale_def)
  ultimately show ?thesis using s l
    by (intro exI[of _ ?d] exI[of _ "replicate (4 - length ?f) 0x30 @ ?f"]) simp
qed

text \<open>
  C40. A negative price whose fraction has four digits cannot be printed: the padding count wraps
  and the append throws.
\<close>

theorem price_to_string_negative_throws:
  assumes "p < 0" "1000 \<le> (- p) mod kPriceScale"
  shows "price_to_string p = None"
proof -
  have c: "cmod p 10000 = - ((- p) mod 10000)"
    using assms(1) minus_mult_div_eq_mod[of "- p" 10000] by (simp add: cmod_def cdiv_def sgn_if)
  have "length (to_string (cmod p 10000)) = Suc (length (to_string_nat (nat ((- p) mod 10000))))"
    using assms c by (simp add: to_string_def kPriceScale_def)
  moreover have "Suc 3 \<le> length (to_string_nat (nat ((- p) mod 10000)))"
    using assms(2) by (intro length_to_string_nat_ge) (simp add: kPriceScale_def nat_le_iff le_nat_iff)
  ultimately show ?thesis by (simp add: price_to_string_def kPriceScale_def Let_def)
qed

theorem price_to_string_negative_throws_witness:
  "(-12345 :: price) < 0 \<and> 1000 \<le> (- (-12345)) mod kPriceScale \<and> price_to_string (-12345) = None"
  using price_to_string_negative_throws[of "-12345"] by (simp add: kPriceScale_def)

end
