(* ===== verification/Map_Index.thy ===== *)
theory Map_Index
  imports Nsq_Prelude
begin

text \<open>
  The interface of an associative container whose operations may fail to return: what a client of
  the order index relies on, and what follows for a sequence of operations.
\<close>

section \<open>Sequences of operations\<close>

datatype ('k, 'v) map_cmd = MInsert 'k 'v | MErase 'k | MFind 'k

datatype 'v map_out = MDone | MErased bool | MFound "'v option"

fun map_step :: "('m \<Rightarrow> 'k \<Rightarrow> 'v option option) \<Rightarrow> ('m \<Rightarrow> 'k \<Rightarrow> 'v \<Rightarrow> 'm option) \<Rightarrow> ('m \<Rightarrow> 'k \<Rightarrow> ('m \<times> bool) option) \<Rightarrow>
    'm \<Rightarrow> ('k, 'v) map_cmd \<Rightarrow> ('m \<times> 'v map_out) option" where
  "map_step fi ins er m (MInsert k v) = map_option (\<lambda>m'. (m', MDone)) (ins m k v)"
| "map_step fi ins er m (MErase k) = map_option (\<lambda>(m', f). (m', MErased f)) (er m k)"
| "map_step fi ins er m (MFind k) = map_option (\<lambda>r. (m, MFound r)) (fi m k)"

fun map_run :: "('m \<Rightarrow> 'k \<Rightarrow> 'v option option) \<Rightarrow> ('m \<Rightarrow> 'k \<Rightarrow> 'v \<Rightarrow> 'm option) \<Rightarrow> ('m \<Rightarrow> 'k \<Rightarrow> ('m \<times> bool) option) \<Rightarrow>
    'm \<Rightarrow> ('k, 'v) map_cmd list \<Rightarrow> ('m \<times> 'v map_out list) option" where
  "map_run fi ins er m [] = Some (m, [])"
| "map_run fi ins er m (c # cs) = do {
     (m1, r) \<leftarrow> map_step fi ins er m c;
     (m2, rs) \<leftarrow> map_run fi ins er m1 cs;
     Some (m2, r # rs)
   }"

text \<open>The same operations on a finite map.\<close>

fun ref_step :: "('k \<rightharpoonup> 'v) \<Rightarrow> ('k, 'v) map_cmd \<Rightarrow> ('k \<rightharpoonup> 'v) \<times> 'v map_out" where
  "ref_step f (MInsert k v) = (f(k \<mapsto> v), MDone)"
| "ref_step f (MErase k) = (f(k := None), MErased (f k \<noteq> None))"
| "ref_step f (MFind k) = (f, MFound (f k))"

fun ref_run :: "('k \<rightharpoonup> 'v) \<Rightarrow> ('k, 'v) map_cmd list \<Rightarrow> ('k \<rightharpoonup> 'v) \<times> 'v map_out list" where
  "ref_run f [] = (f, [])"
| "ref_run f (c # cs) = (case ref_step f c of (f1, r) \<Rightarrow> case ref_run f1 cs of (f2, rs) \<Rightarrow> (f2, r # rs))"

section \<open>The interface\<close>

locale map_index =
  fixes inv :: "'m \<Rightarrow> bool"
    and abs :: "'m \<Rightarrow> 'k \<rightharpoonup> 'v"
    and new :: "nat \<Rightarrow> 'm"
    and find :: "'m \<Rightarrow> 'k \<Rightarrow> 'v option option"
    and contains :: "'m \<Rightarrow> 'k \<Rightarrow> bool option"
    and insert :: "'m \<Rightarrow> 'k \<Rightarrow> 'v \<Rightarrow> 'm option"
    and erase :: "'m \<Rightarrow> 'k \<Rightarrow> ('m \<times> bool) option"
    and size :: "'m \<Rightarrow> nat"
  assumes new_ok: "inv (new n)" "abs (new n) = Map.empty"
    and find_ok: "inv m \<Longrightarrow> find m k = Some (abs m k)"
    and contains_ok: "inv m \<Longrightarrow> contains m k = Some (k \<in> dom (abs m))"
    and insert_ok: "inv m \<Longrightarrow> \<exists>m'. insert m k v = Some m' \<and> inv m' \<and> abs m' = (abs m)(k \<mapsto> v)"
    and erase_ok: "inv m \<Longrightarrow> \<exists>m'. erase m k = Some (m', k \<in> dom (abs m)) \<and> inv m' \<and> abs m' = (abs m)(k := None)"
    and size_ok: "inv m \<Longrightarrow> size m = card (dom (abs m))"
begin

lemma step_ok:
  assumes "inv m" "ref_step (abs m) c = (f, r)"
  shows "\<exists>m'. map_step find insert erase m c = Some (m', r) \<and> inv m' \<and> abs m' = f"
proof (cases c)
  case (MInsert k v)
  then show ?thesis using assms insert_ok[of m k v] by auto
next
  case (MErase k)
  then show ?thesis using assms erase_ok[of m k] by (auto simp: domIff)
next
  case (MFind k)
  then show ?thesis using assms find_ok[of m k] by auto
qed

lemma run_ok:
  assumes "inv m" "ref_run (abs m) cs = (f, rs)"
  shows "\<exists>m'. map_run find insert erase m cs = Some (m', rs) \<and> inv m' \<and> abs m' = f \<and> size m' = card (dom f)"
  using assms
proof (induction cs arbitrary: m rs)
  case Nil
  then show ?case using size_ok by auto
next
  case (Cons c cs)
  obtain f1 r where s: "ref_step (abs m) c = (f1, r)" by (metis surj_pair)
  obtain rs1 where rs1: "ref_run f1 cs = (f, rs1)" "rs = r # rs1"
    using Cons.prems(2) s by (auto split: prod.splits)
  from step_ok[OF Cons.prems(1) s] obtain m1 where "map_step find insert erase m c = Some (m1, r)" "inv m1" "abs m1 = f1" by blast
  then show ?case using Cons.IH[of m1 rs1] rs1 by auto
qed

lemma run_from_new:
  assumes "ref_run Map.empty cs = (f, rs)"
  shows "\<exists>m'. map_run find insert erase (new n) cs = Some (m', rs) \<and> size m' = card (dom f) \<and> (\<forall>k. find m' k = Some (f k))"
proof -
  have "ref_run (abs (new n)) cs = (f, rs)" using assms new_ok(2) by simp
  from run_ok[OF new_ok(1) this] show ?thesis using find_ok by blast
qed

end

end
