(* ===== verification/Flat_Map.thy ===== *)
theory Flat_Map
  imports Map_Index
begin

text \<open>
  The open-addressing hash map of \<^verbatim>\<open>src/book/flat_map.hpp\<close>: linear probing, backward-shift deletion,
  growth at 70 percent load. The probing loops have no bound in the code, so they are partial functions
  and \<open>None\<close> is a loop that never ends; the lemmas show that on a well-formed table they end. A
  position is a natural number below the capacity, which is a power of two.
\<close>

section \<open>The table\<close>

record 'v slot =
  sl_key :: u64
  sl_val :: 'v
  sl_used :: bool

record 'v flat_map =
  fm_slots :: "'v slot list"
  fm_size :: nat

definition fm_empty_slot :: "'v :: zero slot" where
  "fm_empty_slot = \<lparr>sl_key = 0, sl_val = 0, sl_used = False\<rparr>"

text \<open>The constructor's capacity loop: double from 16 until the expected number fits 70 percent load.\<close>

function fm_cap :: "nat \<Rightarrow> nat \<Rightarrow> nat" where
  "fm_cap expected cap = (if cap * 7 < expected * 10 \<and> cap > 0 then fm_cap expected (cap * 2) else cap)"
  by auto
termination
  by (relation "measure (\<lambda>(e, c). e * 10 - c * 7)") auto

declare fm_cap.simps [simp del]

definition fm_new :: "nat \<Rightarrow> 'v :: zero flat_map" where
  "fm_new expected = \<lparr>fm_slots = replicate (fm_cap expected 16) fm_empty_slot, fm_size = 0\<rparr>"

definition fm_mask :: "'v slot list \<Rightarrow> nat" where
  "fm_mask slots = length slots - 1"

definition fm_next :: "'v slot list \<Rightarrow> nat \<Rightarrow> nat" where
  "fm_next slots i = (i + 1) AND fm_mask slots"

definition fm_ideal :: "'v slot list \<Rightarrow> u64 \<Rightarrow> nat" where
  "fm_ideal slots key = unat (drop_bit 32 (key * 11400714819323198485) AND of_nat (fm_mask slots))"

partial_function (option) fm_find_from :: "'v slot list \<Rightarrow> u64 \<Rightarrow> nat \<Rightarrow> nat option option" where
  "fm_find_from slots key i =
     (let s = slots ! i in
      if \<not> sl_used s then Some None
      else if sl_key s = key then Some (Some i)
      else fm_find_from slots key (fm_next slots i))"

definition fm_find_slot :: "'v slot list \<Rightarrow> u64 \<Rightarrow> nat option option" where
  "fm_find_slot slots key = fm_find_from slots key (fm_ideal slots key)"

definition fm_contains :: "'v flat_map \<Rightarrow> u64 \<Rightarrow> bool option" where
  "fm_contains m key = map_option (\<lambda>r. r \<noteq> None) (fm_find_slot (fm_slots m) key)"

definition fm_find :: "'v flat_map \<Rightarrow> u64 \<Rightarrow> 'v option option" where
  "fm_find m key = map_option (map_option (\<lambda>i. sl_val (fm_slots m ! i))) (fm_find_slot (fm_slots m) key)"

text \<open>The probing loop of \<^verbatim>\<open>insert\<close>.\<close>

partial_function (option) fm_put_from :: "'v flat_map \<Rightarrow> u64 \<Rightarrow> 'v \<Rightarrow> nat \<Rightarrow> 'v flat_map option" where
  "fm_put_from m key v i =
     (let s = fm_slots m ! i in
      if \<not> sl_used s then
        Some (m\<lparr>fm_slots := (fm_slots m)[i := \<lparr>sl_key = key, sl_val = v, sl_used = True\<rparr>],
                fm_size := fm_size m + 1\<rparr>)
      else if sl_key s = key then Some (m\<lparr>fm_slots := (fm_slots m)[i := s\<lparr>sl_val := v\<rparr>]\<rparr>)
      else fm_put_from m key v (fm_next (fm_slots m) i))"

text \<open>
  \<^verbatim>\<open>insert\<close> and \<^verbatim>\<open>grow\<close> call each other: growing inserts the used slots of the old table, in order,
  into an empty one of twice the size. So the recursion is over a list of pairs to insert, and one
  \<^verbatim>\<open>insert\<close> is the list of one pair.
\<close>

definition fm_used :: "'v slot list \<Rightarrow> (u64 \<times> 'v) list" where
  "fm_used slots = map (\<lambda>s. (sl_key s, sl_val s)) (filter sl_used slots)"

definition fm_doubled :: "'v :: zero flat_map \<Rightarrow> 'v flat_map" where
  "fm_doubled m = \<lparr>fm_slots = replicate (length (fm_slots m) * 2) fm_empty_slot, fm_size = 0\<rparr>"

partial_function (option) fm_inserts :: "'v :: zero flat_map \<Rightarrow> (u64 \<times> 'v) list \<Rightarrow> 'v flat_map option" where
  "fm_inserts m kvs =
     (case kvs of [] \<Rightarrow> Some m
      | (key, v) # rest \<Rightarrow> do {
          m1 \<leftarrow> (if (fm_size m + 1) * 10 > length (fm_slots m) * 7
                 then fm_inserts (fm_doubled m) (fm_used (fm_slots m)) else Some m);
          m2 \<leftarrow> fm_put_from m1 key v (fm_ideal (fm_slots m1) key);
          fm_inserts m2 rest
        })"

definition fm_insert :: "'v :: zero flat_map \<Rightarrow> u64 \<Rightarrow> 'v \<Rightarrow> 'v flat_map option" where
  "fm_insert m key v = fm_inserts m [(key, v)]"

text \<open>The shifting loop of \<^verbatim>\<open>erase\<close>: the hole, the position looked at, and the table left.\<close>

definition fm_movable :: "nat \<Rightarrow> nat \<Rightarrow> nat \<Rightarrow> bool" where
  "fm_movable hole j home =
     (if hole \<le> j then home \<le> hole \<or> home > j else home \<le> hole \<and> home > j)"

partial_function (option) fm_shift :: "'v slot list \<Rightarrow> nat \<Rightarrow> nat \<Rightarrow> ('v slot list \<times> nat) option" where
  "fm_shift slots hole j =
     (let j = fm_next slots j in
      if \<not> sl_used (slots ! j) then Some (slots, hole)
      else if fm_movable hole j (fm_ideal slots (sl_key (slots ! j)))
      then fm_shift (slots[hole := slots ! j]) j j
      else fm_shift slots hole j)"

definition fm_erase :: "'v flat_map \<Rightarrow> u64 \<Rightarrow> ('v flat_map \<times> bool) option" where
  "fm_erase m key = do {
     r \<leftarrow> fm_find_slot (fm_slots m) key;
     (case r of None \<Rightarrow> Some (m, False)
      | Some i \<Rightarrow> do {
          (slots, hole) \<leftarrow> fm_shift (fm_slots m) i i;
          Some (m\<lparr>fm_slots := slots[hole := (slots ! hole)\<lparr>sl_used := False\<rparr>], fm_size := fm_size m - 1\<rparr>, True)
        })
   }"

declare fm_find_from.simps [code] fm_put_from.simps [code] fm_inserts.simps [code] fm_shift.simps [code]

section \<open>Positions on the circle\<close>

text \<open>\<open>cdist n a b\<close>: the steps from \<open>a\<close> to \<open>b\<close> going up around a table of \<open>n\<close> positions.\<close>

definition cdist :: "nat \<Rightarrow> nat \<Rightarrow> nat \<Rightarrow> nat" where
  "cdist n a b = (if a \<le> b then b - a else b + n - a)"

abbreviation csuc :: "nat \<Rightarrow> nat \<Rightarrow> nat" where
  "csuc n i \<equiv> (if i + 1 = n then 0 else i + 1)"

lemma cdist_simps:
  assumes "a < n" "b < n" "c < n"
  shows "cdist n a b < n" "cdist n a b = 0 \<longleftrightarrow> a = b" "cdist n a b = cdist n a c \<longleftrightarrow> b = c"
  using assms by (auto simp: cdist_def split: if_splits)

lemma cdist_same [simp]: "cdist n a a = 0"
  by (simp add: cdist_def)

lemma cdist_csuc:
  assumes "a < n" "j < n" "csuc n j \<noteq> a"
  shows "cdist n a (csuc n j) = Suc (cdist n a j)"
  using assms by (auto simp: cdist_def split: if_splits)

lemma cdist_csuc_left:
  assumes "j < n" "u < n" "j \<noteq> u"
  shows "cdist n j u = Suc (cdist n (csuc n j) u)"
  using assms by (auto simp: cdist_def split: if_splits)

lemma cdist_add:
  assumes "a < n" "b < n" "c < n" "cdist n a b \<le> cdist n a c"
  shows "cdist n a c = cdist n a b + cdist n b c"
  using assms by (auto simp: cdist_def split: if_splits)

lemma fm_movable_cdist:
  assumes "hole < n" "j < n" "home < n" "hole \<noteq> j"
  shows "fm_movable hole j home \<longleftrightarrow> cdist n home hole < cdist n home j"
  using assms by (auto simp: fm_movable_def cdist_def split: if_splits)

text \<open>The capacity is a power of two, so masking is the remainder.\<close>

definition pow2 :: "nat \<Rightarrow> bool" where
  "pow2 n \<longleftrightarrow> (\<exists>k. n = 2 ^ k)"

lemma pow2_pos: "pow2 n \<Longrightarrow> 0 < n"
  by (auto simp: pow2_def)

lemma and_mask_mod: "pow2 n \<Longrightarrow> i AND (n - Suc 0) = i mod n"
  using take_bit_eq_mask[where ?'a = nat] take_bit_eq_mod[where ?'a = nat] mask_eq_exp_minus_1[where ?'a = nat]
  by (auto simp: pow2_def)

lemma fm_next_csuc: "pow2 (length S) \<Longrightarrow> i < length S \<Longrightarrow> fm_next S i = csuc (length S) i"
  by (auto simp: fm_next_def fm_mask_def and_mask_mod)

lemma fm_ideal_less: "pow2 (length S) \<Longrightarrow> fm_ideal S k < length S"
proof -
  assume "pow2 (length S)"
  then have "fm_mask S < length S" using pow2_pos[of "length S"] by (simp add: fm_mask_def)
  moreover have "fm_ideal S k \<le> unat (of_nat (fm_mask S) :: u64)"
    unfolding fm_ideal_def by (intro word_le_nat_alt[THEN iffD1] word_and_le1)
  moreover have "unat (of_nat (fm_mask S) :: u64) \<le> fm_mask S" by (simp add: unat_of_nat)
  ultimately show ?thesis by linarith
qed

lemma fm_ideal_cong: "length S = length S' \<Longrightarrow> fm_ideal S k = fm_ideal S' k"
  by (simp add: fm_ideal_def fm_mask_def)

section \<open>The invariant\<close>

text \<open>
  A key occurs once, and every position between the home of a key and the slot that holds it is
  used: probing from the home reaches it.
\<close>

abbreviation used_at :: "'v slot list \<Rightarrow> nat \<Rightarrow> bool" where
  "used_at S i \<equiv> sl_used (S ! i)"

abbreviation key_at :: "'v slot list \<Rightarrow> nat \<Rightarrow> u64" where
  "key_at S i \<equiv> sl_key (S ! i)"

definition fm_unique :: "'v slot list \<Rightarrow> bool" where
  "fm_unique S \<longleftrightarrow> (\<forall>i<length S. \<forall>j<length S. used_at S i \<and> used_at S j \<and> key_at S i = key_at S j \<longrightarrow> i = j)"

abbreviation on_path :: "'v slot list \<Rightarrow> nat \<Rightarrow> nat \<Rightarrow> bool" where
  "on_path S j x \<equiv> cdist (length S) (fm_ideal S (key_at S j)) x < cdist (length S) (fm_ideal S (key_at S j)) j"

definition fm_probe :: "'v slot list \<Rightarrow> bool" where
  "fm_probe S \<longleftrightarrow> (\<forall>j<length S. used_at S j \<longrightarrow> (\<forall>x<length S. on_path S j x \<longrightarrow> used_at S x))"

definition fm_inv :: "'v flat_map \<Rightarrow> bool" where
  "fm_inv m \<longleftrightarrow> pow2 (length (fm_slots m)) \<and> 2 \<le> length (fm_slots m) \<and> fm_unique (fm_slots m) \<and>
     fm_probe (fm_slots m) \<and> fm_size m = card {i. i < length (fm_slots m) \<and> used_at (fm_slots m) i} \<and>
     fm_size m * 10 \<le> length (fm_slots m) * 7"

definition fm_abs :: "'v flat_map \<Rightarrow> u64 \<rightharpoonup> 'v" where
  "fm_abs m = map_of (fm_used (fm_slots m))"

lemma set_fm_used: "(k, v) \<in> set (fm_used S) \<longleftrightarrow> (\<exists>i<length S. used_at S i \<and> key_at S i = k \<and> sl_val (S ! i) = v)"
  by (auto simp: fm_used_def in_set_conv_nth)

lemma fm_used_Some:
  assumes "fm_unique S"
  shows "map_of (fm_used S) k = Some v \<longleftrightarrow> (\<exists>i<length S. used_at S i \<and> key_at S i = k \<and> sl_val (S ! i) = v)"
proof
  assume "map_of (fm_used S) k = Some v"
  then show "\<exists>i<length S. used_at S i \<and> key_at S i = k \<and> sl_val (S ! i) = v"
    by (auto dest!: map_of_SomeD simp: set_fm_used)
next
  assume *: "\<exists>i<length S. used_at S i \<and> key_at S i = k \<and> sl_val (S ! i) = v"
  then have "(k, v) \<in> set (fm_used S)" by (simp add: set_fm_used)
  then obtain v' where v': "map_of (fm_used S) k = Some v'" using weak_map_of_SomeI by metis
  then have "(k, v') \<in> set (fm_used S)" by (rule map_of_SomeD)
  then have "v' = v" using * assms unfolding set_fm_used fm_unique_def by blast
  with v' show "map_of (fm_used S) k = Some v" by simp
qed

lemma fm_used_eqI:
  assumes "fm_unique S" "\<And>k v. f k = Some v \<longleftrightarrow> (\<exists>i<length S. used_at S i \<and> key_at S i = k \<and> sl_val (S ! i) = v)"
  shows "map_of (fm_used S) = f"
proof
  fix k
  show "map_of (fm_used S) k = f k"
    using fm_used_Some[OF assms(1), of k] assms(2)[of k] by (metis not_Some_eq)
qed

lemma card_fm_used:
  assumes "fm_unique S"
  shows "card {i. i < length S \<and> used_at S i} = card (dom (map_of (fm_used S)))"
proof -
  have "dom (map_of (fm_used S)) = key_at S ` {i. i < length S \<and> used_at S i}"
    by (auto simp: dom_map_of_conv_image_fst set_fm_used image_iff) (auto simp: fm_used_def in_set_conv_nth)
  moreover have "inj_on (key_at S) {i. i < length S \<and> used_at S i}"
    using assms by (auto simp: inj_on_def fm_unique_def)
  ultimately show ?thesis by (simp add: card_image)
qed

lemma fm_size_abs: "fm_inv m \<Longrightarrow> fm_size m = card (dom (fm_abs m))"
  by (simp add: fm_inv_def fm_abs_def card_fm_used)

lemma fm_free_slot:
  assumes "fm_inv m"
  obtains u where "u < length (fm_slots m)" "\<not> used_at (fm_slots m) u"
proof -
  have "card {i. i < length (fm_slots m) \<and> used_at (fm_slots m) i} < length (fm_slots m)"
    using assms by (auto simp: fm_inv_def)
  then have "{i. i < length (fm_slots m) \<and> used_at (fm_slots m) i} \<noteq> {..<length (fm_slots m)}"
    by (metis card_lessThan nat_neq_iff)
  then show ?thesis using that by blast
qed

section \<open>Finding\<close>

lemma fm_find_from_steps:
  "\<not> used_at S i \<Longrightarrow> fm_find_from S k i = Some None"
  "used_at S i \<Longrightarrow> key_at S i = k \<Longrightarrow> fm_find_from S k i = Some (Some i)"
  "used_at S i \<Longrightarrow> key_at S i \<noteq> k \<Longrightarrow> fm_find_from S k i = fm_find_from S k (fm_next S i)"
  by (subst fm_find_from.simps, simp)+

text \<open>
  From any position the search ends, at the key or at an unused slot before which it saw no such key.
\<close>

lemma fm_find_from_ends:
  assumes p: "pow2 (length S)" and i: "i < length S" and u: "u < length S" "\<not> used_at S u"
  shows "\<exists>r. fm_find_from S k i = Some r \<and>
    (case r of Some j \<Rightarrow> j < length S \<and> used_at S j \<and> key_at S j = k
     | None \<Rightarrow> \<exists>e<length S. \<not> used_at S e \<and>
         (\<forall>x<length S. cdist (length S) i x < cdist (length S) i e \<longrightarrow> key_at S x \<noteq> k))"
  using i
proof (induction "cdist (length S) i u" arbitrary: i)
  case 0
  then have "i = u" using u(1) cdist_simps(2)[of i "length S" u] by simp
  then show ?case using u cdist_simps(2)[of u "length S" u]
    by (intro exI[of _ None]) (auto simp: fm_find_from_steps intro!: exI[of _ u])
next
  case (Suc d)
  let ?n = "length S"
  show ?case
  proof (cases "used_at S i \<and> key_at S i \<noteq> k")
    case False
    then show ?thesis using Suc.prems cdist_simps(2)[of i ?n i]
      by (cases "used_at S i") (auto simp: fm_find_from_steps intro!: exI[of _ i])
  next
    case True
    then have ne: "i \<noteq> u" using u(2) by auto
    have step: "fm_find_from S k i = fm_find_from S k (csuc ?n i)"
      using True fm_next_csuc[OF p Suc.prems] by (simp add: fm_find_from_steps(3))
    have lt: "csuc ?n i < ?n" using Suc.prems by auto
    have d: "d = cdist ?n (csuc ?n i) u" using cdist_csuc_left[OF Suc.prems u(1) ne] Suc.hyps(2) by simp
    obtain r where r: "fm_find_from S k (csuc ?n i) = Some r"
      "case r of Some j \<Rightarrow> j < ?n \<and> used_at S j \<and> key_at S j = k
       | None \<Rightarrow> \<exists>e<?n. \<not> used_at S e \<and>
         (\<forall>x<?n. cdist ?n (csuc ?n i) x < cdist ?n (csuc ?n i) e \<longrightarrow> key_at S x \<noteq> k)"
      using Suc.hyps(1)[OF d lt] by blast
    show ?thesis
    proof (cases r)
      case None
      then obtain e where e: "e < ?n" "\<not> used_at S e"
        "\<forall>x<?n. cdist ?n (csuc ?n i) x < cdist ?n (csuc ?n i) e \<longrightarrow> key_at S x \<noteq> k" using r(2) by auto
      have "key_at S x \<noteq> k" if "x < ?n" "cdist ?n i x < cdist ?n i e" for x
      proof (cases "x = i")
        case False
        have "i \<noteq> e" using True e(2) by auto
        then show ?thesis using that e(1,3) cdist_csuc_left[OF Suc.prems that(1)] cdist_csuc_left[OF Suc.prems e(1)] False
          by auto
      qed (use True in simp)
      then show ?thesis using r(1) None e(1,2) step by auto
    qed (use r step in auto)
  qed
qed

lemma fm_home_absent:
  assumes p: "pow2 (length S)" and pr: "fm_probe S" and e: "e < length S" "\<not> used_at S e"
    and b: "\<forall>x<length S. cdist (length S) (fm_ideal S k) x < cdist (length S) (fm_ideal S k) e \<longrightarrow> key_at S x \<noteq> k"
    and j: "j < length S" "used_at S j"
  shows "key_at S j \<noteq> k"
proof
  let ?n = "length S"
  assume k: "key_at S j = k"
  have h: "fm_ideal S k < ?n" using p by (rule fm_ideal_less)
  have "\<not> cdist ?n (fm_ideal S k) e < cdist ?n (fm_ideal S k) j"
    using pr j e k by (auto simp: fm_probe_def)
  moreover have "\<not> cdist ?n (fm_ideal S k) j < cdist ?n (fm_ideal S k) e" using b j(1) k by blast
  ultimately have "e = j" using cdist_simps(3)[OF h e(1) j(1)] by simp
  then show False using e j by simp
qed

lemma fm_find_slot_ok:
  assumes p: "pow2 (length S)" and pr: "fm_probe S" and u: "u < length S" "\<not> used_at S u"
  shows "\<exists>r. fm_find_slot S k = Some r \<and>
    (case r of Some j \<Rightarrow> j < length S \<and> used_at S j \<and> key_at S j = k
     | None \<Rightarrow> \<forall>j<length S. used_at S j \<longrightarrow> key_at S j \<noteq> k)"
proof -
  obtain r where r: "fm_find_from S k (fm_ideal S k) = Some r"
    "case r of Some j \<Rightarrow> j < length S \<and> used_at S j \<and> key_at S j = k
     | None \<Rightarrow> \<exists>e<length S. \<not> used_at S e \<and>
         (\<forall>x<length S. cdist (length S) (fm_ideal S k) x < cdist (length S) (fm_ideal S k) e \<longrightarrow> key_at S x \<noteq> k)"
    using fm_find_from_ends[OF p fm_ideal_less[OF p] u] by blast
  then show ?thesis using fm_home_absent[OF p pr]
    by (intro exI[of _ r]) (auto simp: fm_find_slot_def split: option.splits)
qed

lemma fm_find_slot_abs:
  assumes "fm_inv m"
  shows "\<exists>r. fm_find_slot (fm_slots m) k = Some r \<and> map_option (\<lambda>i. sl_val (fm_slots m ! i)) r = fm_abs m k \<and>
    (\<forall>i. r = Some i \<longrightarrow> i < length (fm_slots m) \<and> used_at (fm_slots m) i \<and> key_at (fm_slots m) i = k)"
proof -
  let ?S = "fm_slots m"
  have I: "pow2 (length ?S)" "fm_probe ?S" "fm_unique ?S" using assms by (auto simp: fm_inv_def)
  obtain u where u: "u < length ?S" "\<not> used_at ?S u" by (rule fm_free_slot[OF assms])
  obtain r where r: "fm_find_slot ?S k = Some r"
    "case r of Some j \<Rightarrow> j < length ?S \<and> used_at ?S j \<and> key_at ?S j = k
     | None \<Rightarrow> \<forall>j<length ?S. used_at ?S j \<longrightarrow> key_at ?S j \<noteq> k"
    using fm_find_slot_ok[OF I(1,2) u] by blast
  have "map_option (\<lambda>i. sl_val (?S ! i)) r = fm_abs m k"
  proof (cases r)
    case None
    then have "fm_abs m k \<noteq> Some v" for v using r(2) fm_used_Some[OF I(3), of k v] by (auto simp: fm_abs_def)
    then show ?thesis using None by (metis not_Some_eq option.map_disc_iff)
  next
    case (Some i)
    then show ?thesis using r(2) fm_used_Some[OF I(3), of k "sl_val (?S ! i)"] by (auto simp: fm_abs_def)
  qed
  then show ?thesis using r by (intro exI[of _ r]) (auto split: option.splits)
qed

lemma fm_find_ok: "fm_inv m \<Longrightarrow> fm_find m k = Some (fm_abs m k)"
  using fm_find_slot_abs[of m k] by (auto simp: fm_find_def)

lemma fm_contains_ok: "fm_inv m \<Longrightarrow> fm_contains m k = Some (k \<in> dom (fm_abs m))"
  using fm_find_slot_abs[of m k] by (force simp: fm_contains_def)

section \<open>Inserting\<close>

text \<open>The first position from \<open>i\<close> on where probing for \<open>k\<close> stops.\<close>

definition fm_stop :: "'v slot list \<Rightarrow> u64 \<Rightarrow> nat \<Rightarrow> nat \<Rightarrow> bool" where
  "fm_stop S k i e \<longleftrightarrow> e < length S \<and> (\<not> used_at S e \<or> key_at S e = k) \<and>
     (\<forall>x<length S. cdist (length S) i x < cdist (length S) i e \<longrightarrow> used_at S x \<and> key_at S x \<noteq> k)"

definition fm_stored :: "'v flat_map \<Rightarrow> u64 \<Rightarrow> 'v \<Rightarrow> nat \<Rightarrow> 'v flat_map" where
  "fm_stored m k v e = (if used_at (fm_slots m) e
     then m\<lparr>fm_slots := (fm_slots m)[e := (fm_slots m ! e)\<lparr>sl_val := v\<rparr>]\<rparr>
     else m\<lparr>fm_slots := (fm_slots m)[e := \<lparr>sl_key = k, sl_val = v, sl_used = True\<rparr>], fm_size := fm_size m + 1\<rparr>)"

lemma fm_put_from_steps:
  "\<not> used_at (fm_slots m) i \<or> key_at (fm_slots m) i = k \<Longrightarrow> fm_put_from m k v i = Some (fm_stored m k v i)"
  "used_at (fm_slots m) i \<Longrightarrow> key_at (fm_slots m) i \<noteq> k \<Longrightarrow>
     fm_put_from m k v i = fm_put_from m k v (fm_next (fm_slots m) i)"
  by (subst fm_put_from.simps, simp add: fm_stored_def Let_def)+

lemma fm_put_from_ends:
  assumes p: "pow2 (length (fm_slots m))" and i: "i < length (fm_slots m)"
    and u: "u < length (fm_slots m)" "\<not> used_at (fm_slots m) u"
  shows "\<exists>e. fm_stop (fm_slots m) k i e \<and> fm_put_from m k v i = Some (fm_stored m k v e)"
  using i
proof (induction "cdist (length (fm_slots m)) i u" arbitrary: i)
  case 0
  then have "i = u" using u(1) cdist_simps(2)[of i _ u] by simp
  then show ?case using u by (auto simp: fm_put_from_steps fm_stop_def intro!: exI[of _ u])
next
  case (Suc d)
  let ?S = "fm_slots m" and ?n = "length (fm_slots m)"
  show ?case
  proof (cases "used_at ?S i \<and> key_at ?S i \<noteq> k")
    case False
    then show ?thesis using Suc.prems
      by (auto simp: fm_put_from_steps fm_stop_def intro!: exI[of _ i])
  next
    case True
    then have ne: "i \<noteq> u" using u(2) by auto
    have step: "fm_put_from m k v i = fm_put_from m k v (csuc ?n i)"
      using True fm_next_csuc[OF p Suc.prems] by (simp add: fm_put_from_steps(2))
    have lt: "csuc ?n i < ?n" using Suc.prems by auto
    have d: "d = cdist ?n (csuc ?n i) u" using cdist_csuc_left[OF Suc.prems u(1) ne] Suc.hyps(2) by simp
    obtain e where e: "fm_stop ?S k (csuc ?n i) e" "fm_put_from m k v (csuc ?n i) = Some (fm_stored m k v e)"
      using Suc.hyps(1)[OF d lt] by blast
    have ie: "i \<noteq> e" "e < ?n" using True e(1) by (auto simp: fm_stop_def)
    have "used_at ?S x \<and> key_at ?S x \<noteq> k" if "x < ?n" "cdist ?n i x < cdist ?n i e" for x
    proof (cases "x = i")
      case False
      then have "cdist ?n (csuc ?n i) x < cdist ?n (csuc ?n i) e"
        using that cdist_csuc_left[OF Suc.prems that(1)] cdist_csuc_left[OF Suc.prems ie(2,1)] by simp
      then show ?thesis using e(1) that(1) by (simp add: fm_stop_def)
    qed (use True in simp)
    then show ?thesis using e step by (auto simp: fm_stop_def)
  qed
qed

text \<open>Storing a value where the probe for its key stops keeps the table well-formed.\<close>

lemma fm_stored_ok:
  assumes inv: "fm_inv m" and e: "fm_stop (fm_slots m) k (fm_ideal (fm_slots m) k) e"
    and room: "(fm_size m + 1) * 10 \<le> length (fm_slots m) * 7"
  shows "fm_inv (fm_stored m k v e)" "fm_abs (fm_stored m k v e) = (fm_abs m)(k \<mapsto> v)"
    "length (fm_slots (fm_stored m k v e)) = length (fm_slots m)"
proof -
  let ?S = "fm_slots m" and ?m = "fm_stored m k v e"
  let ?S' = "fm_slots ?m"
  have I: "pow2 (length ?S)" "2 \<le> length ?S" "fm_probe ?S" "fm_unique ?S"
    "fm_size m = card {i. i < length ?S \<and> used_at ?S i}" using inv by (auto simp: fm_inv_def)
  show len: "length ?S' = length ?S" by (simp add: fm_stored_def)
  have E: "e < length ?S" using e by (simp add: fm_stop_def)
  have S': "used_at ?S' e" "key_at ?S' e = k" "sl_val (?S' ! e) = v" "\<And>x. x \<noteq> e \<Longrightarrow> ?S' ! x = ?S ! x"
    using e by (auto simp: fm_stored_def fm_stop_def)
  have others: "key_at ?S j \<noteq> k" if "j < length ?S" "used_at ?S j" "j \<noteq> e" for j
  proof (cases "used_at ?S e")
    case True
    then have "key_at ?S e = k" using e by (simp add: fm_stop_def)
    then show ?thesis using I(4) that E True by (auto simp: fm_unique_def)
  next
    case False
    then show ?thesis using fm_home_absent[OF I(1,3) E False _ that(1,2)] e by (auto simp: fm_stop_def)
  qed
  have used: "used_at ?S' x \<longleftrightarrow> used_at ?S x \<or> x = e" for x using S' by (cases "x = e") auto
  have U: "fm_unique ?S'" unfolding fm_unique_def len
  proof (intro allI impI)
    fix i j assume *: "i < length ?S" "j < length ?S" "used_at ?S' i \<and> used_at ?S' j \<and> key_at ?S' i = key_at ?S' j"
    then show "i = j" using S' others[of i] others[of j] I(4) unfolding fm_unique_def
      by (cases "i = e"; cases "j = e") auto
  qed
  have P: "fm_probe ?S'" unfolding fm_probe_def len
  proof (intro allI impI)
    fix j x assume *: "j < length ?S" "used_at ?S' j" "x < length ?S"
      "cdist (length ?S) (fm_ideal ?S' (key_at ?S' j)) x < cdist (length ?S) (fm_ideal ?S' (key_at ?S' j)) j"
    show "used_at ?S' x"
    proof (cases "j = e")
      case True
      then show ?thesis using * S'(2) e fm_ideal_cong[OF len, of k] used by (auto simp: fm_stop_def)
    next
      case False
      then have "on_path ?S j x" "used_at ?S j" using * S'(4)[OF False] fm_ideal_cong[OF len] by auto
      then have "used_at ?S x" using I(3) *(1,3) unfolding fm_probe_def by blast
      then show ?thesis using used by blast
    qed
  qed
  have "fm_size ?m = card {i. i < length ?S' \<and> used_at ?S' i}"
  proof (cases "used_at ?S e")
    case True
    then show ?thesis using I(5) used len by (auto simp: fm_stored_def intro!: arg_cong[of _ _ card])
  next
    case False
    then have "{i. i < length ?S' \<and> used_at ?S' i} = insert e {i. i < length ?S \<and> used_at ?S i}"
      using used len E by auto
    then show ?thesis using I(5) False by (simp add: fm_stored_def)
  qed
  moreover have "fm_size ?m \<le> fm_size m + 1" by (simp add: fm_stored_def)
  ultimately show "fm_inv ?m" using I U P len room by (auto simp: fm_inv_def)
  show "fm_abs ?m = (fm_abs m)(k \<mapsto> v)" unfolding fm_abs_def
  proof (rule fm_used_eqI[OF U])
    fix k' v'
    show "((map_of (fm_used ?S))(k \<mapsto> v)) k' = Some v' \<longleftrightarrow>
        (\<exists>i<length ?S'. used_at ?S' i \<and> key_at ?S' i = k' \<and> sl_val (?S' ! i) = v')"
    proof (cases "k' = k")
      case True
      have ie: "i = e" if "i < length ?S" "used_at ?S' i" "key_at ?S' i = k" for i
        using that others[of i] S'(4)[of i] by (cases "i = e") auto
      have "(\<exists>i<length ?S'. used_at ?S' i \<and> key_at ?S' i = k \<and> sl_val (?S' ! i) = v') \<longleftrightarrow> v = v'"
      proof
        assume "\<exists>i<length ?S'. used_at ?S' i \<and> key_at ?S' i = k \<and> sl_val (?S' ! i) = v'"
        then obtain i where i: "i < length ?S" "used_at ?S' i" "key_at ?S' i = k" "sl_val (?S' ! i) = v'"
          unfolding len by blast
        show "v = v'" using i(4) S'(3) unfolding ie[OF i(1-3)] by simp
      next
        assume "v = v'"
        then show "\<exists>i<length ?S'. used_at ?S' i \<and> key_at ?S' i = k \<and> sl_val (?S' ! i) = v'"
          using S'(1-3) E unfolding len by blast
      qed
      then show ?thesis using True by simp
    next
      case False
      then have "(\<exists>i<length ?S'. used_at ?S' i \<and> key_at ?S' i = k' \<and> sl_val (?S' ! i) = v') \<longleftrightarrow>
        (\<exists>i<length ?S. used_at ?S i \<and> key_at ?S i = k' \<and> sl_val (?S ! i) = v')"
      proof -
        have "i \<noteq> e" if "used_at ?S i" "key_at ?S i = k'" for i
          using that False e by (auto simp: fm_stop_def)
        moreover have "i \<noteq> e" if "key_at ?S' i = k'" for i using that False S'(2) by auto
        ultimately show ?thesis using S'(4) len by metis
      qed
      then show ?thesis using False fm_used_Some[OF I(4), of k' v'] by simp
    qed
  qed
qed

lemma fm_put_ok:
  assumes inv: "fm_inv m" and room: "(fm_size m + 1) * 10 \<le> length (fm_slots m) * 7"
  shows "\<exists>m'. fm_put_from m k v (fm_ideal (fm_slots m) k) = Some m' \<and> fm_inv m' \<and>
    fm_abs m' = (fm_abs m)(k \<mapsto> v) \<and> length (fm_slots m') = length (fm_slots m) \<and> fm_size m' \<le> fm_size m + 1"
proof -
  have p: "pow2 (length (fm_slots m))" using inv by (simp add: fm_inv_def)
  obtain u where u: "u < length (fm_slots m)" "\<not> used_at (fm_slots m) u" by (rule fm_free_slot[OF inv])
  obtain e where e: "fm_stop (fm_slots m) k (fm_ideal (fm_slots m) k) e"
    "fm_put_from m k v (fm_ideal (fm_slots m) k) = Some (fm_stored m k v e)"
    using fm_put_from_ends[OF p fm_ideal_less[OF p] u] by blast
  moreover have "fm_size (fm_stored m k v e) \<le> fm_size m + 1" by (simp add: fm_stored_def)
  ultimately show ?thesis using fm_stored_ok[OF inv e(1) room] by blast
qed

text \<open>As long as the load stays low, a series of insertions does not grow the table.\<close>

lemma fm_inserts_ok:
  assumes "fm_inv m" "(fm_size m + length kvs) * 10 \<le> length (fm_slots m) * 7"
  shows "\<exists>m'. fm_inserts m kvs = Some m' \<and> fm_inv m' \<and> fm_abs m' = fm_abs m ++ map_of (rev kvs) \<and>
    length (fm_slots m') = length (fm_slots m)"
  using assms
proof (induction kvs arbitrary: m)
  case Nil
  then show ?case by (simp add: fm_inserts.simps)
next
  case (Cons kv kvs)
  obtain k v where kv: "kv = (k, v)" by (cases kv)
  have room: "(fm_size m + 1) * 10 \<le> length (fm_slots m) * 7" using Cons.prems(2) by simp
  obtain m1 where m1: "fm_put_from m k v (fm_ideal (fm_slots m) k) = Some m1" "fm_inv m1"
    "fm_abs m1 = (fm_abs m)(k \<mapsto> v)" "length (fm_slots m1) = length (fm_slots m)" "fm_size m1 \<le> fm_size m + 1"
    using fm_put_ok[OF Cons.prems(1) room] by blast
  have "(fm_size m1 + length kvs) * 10 \<le> length (fm_slots m1) * 7" using Cons.prems(2) m1(4,5) by simp
  from Cons.IH[OF m1(2) this] obtain m' where "fm_inserts m1 kvs = Some m'" "fm_inv m'"
    "fm_abs m' = fm_abs m1 ++ map_of (rev kvs)" "length (fm_slots m') = length (fm_slots m)" using m1(4) by auto
  then show ?case using m1(1,3) room by (subst fm_inserts.simps) (auto simp: kv)
qed

lemma fm_used_distinct:
  assumes "fm_unique S"
  shows "distinct (map fst (fm_used S))"
proof (rule card_distinct)
  have "card (dom (map_of (fm_used S))) = length (fm_used S)"
    unfolding card_fm_used[OF assms, symmetric] by (simp add: fm_used_def length_filter_conv_card)
  then show "card (set (map fst (fm_used S))) = length (map fst (fm_used S))"
    by (simp add: dom_map_of_conv_image_fst)
qed

lemma fm_empty_ok:
  assumes "pow2 n" "2 \<le> n"
  shows "fm_inv \<lparr>fm_slots = replicate n fm_empty_slot, fm_size = 0\<rparr>"
    "fm_abs \<lparr>fm_slots = replicate n fm_empty_slot, fm_size = 0\<rparr> = Map.empty"
  using assms by (auto simp: fm_inv_def fm_unique_def fm_probe_def fm_empty_slot_def fm_abs_def fm_used_def)

lemma pow2_double: "pow2 n \<Longrightarrow> pow2 (n * 2)"
  unfolding pow2_def by (metis power_Suc2)

lemma fm_insert_ok:
  assumes inv: "fm_inv m"
  shows "\<exists>m'. fm_insert m k v = Some m' \<and> fm_inv m' \<and> fm_abs m' = (fm_abs m)(k \<mapsto> v)"
proof (cases "(fm_size m + 1) * 10 > length (fm_slots m) * 7")
  case False
  then show ?thesis using fm_inserts_ok[OF inv, of "[(k, v)]"] by (auto simp: fm_insert_def)
next
  case True
  let ?S = "fm_slots m"
  have I: "pow2 (length ?S)" "2 \<le> length ?S" "fm_unique ?S" "fm_size m * 10 \<le> length ?S * 7"
    "length (fm_used ?S) = fm_size m"
    using inv by (auto simp: fm_inv_def fm_used_def length_filter_conv_card)
  have D: "fm_inv (fm_doubled m)" "fm_abs (fm_doubled m) = Map.empty"
    unfolding fm_doubled_def using I(2) by (intro fm_empty_ok pow2_double[OF I(1)]; simp)+
  have "(fm_size (fm_doubled m) + length (fm_used ?S)) * 10 \<le> length (fm_slots (fm_doubled m)) * 7"
    using I(4,5) by (simp add: fm_doubled_def)
  from fm_inserts_ok[OF D(1) this] obtain m1 where
    m1: "fm_inserts (fm_doubled m) (fm_used ?S) = Some m1" "fm_inv m1"
      "fm_abs m1 = map_of (rev (fm_used ?S))" "length (fm_slots m1) = length ?S * 2"
    using D(2) by (auto simp: fm_doubled_def)
  have "map_of (rev (fm_used ?S)) = map_of (fm_used ?S)"
    using fm_used_distinct[OF I(3)] by (subst map_of_inject_set) (simp_all flip: rev_map)
  then have a: "fm_abs m1 = fm_abs m" unfolding m1(3) by (simp add: fm_abs_def)
  then have "fm_size m1 = fm_size m" using fm_size_abs[OF m1(2)] fm_size_abs[OF inv] by simp
  then have "(fm_size m1 + 1) * 10 \<le> length (fm_slots m1) * 7" using I(2,4) m1(4) by simp
  from fm_put_ok[OF m1(2) this] obtain m' where "fm_put_from m1 k v (fm_ideal (fm_slots m1) k) = Some m'"
    "fm_inv m'" "fm_abs m' = (fm_abs m)(k \<mapsto> v)" using a by auto
  then show ?thesis using True m1(1)
    by (subst fm_insert_def, subst fm_inserts.simps) (auto simp: fm_inserts.simps[of _ "[]"])
qed

lemma fm_new_ok: "fm_inv (fm_new n)" "fm_abs (fm_new n) = Map.empty"
proof -
  have "pow2 c \<Longrightarrow> 2 \<le> c \<Longrightarrow> pow2 (fm_cap e c) \<and> 2 \<le> fm_cap e c" for e c
    by (induction e c rule: fm_cap.induct) (subst (1 2) fm_cap.simps, auto simp: pow2_double)
  moreover have "pow2 16" by (auto simp: pow2_def intro: exI[of _ 4])
  ultimately show "fm_inv (fm_new n)" "fm_abs (fm_new n) = Map.empty"
    unfolding fm_new_def by (intro fm_empty_ok; simp)+
qed

section \<open>Erasing\<close>

text \<open>
  While the loop runs, the slot at \<open>hole\<close> holds a stale entry; without it the table has the right
  entries, and only positions that the loop has not reached yet can have the hole on their path.
\<close>

definition fm_cleared :: "'v slot list \<Rightarrow> nat \<Rightarrow> 'v slot list" where
  "fm_cleared S hole = S[hole := (S ! hole)\<lparr>sl_used := False\<rparr>]"

lemma fm_cleared_simps [simp]:
  "length (fm_cleared S hole) = length S" "x \<noteq> hole \<Longrightarrow> fm_cleared S hole ! x = S ! x"
  "hole < length S \<Longrightarrow> \<not> used_at (fm_cleared S hole) hole" "fm_ideal (fm_cleared S hole) k = fm_ideal S k"
  by (auto simp: fm_cleared_def intro: fm_ideal_cong)

definition fm_shift_inv :: "'v slot list \<Rightarrow> nat \<Rightarrow> nat \<Rightarrow> bool" where
  "fm_shift_inv S hole j \<longleftrightarrow> pow2 (length S) \<and> hole < length S \<and> j < length S \<and> used_at S j \<and>
     fm_unique (fm_cleared S hole) \<and>
     (\<forall>q<length S. used_at (fm_cleared S hole) q \<longrightarrow> (\<forall>x<length S. on_path (fm_cleared S hole) q x \<longrightarrow>
        used_at (fm_cleared S hole) x \<or> x = hole \<and> cdist (length S) hole j < cdist (length S) hole q))"

lemma fm_shift_inv_path:
  assumes "fm_shift_inv S hole j" "q < length S" "used_at (fm_cleared S hole) q" "x < length S"
    "on_path (fm_cleared S hole) q x" "\<not> used_at (fm_cleared S hole) x"
  shows "x = hole" "cdist (length S) hole j < cdist (length S) hole q"
  using assms unfolding fm_shift_inv_def by blast+

text \<open>The loop ends at an unused slot: then no path goes through the hole any more.\<close>

lemma fm_shift_end:
  assumes inv: "fm_shift_inv S hole j" and j': "j' = csuc (length S) j"
    and nu: "\<not> used_at S j'" "j' \<noteq> hole"
  shows "fm_probe (fm_cleared S hole)"
  unfolding fm_probe_def
proof (intro allI impI)
  let ?n = "length S" and ?H = "fm_cleared S hole"
  fix q x assume *: "q < length ?H" "used_at ?H q" "x < length ?H" "on_path ?H q x"
  have I: "pow2 ?n" "hole < ?n" "j < ?n" using inv by (auto simp: fm_shift_inv_def)
  have jn: "j' < ?n" using I(3) j' by auto
  show "used_at ?H x"
  proof (rule ccontr)
    assume nx: "\<not> used_at ?H x"
    have q: "q < ?n" "x < ?n" using *(1,3) by simp_all
    note x = fm_shift_inv_path[OF inv q(1) *(2) q(2) *(4) nx]
    let ?h = "fm_ideal S (key_at ?H q)"
    have h: "?h < ?n" by (rule fm_ideal_less[OF I(1)])
    have d: "cdist ?n ?h q = cdist ?n ?h hole + cdist ?n hole q"
      using *(4) x(1) by (intro cdist_add[OF h I(2) q(1)]) simp
    have j: "cdist ?n hole j' \<le> cdist ?n hole q" using cdist_csuc[OF I(2,3) nu(2)[unfolded j']] x(2) unfolding j' by simp
    have "j' \<noteq> q" using *(2) nu by auto
    then have lt: "cdist ?n hole j' < cdist ?n hole q" using j cdist_simps(3)[OF I(2) jn q(1)] by simp
    have "cdist ?n ?h j' \<le> cdist ?n ?h hole + cdist ?n hole j'"
      using h I(2) jn by (auto simp: cdist_def split: if_splits)
    then have "on_path ?H q j'" using lt d by simp
    then have "used_at ?H j' \<or> j' = hole" using fm_shift_inv_path(1)[OF inv q(1) *(2) jn] by blast
    then show False using nu by simp
  qed
qed

lemma fm_shift_keep:
  assumes inv: "fm_shift_inv S hole j" and j': "j' = csuc (length S) j" "used_at S j'" "j' \<noteq> hole"
    and nm: "\<not> fm_movable hole j' (fm_ideal S (key_at S j'))"
  shows "fm_shift_inv S hole j'"
proof -
  let ?n = "length S" and ?H = "fm_cleared S hole"
  have I: "pow2 ?n" "hole < ?n" "j < ?n" "fm_unique ?H" using inv by (auto simp: fm_shift_inv_def)
  have jn: "j' < ?n" using I(3) j'(1) by auto
  have np: "\<not> on_path ?H j' hole"
    using nm fm_movable_cdist[OF I(2) jn fm_ideal_less[OF I(1)] j'(3)[symmetric]] j'(3) by simp
  have "used_at ?H x \<or> x = hole \<and> cdist ?n hole j' < cdist ?n hole q"
    if *: "q < ?n" "used_at ?H q" "x < ?n" "on_path ?H q x" for q x
  proof (cases "used_at ?H x")
    case False
    note x = fm_shift_inv_path[OF inv * False]
    have "cdist ?n hole j' \<le> cdist ?n hole q"
      using cdist_csuc[OF I(2,3)] j'(1,3) x(2) by simp
    moreover have "q \<noteq> j'" using np x(1) *(4) by auto
    ultimately show ?thesis using x(1) cdist_simps(3)[OF I(2) jn *(1)] by simp
  qed simp
  then show ?thesis using I jn j'(2) by (simp add: fm_shift_inv_def)
qed

text \<open>Moving an entry into the hole makes its old place the hole and keeps the entries.\<close>

lemma fm_shift_move:
  assumes inv: "fm_shift_inv S hole j" and j': "j' < length S" "used_at S j'" "j' \<noteq> hole"
    and mv: "fm_movable hole j' (fm_ideal S (key_at S j'))"
  shows "fm_shift_inv (S[hole := S ! j']) j' j'"
    "(\<exists>i<length S. used_at (fm_cleared (S[hole := S ! j']) j') i \<and>
        P (sl_key (fm_cleared (S[hole := S ! j']) j' ! i)) (sl_val (fm_cleared (S[hole := S ! j']) j' ! i))) \<longleftrightarrow>
     (\<exists>i<length S. used_at (fm_cleared S hole) i \<and>
        P (key_at (fm_cleared S hole) i) (sl_val (fm_cleared S hole ! i)))"
proof -
  let ?n = "length S" and ?H = "fm_cleared S hole" and ?T = "S[hole := S ! j']"
  let ?G = "fm_cleared ?T j'"
  have I: "pow2 ?n" "hole < ?n" "fm_unique ?H" using inv by (auto simp: fm_shift_inv_def)
  have G: "?G ! hole = ?H ! j'" "\<not> used_at ?G j'" "\<And>x. x \<noteq> hole \<Longrightarrow> x \<noteq> j' \<Longrightarrow> ?G ! x = ?H ! x"
    "\<And>k. fm_ideal ?G k = fm_ideal S k" "\<not> used_at ?H hole"
    using I(2) j' by (auto simp: fm_ideal_def fm_mask_def)
  have Hj: "used_at ?H j'" "key_at ?H j' = key_at S j'" using j' by auto
  text \<open>The place of an entry of the new table in the old one.\<close>
  define old where "old q = (if q = hole then j' else q)" for q
  have old: "used_at ?G q \<Longrightarrow> old q \<noteq> hole \<and> ?G ! q = ?H ! old q \<and> used_at ?H (old q)" for q
    using G by (cases "q = hole"; cases "q = j'") (auto simp: old_def)
  have new: "used_at ?H q \<Longrightarrow> \<exists>q'<?n. used_at ?G q' \<and> ?G ! q' = ?H ! q" if "q < ?n" for q
    using that G I(2) by (cases "q = j'"; cases "q = hole") (auto intro: exI[of _ hole] exI[of _ q])
  show "(\<exists>i<?n. used_at ?G i \<and> P (key_at ?G i) (sl_val (?G ! i))) \<longleftrightarrow>
     (\<exists>i<?n. used_at ?H i \<and> P (key_at ?H i) (sl_val (?H ! i)))"
  proof
    assume "\<exists>i<?n. used_at ?G i \<and> P (key_at ?G i) (sl_val (?G ! i))"
    then obtain i where i: "i < ?n" "used_at ?G i" "P (key_at ?G i) (sl_val (?G ! i))" by blast
    moreover have "old i < ?n" using i(1) j'(1) by (simp add: old_def)
    ultimately show "\<exists>i<?n. used_at ?H i \<and> P (key_at ?H i) (sl_val (?H ! i))" using old[OF i(2)] by auto
  next
    assume "\<exists>i<?n. used_at ?H i \<and> P (key_at ?H i) (sl_val (?H ! i))"
    then obtain i where i: "i < ?n" "used_at ?H i" "P (key_at ?H i) (sl_val (?H ! i))" by blast
    then show "\<exists>i<?n. used_at ?G i \<and> P (key_at ?G i) (sl_val (?G ! i))" using new[OF i(1,2)] by auto
  qed
  have U: "fm_unique ?G" unfolding fm_unique_def
  proof (intro allI impI)
    fix a b assume *: "a < length ?G" "b < length ?G" "used_at ?G a \<and> used_at ?G b \<and> key_at ?G a = key_at ?G b"
    have "a \<noteq> j'" "b \<noteq> j'" using * G(2) by auto
    moreover have "old a = old b"
    proof -
      have "old a < length ?H" "old b < length ?H" using * j'(1) by (auto simp: old_def)
      moreover have "used_at ?H (old a)" "used_at ?H (old b)" "key_at ?H (old a) = key_at ?H (old b)"
        using * old[of a] old[of b] by auto
      ultimately show ?thesis using I(3) unfolding fm_unique_def by blast
    qed
    ultimately show "a = b" by (auto simp: old_def split: if_splits)
  qed
  have h: "fm_ideal S (key_at S j') < ?n" by (rule fm_ideal_less[OF I(1)])
  have path: "on_path ?H j' hole" using mv fm_movable_cdist[OF I(2) j'(1) h j'(3)[symmetric]] Hj by simp
  have B: "used_at ?H x \<or> x = hole" if "q < ?n" "used_at ?H q" "x < ?n" "on_path ?H q x" for q x
    using fm_shift_inv_path(1)[OF inv that] by blast
  have "used_at ?G x \<or> x = j' \<and> cdist ?n j' j' < cdist ?n j' q"
    if *: "q < ?n" "used_at ?G q" "x < ?n" "on_path ?G q x" for q x
  proof -
    have qj: "q \<noteq> j'" using * G(2) by auto
    then have d: "0 < cdist ?n j' q" using cdist_simps(2)[OF j'(1) *(1), of j'] j'(1) by simp
    have Gx: "used_at ?G x \<longleftrightarrow> x \<noteq> j' \<and> (x = hole \<or> used_at ?H x)"
      using G Hj(1) j'(3) by (cases "x = hole"; cases "x = j'") auto
    have "on_path ?H (old q) x"
    proof (cases "q = hole")
      case True
      then show ?thesis using *(4) path G(1,4) by (simp add: old_def)
    next
      case False
      then show ?thesis using *(4) G(3)[OF False qj] G(4) by (simp add: old_def)
    qed
    then have "used_at ?H x \<or> x = hole" using B[of "old q" x] old[OF *(2)] * j'(1) by (auto simp: old_def)
    then show ?thesis using Gx d by auto
  qed
  then show "fm_shift_inv ?T j' j'" using I U j' by (simp add: fm_shift_inv_def G(4))
qed

lemma fm_shift_steps:
  assumes "j' = fm_next S j"
  shows "\<not> used_at S j' \<Longrightarrow> fm_shift S hole j = Some (S, hole)"
    "used_at S j' \<Longrightarrow> fm_movable hole j' (fm_ideal S (key_at S j')) \<Longrightarrow>
       fm_shift S hole j = fm_shift (S[hole := S ! j']) j' j'"
    "used_at S j' \<Longrightarrow> \<not> fm_movable hole j' (fm_ideal S (key_at S j')) \<Longrightarrow>
       fm_shift S hole j = fm_shift S hole j'"
  by (subst fm_shift.simps, simp add: assms Let_def)+

lemma fm_shift_ok:
  assumes "fm_shift_inv S hole j" "u < length S" "\<not> used_at S u" "u \<noteq> hole"
    "cdist (length S) hole j < cdist (length S) hole u"
  shows "\<exists>S' h'. fm_shift S hole j = Some (S', h') \<and> length S' = length S \<and>
    fm_unique (fm_cleared S' h') \<and> fm_probe (fm_cleared S' h') \<and>
    (\<forall>P. (\<exists>i<length S. used_at (fm_cleared S' h') i \<and> P (key_at (fm_cleared S' h') i) (sl_val (fm_cleared S' h' ! i))) \<longleftrightarrow>
      (\<exists>i<length S. used_at (fm_cleared S hole) i \<and> P (key_at (fm_cleared S hole) i) (sl_val (fm_cleared S hole ! i))))"
  using assms
proof (induction "cdist (length S) j u" arbitrary: S hole j rule: less_induct)
  case less
  let ?n = "length S"
  define j' where "j' = csuc ?n j"
  have I: "pow2 ?n" "hole < ?n" "j < ?n" "used_at S j" using less.prems(1) by (auto simp: fm_shift_inv_def)
  have nx: "j' = fm_next S j" unfolding j'_def by (rule fm_next_csuc[OF I(1,3), symmetric])
  have ju: "j \<noteq> u" using I(4) less.prems(3) by auto
  have jn: "j' < ?n" using I(3) by (auto simp: j'_def)
  have jh: "j' \<noteq> hole" "cdist ?n hole j' = Suc (cdist ?n hole j)"
    using less.prems(2,5) I(2,3) by (auto simp: j'_def cdist_def split: if_splits)
  have dec: "cdist ?n j' u < cdist ?n j u" using cdist_csuc_left[OF I(3) less.prems(2) ju] unfolding j'_def by simp
  show ?case
  proof (cases "used_at S j'")
    case False
    moreover have "fm_unique (fm_cleared S hole)" using less.prems(1) by (simp add: fm_shift_inv_def)
    moreover have "fm_probe (fm_cleared S hole)" by (rule fm_shift_end[OF less.prems(1) j'_def False jh(1)])
    ultimately show ?thesis using fm_shift_steps(1)[OF nx, of hole] by auto
  next
    case used: True
    then have ju': "j' \<noteq> u" using less.prems(3) by auto
    show ?thesis
    proof (cases "fm_movable hole j' (fm_ideal S (key_at S j'))")
      case False
      have inv: "fm_shift_inv S hole j'" by (rule fm_shift_keep[OF less.prems(1) j'_def used jh(1) False])
      have "cdist ?n hole j' < cdist ?n hole u"
        using less.prems(5) jh(2) ju' cdist_simps(3)[OF I(2) jn less.prems(2)] by simp
      from less.hyps[OF dec inv less.prems(2,3,4) this] show ?thesis
        using fm_shift_steps(3)[OF nx used False] by simp
    next
      case mv: True
      let ?T = "S[hole := S ! j']"
      note M = fm_shift_move[OF less.prems(1) jn used jh(1) mv]
      have len: "length ?T = ?n" by simp
      have u: "u < length ?T" "\<not> used_at ?T u" using less.prems(2-4) by simp_all
      have "cdist (length ?T) j' u < cdist ?n j u" using dec by simp
      moreover have "cdist (length ?T) j' j' < cdist (length ?T) j' u"
        using ju' cdist_simps(2)[OF jn less.prems(2) jn] by simp
      ultimately have "\<exists>S' h'. fm_shift ?T j' j' = Some (S', h') \<and> length S' = length ?T \<and>
        fm_unique (fm_cleared S' h') \<and> fm_probe (fm_cleared S' h') \<and>
        (\<forall>P. (\<exists>i<length ?T. used_at (fm_cleared S' h') i \<and> P (key_at (fm_cleared S' h') i) (sl_val (fm_cleared S' h' ! i))) \<longleftrightarrow>
          (\<exists>i<length ?T. used_at (fm_cleared ?T j') i \<and> P (key_at (fm_cleared ?T j') i) (sl_val (fm_cleared ?T j' ! i))))"
        using less.hyps[OF _ M(1) u ju'[symmetric]] by blast
      then show ?thesis unfolding len M(2) fm_shift_steps(2)[OF nx used mv] .
    qed
  qed
qed

text \<open>Before the loop the hole is the erased slot: exactly its entry is missing.\<close>

lemma fm_shift_start:
  assumes I: "pow2 (length S)" "fm_unique S" "fm_probe S" and i: "i < length S" "used_at S i"
  shows "fm_shift_inv S i i"
proof -
  let ?H = "fm_cleared S i" and ?n = "length S"
  have Hu: "used_at ?H q \<longleftrightarrow> q \<noteq> i \<and> used_at S q" for q using i(1) by (cases "q = i") auto
  have "fm_unique ?H" unfolding fm_unique_def
  proof (intro allI impI)
    fix a b assume *: "a < length ?H" "b < length ?H" "used_at ?H a \<and> used_at ?H b \<and> key_at ?H a = key_at ?H b"
    then have "a \<noteq> i" "b \<noteq> i" using Hu by auto
    then show "a = b" using * I(2) by (simp add: fm_unique_def)
  qed
  moreover have "used_at ?H x \<or> x = i \<and> cdist ?n i i < cdist ?n i q"
    if *: "q < ?n" "used_at ?H q" "x < ?n" "on_path ?H q x" for q x
  proof -
    have q: "q \<noteq> i" "used_at S q" using *(2) Hu by auto
    have "on_path S q x" using *(4) q(1) by simp
    then have "used_at S x" using I(3) q(2) *(1,3) unfolding fm_probe_def by blast
    moreover have "0 < cdist ?n i q" using q(1) cdist_simps(2)[OF i(1) *(1) i(1)] by simp
    ultimately show ?thesis using Hu by simp
  qed
  ultimately show ?thesis using I(1) i by (simp add: fm_shift_inv_def)
qed

lemma fm_erase_entries:
  assumes U: "fm_unique S" and i: "i < length S" "used_at S i" "key_at S i = k"
  shows "(\<exists>j<length S. used_at (fm_cleared S i) j \<and> key_at (fm_cleared S i) j = k' \<and> sl_val (fm_cleared S i ! j) = v) \<longleftrightarrow>
    k' \<noteq> k \<and> (\<exists>j<length S. used_at S j \<and> key_at S j = k' \<and> sl_val (S ! j) = v)"
proof -
  have Hu: "used_at (fm_cleared S i) j \<longleftrightarrow> j \<noteq> i \<and> used_at S j" for j using i(1) by (cases "j = i") auto
  have "(used_at (fm_cleared S i) j \<and> key_at (fm_cleared S i) j = k' \<and> sl_val (fm_cleared S i ! j) = v) \<longleftrightarrow>
      k' \<noteq> k \<and> used_at S j \<and> key_at S j = k' \<and> sl_val (S ! j) = v" if "j < length S" for j
  proof (cases "j = i")
    case False
    then show ?thesis using Hu[of j] U that i by (auto simp: fm_unique_def)
  qed (use i Hu in auto)
  then show ?thesis by blast
qed

lemma fm_erase_ok:
  assumes inv: "fm_inv m"
  shows "\<exists>m'. fm_erase m k = Some (m', k \<in> dom (fm_abs m)) \<and> fm_inv m' \<and> fm_abs m' = (fm_abs m)(k := None)"
proof -
  let ?S = "fm_slots m" and ?n = "length (fm_slots m)"
  obtain r where r: "fm_find_slot ?S k = Some r" "map_option (\<lambda>i. sl_val (?S ! i)) r = fm_abs m k"
    "\<forall>i. r = Some i \<longrightarrow> i < ?n \<and> used_at ?S i \<and> key_at ?S i = k" using fm_find_slot_abs[OF inv] by blast
  show ?thesis
  proof (cases r)
    case None
    then have "fm_abs m k = None" using r(2) by simp
    moreover from this have "(fm_abs m)(k := None) = fm_abs m" by auto
    ultimately show ?thesis using r(1) None inv by (auto simp: fm_erase_def)
  next
    case (Some i)
    then have i: "i < ?n" "used_at ?S i" "key_at ?S i = k" using r(3) by auto
    let ?H = "fm_cleared ?S i"
    have I: "pow2 ?n" "fm_unique ?S" "fm_probe ?S" using inv by (auto simp: fm_inv_def)
    have Hu: "used_at ?H q \<longleftrightarrow> q \<noteq> i \<and> used_at ?S q" for q using i(1) by (cases "q = i") auto
    have sinv: "fm_shift_inv ?S i i" by (rule fm_shift_start[OF I i(1,2)])
    obtain u where u: "u < ?n" "\<not> used_at ?S u" by (rule fm_free_slot[OF inv])
    have ui: "u \<noteq> i" using u(2) i(2) by auto
    then have "cdist ?n i i < cdist ?n i u" using cdist_simps(2)[OF i(1) u(1) i(1)] by simp
    from fm_shift_ok[OF sinv u ui this] obtain S' h where
      S': "fm_shift ?S i i = Some (S', h)" "length S' = ?n" "fm_unique (fm_cleared S' h)" "fm_probe (fm_cleared S' h)"
      and P: "\<And>P. (\<exists>i<?n. used_at (fm_cleared S' h) i \<and> P (key_at (fm_cleared S' h) i) (sl_val (fm_cleared S' h ! i))) \<longleftrightarrow>
        (\<exists>j<?n. used_at ?H j \<and> P (key_at ?H j) (sl_val (?H ! j)))" by blast
    let ?m = "m\<lparr>fm_slots := fm_cleared S' h, fm_size := fm_size m - 1\<rparr>"
    have abs: "fm_abs ?m = (fm_abs m)(k := None)" unfolding fm_abs_def
    proof (rule fm_used_eqI)
      show "fm_unique (fm_slots ?m)" using S'(3) by simp
      fix k' v
      have "((map_of (fm_used ?S))(k := None)) k' = Some v \<longleftrightarrow>
          (\<exists>j<?n. used_at ?H j \<and> key_at ?H j = k' \<and> sl_val (?H ! j) = v)"
        using fm_used_Some[OF I(2), of k' v] fm_erase_entries[OF I(2) i, of k' v] by simp
      then show "((map_of (fm_used ?S))(k := None)) k' = Some v \<longleftrightarrow>
          (\<exists>j<length (fm_slots ?m). used_at (fm_slots ?m) j \<and> key_at (fm_slots ?m) j = k' \<and> sl_val (fm_slots ?m ! j) = v)"
        using P[of "\<lambda>a b. a = k' \<and> b = v"] S'(2) by simp
    qed
    have kd: "k \<in> dom (fm_abs m)" using r(2)[symmetric] Some by auto
    have "finite (dom (fm_abs m))" by (simp add: fm_abs_def finite_dom_map_of)
    then have "card (dom ((fm_abs m)(k := None))) = fm_size m - 1"
      using kd fm_size_abs[OF inv] by simp
    then have "fm_size ?m = card {j. j < length (fm_slots ?m) \<and> used_at (fm_slots ?m) j}"
      using abs card_fm_used[OF S'(3)] by (simp add: fm_abs_def)
    then have "fm_inv ?m" using inv S' by (auto simp: fm_inv_def)
    moreover have "fm_erase m k = Some (?m, True)" using r(1) Some S'(1) by (simp add: fm_erase_def fm_cleared_def)
    ultimately show ?thesis using abs kd by auto
  qed
qed

section \<open>The interface\<close>

interpretation fm: map_index fm_inv fm_abs fm_new fm_find fm_contains fm_insert fm_erase fm_size
  by unfold_locales (fact fm_new_ok fm_find_ok fm_contains_ok fm_insert_ok fm_erase_ok fm_size_abs)+

end
