(* ===== verification/Fast_Book.thy ===== *)
theory Fast_Book
  imports Book_Spec Flat_Map
begin

text \<open>
  The production book of \<^verbatim>\<open>src/book/fast_book.{hpp,cpp}\<close>: orders in a pool with intrusive links and a
  free list, price levels in a ladder around the first price and in fallback maps beyond it, order
  ids in the flat hash map, and cached cursors for the best prices. A \<^verbatim>\<open>Level&\<close> is the place it
  refers to. An access outside the pool or the ladder, or a level that is not there, is undefined
  behaviour and gives \<open>None\<close>, and so does a loop that never ends.
\<close>

section \<open>State\<close>

definition kNil :: u32 where "kNil = 0xFFFFFFFF"

record forder =
  fo_id :: order_id
  fo_price :: price
  fo_open :: qty
  fo_prev :: u32
  fo_next :: u32
  fo_side :: side

record flevel =
  fl_total :: qty
  fl_head :: u32
  fl_tail :: u32

definition fl_empty :: flevel where
  "fl_empty = \<lparr>fl_total = 0, fl_head = kNil, fl_tail = kNil\<rparr>"

record fb_config =
  fc_tick :: price
  fc_band_half_ticks :: int
  fc_expected_orders :: nat

definition fb_default_config :: fb_config where
  "fb_default_config = \<lparr>fc_tick = 100, fc_band_half_ticks = 20000, fc_expected_orders = 2 ^ 16\<rparr>"

record fast_book =
  fb_cfg :: fb_config
  fb_band_set :: bool
  fb_base :: price
  fb_ladder :: "flevel list"
  fb_bids :: "(price \<times> flevel) list"
  fb_asks :: "(price \<times> flevel) list"
  fb_bid_cursor :: int
  fb_ask_cursor :: int
  fb_pool :: "forder list"
  fb_free :: "u32 list"
  fb_index :: "u32 flat_map"
  fb_next_match_id :: u64

definition fb_new :: "fb_config \<Rightarrow> fast_book" where
  "fb_new cfg = \<lparr>fb_cfg = cfg, fb_band_set = False, fb_base = 0, fb_ladder = [], fb_bids = [], fb_asks = [],
     fb_bid_cursor = -1, fb_ask_cursor = 0, fb_pool = [], fb_free = [],
     fb_index = fm_new (fc_expected_orders cfg * 2), fb_next_match_id = 1\<rparr>"

section \<open>Pool and level access\<close>

definition pool_at :: "fast_book \<Rightarrow> u32 \<Rightarrow> forder option" where
  "pool_at b i = (if unat i < length (fb_pool b) then Some (fb_pool b ! unat i) else None)"

definition pool_upd :: "fast_book \<Rightarrow> u32 \<Rightarrow> (forder \<Rightarrow> forder) \<Rightarrow> fast_book option" where
  "pool_upd b i f =
     (if unat i < length (fb_pool b) then Some (b\<lparr>fb_pool := (fb_pool b)[unat i := f (fb_pool b ! unat i)]\<rparr>) else None)"

text \<open>The places a level lives in, and reading and writing through a reference to it.\<close>

datatype level_ref = InLadder nat | InBids price | InAsks price

fun level_at :: "fast_book \<Rightarrow> level_ref \<Rightarrow> flevel option" where
  "level_at b (InLadder t) = (if t < length (fb_ladder b) then Some (fb_ladder b ! t) else None)"
| "level_at b (InBids p) = map_of (fb_bids b) p"
| "level_at b (InAsks p) = map_of (fb_asks b) p"

fun level_put :: "fast_book \<Rightarrow> level_ref \<Rightarrow> flevel \<Rightarrow> fast_book" where
  "level_put b (InLadder t) l = b\<lparr>fb_ladder := (fb_ladder b)[t := l]\<rparr>"
| "level_put b (InBids p) l = b\<lparr>fb_bids := omap_upd (>) p l (fb_bids b)\<rparr>"
| "level_put b (InAsks p) l = b\<lparr>fb_asks := omap_upd (<) p l (fb_asks b)\<rparr>"

definition level_upd :: "fast_book \<Rightarrow> level_ref \<Rightarrow> (flevel \<Rightarrow> flevel) \<Rightarrow> fast_book option" where
  "level_upd b r f = map_option (\<lambda>l. level_put b r (f l)) (level_at b r)"

definition fb_tick_index :: "fast_book \<Rightarrow> price \<Rightarrow> int" where
  "fb_tick_index b p =
     (if \<not> fb_band_set b then -1
      else let off = p - fb_base b in
        if off < 0 \<or> off mod fc_tick (fb_cfg b) \<noteq> 0 then -1
        else let idx = off div fc_tick (fb_cfg b) in
          if idx \<ge> int (length (fb_ladder b)) then -1 else idx)"

definition fb_price_at :: "fast_book \<Rightarrow> int \<Rightarrow> price" where
  "fb_price_at b idx = fb_base b + idx * fc_tick (fb_cfg b)"

text \<open>\<^verbatim>\<open>operator[]\<close> of the fallback maps inserts an empty level when there is none.\<close>

definition fb_level_for :: "fast_book \<Rightarrow> side \<Rightarrow> price \<Rightarrow> fast_book \<times> level_ref" where
  "fb_level_for b side p =
     (let t = fb_tick_index b p in
      if t \<ge> 0 then (b, InLadder (nat t))
      else if side = Buy then
        ((case map_of (fb_bids b) p of Some _ \<Rightarrow> b | None \<Rightarrow> b\<lparr>fb_bids := omap_upd (>) p fl_empty (fb_bids b)\<rparr>), InBids p)
      else
        ((case map_of (fb_asks b) p of Some _ \<Rightarrow> b | None \<Rightarrow> b\<lparr>fb_asks := omap_upd (<) p fl_empty (fb_asks b)\<rparr>), InAsks p))"

definition fb_erase_level_if_fallback :: "fast_book \<Rightarrow> side \<Rightarrow> price \<Rightarrow> level_ref \<Rightarrow> fast_book option" where
  "fb_erase_level_if_fallback b side p r = do {
     l \<leftarrow> level_at b r;
     Some (if fl_head l \<noteq> kNil \<or> fb_tick_index b p \<ge> 0 then b
           else if side = Buy then b\<lparr>fb_bids := AList.delete p (fb_bids b)\<rparr>
           else b\<lparr>fb_asks := AList.delete p (fb_asks b)\<rparr>)
   }"

section \<open>Orders in the pool\<close>

definition fb_alloc_order :: "fast_book \<Rightarrow> order_id \<Rightarrow> side \<Rightarrow> price \<Rightarrow> qty \<Rightarrow> (fast_book \<times> u32) option" where
  "fb_alloc_order b oid side p q =
     (let (b1, idx) =
        (if fb_free b \<noteq> [] then (b\<lparr>fb_free := butlast (fb_free b)\<rparr>, last (fb_free b))
         else (b\<lparr>fb_pool := fb_pool b @ [\<lparr>fo_id = 0, fo_price = 0, fo_open = 0, fo_prev = 0, fo_next = 0, fo_side = 0\<rparr>]\<rparr>,
               of_nat (length (fb_pool b))))
      in map_option (\<lambda>b2. (b2, idx)) (pool_upd b1 idx (\<lambda>_. \<lparr>fo_id = oid, fo_price = p, fo_open = q,
           fo_prev = kNil, fo_next = kNil, fo_side = side\<rparr>)))"

definition fb_free_order :: "fast_book \<Rightarrow> u32 \<Rightarrow> fast_book" where
  "fb_free_order b idx = b\<lparr>fb_free := fb_free b @ [idx]\<rparr>"

definition fb_unlink :: "fast_book \<Rightarrow> level_ref \<Rightarrow> u32 \<Rightarrow> fast_book option" where
  "fb_unlink b r idx = do {
     o1 \<leftarrow> pool_at b idx;
     b1 \<leftarrow> (if fo_prev o1 \<noteq> kNil then pool_upd b (fo_prev o1) (\<lambda>x. x\<lparr>fo_next := fo_next o1\<rparr>)
           else level_upd b r (\<lambda>l. l\<lparr>fl_head := fo_next o1\<rparr>));
     o2 \<leftarrow> pool_at b1 idx;
     b2 \<leftarrow> (if fo_next o2 \<noteq> kNil then pool_upd b1 (fo_next o2) (\<lambda>x. x\<lparr>fo_prev := fo_prev o2\<rparr>)
           else level_upd b1 r (\<lambda>l. l\<lparr>fl_tail := fo_prev o2\<rparr>));
     pool_upd b2 idx (\<lambda>x. x\<lparr>fo_prev := kNil, fo_next := kNil\<rparr>)
   }"

text \<open>The first resting order fixes the band.\<close>

definition fb_set_band :: "fast_book \<Rightarrow> price \<Rightarrow> fast_book" where
  "fb_set_band b p =
     (if fb_band_set b then b
      else let n = nat (2 * fc_band_half_ticks (fb_cfg b) + 1) in
        b\<lparr>fb_base := p - fc_band_half_ticks (fb_cfg b) * fc_tick (fb_cfg b),
          fb_ladder := replicate n fl_empty, fb_bid_cursor := -1, fb_ask_cursor := int n, fb_band_set := True\<rparr>)"

definition fb_move_cursors :: "fast_book \<Rightarrow> side \<Rightarrow> price \<Rightarrow> fast_book" where
  "fb_move_cursors b side p =
     (let t = fb_tick_index b p in
      if t \<ge> 0 then
        (let b1 = (if side = Buy \<and> t > fb_bid_cursor b then b\<lparr>fb_bid_cursor := t\<rparr> else b)
         in if side = Sell \<and> t < fb_ask_cursor b1 then b1\<lparr>fb_ask_cursor := t\<rparr> else b1)
      else b)"

definition fb_rest :: "fast_book \<Rightarrow> order_id \<Rightarrow> side \<Rightarrow> price \<Rightarrow> qty \<Rightarrow> fast_book option" where
  "fb_rest b oid side p q = do {
     let b1 = fb_set_band b p;
     let (b2, r) = fb_level_for b1 side p;
     (b3, idx) \<leftarrow> fb_alloc_order b2 oid side p q;
     l \<leftarrow> level_at b3 r;
     b4 \<leftarrow> pool_upd b3 idx (\<lambda>x. x\<lparr>fo_prev := fl_tail l\<rparr>);
     b5 \<leftarrow> (if fl_tail l \<noteq> kNil then pool_upd b4 (fl_tail l) (\<lambda>x. x\<lparr>fo_next := idx\<rparr>)
           else level_upd b4 r (\<lambda>l. l\<lparr>fl_head := idx\<rparr>));
     b6 \<leftarrow> level_upd b5 r (\<lambda>l. l\<lparr>fl_tail := idx, fl_total := fl_total l + q\<rparr>);
     ix \<leftarrow> fm_insert (fb_index b6) oid idx;
     Some (fb_move_cursors (b6\<lparr>fb_index := ix\<rparr>) side p)
   }"

definition fb_remove_resting :: "fast_book \<Rightarrow> u32 \<Rightarrow> fast_book option" where
  "fb_remove_resting b idx = do {
     ord \<leftarrow> pool_at b idx;
     let (b1, r) = fb_level_for b (fo_side ord) (fo_price ord);
     b2 \<leftarrow> level_upd b1 r (\<lambda>l. l\<lparr>fl_total := fl_total l - fo_open ord\<rparr>);
     b3 \<leftarrow> fb_unlink b2 r idx;
     (ix, _) \<leftarrow> fm_erase (fb_index b3) (fo_id ord);
     fb_erase_level_if_fallback (fb_free_order (b3\<lparr>fb_index := ix\<rparr>) idx) (fo_side ord) (fo_price ord) r
   }"

section \<open>Best prices\<close>

function fb_scan_bid :: "fast_book \<Rightarrow> int \<Rightarrow> int option" where
  "fb_scan_bid b t =
     (if t \<ge> 0 then do {
        l \<leftarrow> level_at b (InLadder (nat t));
        found \<leftarrow> (if fl_head l \<noteq> kNil then map_option (\<lambda>x. fo_side x = Buy) (pool_at b (fl_head l)) else Some False);
        if found then Some t else fb_scan_bid b (t - 1)
      } else Some t)"
  by auto
termination by (relation "measure (\<lambda>(b, t). nat (t + 1))") auto

function fb_scan_ask :: "fast_book \<Rightarrow> int \<Rightarrow> int option" where
  "fb_scan_ask b t =
     (if t < int (length (fb_ladder b)) then do {
        l \<leftarrow> level_at b (InLadder (nat t));
        found \<leftarrow> (if fl_head l \<noteq> kNil then map_option (\<lambda>x. fo_side x = Sell) (pool_at b (fl_head l)) else Some False);
        if found then Some t else fb_scan_ask b (t + 1)
      } else Some t)"
  by auto
termination by (relation "measure (\<lambda>(b, t). nat (int (length (fb_ladder b)) - t))") auto

declare fb_scan_bid.simps [simp del] fb_scan_ask.simps [simp del]

text \<open>The cursors are mutable: a best-price query stores where its scan ended.\<close>

definition fb_ladder_best_bid :: "fast_book \<Rightarrow> (fast_book \<times> int) option" where
  "fb_ladder_best_bid b = do {
     t \<leftarrow> fb_scan_bid b (min (fb_bid_cursor b) (int (length (fb_ladder b)) - 1));
     Some (b\<lparr>fb_bid_cursor := t\<rparr>, t)
   }"

definition fb_ladder_best_ask :: "fast_book \<Rightarrow> (fast_book \<times> int) option" where
  "fb_ladder_best_ask b = do {
     t \<leftarrow> fb_scan_ask b (max (fb_ask_cursor b) 0);
     Some (b\<lparr>fb_ask_cursor := t\<rparr>, if t < int (length (fb_ladder b)) then t else -1)
   }"

definition fb_best_bid :: "fast_book \<Rightarrow> (fast_book \<times> price option) option" where
  "fb_best_bid b = do {
     (b1, best) \<leftarrow> (if fb_band_set b then do {
         (b1, t) \<leftarrow> fb_ladder_best_bid b;
         Some (b1, if t \<ge> 0 then Some (fb_price_at b1 t) else None)
       } else Some (b, None));
     Some (b1, case fb_bids b1 of [] \<Rightarrow> best
       | (fb, _) # _ \<Rightarrow> (case best of None \<Rightarrow> Some fb | Some x \<Rightarrow> if fb > x then Some fb else best))
   }"

definition fb_best_ask :: "fast_book \<Rightarrow> (fast_book \<times> price option) option" where
  "fb_best_ask b = do {
     (b1, best) \<leftarrow> (if fb_band_set b then do {
         (b1, t) \<leftarrow> fb_ladder_best_ask b;
         Some (b1, if t \<ge> 0 then Some (fb_price_at b1 t) else None)
       } else Some (b, None));
     Some (b1, case fb_asks b1 of [] \<Rightarrow> best
       | (fb, _) # _ \<Rightarrow> (case best of None \<Rightarrow> Some fb | Some x \<Rightarrow> if fb < x then Some fb else best))
   }"

definition fb_would_cross :: "fast_book \<Rightarrow> side \<Rightarrow> price \<Rightarrow> (fast_book \<times> bool) option" where
  "fb_would_cross b side p = do {
     (b1, opposite) \<leftarrow> (if side = Buy then fb_best_ask b else fb_best_bid b);
     Some (b1, case opposite of None \<Rightarrow> False | Some x \<Rightarrow> crosses side p x)
   }"

section \<open>Matching\<close>

text \<open>The result is the book, the quantity filled at this level and the events.\<close>

partial_function (option) fb_consume_level :: "fast_book \<Rightarrow> level_ref \<Rightarrow> price \<Rightarrow> order_id \<Rightarrow> side \<Rightarrow> qty \<Rightarrow>
    (fast_book \<times> qty \<times> book_event list) option" where
  "fb_consume_level b r level_price aggressor side want = do {
     l \<leftarrow> level_at b r;
     if want > 0 \<and> fl_head l \<noteq> kNil then do {
       let idx = fl_head l;
       ord \<leftarrow> pool_at b idx;
       let exec = (if want < fo_open ord then want else fo_open ord);
       b1 \<leftarrow> pool_upd b idx (\<lambda>x. x\<lparr>fo_open := fo_open x - exec\<rparr>);
       b2 \<leftarrow> level_upd b1 r (\<lambda>l. l\<lparr>fl_total := fl_total l - exec\<rparr>);
       let ev = EvExecuted \<lparr>xe_resting_id = fo_id ord, xe_aggressor_id = aggressor, xe_aggressor_side = side,
                  xe_price = level_price, xe_qty = exec, xe_match_id = fb_next_match_id b2\<rparr>;
       let b3 = b2\<lparr>fb_next_match_id := fb_next_match_id b2 + 1\<rparr>;
       b4 \<leftarrow> (if fo_open ord - exec = 0 then do {
                (ix, _) \<leftarrow> fm_erase (fb_index b3) (fo_id ord);
                b' \<leftarrow> fb_unlink (b3\<lparr>fb_index := ix\<rparr>) r idx;
                Some (fb_free_order b' idx)
              } else Some b3);
       (b5, filled, evs) \<leftarrow> fb_consume_level b4 r level_price aggressor side (want - exec);
       Some (b5, exec + filled, ev # evs)
     } else Some (b, 0, [])
   }"

text \<open>The best opposite level: its price, its place and whether it is in a fallback map.\<close>

definition fb_best_level :: "fast_book \<Rightarrow> side \<Rightarrow> (fast_book \<times> (price \<times> level_ref \<times> bool) option) option" where
  "fb_best_level b side =
     (if side = Buy then do {
        (b1, t) \<leftarrow> (if fb_band_set b then fb_ladder_best_ask b else Some (b, -1));
        let best = (if t \<ge> 0 then Some (fb_price_at b1 t, InLadder (nat t), False) else None);
        Some (b1, case fb_asks b1 of [] \<Rightarrow> best
          | (fb, _) # _ \<Rightarrow> (case best of None \<Rightarrow> Some (fb, InAsks fb, True)
             | Some (x, _) \<Rightarrow> if fb < x then Some (fb, InAsks fb, True) else best))
      } else do {
        (b1, t) \<leftarrow> (if fb_band_set b then fb_ladder_best_bid b else Some (b, -1));
        let best = (if t \<ge> 0 then Some (fb_price_at b1 t, InLadder (nat t), False) else None);
        Some (b1, case fb_bids b1 of [] \<Rightarrow> best
          | (fb, _) # _ \<Rightarrow> (case best of None \<Rightarrow> Some (fb, InBids fb, True)
             | Some (x, _) \<Rightarrow> if fb > x then Some (fb, InBids fb, True) else best))
      })"

partial_function (option) fb_match :: "fast_book \<Rightarrow> order_id \<Rightarrow> side \<Rightarrow> price \<Rightarrow> qty \<Rightarrow>
    (fast_book \<times> qty \<times> book_event list) option" where
  "fb_match b oid side limit q =
     (if q > 0 then do {
        (b1, best) \<leftarrow> fb_best_level b side;
        (case best of
           None \<Rightarrow> Some (b1, 0, [])
         | Some (best_price, r, from_fallback) \<Rightarrow>
             if \<not> crosses side limit best_price then Some (b1, 0, [])
             else do {
               (b2, got, evs) \<leftarrow> fb_consume_level b1 r best_price oid side q;
               l \<leftarrow> level_at b2 r;
               let b3 = (if fl_head l = kNil \<and> from_fallback
                         then (if side = Buy then b2\<lparr>fb_asks := AList.delete best_price (fb_asks b2)\<rparr>
                               else b2\<lparr>fb_bids := AList.delete best_price (fb_bids b2)\<rparr>)
                         else b2);
               (b4, filled, evs') \<leftarrow> fb_match b3 oid side limit (q - got);
               Some (b4, got + filled, evs @ evs')
             })
      } else Some (b, 0, []))"

section \<open>The public operations\<close>

definition fb_contains :: "fast_book \<Rightarrow> order_id \<Rightarrow> bool option" where
  "fb_contains b oid = fm_contains (fb_index b) oid"

definition fb_add :: "fast_book \<Rightarrow> order_id \<Rightarrow> side \<Rightarrow> price \<Rightarrow> qty \<Rightarrow>
    (fast_book \<times> book_event list \<times> add_result) option" where
  "fb_add b oid side p q =
     (if p \<le> 0 then Some (b, [], \<lparr>ar_status = BadPrice, ar_filled = 0, ar_resting = 0\<rparr>)
      else if q = 0 then Some (b, [], \<lparr>ar_status = BadQty, ar_filled = 0, ar_resting = 0\<rparr>)
      else do {
        dup \<leftarrow> fm_contains (fb_index b) oid;
        if dup then Some (b, [], \<lparr>ar_status = DuplicateId, ar_filled = 0, ar_resting = 0\<rparr>)
        else do {
          (b1, filled, evs) \<leftarrow> fb_match b oid side p q;
          let resting = q - filled;
          (b2, evs2) \<leftarrow> (if resting > 0 then
              map_option (\<lambda>b2. (b2, evs @ [EvAdded \<lparr>ad_id = oid, ad_side = side, ad_price = p, ad_qty = resting\<rparr>]))
                (fb_rest b1 oid side p resting)
            else Some (b1, evs));
          Some (b2, evs2, \<lparr>ar_status = Ok, ar_filled = filled, ar_resting = resting\<rparr>)
        }
      })"

definition fb_execute_ioc :: "fast_book \<Rightarrow> order_id \<Rightarrow> side \<Rightarrow> price \<Rightarrow> qty \<Rightarrow>
    (fast_book \<times> qty \<times> book_event list) option" where
  "fb_execute_ioc b oid side limit q = fb_match b oid side limit q"

text \<open>The ladder loops of \<^verbatim>\<open>matchable\<close> and the one over a fallback map.\<close>

function fb_matchable_asks :: "fast_book \<Rightarrow> price \<Rightarrow> int \<Rightarrow> qty option" where
  "fb_matchable_asks b limit t =
     (if t \<ge> 0 \<and> t < int (length (fb_ladder b)) then do {
        l \<leftarrow> level_at b (InLadder (nat t));
        found \<leftarrow> (if fl_head l \<noteq> kNil then map_option (\<lambda>x. fo_side x = Sell) (pool_at b (fl_head l)) else Some False);
        if \<not> found then fb_matchable_asks b limit (t + 1)
        else if fb_price_at b t > limit then Some 0
        else map_option (\<lambda>tot. fl_total l + tot) (fb_matchable_asks b limit (t + 1))
      } else Some 0)"
  by auto
termination by (relation "measure (\<lambda>(b, _, t). nat (int (length (fb_ladder b)) - t))") auto

function fb_matchable_bids :: "fast_book \<Rightarrow> price \<Rightarrow> int \<Rightarrow> qty option" where
  "fb_matchable_bids b limit t =
     (if t \<ge> 0 then do {
        l \<leftarrow> level_at b (InLadder (nat t));
        found \<leftarrow> (if fl_head l \<noteq> kNil then map_option (\<lambda>x. fo_side x = Buy) (pool_at b (fl_head l)) else Some False);
        if \<not> found then fb_matchable_bids b limit (t - 1)
        else if fb_price_at b t < limit then Some 0
        else map_option (\<lambda>tot. fl_total l + tot) (fb_matchable_bids b limit (t - 1))
      } else Some 0)"
  by auto
termination by (relation "measure (\<lambda>(b, _, t). nat (t + 1))") auto

declare fb_matchable_asks.simps [simp del] fb_matchable_bids.simps [simp del]

fun fb_matchable_fallback :: "side \<Rightarrow> price \<Rightarrow> (price \<times> flevel) list \<Rightarrow> qty" where
  "fb_matchable_fallback side limit [] = 0"
| "fb_matchable_fallback side limit ((px, l) # m) =
     (if (if side = Buy then px > limit else px < limit) then 0
      else fl_total l + fb_matchable_fallback side limit m)"

definition fb_matchable :: "fast_book \<Rightarrow> side \<Rightarrow> price \<Rightarrow> (fast_book \<times> qty) option" where
  "fb_matchable b side limit =
     (if side = Buy then do {
        (b1, t) \<leftarrow> (if fb_band_set b then fb_ladder_best_ask b else Some (b, -1));
        tot \<leftarrow> fb_matchable_asks b1 limit t;
        Some (b1, tot + fb_matchable_fallback side limit (fb_asks b1))
      } else do {
        (b1, t) \<leftarrow> (if fb_band_set b then fb_ladder_best_bid b else Some (b, -1));
        tot \<leftarrow> fb_matchable_bids b1 limit t;
        Some (b1, tot + fb_matchable_fallback side limit (fb_bids b1))
      })"

definition fb_cancel :: "fast_book \<Rightarrow> order_id \<Rightarrow> qty \<Rightarrow> (fast_book \<times> book_event list \<times> bool) option" where
  "fb_cancel b oid keep_qty = do {
     pidx \<leftarrow> fm_find (fb_index b) oid;
     (case pidx of
        None \<Rightarrow> Some (b, [], False)
      | Some idx \<Rightarrow> do {
          ord \<leftarrow> pool_at b idx;
          if keep_qty \<ge> fo_open ord then Some (b, [], False)
          else if keep_qty = 0 then do {
            b' \<leftarrow> fb_remove_resting b idx;
            Some (b', [EvCanceled \<lparr>ce_id = oid, ce_canceled_qty = fo_open ord, ce_removed = True\<rparr>], True)
          } else do {
            let canceled = fo_open ord - keep_qty;
            b1 \<leftarrow> pool_upd b idx (\<lambda>x. x\<lparr>fo_open := keep_qty\<rparr>);
            let (b2, r) = fb_level_for b1 (fo_side ord) (fo_price ord);
            b3 \<leftarrow> level_upd b2 r (\<lambda>l. l\<lparr>fl_total := fl_total l - canceled\<rparr>);
            Some (b3, [EvCanceled \<lparr>ce_id = oid, ce_canceled_qty = canceled, ce_removed = False\<rparr>], True)
          }
        })
   }"

definition fb_replace :: "fast_book \<Rightarrow> order_id \<Rightarrow> order_id \<Rightarrow> price \<Rightarrow> qty \<Rightarrow>
    (fast_book \<times> book_event list \<times> bool) option" where
  "fb_replace b old_id new_id new_price new_qty = do {
     pidx \<leftarrow> fm_find (fb_index b) old_id;
     (case pidx of
        None \<Rightarrow> Some (b, [], False)
      | Some idx \<Rightarrow> do {
          dup \<leftarrow> (if new_id = old_id then Some True else fm_contains (fb_index b) new_id);
          if dup then Some (b, [], False)
          else if new_price \<le> 0 \<or> new_qty = 0 then Some (b, [], False)
          else do {
            ord \<leftarrow> pool_at b idx;
            b1 \<leftarrow> fb_remove_resting b idx;
            (b2, cross) \<leftarrow> fb_would_cross b1 (fo_side ord) new_price;
            if cross then do {
              (b3, filled, evs) \<leftarrow> fb_match b2 new_id (fo_side ord) new_price new_qty;
              let resting = new_qty - filled;
              let cev = EvCanceled \<lparr>ce_id = old_id, ce_canceled_qty = fo_open ord, ce_removed = True\<rparr>;
              if resting > 0 then do {
                b4 \<leftarrow> fb_rest b3 new_id (fo_side ord) new_price resting;
                Some (b4, cev # evs @ [EvAdded \<lparr>ad_id = new_id, ad_side = fo_side ord, ad_price = new_price,
                  ad_qty = resting\<rparr>], True)
              } else Some (b3, cev # evs, True)
            } else do {
              b3 \<leftarrow> fb_rest b2 new_id (fo_side ord) new_price new_qty;
              Some (b3, [EvReplaced \<lparr>re_old_id = old_id, re_new_id = new_id, re_side = fo_side ord,
                re_price = new_price, re_qty = new_qty\<rparr>], True)
            }
          }
        })
   }"

section \<open>Snapshot and invariant check\<close>

partial_function (option) fb_chain :: "fast_book \<Rightarrow> u32 \<Rightarrow> snapshot_order list option" where
  "fb_chain b i =
     (if i \<noteq> kNil then do {
        x \<leftarrow> pool_at b i;
        rest \<leftarrow> fb_chain b (fo_next x);
        Some (\<lparr>so_id = fo_id x, so_qty = fo_open x\<rparr> # rest)
      } else Some [])"

text \<open>The loop over the ladder: the non-empty levels of each side with their prices.\<close>

fun fb_split_ladder :: "fast_book \<Rightarrow> nat \<Rightarrow> flevel list \<Rightarrow>
    ((price \<times> flevel) list \<times> (price \<times> flevel) list) option" where
  "fb_split_ladder b i [] = Some ([], [])"
| "fb_split_ladder b i (l # ls) =
     (if fl_head l = kNil then fb_split_ladder b (i + 1) ls
      else do {
        x \<leftarrow> pool_at b (fl_head l);
        (bids, asks) \<leftarrow> fb_split_ladder b (i + 1) ls;
        Some (if fo_side x = Buy then ((fb_price_at b (int i), l) # bids, asks)
              else (bids, (fb_price_at b (int i), l) # asks))
      })"

fun fb_fill_levels :: "fast_book \<Rightarrow> (price \<times> flevel) list \<Rightarrow> snapshot_level list option" where
  "fb_fill_levels b [] = Some []"
| "fb_fill_levels b ((px, l) # m) = do {
     os \<leftarrow> fb_chain b (fl_head l);
     rest \<leftarrow> fb_fill_levels b m;
     Some (\<lparr>sl_price = px, sl_orders = os\<rparr> # rest)
   }"

definition fb_snapshot :: "fast_book \<Rightarrow> book_snapshot option" where
  "fb_snapshot b = do {
     (bids, asks) \<leftarrow> fb_split_ladder b 0 (fb_ladder b);
     let bids = sort_key (\<lambda>x. - fst x) (bids @ fb_bids b);
     let asks = sort_key fst (asks @ fb_asks b);
     bs \<leftarrow> fb_fill_levels b bids;
     as \<leftarrow> fb_fill_levels b asks;
     Some \<lparr>bs_bids = bs, bs_asks = as\<rparr>
   }"

text \<open>
  \<^verbatim>\<open>check_invariants\<close>: the left value is the message it throws. The chain check returns the last
  index, the sum and the number of orders.
\<close>

partial_function (option) fb_check_chain :: "fast_book \<Rightarrow> price \<Rightarrow> side \<Rightarrow> u32 \<Rightarrow> qty \<Rightarrow> nat \<Rightarrow> u32 \<Rightarrow>
    (string + u32 \<times> qty \<times> nat) option" where
  "fb_check_chain b p side prev acc cnt i =
     (if i \<noteq> kNil then do {
        x \<leftarrow> pool_at b i;
        if fo_open x = 0 then Some (Inl ''resting order with zero open'')
        else if fo_price x \<noteq> p then Some (Inl ''order price != level price'')
        else if fo_side x \<noteq> side then Some (Inl ''mixed sides within level'')
        else if fo_prev x \<noteq> prev then Some (Inl ''broken prev link'')
        else do {
          pidx \<leftarrow> fm_find (fb_index b) (fo_id x);
          if pidx \<noteq> Some i then Some (Inl ''index does not map to order'')
          else fb_check_chain b p side i (acc + fo_open x) (cnt + 1) (fo_next x)
        }
      } else Some (Inr (prev, acc, cnt)))"

definition fb_check_level :: "fast_book \<Rightarrow> price \<Rightarrow> flevel \<Rightarrow> side option \<Rightarrow> nat \<Rightarrow> (string + nat) option" where
  "fb_check_level b p l expect cnt =
     (if fl_head l = kNil then
        Some (if fl_total l \<noteq> 0 then Inl ''empty level with nonzero total''
              else if fl_tail l \<noteq> kNil then Inl ''empty level with tail set'' else Inr cnt)
      else do {
        hd_ord \<leftarrow> pool_at b (fl_head l);
        if expect \<noteq> None \<and> expect \<noteq> Some (fo_side hd_ord) then Some (Inl ''fallback level holds wrong side'')
        else do {
          r \<leftarrow> fb_check_chain b p (fo_side hd_ord) kNil 0 cnt (fl_head l);
          Some (case r of Inl e \<Rightarrow> Inl e
            | Inr (last_idx, acc, cnt') \<Rightarrow>
                if last_idx \<noteq> fl_tail l then Inl ''tail link mismatch''
                else if acc \<noteq> fl_total l then Inl ''level total != sum of open'' else Inr cnt')
        }
      })"

fun fb_check_ladder :: "fast_book \<Rightarrow> nat \<Rightarrow> flevel list \<Rightarrow> nat \<Rightarrow> (string + nat) option" where
  "fb_check_ladder b i [] cnt = Some (Inr cnt)"
| "fb_check_ladder b i (l # ls) cnt = do {
     r \<leftarrow> fb_check_level b (fb_price_at b (int i)) l None cnt;
     (case r of Inl e \<Rightarrow> Some (Inl e) | Inr cnt' \<Rightarrow> fb_check_ladder b (i + 1) ls cnt')
   }"

fun fb_check_fallback :: "fast_book \<Rightarrow> side \<Rightarrow> string \<Rightarrow> (price \<times> flevel) list \<Rightarrow> nat \<Rightarrow> (string + nat) option" where
  "fb_check_fallback b side msg [] cnt = Some (Inr cnt)"
| "fb_check_fallback b side msg ((px, l) # m) cnt =
     (if fl_head l = kNil then Some (Inl msg)
      else do {
        r \<leftarrow> fb_check_level b px l (Some side) cnt;
        (case r of Inl e \<Rightarrow> Some (Inl e) | Inr cnt' \<Rightarrow> fb_check_fallback b side msg m cnt')
      })"

definition fb_check_invariants :: "fast_book \<Rightarrow> (fast_book \<times> (string + unit)) option" where
  "fb_check_invariants b = do {
     r1 \<leftarrow> fb_check_ladder b 0 (fb_ladder b) 0;
     (case r1 of Inl e \<Rightarrow> Some (b, Inl (''FastBook: '' @ e))
      | Inr n1 \<Rightarrow> do {
          r2 \<leftarrow> fb_check_fallback b Buy ''empty fallback bid level not erased'' (fb_bids b) n1;
          (case r2 of Inl e \<Rightarrow> Some (b, Inl (''FastBook: '' @ e))
           | Inr n2 \<Rightarrow> do {
               r3 \<leftarrow> fb_check_fallback b Sell ''empty fallback ask level not erased'' (fb_asks b) n2;
               (case r3 of Inl e \<Rightarrow> Some (b, Inl (''FastBook: '' @ e))
                | Inr n3 \<Rightarrow>
                    if n3 \<noteq> fm_size (fb_index b) then Some (b, Inl ''FastBook: index size != resting order count'')
                    else do {
                      (b1, bb) \<leftarrow> fb_best_bid b;
                      (b2, ba) \<leftarrow> fb_best_ask b1;
                      Some (b2, case (bb, ba) of
                        (Some x, Some y) \<Rightarrow> if x \<ge> y then Inl ''FastBook: book crossed or locked at rest'' else Inr ()
                      | _ \<Rightarrow> Inr ())
                    })
             })
        })
   }"

declare fb_consume_level.simps [code] fb_match.simps [code] fb_chain.simps [code] fb_check_chain.simps [code]

end
