(* ===== verification/Fast_Book_Rel.thy ===== *)
theory Fast_Book_Rel
  imports Fast_Book Matching_Book
begin

text \<open>
  The production book implements the abstract book. The relation names, for each side, the queue of
  resting orders with their pool addresses in priority order: the chain of a level is the part of
  the queue at its price, the index leads to the addresses, the addresses and the free list share
  out the pool, and the cursors bound the ticks in use.
\<close>

section \<open>The geometry of the band\<close>

definition fb_geo :: "fast_book \<Rightarrow> fb_config \<times> bool \<times> price \<times> nat" where
  "fb_geo b = (fb_cfg b, fb_band_set b, fb_base b, length (fb_ladder b))"

definition fb_ref :: "fast_book \<Rightarrow> side \<Rightarrow> price \<Rightarrow> level_ref" where
  "fb_ref b s p = (if fb_tick_index b p \<ge> 0 then InLadder (nat (fb_tick_index b p))
     else if s = Buy then InBids p else InAsks p)"

lemma fb_tick_index_geo: "fb_geo b' = fb_geo b \<Longrightarrow> fb_tick_index b' = fb_tick_index b"
  by (rule ext) (simp add: fb_geo_def fb_tick_index_def Let_def)

lemma fb_price_at_geo: "fb_geo b' = fb_geo b \<Longrightarrow> fb_price_at b' = fb_price_at b"
  by (rule ext) (simp add: fb_geo_def fb_price_at_def)

lemma fb_ref_geo: "fb_geo b' = fb_geo b \<Longrightarrow> fb_ref b' = fb_ref b"
  using fb_tick_index_geo[of b' b] by (intro ext) (simp add: fb_ref_def)

lemma fb_tick_price:
  assumes "fc_tick (fb_cfg b) > 0" "fb_tick_index b p \<ge> 0"
  shows "fb_price_at b (fb_tick_index b p) = p" "fb_tick_index b p < int (length (fb_ladder b))" "fb_band_set b"
  using assms by (auto simp: fb_tick_index_def fb_price_at_def Let_def split: if_splits)

lemma fb_price_tick:
  "fc_tick (fb_cfg b) > 0 \<Longrightarrow> fb_band_set b \<Longrightarrow> 0 \<le> t \<Longrightarrow> t < int (length (fb_ladder b)) \<Longrightarrow>
   fb_tick_index b (fb_price_at b t) = t"
  by (auto simp: fb_tick_index_def fb_price_at_def Let_def mult_less_0_iff)

lemma fb_price_at_mono:
  "fc_tick (fb_cfg b) > 0 \<Longrightarrow> fb_price_at b t < fb_price_at b t' \<longleftrightarrow> t < t'"
  "fc_tick (fb_cfg b) > 0 \<Longrightarrow> fb_price_at b t \<le> fb_price_at b t' \<longleftrightarrow> t \<le> t'"
  by (simp_all add: fb_price_at_def mult_less_cancel_right mult_le_cancel_right)

lemma fb_ref_inj:
  assumes "fc_tick (fb_cfg b) > 0" "fb_ref b s p = fb_ref b s' p'"
  shows "p = p'"
proof (cases "fb_tick_index b p \<ge> 0")
  case True
  then have "fb_tick_index b p = fb_tick_index b p'" using assms(2) by (auto simp: fb_ref_def split: if_splits)
  then show ?thesis using fb_tick_price(1)[OF assms(1)] True by metis
qed (use assms(2) in \<open>auto simp: fb_ref_def split: if_splits\<close>)

lemma fb_ref_simps:
  "fb_ref b s p = InLadder t \<longleftrightarrow> fb_tick_index b p = int t"
  "fb_ref b s p = InBids p' \<longleftrightarrow> p = p' \<and> fb_tick_index b p < 0 \<and> s = Buy"
  "fb_ref b s p = InAsks p' \<longleftrightarrow> p = p' \<and> fb_tick_index b p < 0 \<and> s \<noteq> Buy"
  by (auto simp: fb_ref_def)

section \<open>Chains in the pool\<close>

abbreviation hd_or :: "u32 list \<Rightarrow> u32" where
  "hd_or as \<equiv> (case as of [] \<Rightarrow> kNil | a # _ \<Rightarrow> a)"

fun fb_seg :: "forder list \<Rightarrow> u32 \<Rightarrow> u32 list \<Rightarrow> u32 \<Rightarrow> bool" where
  "fb_seg P p [] n \<longleftrightarrow> True"
| "fb_seg P p (a # as) n \<longleftrightarrow> fo_prev (P ! unat a) = p \<and>
     fo_next (P ! unat a) = (case as of [] \<Rightarrow> n | a' # _ \<Rightarrow> a') \<and> fb_seg P a as n"

definition last_or :: "u32 \<Rightarrow> u32 list \<Rightarrow> u32" where
  "last_or p as = (if as = [] then p else last as)"

lemma last_or_simps [simp]: "last_or p [] = p" "last_or p (a # as) = last_or a as" "last_or p (as @ [a]) = a"
  by (auto simp: last_or_def)

lemma fb_seg_append:
  "fb_seg P p (xs @ ys) n \<longleftrightarrow> fb_seg P p xs (case ys of [] \<Rightarrow> n | a # _ \<Rightarrow> a) \<and> fb_seg P (last_or p xs) ys n"
  by (induction xs arbitrary: p) (auto split: list.splits)

lemma fb_seg_frame: "\<forall>a\<in>set as. P' ! unat a = P ! unat a \<Longrightarrow> fb_seg P' p as n = fb_seg P p as n"
  by (induction as arbitrary: p) auto

lemma fb_seg_frame_links:
  "\<forall>a\<in>set as. fo_prev (P' ! unat a) = fo_prev (P ! unat a) \<and> fo_next (P' ! unat a) = fo_next (P ! unat a) \<Longrightarrow>
   fb_seg P' p as n = fb_seg P p as n"
  by (induction as arbitrary: p) auto

lemma pool_nth_upd:
  "unat a < length P \<Longrightarrow> (P[unat a := x]) ! unat c = (if a = c then x else P ! unat c)"
  by (auto simp: nth_list_update word_unat_eq_iff)

lemma fb_seg_set_next:
  assumes "fb_seg P p (xs @ [a]) n" "distinct (xs @ [a])" "unat a < length P"
  shows "fb_seg (P[unat a := (P ! unat a)\<lparr>fo_next := n'\<rparr>]) p (xs @ [a]) n'"
proof -
  have "fb_seg (P[unat a := (P ! unat a)\<lparr>fo_next := n'\<rparr>]) p xs a = fb_seg P p xs a"
    using assms(2,3) by (intro fb_seg_frame) (auto simp: pool_nth_upd)
  then show ?thesis using assms by (auto simp: fb_seg_append pool_nth_upd)
qed

lemma fb_seg_set_prev:
  assumes "fb_seg P p (a # xs) n" "distinct (a # xs)" "unat a < length P"
  shows "fb_seg (P[unat a := (P ! unat a)\<lparr>fo_prev := p'\<rparr>]) p' (a # xs) n"
proof -
  have "fb_seg (P[unat a := (P ! unat a)\<lparr>fo_prev := p'\<rparr>]) a xs n = fb_seg P a xs n"
    using assms(2,3) by (intro fb_seg_frame) (auto simp: pool_nth_upd)
  then show ?thesis using assms by (auto simp: pool_nth_upd)
qed

section \<open>Writing through a reference\<close>

text \<open>What a write to the pool or to the level \<open>r\<close> leaves alone.\<close>

definition fb_frame :: "level_ref \<Rightarrow> fast_book \<Rightarrow> fast_book \<Rightarrow> bool" where
  "fb_frame r b b' \<longleftrightarrow> fb_geo b' = fb_geo b \<and> map fst (fb_bids b') = map fst (fb_bids b) \<and>
     map fst (fb_asks b') = map fst (fb_asks b) \<and> (\<forall>r'. r' \<noteq> r \<longrightarrow> level_at b' r' = level_at b r')"

definition fb_touch :: "level_ref \<Rightarrow> fast_book \<Rightarrow> fast_book \<Rightarrow> bool" where
  "fb_touch r b b' \<longleftrightarrow> fb_frame r b b' \<and> fb_bid_cursor b' = fb_bid_cursor b \<and>
     fb_ask_cursor b' = fb_ask_cursor b \<and> length (fb_pool b') = length (fb_pool b) \<and>
     fb_free b' = fb_free b \<and> fb_index b' = fb_index b \<and> fb_next_match_id b' = fb_next_match_id b"

definition fb_sorted :: "fast_book \<Rightarrow> bool" where
  "fb_sorted b \<longleftrightarrow> omap_sorted (>) (fb_bids b) \<and> omap_sorted (<) (fb_asks b)"

lemma fb_touch_refl [simp]: "fb_touch r b b"
  by (simp add: fb_touch_def fb_frame_def)

lemma fb_touch_trans: "fb_touch r b b' \<Longrightarrow> fb_touch r b' b'' \<Longrightarrow> fb_touch r b b''"
  by (simp add: fb_touch_def fb_frame_def)

lemma fb_touch_sorted: "fb_touch r b b' \<Longrightarrow> fb_sorted b' = fb_sorted b"
  by (simp add: fb_touch_def fb_frame_def fb_sorted_def)

lemma level_at_fields:
  "fb_ladder b' = fb_ladder b \<Longrightarrow> fb_bids b' = fb_bids b \<Longrightarrow> fb_asks b' = fb_asks b \<Longrightarrow> level_at b' r = level_at b r"
  by (cases r) auto

lemma level_at_upds [simp]:
  "level_at (b\<lparr>fb_pool := P\<rparr>) r = level_at b r" "level_at (b\<lparr>fb_free := F\<rparr>) r = level_at b r"
  "level_at (b\<lparr>fb_index := I\<rparr>) r = level_at b r" "level_at (b\<lparr>fb_next_match_id := m\<rparr>) r = level_at b r"
  "level_at (b\<lparr>fb_bid_cursor := c\<rparr>) r = level_at b r" "level_at (b\<lparr>fb_ask_cursor := c\<rparr>) r = level_at b r"
  by (rule level_at_fields; simp)+

lemma fb_geo_upds [simp]:
  "fb_geo (b\<lparr>fb_pool := P\<rparr>) = fb_geo b" "fb_geo (b\<lparr>fb_free := F\<rparr>) = fb_geo b"
  "fb_geo (b\<lparr>fb_index := I\<rparr>) = fb_geo b" "fb_geo (b\<lparr>fb_next_match_id := m\<rparr>) = fb_geo b"
  "fb_geo (b\<lparr>fb_bid_cursor := c\<rparr>) = fb_geo b" "fb_geo (b\<lparr>fb_ask_cursor := c\<rparr>) = fb_geo b"
  "fb_geo (b\<lparr>fb_bids := m1\<rparr>) = fb_geo b" "fb_geo (b\<lparr>fb_asks := m1\<rparr>) = fb_geo b"
  by (simp_all add: fb_geo_def)

lemma pool_upd_ok:
  assumes "unat i < length (fb_pool b)"
  shows "pool_upd b i f = Some (b\<lparr>fb_pool := (fb_pool b)[unat i := f (fb_pool b ! unat i)]\<rparr>)"
    "fb_touch r b (b\<lparr>fb_pool := (fb_pool b)[unat i := x]\<rparr>)"
  using assms by (simp_all add: pool_upd_def fb_touch_def fb_frame_def)

lemma omap_upd_present_keys:
  assumes "std_map lt" "omap_sorted lt m" "map_of m k = Some v"
  shows "map fst (omap_upd lt k w m) = map fst m"
  by (rule std_map.split_present[OF assms]) simp

lemma level_put_ok:
  assumes "fb_sorted b" "level_at b r = Some l"
  shows "fb_touch r b (level_put b r l')" "level_at (level_put b r l') r = Some l'"
    "fb_pool (level_put b r l') = fb_pool b"
proof -
  have s: "omap_sorted (>) (fb_bids b)" "omap_sorted (<) (fb_asks b)" using assms(1) by (auto simp: fb_sorted_def)
  show "level_at (level_put b r l') r = Some l'"
    using assms(2) s by (cases r) (auto simp: desc.map_of_omap_upd asc.map_of_omap_upd split: if_splits)
  have "level_at (level_put b r l') r' = level_at b r'" if "r' \<noteq> r" for r'
    using that s by (cases r; cases r') (auto simp: desc.map_of_omap_upd asc.map_of_omap_upd)
  moreover have "map fst (omap_upd (>) p l' (fb_bids b)) = map fst (fb_bids b)" if "r = InBids p" for p
    using omap_upd_present_keys[OF desc.std_map_axioms s(1)] that assms(2) by simp
  moreover have "map fst (omap_upd (<) p l' (fb_asks b)) = map fst (fb_asks b)" if "r = InAsks p" for p
    using omap_upd_present_keys[OF asc.std_map_axioms s(2)] that assms(2) by simp
  ultimately show "fb_touch r b (level_put b r l')"
    by (cases r) (auto simp: fb_touch_def fb_frame_def fb_geo_def)
  show "fb_pool (level_put b r l') = fb_pool b" by (cases r) auto
qed

lemma level_upd_ok:
  assumes "fb_sorted b" "level_at b r = Some l"
  shows "\<exists>b'. level_upd b r f = Some b' \<and> fb_touch r b b' \<and> level_at b' r = Some (f l) \<and> fb_pool b' = fb_pool b"
  using level_put_ok[OF assms, of "f l"] assms(2) by (simp add: level_upd_def)

section \<open>Unlinking\<close>

definition fb_links :: "forder list \<Rightarrow> flevel \<Rightarrow> u32 list \<Rightarrow> bool" where
  "fb_links P l as \<longleftrightarrow> fl_head l = hd_or as \<and> fl_tail l = last_or kNil as \<and> fb_seg P kNil as kNil"

definition fo_body :: "forder \<Rightarrow> order_id \<times> price \<times> qty \<times> side" where
  "fo_body x = (fo_id x, fo_price x, fo_open x, fo_side x)"

definition fb_addrs_ok :: "fast_book \<Rightarrow> u32 list \<Rightarrow> bool" where
  "fb_addrs_ok b as \<longleftrightarrow> distinct as \<and> kNil \<notin> set as \<and> (\<forall>a\<in>set as. unat a < length (fb_pool b))"

text \<open>The pool after the neighbours of an address are linked to each other.\<close>

definition pool_bypass :: "forder list \<Rightarrow> u32 list \<Rightarrow> u32 list \<Rightarrow> forder list" where
  "pool_bypass P xs ys =
     (let P1 = (if xs = [] then P else P[unat (last xs) := (P ! unat (last xs))\<lparr>fo_next := hd_or ys\<rparr>])
      in if ys = [] then P1 else P1[unat (hd ys) := (P1 ! unat (hd ys))\<lparr>fo_prev := last_or kNil xs\<rparr>])"

lemma pool_bypass_frame:
  fixes c :: u32
  assumes "\<forall>a\<in>set (xs @ ys). unat a < length P"
  shows "c \<notin> set (xs @ ys) \<Longrightarrow> pool_bypass P xs ys ! unat c = P ! unat c"
    "fo_body (pool_bypass P xs ys ! unat c) = fo_body (P ! unat c)"
    "length (pool_bypass P xs ys) = length P"
proof -
  have a: "xs \<noteq> [] \<Longrightarrow> unat (last xs) < length P" "ys \<noteq> [] \<Longrightarrow> unat (hd ys) < length P" using assms by auto
  then show "length (pool_bypass P xs ys) = length P" by (simp add: pool_bypass_def Let_def)
  show "fo_body (pool_bypass P xs ys ! unat c) = fo_body (P ! unat c)"
    using a by (auto simp: pool_bypass_def Let_def pool_nth_upd fo_body_def)
  show "pool_bypass P xs ys ! unat c = P ! unat c" if "c \<notin> set (xs @ ys)"
  proof -
    have "xs \<noteq> [] \<Longrightarrow> last xs \<noteq> c" "ys \<noteq> [] \<Longrightarrow> hd ys \<noteq> c" using that by auto
    then show ?thesis using a by (simp add: pool_bypass_def Let_def pool_nth_upd)
  qed
qed

lemma pool_bypass_seg:
  assumes "fb_seg P kNil (xs @ a # ys) kNil" "distinct (xs @ a # ys)" "\<forall>a\<in>set (xs @ ys). unat a < length P"
  shows "fb_seg (pool_bypass P xs ys) kNil (xs @ ys) kNil"
proof -
  define P1 where "P1 = (if xs = [] then P else P[unat (last xs) := (P ! unat (last xs))\<lparr>fo_next := hd_or ys\<rparr>])"
  have pb: "pool_bypass P xs ys =
      (if ys = [] then P1 else P1[unat (hd ys) := (P1 ! unat (hd ys))\<lparr>fo_prev := last_or kNil xs\<rparr>])"
    by (simp add: pool_bypass_def P1_def Let_def)
  have S: "fb_seg P kNil xs a" "fb_seg P a ys kNil" using assms(1) by (auto simp: fb_seg_append split: list.splits)
  have 1: "fb_seg P1 kNil xs (hd_or ys)"
  proof (cases xs rule: rev_cases)
    case (snoc xs' x)
    then show ?thesis using fb_seg_set_next[of P kNil xs' x a "hd_or ys"] S(1) assms(2,3) by (auto simp: P1_def)
  qed simp
  have 2: "fb_seg P1 a ys kNil"
  proof -
    have "xs \<noteq> [] \<Longrightarrow> last xs \<notin> set ys" using assms(2) by (auto dest: last_in_set)
    then have "fb_seg P1 a ys kNil = fb_seg P a ys kNil"
      using assms(3) by (intro fb_seg_frame) (auto simp: pool_nth_upd P1_def)
    then show ?thesis using S(2) by simp
  qed
  show ?thesis
  proof (cases ys)
    case Nil
    then show ?thesis using 1 pb by simp
  next
    case (Cons y ys')
    have pb': "pool_bypass P xs ys = P1[unat y := (P1 ! unat y)\<lparr>fo_prev := last_or kNil xs\<rparr>]"
      using pb Cons by simp
    have l: "unat y < length P1" using assms(3) Cons by (simp add: P1_def)
    have "y \<notin> set xs" using assms(2) Cons by auto
    then have "fb_seg (pool_bypass P xs ys) kNil xs y = fb_seg P1 kNil xs y"
      using l by (intro fb_seg_frame) (auto simp: pb' pool_nth_upd)
    moreover have "fb_seg (pool_bypass P xs ys) (last_or kNil xs) ys kNil"
      unfolding pb' using fb_seg_set_prev[of P1 a y ys' kNil "last_or kNil xs"] 2 l assms(2) Cons by simp
    ultimately show ?thesis using 1 Cons by (simp add: fb_seg_append)
  qed
qed

lemma fb_unlink_eq:
  assumes b: "fb_sorted b" "level_at b r = Some l" and l: "fb_links (fb_pool b) l (xs @ a # ys)"
    and ok: "fb_addrs_ok b (xs @ a # ys)"
  defines "P \<equiv> (pool_bypass (fb_pool b) xs ys)[unat a := (fb_pool b ! unat a)\<lparr>fo_prev := kNil, fo_next := kNil\<rparr>]"
  shows "\<exists>b'. fb_unlink b r a = Some b' \<and> fb_touch r b b' \<and> fb_pool b' = P \<and>
    level_at b' r = Some (l\<lparr>fl_head := hd_or (xs @ ys), fl_tail := last_or kNil (xs @ ys)\<rparr>)"
proof -
  let ?Q = "fb_pool b" and ?n = "hd_or ys" and ?p = "last_or kNil xs"
  let ?P1 = "if xs = [] then ?Q else ?Q[unat (last xs) := (?Q ! unat (last xs))\<lparr>fo_next := ?n\<rparr>]"
  let ?l1 = "l\<lparr>fl_head := hd_or (xs @ ys)\<rparr>"
  have S: "fb_seg ?Q kNil (xs @ a # ys) kNil" "fl_head l = hd_or (xs @ a # ys)" "fl_tail l = last_or kNil (xs @ a # ys)"
    using l by (auto simp: fb_links_def)
  have D: "distinct (xs @ a # ys)" "kNil \<notin> set (xs @ a # ys)" "\<forall>c\<in>set (xs @ a # ys). unat c < length ?Q"
    using ok by (auto simp: fb_addrs_ok_def)
  have o: "fo_prev (?Q ! unat a) = ?p" "fo_next (?Q ! unat a) = ?n"
    using S(1) by (auto simp: fb_seg_append split: list.splits)
  have 1: "\<exists>b1. (if ?p \<noteq> kNil then pool_upd b ?p (\<lambda>x. x\<lparr>fo_next := ?n\<rparr>)
      else level_upd b r (\<lambda>l. l\<lparr>fl_head := ?n\<rparr>)) = Some b1 \<and>
    fb_touch r b b1 \<and> fb_pool b1 = ?P1 \<and> level_at b1 r = Some ?l1"
  proof (cases xs rule: rev_cases)
    case Nil
    then show ?thesis using level_upd_ok[OF b, of "\<lambda>l. l\<lparr>fl_head := ?n\<rparr>"] by auto
  next
    case (snoc xs' x)
    have "?l1 = l" using S(2) snoc by (cases xs') (auto intro: flevel.equality)
    then show ?thesis using pool_upd_ok[of x b] D(2,3) b(2) snoc by auto
  qed
  then obtain b1 where b1: "(if ?p \<noteq> kNil then pool_upd b ?p (\<lambda>x. x\<lparr>fo_next := ?n\<rparr>)
      else level_upd b r (\<lambda>l. l\<lparr>fl_head := ?n\<rparr>)) = Some b1" "fb_touch r b b1" "fb_pool b1 = ?P1"
      "level_at b1 r = Some ?l1" by blast
  have s1: "fb_sorted b1" using b1(2) b(1) fb_touch_sorted by blast
  have "xs \<noteq> [] \<Longrightarrow> last xs \<noteq> a" using D(1) by (auto dest: last_in_set)
  then have a1: "?P1 ! unat a = ?Q ! unat a" using D(3) by (auto simp: pool_nth_upd)
  have 2: "\<exists>b2. (if ?n \<noteq> kNil then pool_upd b1 ?n (\<lambda>x. x\<lparr>fo_prev := ?p\<rparr>)
      else level_upd b1 r (\<lambda>l. l\<lparr>fl_tail := ?p\<rparr>)) = Some b2 \<and>
    fb_touch r b1 b2 \<and> fb_pool b2 = pool_bypass ?Q xs ys \<and>
    level_at b2 r = Some (?l1\<lparr>fl_tail := last_or kNil (xs @ ys)\<rparr>)"
  proof (cases ys)
    case Nil
    then show ?thesis using level_upd_ok[OF s1 b1(4), of "\<lambda>l. l\<lparr>fl_tail := ?p\<rparr>"] b1(3)
      by (auto simp: pool_bypass_def)
  next
    case (Cons y ys')
    have "?l1\<lparr>fl_tail := last_or kNil (xs @ ys)\<rparr> = ?l1" using S(3) Cons
      by (auto intro!: flevel.equality simp: last_or_def)
    then show ?thesis using pool_upd_ok[of y b1] D(2,3) b1(3,4) Cons by (auto simp: pool_bypass_def Let_def)
  qed
  then obtain b2 where b2: "(if ?n \<noteq> kNil then pool_upd b1 ?n (\<lambda>x. x\<lparr>fo_prev := ?p\<rparr>)
      else level_upd b1 r (\<lambda>l. l\<lparr>fl_tail := ?p\<rparr>)) = Some b2" "fb_touch r b1 b2"
    "fb_pool b2 = pool_bypass ?Q xs ys" "level_at b2 r = Some (?l1\<lparr>fl_tail := last_or kNil (xs @ ys)\<rparr>)" by blast
  have la: "unat a < length (pool_bypass ?Q xs ys)" "pool_bypass ?Q xs ys ! unat a = ?Q ! unat a"
    using pool_bypass_frame[of xs ys ?Q] D by auto
  let ?b3 = "b2\<lparr>fb_pool := P\<rparr>"
  have "pool_upd b2 a (\<lambda>x. x\<lparr>fo_prev := kNil, fo_next := kNil\<rparr>) = Some ?b3"
    and t3: "fb_touch r b2 ?b3"
    using pool_upd_ok[of a b2] la b2(3) by (simp_all add: P_def)
  moreover have "pool_at b a = Some (?Q ! unat a)" "pool_at b1 a = Some (?Q ! unat a)"
    using D(3) a1 b1(3) by (auto simp: pool_at_def)
  ultimately have "fb_unlink b r a = Some ?b3" by (simp only: fb_unlink_def o bind.bind_lunit b1(1) b2(1))
  moreover have "fb_touch r b ?b3" by (rule fb_touch_trans[OF b1(2) fb_touch_trans[OF b2(2) t3]])
  ultimately show ?thesis using b2(4) by auto
qed

lemma fb_unlink_ok:
  assumes "fb_sorted b" "level_at b r = Some l" "fb_links (fb_pool b) l (xs @ a # ys)" "fb_addrs_ok b (xs @ a # ys)"
  shows "\<exists>b' l'. fb_unlink b r a = Some b' \<and> fb_touch r b b' \<and> level_at b' r = Some l' \<and>
    fl_total l' = fl_total l \<and> fb_links (fb_pool b') l' (xs @ ys) \<and>
    (\<forall>c. c \<notin> set (xs @ a # ys) \<longrightarrow> fb_pool b' ! unat c = fb_pool b ! unat c) \<and>
    (\<forall>c :: u32. fo_body (fb_pool b' ! unat c) = fo_body (fb_pool b ! unat c))"
proof -
  let ?P = "pool_bypass (fb_pool b) xs ys"
  let ?P' = "?P[unat a := (fb_pool b ! unat a)\<lparr>fo_prev := kNil, fo_next := kNil\<rparr>]"
  have D: "distinct (xs @ a # ys)" "\<forall>c\<in>set (xs @ ys). unat c < length (fb_pool b)" "unat a < length (fb_pool b)"
    using assms(4) by (auto simp: fb_addrs_ok_def)
  note F = pool_bypass_frame[OF D(2)]
  have "fb_seg ?P kNil (xs @ ys) kNil"
    using pool_bypass_seg assms(3) D(1,2) by (auto simp: fb_links_def)
  moreover have "fb_seg ?P' kNil (xs @ ys) kNil = fb_seg ?P kNil (xs @ ys) kNil"
    using D F(3) by (intro fb_seg_frame) (auto simp: pool_nth_upd)
  ultimately have "fb_links ?P' (l\<lparr>fl_head := hd_or (xs @ ys), fl_tail := last_or kNil (xs @ ys)\<rparr>) (xs @ ys)"
    by (simp add: fb_links_def)
  moreover have "?P' ! unat c = fb_pool b ! unat c" if "c \<notin> set (xs @ a # ys)" for c
    using that F(1,3) D(3) by (auto simp: pool_nth_upd)
  moreover have "fo_body (?P' ! unat c) = fo_body (fb_pool b ! unat c)" for c :: u32
    using F(2)[of c] F(3) D(3) by (auto simp: pool_nth_upd fo_body_def)
  ultimately show ?thesis using fb_unlink_eq[OF assms] by fastforce
qed

section \<open>The relation\<close>

type_synonym fnode = "u32 \<times> resting"
type_synonym fqueues = "side \<Rightarrow> fnode list"

abbreviation fn_price :: "fnode \<Rightarrow> price" where "fn_price n \<equiv> rs_price (snd n)"

definition fb_spec :: "fast_book \<Rightarrow> fqueues \<Rightarrow> spec_book" where
  "fb_spec b Q = \<lparr>sb_bids = map snd (Q Buy), sb_asks = map snd (Q Sell), sb_match = fb_next_match_id b\<rparr>"

definition fb_entries :: "fqueues \<Rightarrow> (order_id \<times> u32) list" where
  "fb_entries Q = map (\<lambda>n. (rs_id (snd n), fst n)) (Q Buy @ Q Sell)"

definition fb_nodes :: "fast_book \<Rightarrow> fqueues \<Rightarrow> level_ref \<Rightarrow> fnode list" where
  "fb_nodes b Q r = filter (\<lambda>n. fb_ref b Buy (fn_price n) = r) (Q Buy) @
     filter (\<lambda>n. fb_ref b Sell (fn_price n) = r) (Q Sell)"

definition fb_node_ok :: "forder list \<Rightarrow> side \<Rightarrow> fnode \<Rightarrow> bool" where
  "fb_node_ok P s n \<longleftrightarrow> fo_body (P ! unat (fst n)) = (rs_id (snd n), fn_price n, rs_qty (snd n), s)"

definition fb_level_ok :: "forder list \<Rightarrow> flevel \<Rightarrow> fnode list \<Rightarrow> bool" where
  "fb_level_ok P l ns \<longleftrightarrow> fb_links P l (map fst ns) \<and> fl_total l = (\<Sum>n\<leftarrow>ns. rs_qty (snd n))"

definition fb_addrs :: "fast_book \<Rightarrow> fqueues \<Rightarrow> u32 list" where
  "fb_addrs b Q = map fst (Q Buy) @ map fst (Q Sell) @ fb_free b"

text \<open>Live and free addresses are exactly those of the pool, each once, and \<^verbatim>\<open>kNil\<close> is none of them.\<close>

definition fb_pool_ok :: "fast_book \<Rightarrow> fqueues \<Rightarrow> bool" where
  "fb_pool_ok b Q \<longleftrightarrow> mset (map unat (fb_addrs b Q)) = mset [0..<length (fb_pool b)] \<and> length (fb_pool b) \<le> unat kNil"

definition fb_index_ok :: "fast_book \<Rightarrow> fqueues \<Rightarrow> bool" where
  "fb_index_ok b Q \<longleftrightarrow> fm_inv (fb_index b) \<and> fm_abs (fb_index b) = map_of (fb_entries Q)"

definition fb_levels_ok :: "fast_book \<Rightarrow> fqueues \<Rightarrow> bool" where
  "fb_levels_ok b Q \<longleftrightarrow> (\<forall>r l. level_at b r = Some l \<longrightarrow> fb_level_ok (fb_pool b) l (fb_nodes b Q r)) \<and>
     (\<forall>s n. valid_side s \<longrightarrow> n \<in> set (Q s) \<longrightarrow>
        level_at b (fb_ref b s (fn_price n)) \<noteq> None \<and> fb_node_ok (fb_pool b) s n)"

definition fb_cursors_ok :: "fast_book \<Rightarrow> fqueues \<Rightarrow> bool" where
  "fb_cursors_ok b Q \<longleftrightarrow> (\<forall>p\<in>fn_price ` set (Q Buy). 0 \<le> fb_tick_index b p \<longrightarrow> fb_tick_index b p \<le> fb_bid_cursor b) \<and>
     (\<forall>p\<in>fn_price ` set (Q Sell). 0 \<le> fb_tick_index b p \<longrightarrow> fb_ask_cursor b \<le> fb_tick_index b p)"

definition fb_maps_ok :: "fast_book \<Rightarrow> bool" where
  "fb_maps_ok b \<longleftrightarrow> fb_sorted b \<and> (\<forall>p\<in>fst ` set (fb_bids b) \<union> fst ` set (fb_asks b). fb_tick_index b p < 0)"

definition fb_core :: "fast_book \<Rightarrow> fqueues \<Rightarrow> bool" where
  "fb_core b Q \<longleftrightarrow> fc_tick (fb_cfg b) > 0 \<and> spec_inv (fb_spec b Q) \<and> fb_index_ok b Q \<and> fb_pool_ok b Q \<and>
     fb_levels_ok b Q \<and> fb_cursors_ok b Q \<and> fb_maps_ok b \<and> (fb_band_set b \<or> Q Buy = [] \<and> Q Sell = [])"

text \<open>Between operations no fallback level is empty.\<close>

definition fb_tidy :: "fast_book \<Rightarrow> bool" where
  "fb_tidy b \<longleftrightarrow> (\<forall>x\<in>set (fb_bids b) \<union> set (fb_asks b). fl_head (snd x) \<noteq> kNil)"

definition fb_rel :: "fast_book \<Rightarrow> fqueues \<Rightarrow> bool" where
  "fb_rel b Q \<longleftrightarrow> fb_core b Q \<and> fb_tidy b"

lemma fb_spec_simps [simp]:
  "sb_bids (fb_spec b Q) = map snd (Q Buy)" "sb_asks (fb_spec b Q) = map snd (Q Sell)"
  "sb_match (fb_spec b Q) = fb_next_match_id b" "valid_side s \<Longrightarrow> queue_of s (fb_spec b Q) = map snd (Q s)"
  by (auto simp: fb_spec_def queue_of_def)

lemma fb_levels_okD:
  assumes "fb_levels_ok b Q"
  shows "level_at b r = Some l \<Longrightarrow> fb_level_ok (fb_pool b) l (fb_nodes b Q r)"
    "valid_side s \<Longrightarrow> n \<in> set (Q s) \<Longrightarrow> level_at b (fb_ref b s (fn_price n)) \<noteq> None"
    "valid_side s \<Longrightarrow> n \<in> set (Q s) \<Longrightarrow> fb_node_ok (fb_pool b) s n"
  using assms unfolding fb_levels_ok_def by blast+

lemma fb_coreD:
  assumes "fb_core b Q"
  shows "fc_tick (fb_cfg b) > 0" "spec_inv (fb_spec b Q)" "fb_index_ok b Q" "fb_pool_ok b Q"
    "fb_levels_ok b Q" "fb_cursors_ok b Q" "fb_maps_ok b" "fb_sorted b" "fb_band_set b \<or> Q Buy = [] \<and> Q Sell = []"
  using assms by (auto simp: fb_core_def fb_maps_ok_def)

text \<open>Since the book is not crossed, the orders at one price are on one side.\<close>

lemma fb_one_side:
  assumes "spec_inv (fb_spec b Q)" "valid_side s" "n \<in> set (Q s)"
  shows "\<forall>m\<in>set (Q (opp s)). fn_price m \<noteq> fn_price n"
proof -
  have "\<forall>x\<in>set (Q Buy). \<forall>y\<in>set (Q Sell). fn_price x < fn_price y" using assms(1) by (simp add: spec_inv_def)
  then show ?thesis using assms(2,3) by (metis less_irrefl opp_simps(1,2))
qed

lemma fb_nodes_ref:
  assumes "fc_tick (fb_cfg b) > 0" "valid_side s" "\<forall>m\<in>set (Q (opp s)). fn_price m \<noteq> p"
  shows "fb_nodes b Q (fb_ref b s p) = filter (\<lambda>n. fn_price n = p) (Q s)"
proof -
  have "filter (\<lambda>n. fb_ref b (opp s) (fn_price n) = fb_ref b s p) (Q (opp s)) = []"
    using assms(3) fb_ref_inj[OF assms(1)] by (fastforce simp: filter_empty_conv)
  moreover have "(fb_ref b s (fn_price n) = fb_ref b s p) = (fn_price n = p)" for n
    using fb_ref_inj[OF assms(1)] by metis
  ultimately show ?thesis using assms(2) by (auto simp: fb_nodes_def)
qed

lemma fb_addrs_in_pool:
  assumes "fb_pool_ok b Q"
  shows "fb_addrs_ok b (fb_addrs b Q)" "length (fb_addrs b Q) = length (fb_pool b)"
proof -
  let ?A = "fb_addrs b Q" and ?n = "length (fb_pool b)"
  have m: "mset (map unat ?A) = mset [0..<?n]" "?n \<le> unat kNil" using assms by (auto simp: fb_pool_ok_def)
  have "distinct (map unat ?A)" using mset_eq_imp_distinct_iff[OF m(1)] by simp
  then have "distinct ?A" by (simp add: distinct_map)
  moreover have l: "unat a < ?n" if "a \<in> set ?A" for a
    using that mset_eq_setD[OF m(1)] by auto
  moreover have "kNil \<notin> set ?A" using l[of kNil] m(2) by auto
  ultimately show "fb_addrs_ok b ?A" by (simp add: fb_addrs_ok_def)
  show "length ?A = ?n" using mset_eq_length[OF m(1)] by simp
qed

lemma fb_addrs_ok_sub: "fb_addrs_ok b as \<Longrightarrow> set as' \<subseteq> set as \<Longrightarrow> distinct as' \<Longrightarrow> fb_addrs_ok b as'"
  by (auto simp: fb_addrs_ok_def)

text \<open>
  An operation works on one level: it changes the orders of one side at one price, the pool at
  their addresses and the level itself. Everything else follows from what it leaves alone.
\<close>

lemma fb_nodes_other:
  assumes geo: "fb_geo b' = fb_geo b" and s: "valid_side s"
    and q: "filter (\<lambda>n. fn_price n \<noteq> p) q = filter (\<lambda>n. fn_price n \<noteq> p) (Q s)" and r: "r \<noteq> fb_ref b s p"
  shows "fb_nodes b' (Q(s := q)) r = fb_nodes b Q r"
proof -
  have *: "filter (\<lambda>n. fb_ref b s (fn_price n) = r) xs =
    filter (\<lambda>n. fb_ref b s (fn_price n) = r) (filter (\<lambda>n. fn_price n \<noteq> p) xs)" for xs
    using r by (auto intro: filter_cong)
  have "filter (\<lambda>n. fb_ref b s (fn_price n) = r) q = filter (\<lambda>n. fb_ref b s (fn_price n) = r) (Q s)"
    using *[of q] *[of "Q s"] q by simp
  then show ?thesis using s fb_ref_geo[OF geo] by (auto simp: fb_nodes_def)
qed

lemma fb_levels_update:
  assumes core: "fb_levels_ok b Q" "fc_tick (fb_cfg b) > 0" and s: "valid_side s"
    and fr: "fb_frame (fb_ref b s p) b b'"
    and opp: "\<forall>m\<in>set (Q (opp s)). fn_price m \<noteq> p"
    and q: "filter (\<lambda>n. fn_price n \<noteq> p) q = filter (\<lambda>n. fn_price n \<noteq> p) (Q s)"
    and pool: "\<forall>s' n. valid_side s' \<longrightarrow> n \<in> set (Q s') \<longrightarrow> fn_price n \<noteq> p \<longrightarrow>
      fb_pool b' ! unat (fst n) = fb_pool b ! unat (fst n)"
    and l: "level_at b' (fb_ref b s p) = Some l" "fb_level_ok (fb_pool b') l (filter (\<lambda>n. fn_price n = p) q)"
    and ok: "\<forall>n\<in>set q. fn_price n = p \<longrightarrow> fb_node_ok (fb_pool b') s n"
  shows "fb_levels_ok b' (Q(s := q))"
proof -
  let ?r = "fb_ref b s p" and ?Q = "Q(s := q)"
  have geo: "fb_geo b' = fb_geo b" and other: "r \<noteq> ?r \<Longrightarrow> level_at b' r = level_at b r" for r
    using fr by (auto simp: fb_frame_def)
  have tick: "fc_tick (fb_cfg b') > 0" using core(2) geo by (simp add: fb_geo_def)
  have opp': "?Q (opp s) = Q (opp s)" using s by (auto simp: opp_def)
  have "fb_nodes b' ?Q ?r = filter (\<lambda>n. fn_price n = p) q"
    using fb_nodes_ref[OF tick s, of ?Q p] opp opp' fb_ref_geo[OF geo] by simp
  moreover have "fb_level_ok (fb_pool b') l' (fb_nodes b' ?Q r)" if r: "r \<noteq> ?r" "level_at b r = Some l'" for r l'
  proof -
    have "fn_price n \<noteq> p \<and> (\<exists>s'. valid_side s' \<and> n \<in> set (Q s'))" if "n \<in> set (fb_nodes b Q r)" for n
      using that opp r(1) s by (auto simp: fb_nodes_def)
    then have "fb_pool b' ! unat (fst n) = fb_pool b ! unat (fst n)" if "n \<in> set (fb_nodes b Q r)" for n
      using that pool by blast
    then have "fb_links (fb_pool b') l' (map fst (fb_nodes b Q r)) = fb_links (fb_pool b) l' (map fst (fb_nodes b Q r))"
      using fb_seg_frame[of "map fst (fb_nodes b Q r)" "fb_pool b'" "fb_pool b"] by (simp add: fb_links_def)
    then show ?thesis using core(1) r(2) fb_nodes_other[where Q = Q, OF geo s q r(1)]
      by (simp add: fb_levels_ok_def fb_level_ok_def)
  qed
  ultimately have 1: "\<forall>r l. level_at b' r = Some l \<longrightarrow> fb_level_ok (fb_pool b') l (fb_nodes b' ?Q r)"
    using l other by (metis option.inject)
  have q': "n \<in> set (Q s)" if "n \<in> set q" "fn_price n \<noteq> p" for n
    using arg_cong[OF q, of set] that by auto
  have "level_at b' (fb_ref b' s' (fn_price n)) \<noteq> None \<and> fb_node_ok (fb_pool b') s' n"
    if n: "valid_side s'" "n \<in> set (?Q s')" for s' n
  proof (cases "fn_price n = p")
    case True
    then have "s' = s" using n opp s by (auto simp: opp_def split: if_splits)
    then show ?thesis using True n(2) l(1) ok fb_ref_geo[OF geo] by simp
  next
    case False
    then have m: "n \<in> set (Q s')" "fb_ref b s' (fn_price n) \<noteq> ?r"
      using n(2) q' fb_ref_inj[OF core(2)] by (auto split: if_splits)
    then have "fb_pool b' ! unat (fst n) = fb_pool b ! unat (fst n)" using pool n(1) False by blast
    then show ?thesis using fb_levels_okD(2,3)[OF core(1) n(1) m(1)] other[OF m(2)] fb_ref_geo[OF geo]
      by (simp add: fb_node_ok_def)
  qed
  with 1 show ?thesis by (simp add: fb_levels_ok_def)
qed

lemma fb_maps_frame: "fb_frame r b b' \<Longrightarrow> fb_maps_ok b' = fb_maps_ok b"
proof -
  assume f: "fb_frame r b b'"
  then have "fst ` set (fb_bids b') = fst ` set (fb_bids b)" "fst ` set (fb_asks b') = fst ` set (fb_asks b)"
    by (metis fb_frame_def list.set_map)+
  moreover have "fb_tick_index b' = fb_tick_index b" using f fb_tick_index_geo[of b' b] by (simp add: fb_frame_def)
  ultimately show ?thesis using f by (simp add: fb_maps_ok_def fb_sorted_def fb_frame_def)
qed

lemma fb_core_update:
  assumes core: "fb_core b Q" and s: "valid_side s" and fr: "fb_frame (fb_ref b s p) b b'"
    and band: "fb_band_set b" and "spec_inv (fb_spec b' (Q(s := q)))" "fb_index_ok b' (Q(s := q))"
      "fb_pool_ok b' (Q(s := q))" "fb_cursors_ok b' (Q(s := q))" "fb_levels_ok b' (Q(s := q))"
  shows "fb_core b' (Q(s := q))"
proof -
  have "fb_geo b' = fb_geo b" using fr by (simp add: fb_frame_def)
  then have "fb_cfg b' = fb_cfg b" "fb_band_set b' = fb_band_set b" by (simp_all add: fb_geo_def)
  then show ?thesis using assms fb_maps_frame[OF fr] by (simp add: fb_core_def)
qed

lemma fb_cursors_sub:
  assumes "fb_cursors_ok b Q" "fn_price ` set q \<subseteq> fn_price ` set (Q s)"
    "fb_geo b' = fb_geo b" "fb_bid_cursor b' = fb_bid_cursor b" "fb_ask_cursor b' = fb_ask_cursor b"
  shows "fb_cursors_ok b' (Q(s := q))"
proof -
  have t: "fb_tick_index b' = fb_tick_index b" by (rule fb_tick_index_geo[OF assms(3)])
  have sub: "fn_price ` set ((Q(s := q)) s') \<subseteq> fn_price ` set (Q s')" for s' using assms(2) by simp
  note c = assms(1)[unfolded fb_cursors_ok_def]
  show ?thesis unfolding fb_cursors_ok_def t assms(4,5)
    using c[THEN conjunct1, rule_format, OF subsetD[OF sub]] c[THEN conjunct2, rule_format, OF subsetD[OF sub]] by blast
qed

section \<open>Changing and deleting one order\<close>

text \<open>The level of an order, and its chain around the order.\<close>

lemma fb_locate:
  assumes core: "fb_core b Q" and s: "valid_side s" and Q: "Q s = xs @ (a, r) # ys"
  defines "p \<equiv> rs_price r"
  obtains l where "level_at b (fb_ref b s p) = Some l"
    "fb_level_ok (fb_pool b) l (filter (\<lambda>n. fn_price n = p) xs @ (a, r) # filter (\<lambda>n. fn_price n = p) ys)"
    "fb_addrs_ok b (map fst (filter (\<lambda>n. fn_price n = p) xs) @ a # map fst (filter (\<lambda>n. fn_price n = p) ys))"
    "\<forall>m\<in>set (Q (opp s)). fn_price m \<noteq> p" "fb_node_ok (fb_pool b) s (a, r)" "fb_band_set b"
    "\<forall>s' n. valid_side s' \<longrightarrow> n \<in> set (Q s') \<longrightarrow> fn_price n \<noteq> p \<longrightarrow>
      fst n \<notin> set (map fst (filter (\<lambda>n. fn_price n = p) xs) @ a # map fst (filter (\<lambda>n. fn_price n = p) ys))"
proof -
  note C = fb_coreD[OF core]
  let ?f = "filter (\<lambda>n. fn_price n = p)"
  have n: "(a, r) \<in> set (Q s)" using Q by simp
  have opp: "\<forall>m\<in>set (Q (opp s)). fn_price m \<noteq> p" using fb_one_side[of b Q, OF C(2) s n] by (simp add: p_def)
  obtain l where l: "level_at b (fb_ref b s p) = Some l"
    using fb_levels_okD(2)[where Q = Q, OF C(5) s n] by (auto simp: p_def)
  have F: "?f (Q s) = ?f xs @ (a, r) # ?f ys" by (simp add: Q p_def)
  have lo: "fb_level_ok (fb_pool b) l (?f xs @ (a, r) # ?f ys)"
    using fb_levels_okD(1)[OF C(5) l] fb_nodes_ref[where Q = Q, OF C(1) s opp] F by simp
  note A = fb_addrs_in_pool(1)[OF C(4)]
  have D: "distinct (map fst (Q Buy) @ map fst (Q Sell))" using A by (auto simp: fb_addrs_ok_def fb_addrs_def)
  have sub: "set (map fst (Q s)) \<subseteq> set (fb_addrs b Q)" "distinct (map fst (Q s))"
    using s D by (auto simp: fb_addrs_def)
  then have "fb_addrs_ok b (map fst (Q s))" using fb_addrs_ok_sub[OF A] by blast
  then have ao: "fb_addrs_ok b (map fst (?f (Q s)))"
    by (rule fb_addrs_ok_sub) (use sub(2) in \<open>auto intro: distinct_map_filter\<close>)
  have "fst m \<notin> set (map fst (?f (Q s)))" if m: "valid_side s'" "m \<in> set (Q s')" "fn_price m \<noteq> p" for s' m
  proof
    assume "fst m \<in> set (map fst (?f (Q s)))"
    then obtain m' where m': "m' \<in> set (Q s)" "fn_price m' = p" "fst m' = fst m" by auto
    have "m \<in> set (Q Buy @ Q Sell)" "m' \<in> set (Q Buy @ Q Sell)" using m m'(1) s by auto
    then have "m = m'" using D m'(3) by (intro distinct_map_inj[of fst "Q Buy @ Q Sell"]) auto
    then show False using m(3) m'(2) by simp
  qed
  moreover have "fb_node_ok (fb_pool b) s (a, r)" by (rule fb_levels_okD(3)[where Q = Q, OF C(5) s n])
  moreover have "fb_band_set b" using C(9) n s by auto
  ultimately show ?thesis using that[OF l lo _ opp] ao F by simp
qed

lemma fb_levels_set_qty:
  assumes core: "fb_core b Q" and s: "valid_side s" and Q: "Q s = xs @ (a, r) # ys"
    and fr: "fb_frame (fb_ref b s (rs_price r)) b b'"
    and l: "level_at b (fb_ref b s (rs_price r)) = Some l"
      "level_at b' (fb_ref b s (rs_price r)) = Some (l\<lparr>fl_total := fl_total l - (rs_qty r - q)\<rparr>)"
    and pool: "\<forall>c. c \<noteq> a \<longrightarrow> fb_pool b' ! unat c = fb_pool b ! unat c"
      "fb_pool b' ! unat a = (fb_pool b ! unat a)\<lparr>fo_open := q\<rparr>"
  shows "fb_levels_ok b' (Q(s := xs @ (a, r\<lparr>rs_qty := q\<rparr>) # ys))"
proof -
  let ?p = "rs_price r"
  let ?f = "filter (\<lambda>n. fn_price n = ?p)"
  note C = fb_coreD[OF core]
  obtain l' where l': "level_at b (fb_ref b s ?p) = Some l'"
    and lo: "fb_level_ok (fb_pool b) l' (?f xs @ (a, r) # ?f ys)"
    and ao: "fb_addrs_ok b (map fst (?f xs) @ a # map fst (?f ys))"
    and opp: "\<forall>m\<in>set (Q (opp s)). fn_price m \<noteq> ?p" and no: "fb_node_ok (fb_pool b) s (a, r)"
    and out: "\<forall>s' n. valid_side s' \<longrightarrow> n \<in> set (Q s') \<longrightarrow> fn_price n \<noteq> ?p \<longrightarrow>
      fst n \<notin> set (map fst (?f xs) @ a # map fst (?f ys))"
    by (rule fb_locate[where Q = Q, OF core s Q])
  have l'l: "l' = l" using l(1) l' by simp
  have seg: "fb_seg (fb_pool b') u as v = fb_seg (fb_pool b) u as v" for u as v
    using pool by (intro fb_seg_frame_links ballI) (metis forder.ext_inject forder.surjective forder.update_convs(3))
  have "fb_level_ok (fb_pool b') (l\<lparr>fl_total := fl_total l - (rs_qty r - q)\<rparr>) (?f xs @ (a, r\<lparr>rs_qty := q\<rparr>) # ?f ys)"
    using lo unfolding l'l by (simp add: fb_level_ok_def fb_links_def seg algebra_simps)
  moreover have "fb_node_ok (fb_pool b') s n" if n: "n \<in> set (xs @ (a, r\<lparr>rs_qty := q\<rparr>) # ys)" "fn_price n = ?p" for n
  proof (cases "fst n = a")
    case False
    then have "n \<in> set (Q s)" using n Q by auto
    then show ?thesis using fb_levels_okD(3)[where Q = Q, OF C(5) s] False pool(1) by (simp add: fb_node_ok_def)
  next
    case True
    have "a \<notin> set (map fst (?f xs) @ map fst (?f ys))" using ao by (auto simp: fb_addrs_ok_def)
    then have "n = (a, r\<lparr>rs_qty := q\<rparr>)" using n True by (cases n) force
    then show ?thesis using no pool(2) by (simp add: fb_node_ok_def fo_body_def)
  qed
  moreover have "fb_pool b' ! unat (fst n) = fb_pool b ! unat (fst n)"
    if "valid_side s'" "n \<in> set (Q s')" "fn_price n \<noteq> ?p" for s' n
    using out[rule_format, OF that] pool(1) by simp
  ultimately show ?thesis using Q
    by (intro fb_levels_update[where Q = Q, OF C(5,1) s fr opp _ _ l(2)]) simp_all
qed

text \<open>Unlinking an order whose quantity has been taken out of its level.\<close>

lemma fb_detach:
  assumes core: "fb_core b Q" and s: "valid_side s" and Q: "Q s = xs @ (a, r) # ys"
    and fr: "fb_frame (fb_ref b s (rs_price r)) b b1" "length (fb_pool b1) = length (fb_pool b)"
    and l: "level_at b (fb_ref b s (rs_price r)) = Some l"
      "level_at b1 (fb_ref b s (rs_price r)) = Some (l\<lparr>fl_total := fl_total l - rs_qty r\<rparr>)"
    and pool: "\<forall>c. c \<noteq> a \<longrightarrow> fb_pool b1 ! unat c = fb_pool b ! unat c"
      "fb_pool b1 ! unat a = (fb_pool b ! unat a)\<lparr>fo_open := q\<rparr>"
  shows "\<exists>b2. fb_unlink b1 (fb_ref b s (rs_price r)) a = Some b2 \<and> fb_touch (fb_ref b s (rs_price r)) b1 b2 \<and>
    level_at b2 (fb_ref b s (rs_price r)) \<noteq> None \<and> fb_levels_ok b2 (Q(s := xs @ ys))"
proof -
  let ?p = "rs_price r" and ?r = "fb_ref b s (rs_price r)"
  let ?f = "filter (\<lambda>n. fn_price n = ?p)"
  let ?as = "map fst (?f xs)" and ?bs = "map fst (?f ys)"
  note C = fb_coreD[OF core]
  obtain l' where l': "level_at b ?r = Some l'"
    and lo: "fb_level_ok (fb_pool b) l' (?f xs @ (a, r) # ?f ys)" and ao: "fb_addrs_ok b (?as @ a # ?bs)"
    and opp: "\<forall>m\<in>set (Q (opp s)). fn_price m \<noteq> ?p" and no: "fb_node_ok (fb_pool b) s (a, r)"
    and out: "\<forall>s' n. valid_side s' \<longrightarrow> n \<in> set (Q s') \<longrightarrow> fn_price n \<noteq> ?p \<longrightarrow> fst n \<notin> set (?as @ a # ?bs)"
    by (rule fb_locate[where Q = Q, OF core s Q])
  have l'l: "l' = l" using l(1) l' by simp
  have seg: "fb_seg (fb_pool b1) u cs v = fb_seg (fb_pool b) u cs v" for u cs v
    using pool by (intro fb_seg_frame_links ballI) (metis forder.ext_inject forder.surjective forder.update_convs(3))
  have lk: "fb_links (fb_pool b1) (l\<lparr>fl_total := fl_total l - rs_qty r\<rparr>) (?as @ a # ?bs)"
    using lo unfolding l'l by (simp add: fb_level_ok_def fb_links_def seg)
  have s1: "fb_sorted b1" using C(8) fr(1) by (simp add: fb_sorted_def fb_frame_def)
  have ao1: "fb_addrs_ok b1 (?as @ a # ?bs)" using ao fr(2) by (simp add: fb_addrs_ok_def)
  obtain b2 l2 where b2: "fb_unlink b1 ?r a = Some b2" "fb_touch ?r b1 b2" and l2: "level_at b2 ?r = Some l2"
    "fl_total l2 = fl_total l - rs_qty r" "fb_links (fb_pool b2) l2 (?as @ ?bs)"
    and p2: "\<forall>c. c \<notin> set (?as @ a # ?bs) \<longrightarrow> fb_pool b2 ! unat c = fb_pool b1 ! unat c"
      "\<forall>c :: u32. fo_body (fb_pool b2 ! unat c) = fo_body (fb_pool b1 ! unat c)"
    using fb_unlink_ok[OF s1 l(2) lk ao1] by auto
  have "fb_level_ok (fb_pool b2) l2 (?f (xs @ ys))"
    using lo l2 unfolding l'l by (simp add: fb_level_ok_def)
  moreover have "fb_node_ok (fb_pool b2) s n" if n: "n \<in> set (xs @ ys)" "fn_price n = ?p" for n
  proof -
    have "fst n \<noteq> a" using ao n by (force simp: fb_addrs_ok_def)
    moreover have "fb_node_ok (fb_pool b) s n" using fb_levels_okD(3)[where Q = Q, OF C(5) s] n(1) Q by auto
    ultimately show ?thesis using p2(2) pool(1) by (simp add: fb_node_ok_def)
  qed
  moreover have "fb_pool b2 ! unat (fst n) = fb_pool b ! unat (fst n)"
    if "valid_side s'" "n \<in> set (Q s')" "fn_price n \<noteq> ?p" for s' n
    using out[rule_format, OF that] pool(1) p2(1) by simp
  moreover have "fb_frame ?r b b2" using fr(1) b2(2) by (simp add: fb_touch_def fb_frame_def)
  ultimately have "fb_levels_ok b2 (Q(s := xs @ ys))" using Q l2(1)
    by (intro fb_levels_update[where Q = Q and p = ?p, OF C(5,1) s _ opp]) simp_all
  then show ?thesis using b2 l2(1) by blast
qed

lemma map_of_filter_key: "map_of (filter (\<lambda>e. fst e \<noteq> k) m) = (map_of m)(k := None)"
  by (induction m) auto

lemma fb_entries_delete:
  assumes "distinct (map fst (fb_entries Q))" "valid_side s" "Q s = xs @ (a, r) # ys"
  shows "map_of (fb_entries (Q(s := xs @ ys))) = (map_of (fb_entries Q))(rs_id r := None)"
proof -
  have "fb_entries (Q(s := xs @ ys)) = filter (\<lambda>e. fst e \<noteq> rs_id r) (fb_entries Q)"
    using assms by (auto simp: fb_entries_def filter_map comp_def filter_key_absent[where f = "\<lambda>n. rs_id (snd n)"])
  then show ?thesis by (simp add: map_of_filter_key)
qed

lemma fb_entries_ids: "map fst (fb_entries Q) = spec_ids (fb_spec b Q)"
  by (simp add: fb_entries_def spec_ids_def)

lemma fb_spec_upd: "valid_side s \<Longrightarrow> fb_spec b' (Q(s := q)) =
    set_queue s (map snd q) ((fb_spec b Q)\<lparr>sb_match := fb_next_match_id b'\<rparr>)"
  by (auto simp: fb_spec_def set_queue_def)

lemma fb_core_delete:
  assumes core: "fb_core b Q" and s: "valid_side s" and Q: "Q s = xs @ (a, r) # ys"
    and fr: "fb_frame (fb_ref b s (rs_price r)) b b'" "length (fb_pool b') = length (fb_pool b)"
      "fb_bid_cursor b' = fb_bid_cursor b" "fb_ask_cursor b' = fb_ask_cursor b"
    and fl: "fb_free b' = fb_free b @ [a]"
    and ix: "fm_inv (fb_index b')" "fm_abs (fb_index b') = (fm_abs (fb_index b))(rs_id r := None)"
    and lv: "fb_levels_ok b' (Q(s := xs @ ys))"
  shows "fb_core b' (Q(s := xs @ ys))"
proof -
  note C = fb_coreD[OF core]
  have band: "fb_band_set b" using C(9) s Q by auto
  have d: "distinct (map fst (fb_entries Q))" using C(2) fb_entries_ids[of Q b] by (simp add: spec_inv_def)
  have "fb_index_ok b' (Q(s := xs @ ys))"
    using ix C(3) fb_entries_delete[where Q = Q, OF d s Q] by (simp add: fb_index_ok_def)
  moreover have "fb_pool_ok b' (Q(s := xs @ ys))"
    using C(4) s Q fr(2) fl by (auto simp: fb_pool_ok_def fb_addrs_def)
  moreover have "fb_cursors_ok b' (Q(s := xs @ ys))"
    using fr by (intro fb_cursors_sub[OF C(6)]) (auto simp: Q fb_frame_def)
  moreover have "spec_inv (fb_spec b' (Q(s := xs @ ys)))"
    unfolding fb_spec_upd[OF s, where b = b] using spec_inv_delete_at[OF _ s] C(2) s Q by simp
  ultimately show ?thesis by (intro fb_core_update[where Q = Q, OF core s fr(1) band] lv)
qed

lemma fb_core_set_qty:
  assumes core: "fb_core b Q" and s: "valid_side s" and Q: "Q s = xs @ (a, r) # ys" and q: "q \<noteq> 0"
    and fr: "fb_frame (fb_ref b s (rs_price r)) b b'" "length (fb_pool b') = length (fb_pool b)"
      "fb_bid_cursor b' = fb_bid_cursor b" "fb_ask_cursor b' = fb_ask_cursor b"
      "fb_free b' = fb_free b" "fb_index b' = fb_index b"
    and lv: "fb_levels_ok b' (Q(s := xs @ (a, r\<lparr>rs_qty := q\<rparr>) # ys))"
  shows "fb_core b' (Q(s := xs @ (a, r\<lparr>rs_qty := q\<rparr>) # ys))"
proof -
  note C = fb_coreD[OF core]
  have band: "fb_band_set b" using C(9) s Q by auto
  have d: "distinct (map fst (fb_entries Q))" using C(2) fb_entries_ids[of Q b] by (simp add: spec_inv_def)
  have "fb_index_ok b' (Q(s := xs @ (a, r\<lparr>rs_qty := q\<rparr>) # ys))"
    using C(3) s Q fr(6) by (auto simp: fb_index_ok_def fb_entries_def)
  moreover have "fb_pool_ok b' (Q(s := xs @ (a, r\<lparr>rs_qty := q\<rparr>) # ys))"
    using C(4) s Q fr(2,5) by (auto simp: fb_pool_ok_def fb_addrs_def)
  moreover have "fb_cursors_ok b' (Q(s := xs @ (a, r\<lparr>rs_qty := q\<rparr>) # ys))"
    using fr by (intro fb_cursors_sub[OF C(6)]) (auto simp: Q fb_frame_def)
  moreover have "spec_inv (fb_spec b' (Q(s := xs @ (a, r\<lparr>rs_qty := q\<rparr>) # ys)))"
    unfolding fb_spec_upd[OF s, where b = b] using spec_inv_set_qty_at[OF _ s _ q] C(2) s Q by simp
  ultimately show ?thesis by (intro fb_core_update[where Q = Q, OF core s fr(1) band] lv)
qed

section \<open>Matching at one level\<close>

lemma fb_write_order:
  assumes "unat a < length (fb_pool b)" "fb_sorted b" "level_at b r = Some l"
  shows "\<exists>b1 b2. pool_upd b a f = Some b1 \<and> level_upd b1 r g = Some b2 \<and> fb_touch r b b2 \<and>
    level_at b2 r = Some (g l) \<and> fb_pool b2 = (fb_pool b)[unat a := f (fb_pool b ! unat a)]"
proof -
  let ?b1 = "b\<lparr>fb_pool := (fb_pool b)[unat a := f (fb_pool b ! unat a)]\<rparr>"
  note P = pool_upd_ok(1)[where f = f, OF assms(1)] pool_upd_ok(2)[where r = r and x = "f (fb_pool b ! unat a)", OF assms(1)]
  have "fb_sorted ?b1" "level_at ?b1 r = Some l" using assms(2,3) by (simp_all add: fb_sorted_def)
  from level_upd_ok[OF this, of g] obtain b2 where
    "level_upd ?b1 r g = Some b2" "fb_touch r ?b1 b2" "level_at b2 r = Some (g l)" "fb_pool b2 = fb_pool ?b1" by blast
  then show ?thesis using P(1) fb_touch_trans[OF P(2)] by auto
qed

lemma fb_levels_fields:
  assumes "fb_geo b' = fb_geo b" "fb_pool b' = fb_pool b" "\<And>r. level_at b' r = level_at b r"
  shows "fb_levels_ok b' Q = fb_levels_ok b Q"
  unfolding fb_levels_ok_def fb_nodes_def fb_ref_geo[OF assms(1)] assms(2,3) ..

lemma fb_levels_free: "fb_levels_ok (b\<lparr>fb_free := f\<rparr>) Q = fb_levels_ok b Q"
  by (rule fb_levels_fields) simp_all

lemma fb_core_match_id: "fb_core (b\<lparr>fb_next_match_id := m\<rparr>) Q = fb_core b Q"
proof -
  let ?b = "b\<lparr>fb_next_match_id := m\<rparr>"
  have g: "fb_geo ?b = fb_geo b" by simp
  have "fb_levels_ok ?b Q = fb_levels_ok b Q" by (rule fb_levels_fields) simp_all
  moreover have "spec_inv (fb_spec ?b Q) = spec_inv (fb_spec b Q)" by (simp add: spec_inv_def spec_ids_def)
  ultimately show ?thesis using fb_tick_index_geo[OF g]
    by (simp add: fb_core_def fb_index_ok_def fb_pool_ok_def fb_addrs_def fb_cursors_ok_def fb_maps_ok_def fb_sorted_def)
qed

text \<open>One round of the loop: the head of the level trades, partly or completely.\<close>

lemma fb_trade_partial:
  assumes core: "fb_core b Q" and s: "valid_side s" and Q: "Q s = (a, r) # ys" and q: "q < rs_qty r" "q \<noteq> 0"
    and l: "level_at b (fb_ref b s (rs_price r)) = Some l"
  shows "\<exists>b1 b2. pool_upd b a (\<lambda>x. x\<lparr>fo_open := fo_open x - q\<rparr>) = Some b1 \<and>
    level_upd b1 (fb_ref b s (rs_price r)) (\<lambda>l. l\<lparr>fl_total := fl_total l - q\<rparr>) = Some b2 \<and>
    fb_touch (fb_ref b s (rs_price r)) b b2 \<and> level_at b2 (fb_ref b s (rs_price r)) \<noteq> None \<and>
    fb_core b2 (Q(s := (a, r\<lparr>rs_qty := rs_qty r - q\<rparr>) # ys))"
proof -
  let ?p = "rs_price r" and ?q = "rs_qty r - q" and ?r = "fb_ref b s (rs_price r)"
  note C = fb_coreD[OF core]
  have Q': "Q s = [] @ (a, r) # ys" using Q by simp
  have no: "fb_node_ok (fb_pool b) s (a, r)" using fb_levels_okD(3)[where Q = Q, OF C(5) s] Q by simp
  then have o: "fo_open (fb_pool b ! unat a) = rs_qty r" by (simp add: fb_node_ok_def fo_body_def)
  have a: "unat a < length (fb_pool b)" using fb_addrs_in_pool(1)[OF C(4)] s Q by (auto simp: fb_addrs_ok_def fb_addrs_def)
  obtain b1 b2 where w: "pool_upd b a (\<lambda>x. x\<lparr>fo_open := fo_open x - q\<rparr>) = Some b1"
    "level_upd b1 ?r (\<lambda>l. l\<lparr>fl_total := fl_total l - q\<rparr>) = Some b2" "fb_touch ?r b b2"
    "level_at b2 ?r = Some (l\<lparr>fl_total := fl_total l - q\<rparr>)"
    "fb_pool b2 = (fb_pool b)[unat a := (fb_pool b ! unat a)\<lparr>fo_open := ?q\<rparr>]"
    using fb_write_order[OF a C(8) l, of "\<lambda>x. x\<lparr>fo_open := fo_open x - q\<rparr>" "\<lambda>l. l\<lparr>fl_total := fl_total l - q\<rparr>"]
    by (auto simp: o)
  have t: "fb_frame ?r b b2" "length (fb_pool b2) = length (fb_pool b)"
    "fb_bid_cursor b2 = fb_bid_cursor b" "fb_ask_cursor b2 = fb_ask_cursor b"
    "fb_free b2 = fb_free b" "fb_index b2 = fb_index b" using w(3) by (auto simp: fb_touch_def)
  have "fb_levels_ok b2 (Q(s := [] @ (a, r\<lparr>rs_qty := ?q\<rparr>) # ys))"
    using a w(4,5) by (intro fb_levels_set_qty[where Q = Q, OF core s Q' t(1) l]) (auto simp: pool_nth_upd)
  moreover have "?q \<noteq> 0" using q(1) by auto
  ultimately have "fb_core b2 (Q(s := [] @ (a, r\<lparr>rs_qty := ?q\<rparr>) # ys))"
    by (intro fb_core_set_qty[where Q = Q, OF core s Q' _ t])
  then show ?thesis using w by auto
qed

lemma fb_trade_full:
  assumes core: "fb_core b Q" and s: "valid_side s" and Q: "Q s = (a, r) # ys"
    and l: "level_at b (fb_ref b s (rs_price r)) = Some l"
  shows "\<exists>b1 b2 ix e b3. pool_upd b a (\<lambda>x. x\<lparr>fo_open := fo_open x - rs_qty r\<rparr>) = Some b1 \<and>
    level_upd b1 (fb_ref b s (rs_price r)) (\<lambda>l. l\<lparr>fl_total := fl_total l - rs_qty r\<rparr>) = Some b2 \<and>
    fb_next_match_id b2 = fb_next_match_id b \<and>
    fm_erase (fb_index b2) (rs_id r) = Some (ix, e) \<and>
    fb_unlink (b2\<lparr>fb_next_match_id := m, fb_index := ix\<rparr>) (fb_ref b s (rs_price r)) a = Some b3 \<and>
    fb_frame (fb_ref b s (rs_price r)) b (fb_free_order b3 a) \<and>
    fb_bid_cursor (fb_free_order b3 a) = fb_bid_cursor b \<and> fb_ask_cursor (fb_free_order b3 a) = fb_ask_cursor b \<and>
    fb_next_match_id (fb_free_order b3 a) = m \<and> level_at (fb_free_order b3 a) (fb_ref b s (rs_price r)) \<noteq> None \<and>
    fb_core (fb_free_order b3 a) (Q(s := ys))"
proof -
  let ?p = "rs_price r" and ?r = "fb_ref b s (rs_price r)"
  note C = fb_coreD[OF core]
  have Q': "Q s = [] @ (a, r) # ys" using Q by simp
  have a: "unat a < length (fb_pool b)" using fb_addrs_in_pool(1)[OF C(4)] s Q by (auto simp: fb_addrs_ok_def fb_addrs_def)
  obtain b1 b2 where w: "pool_upd b a (\<lambda>x. x\<lparr>fo_open := fo_open x - rs_qty r\<rparr>) = Some b1"
    "level_upd b1 ?r (\<lambda>l. l\<lparr>fl_total := fl_total l - rs_qty r\<rparr>) = Some b2" "fb_touch ?r b b2"
    "level_at b2 ?r = Some (l\<lparr>fl_total := fl_total l - rs_qty r\<rparr>)"
    "fb_pool b2 = (fb_pool b)[unat a := (fb_pool b ! unat a)\<lparr>fo_open := fo_open (fb_pool b ! unat a) - rs_qty r\<rparr>]"
    using fb_write_order[OF a C(8) l, of "\<lambda>x. x\<lparr>fo_open := fo_open x - rs_qty r\<rparr>" "\<lambda>l. l\<lparr>fl_total := fl_total l - rs_qty r\<rparr>"]
    by auto
  have t: "fb_frame ?r b b2" "length (fb_pool b2) = length (fb_pool b)" "fb_bid_cursor b2 = fb_bid_cursor b"
    "fb_ask_cursor b2 = fb_ask_cursor b" "fb_free b2 = fb_free b" "fb_index b2 = fb_index b"
    "fb_next_match_id b2 = fb_next_match_id b" using w(3) by (auto simp: fb_touch_def)
  obtain ix e where ix: "fm_erase (fb_index b2) (rs_id r) = Some (ix, e)" "fm_inv ix"
    "fm_abs ix = (fm_abs (fb_index b))(rs_id r := None)"
    using fm.erase_ok[of "fb_index b" "rs_id r"] C(3) t(6) by (auto simp: fb_index_ok_def)
  let ?b = "b2\<lparr>fb_next_match_id := m, fb_index := ix\<rparr>"
  have f: "fb_frame ?r b ?b" using t(1) by (simp add: fb_frame_def)
  obtain b3 where b3: "fb_unlink ?b ?r a = Some b3" "fb_touch ?r ?b b3" "level_at b3 ?r \<noteq> None" "fb_levels_ok b3 (Q(s := [] @ ys))"
    using fb_detach[where Q = Q, OF core s Q' f _ l] a t(2) w(4,5) by (auto simp: pool_nth_upd)
  let ?b4 = "fb_free_order b3 a"
  have t4: "fb_frame ?r b ?b4" "length (fb_pool ?b4) = length (fb_pool b)" "fb_bid_cursor ?b4 = fb_bid_cursor b"
    "fb_ask_cursor ?b4 = fb_ask_cursor b" "fb_free ?b4 = fb_free b @ [a]" "fb_index ?b4 = ix" "fb_next_match_id ?b4 = m"
    using t b3(2) f by (auto simp: fb_free_order_def fb_touch_def fb_frame_def)
  have "fb_levels_ok ?b4 (Q(s := [] @ ys))" using b3(4) fb_levels_free by (simp add: fb_free_order_def)
  then have "fb_core ?b4 (Q(s := [] @ ys))"
    using ix t4(6) by (intro fb_core_delete[where Q = Q, OF core s Q' t4(1-5)]) auto
  moreover have "level_at ?b4 ?r \<noteq> None" using b3(3) by (simp add: fb_free_order_def)
  ultimately show ?thesis using w(1,2) t(7) ix(1) b3(1) t4 by auto
qed

lemma fb_level_head:
  assumes core: "fb_core b Q" and s: "valid_side s" and opp: "\<forall>m\<in>set (Q (opp s)). fn_price m \<noteq> p"
    and l: "level_at b (fb_ref b s p) = Some l"
  shows "fl_head l = hd_or (map fst (filter (\<lambda>n. fn_price n = p) (Q s)))"
  using fb_levels_okD(1)[OF fb_coreD(5)[OF core] l] fb_nodes_ref[where Q = Q, OF fb_coreD(1)[OF core] s opp]
  by (simp add: fb_level_ok_def fb_links_def)

lemma fb_addr_ok:
  assumes "fb_core b Q" "valid_side s" "n \<in> set (Q s)"
  shows "unat (fst n) < length (fb_pool b)" "fst n \<noteq> kNil"
    "pool_at b (fst n) = Some (fb_pool b ! unat (fst n))"
proof -
  have "fst n \<in> set (fb_addrs b Q)" using assms(2,3) by (auto simp: fb_addrs_def)
  then show "unat (fst n) < length (fb_pool b)" "fst n \<noteq> kNil" "pool_at b (fst n) = Some (fb_pool b ! unat (fst n))"
    using fb_addrs_in_pool(1)[OF fb_coreD(4)[OF assms(1)]] by (auto simp: fb_addrs_ok_def pool_at_def)
qed

lemma fb_node_fields:
  assumes "fb_core b Q" "valid_side s" "n \<in> set (Q s)"
  shows "fo_id (fb_pool b ! unat (fst n)) = rs_id (snd n)" "fo_price (fb_pool b ! unat (fst n)) = fn_price n"
    "fo_open (fb_pool b ! unat (fst n)) = rs_qty (snd n)" "fo_side (fb_pool b ! unat (fst n)) = s"
  using fb_levels_okD(3)[where Q = Q, OF fb_coreD(5)[OF assms(1)] assms(2,3)]
  by (auto simp: fb_node_ok_def fo_body_def)

text \<open>The book after an operation on the level \<open>r\<close>, as the callers of the loop see it.\<close>

definition fb_after :: "level_ref \<Rightarrow> fast_book \<Rightarrow> fast_book \<Rightarrow> bool" where
  "fb_after r b b' \<longleftrightarrow> fb_frame r b b' \<and> fb_bid_cursor b' = fb_bid_cursor b \<and> fb_ask_cursor b' = fb_ask_cursor b \<and>
     level_at b' r \<noteq> None"

lemma fb_after_trans: "fb_after r b b' \<Longrightarrow> fb_after r b' b'' \<Longrightarrow> fb_after r b b''"
  by (simp add: fb_after_def fb_frame_def)

lemma fb_consume_0:
  assumes "level_at b r \<noteq> None"
  shows "fb_consume_level b r p oid side 0 = Some (b, 0, [])"
  using assms by (subst fb_consume_level.simps) (auto simp: bind_eq_Some_conv)

lemma fb_consume_ok:
  assumes "fb_core b Q" "valid_side s" "Q s = ns @ rest" "\<forall>n\<in>set ns. fn_price n = p" "\<forall>n\<in>set rest. fn_price n \<noteq> p"
    "\<forall>m\<in>set (Q (opp s)). fn_price m \<noteq> p" "level_at b (fb_ref b s p) \<noteq> None" "crosses side limit p"
    "sweep oid side limit (fb_next_match_id b) want (map snd ns) = (evs, left, mid, rs)"
  shows "\<exists>b' ns'. fb_consume_level b (fb_ref b s p) p oid side want = Some (b', want - left, evs) \<and>
    fb_core b' (Q(s := ns' @ rest)) \<and> map snd ns' = rs \<and> fb_next_match_id b' = mid \<and> fb_after (fb_ref b s p) b b'"
  using assms
proof (induction ns arbitrary: b Q want evs rs)
  case Nil
  let ?r = "fb_ref b s p"
  obtain l where l: "level_at b ?r = Some l" using Nil.prems(7) by auto
  have "filter (\<lambda>n. fn_price n = p) (Q s) = []" using Nil.prems(3,5) by (simp add: filter_empty_conv)
  then have "fl_head l = kNil" using fb_level_head[where Q = Q, OF Nil.prems(1,2,6) l] by simp
  then have "fb_consume_level b ?r p oid side want = Some (b, 0, [])"
    using l by (subst fb_consume_level.simps) simp
  moreover have "Q(s := [] @ rest) = Q" using Nil.prems(3) by (simp add: fun_upd_idem)
  ultimately show ?case using Nil.prems(1,9) l
    by (intro exI[of _ b] exI[of _ "[]"]) (simp add: fb_after_def fb_frame_def)
next
  case (Cons n ns)
  let ?r = "fb_ref b s p"
  obtain a r where n: "n = (a, r)" by (cases n)
  have p: "rs_price r = p" using Cons.prems(4) by (simp add: n)
  have Q: "Q s = (a, r) # ns @ rest" using Cons.prems(3) n by simp
  have inQ: "(a, r) \<in> set (Q s)" by (simp add: Q)
  obtain l where l: "level_at b ?r = Some l" using Cons.prems(7) by auto
  have h: "fl_head l = a" "a \<noteq> kNil" using fb_level_head[where Q = Q, OF Cons.prems(1,2,6) l] p
      fb_addr_ok(2)[where Q = Q, OF Cons.prems(1,2) inQ] by (auto simp: Q)
  note A = fb_addr_ok[where Q = Q, OF Cons.prems(1,2) inQ] fb_node_fields[where Q = Q, OF Cons.prems(1,2) inQ]
  consider "want = 0" | "want \<noteq> 0" "want < rs_qty r" | "want \<noteq> 0" "\<not> want < rs_qty r" by blast
  then show ?case
  proof cases
    case 1
    moreover have "Q(s := (n # ns) @ rest) = Q" using Cons.prems(3) by (simp add: fun_upd_idem)
    ultimately show ?thesis using Cons.prems(1,9) l fb_consume_0[of b ?r p oid side]
      by (intro exI[of _ b] exI[of _ "n # ns"]) (auto simp: fb_after_def fb_frame_def)
  next
    case 2
    obtain b1 b2 where w: "pool_upd b a (\<lambda>x. x\<lparr>fo_open := fo_open x - want\<rparr>) = Some b1"
      "level_upd b1 ?r (\<lambda>l. l\<lparr>fl_total := fl_total l - want\<rparr>) = Some b2" "fb_touch ?r b b2" "level_at b2 ?r \<noteq> None"
      "fb_core b2 (Q(s := (a, r\<lparr>rs_qty := rs_qty r - want\<rparr>) # ns @ rest))"
      using fb_trade_partial[where Q = Q, OF Cons.prems(1,2) Q 2(2,1)] l p by auto
    let ?b3 = "b2\<lparr>fb_next_match_id := fb_next_match_id b2 + 1\<rparr>"
    have m: "fb_next_match_id b2 = fb_next_match_id b" using w(3) by (simp add: fb_touch_def)
    have ne: "rs_qty r - want \<noteq> 0" using 2(2) by auto
    have 0: "fb_consume_level ?b3 ?r p oid side 0 = Some (?b3, 0, [])" using w(4) by (intro fb_consume_0) simp
    have sw: "evs = [exec_event r oid side want (fb_next_match_id b)]" "left = 0" "mid = fb_next_match_id b + 1"
      "rs = r\<lparr>rs_qty := rs_qty r - want\<rparr> # map snd ns" using Cons.prems(8,9) 2 p by (auto simp: n)
    have "fb_consume_level b ?r p oid side want = Some (?b3, want - left, evs)"
      using l h 2 A w(1,2) 0 ne m p by (subst fb_consume_level.simps) (simp add: sw exec_event_def)
    moreover have "fb_core ?b3 (Q(s := ((a, r\<lparr>rs_qty := rs_qty r - want\<rparr>) # ns) @ rest))"
      using w(5) fb_core_match_id[where b = b2] by simp
    moreover have "fb_after ?r b ?b3" using w(3,4) by (simp add: fb_after_def fb_touch_def fb_frame_def)
    moreover have "map snd ((a, r\<lparr>rs_qty := rs_qty r - want\<rparr>) # ns) = rs" "fb_next_match_id ?b3 = mid"
      by (simp_all add: sw m)
    ultimately show ?thesis by blast
  next
    case 3
    obtain b1 b2 ix e b3 where w: "pool_upd b a (\<lambda>x. x\<lparr>fo_open := fo_open x - rs_qty r\<rparr>) = Some b1"
      "level_upd b1 ?r (\<lambda>l. l\<lparr>fl_total := fl_total l - rs_qty r\<rparr>) = Some b2"
      "fb_next_match_id b2 = fb_next_match_id b" "fm_erase (fb_index b2) (rs_id r) = Some (ix, e)"
      "fb_unlink (b2\<lparr>fb_next_match_id := fb_next_match_id b + 1, fb_index := ix\<rparr>) ?r a = Some b3"
      "fb_after ?r b (fb_free_order b3 a)" "fb_next_match_id (fb_free_order b3 a) = fb_next_match_id b + 1"
      "fb_core (fb_free_order b3 a) (Q(s := ns @ rest))"
      using fb_trade_full[where Q = Q and m = "fb_next_match_id b + 1", OF Cons.prems(1,2) Q] l p
      by (auto simp: fb_after_def)
    let ?b4 = "fb_free_order b3 a"
    obtain evs1 where sw: "sweep oid side limit (fb_next_match_id b + 1) (want - rs_qty r) (map snd ns) = (evs1, left, mid, rs)"
      "evs = exec_event r oid side (rs_qty r) (fb_next_match_id b) # evs1"
      using Cons.prems(8,9) 3 p by (auto simp: n split: prod.splits)
    have r4: "fb_ref ?b4 = fb_ref b" using w(6) by (intro fb_ref_geo) (simp add: fb_after_def fb_frame_def)
    have o4: "(Q(s := ns @ rest)) (opp s) = Q (opp s)" using Cons.prems(2) by (auto simp: opp_def)
    have "\<exists>b' ns'. fb_consume_level ?b4 (fb_ref ?b4 s p) p oid side (want - rs_qty r) =
        Some (b', want - rs_qty r - left, evs1) \<and> fb_core b' ((Q(s := ns @ rest))(s := ns' @ rest)) \<and>
        map snd ns' = rs \<and> fb_next_match_id b' = mid \<and> fb_after (fb_ref ?b4 s p) ?b4 b'"
      using Cons.prems w(6) by (intro Cons.IH[OF w(8)]) (simp_all add: o4 w(7) sw(1) r4 fb_after_def)
    then obtain b' ns' where b': "fb_consume_level ?b4 ?r p oid side (want - rs_qty r) =
        Some (b', want - rs_qty r - left, evs1)" "fb_core b' (Q(s := ns' @ rest))" "map snd ns' = rs"
        "fb_next_match_id b' = mid" "fb_after ?r ?b4 b'" by (auto simp: r4)
    have "fb_consume_level b ?r p oid side want = Some (b', want - left, evs)"
      using l h 3 A w(1-5) b'(1) p by (subst fb_consume_level.simps) (simp add: sw(2) exec_event_def)
    then show ?thesis using b' fb_after_trans[OF w(6) b'(5)] by blast
  qed
qed

section \<open>Best prices\<close>

definition fb_ticks :: "fast_book \<Rightarrow> fqueues \<Rightarrow> side \<Rightarrow> int set" where
  "fb_ticks b Q s = fb_tick_index b ` fn_price ` set (Q s)"

abbreviation fb_head_side :: "fast_book \<Rightarrow> side \<Rightarrow> flevel \<Rightarrow> bool option" where
  "fb_head_side b s l \<equiv> (if fl_head l \<noteq> kNil then map_option (\<lambda>x. fo_side x = s) (pool_at b (fl_head l)) else Some False)"

lemma fb_ladder_level:
  assumes core: "fb_core b Q" and s: "valid_side s" and band: "fb_band_set b" and t: "0 \<le> t" "t < int (length (fb_ladder b))"
  shows "\<exists>l. level_at b (InLadder (nat t)) = Some l \<and> fb_head_side b s l = Some (t \<in> fb_ticks b Q s)"
proof -
  note C = fb_coreD[OF core]
  let ?l = "fb_ladder b ! nat t" and ?ns = "fb_nodes b Q (InLadder (nat t))"
  have l: "level_at b (InLadder (nat t)) = Some ?l" using t by auto
  have N: "n \<in> set ?ns \<longleftrightarrow> (\<exists>s'. valid_side s' \<and> n \<in> set (Q s') \<and> fb_tick_index b (fn_price n) = t)" for n
    using t(1) by (auto simp: fb_nodes_def fb_ref_simps(1))
  have h: "fl_head ?l = hd_or (map fst ?ns)"
    using fb_levels_okD(1)[OF C(5) l] by (simp add: fb_level_ok_def fb_links_def)
  show ?thesis
  proof (cases ?ns)
    case Nil
    then have "t \<notin> fb_ticks b Q s" using N s by (auto simp: fb_ticks_def)
    then show ?thesis using l h Nil by simp
  next
    case (Cons n ns)
    then obtain s' where n: "valid_side s'" "n \<in> set (Q s')" "fb_tick_index b (fn_price n) = t" using N[of n] by auto
    have "s' = s" if "m \<in> set (Q s)" "fb_tick_index b (fn_price m) = t" for m
    proof (rule ccontr)
      assume "s' \<noteq> s"
      then have "m \<in> set (Q (opp s'))" using s n(1) that(1) by (auto simp: opp_def)
      moreover have "fn_price m = fn_price n" using fb_tick_price(1)[OF C(1)] that(2) n(3) t(1) by metis
      ultimately show False using fb_one_side[where Q = Q, OF C(2) n(1,2)] by blast
    qed
    then have "(s' = s) = (t \<in> fb_ticks b Q s)" using n by (auto simp: fb_ticks_def)
    then show ?thesis using l h Cons fb_addr_ok[where Q = Q, OF core n(1,2)] fb_node_fields(4)[where Q = Q, OF core n(1,2)]
      by simp
  qed
qed

lemma fb_scan_bid_ok:
  assumes "fb_core b Q" "fb_band_set b" "t < int (length (fb_ladder b))"
  shows "\<exists>t'. fb_scan_bid b t = Some t' \<and> (0 \<le> t' \<longrightarrow> t' \<in> fb_ticks b Q Buy) \<and>
    (\<forall>u\<in>fb_ticks b Q Buy. 0 \<le> u \<longrightarrow> u \<le> t \<longrightarrow> u \<le> t')"
  using assms
proof (induction b t rule: fb_scan_bid.induct)
  case (1 b t)
  show ?case
  proof (cases "0 \<le> t")
    case True
    obtain l where l: "level_at b (InLadder (nat t)) = Some l" "fb_head_side b Buy l = Some (t \<in> fb_ticks b Q Buy)"
      using fb_ladder_level[of b Q Buy t] 1(2-4) True by auto
    show ?thesis
    proof (cases "t \<in> fb_ticks b Q Buy")
      case False
      obtain t' where t': "fb_scan_bid b (t - 1) = Some t'" "0 \<le> t' \<longrightarrow> t' \<in> fb_ticks b Q Buy"
        "\<forall>u\<in>fb_ticks b Q Buy. 0 \<le> u \<longrightarrow> u \<le> t - 1 \<longrightarrow> u \<le> t'" using 1(1)[OF True l False 1(2,3)] 1(4) by auto
      have "fb_scan_bid b t = Some t'" using l True False t'(1) by (subst fb_scan_bid.simps) simp
      moreover have "\<forall>u\<in>fb_ticks b Q Buy. 0 \<le> u \<longrightarrow> u \<le> t \<longrightarrow> u \<le> t'"
        using t'(3) False by (metis le_less zle_diff1_eq)
      ultimately show ?thesis using t'(2) by blast
    qed (use l True in \<open>subst fb_scan_bid.simps, simp\<close>)
  qed (subst fb_scan_bid.simps, auto)
qed

lemma fb_scan_ask_ok:
  assumes "fb_core b Q" "fb_band_set b" "0 \<le> t"
  shows "\<exists>t'. fb_scan_ask b t = Some t' \<and> 0 \<le> t' \<and> (t' < int (length (fb_ladder b)) \<longrightarrow> t' \<in> fb_ticks b Q Sell) \<and>
    (\<forall>u\<in>fb_ticks b Q Sell. t \<le> u \<longrightarrow> u < int (length (fb_ladder b)) \<longrightarrow> t' \<le> u)"
  using assms
proof (induction b t rule: fb_scan_ask.induct)
  case (1 b t)
  let ?n = "int (length (fb_ladder b))"
  show ?case
  proof (cases "t < ?n")
    case True
    obtain l where l: "level_at b (InLadder (nat t)) = Some l" "fb_head_side b Sell l = Some (t \<in> fb_ticks b Q Sell)"
      using fb_ladder_level[of b Q Sell t] 1(2-4) True by auto
    show ?thesis
    proof (cases "t \<in> fb_ticks b Q Sell")
      case False
      obtain t' where t': "fb_scan_ask b (t + 1) = Some t'" "0 \<le> t'" "t' < ?n \<longrightarrow> t' \<in> fb_ticks b Q Sell"
        "\<forall>u\<in>fb_ticks b Q Sell. t + 1 \<le> u \<longrightarrow> u < ?n \<longrightarrow> t' \<le> u" using 1(1)[OF True l False 1(2,3)] 1(4) by auto
      have "fb_scan_ask b t = Some t'" using l True False t'(1) by (subst fb_scan_ask.simps) simp
      moreover have "\<forall>u\<in>fb_ticks b Q Sell. t \<le> u \<longrightarrow> u < ?n \<longrightarrow> t' \<le> u"
        using t'(4) False by (metis le_less zless_imp_add1_zle)
      ultimately show ?thesis using t'(2,3) by blast
    qed (use l True 1(4) in \<open>subst fb_scan_ask.simps, simp\<close>)
  qed (use 1(4) in \<open>subst fb_scan_ask.simps, auto\<close>)
qed

text \<open>A query moves the cursors only.\<close>

definition fb_query :: "fast_book \<Rightarrow> fast_book \<Rightarrow> bool" where
  "fb_query b b' \<longleftrightarrow> (\<exists>c d. b' = b\<lparr>fb_bid_cursor := c, fb_ask_cursor := d\<rparr>)"

lemma fb_query_refl [simp]: "fb_query b b"
  unfolding fb_query_def by (intro exI[of _ "fb_bid_cursor b"] exI[of _ "fb_ask_cursor b"]) simp

lemma fb_query_trans: "fb_query b b' \<Longrightarrow> fb_query b' b'' \<Longrightarrow> fb_query b b''"
  unfolding fb_query_def by (elim exE) (simp, blast)

lemma fb_queryI [simp]: "fb_query b (b\<lparr>fb_bid_cursor := c\<rparr>)" "fb_query b (b\<lparr>fb_ask_cursor := d\<rparr>)"
proof -
  have "b\<lparr>fb_bid_cursor := c\<rparr> = b\<lparr>fb_bid_cursor := c, fb_ask_cursor := fb_ask_cursor b\<rparr>"
    "b\<lparr>fb_ask_cursor := d\<rparr> = b\<lparr>fb_bid_cursor := fb_bid_cursor b, fb_ask_cursor := d\<rparr>" by simp_all
  then show "fb_query b (b\<lparr>fb_bid_cursor := c\<rparr>)" "fb_query b (b\<lparr>fb_ask_cursor := d\<rparr>)"
    unfolding fb_query_def by blast+
qed

lemma fb_query_geo: "fb_query b b' \<Longrightarrow> fb_geo b' = fb_geo b"
  by (auto simp: fb_query_def)

lemma fb_query_fields:
  assumes "fb_query b b'"
  shows "fb_pool b' = fb_pool b" "fb_bids b' = fb_bids b" "fb_asks b' = fb_asks b" "fb_index b' = fb_index b"
    "fb_free b' = fb_free b" "fb_next_match_id b' = fb_next_match_id b" "fb_ladder b' = fb_ladder b"
    "fb_band_set b' = fb_band_set b" "fb_cfg b' = fb_cfg b" "level_at b' r = level_at b r"
  using assms by (auto simp: fb_query_def)

lemma fb_rel_query:
  assumes "fb_rel b Q" "fb_query b b'" "fb_cursors_ok b' Q"
  shows "fb_rel b' Q"
proof -
  note F = fb_query_fields[OF assms(2)] and g = fb_query_geo[OF assms(2)]
  have "fb_levels_ok b' Q = fb_levels_ok b Q" by (rule fb_levels_fields[OF g F(1,10)])
  moreover have "spec_inv (fb_spec b' Q) = spec_inv (fb_spec b Q)" by (simp add: spec_inv_def spec_ids_def)
  ultimately show ?thesis using assms(1,3) F fb_tick_index_geo[OF g]
    by (simp add: fb_rel_def fb_tidy_def fb_core_def fb_index_ok_def fb_pool_ok_def fb_addrs_def fb_maps_ok_def fb_sorted_def)
qed

text \<open>\<open>t\<close> is the best tick of side \<open>s\<close> in the ladder, or negative if there is none.\<close>

definition fb_lad :: "fast_book \<Rightarrow> fqueues \<Rightarrow> side \<Rightarrow> int \<Rightarrow> bool" where
  "fb_lad b Q s t \<longleftrightarrow> (0 \<le> t \<longrightarrow> t \<in> fb_ticks b Q s) \<and>
     (\<forall>u\<in>fb_ticks b Q s. 0 \<le> u \<longrightarrow> 0 \<le> t \<and> \<not> better s u t)"

lemma fb_ticks_bound: "fb_core b Q \<Longrightarrow> u \<in> fb_ticks b Q s \<Longrightarrow> 0 \<le> u \<Longrightarrow> u < int (length (fb_ladder b))"
  using fb_tick_price(2)[OF fb_coreD(1)] by (auto simp: fb_ticks_def)

lemma fb_cursors_ticks: "fb_cursors_ok b Q \<longleftrightarrow>
    (\<forall>u\<in>fb_ticks b Q Buy. 0 \<le> u \<longrightarrow> u \<le> fb_bid_cursor b) \<and> (\<forall>u\<in>fb_ticks b Q Sell. 0 \<le> u \<longrightarrow> fb_ask_cursor b \<le> u)"
  by (simp add: fb_cursors_ok_def fb_ticks_def)

lemma fb_ticks_geo: "fb_geo b' = fb_geo b \<Longrightarrow> fb_ticks b' Q s = fb_ticks b Q s"
  using fb_tick_index_geo[of b' b] by (simp add: fb_ticks_def)

lemma fb_ladder_best_bid_ok:
  assumes rel: "fb_rel b Q" and band: "fb_band_set b"
  shows "\<exists>b' t. fb_ladder_best_bid b = Some (b', t) \<and> fb_query b b' \<and> fb_rel b' Q \<and> fb_lad b Q Buy t"
proof -
  have core: "fb_core b Q" using rel by (simp add: fb_rel_def)
  let ?t = "min (fb_bid_cursor b) (int (length (fb_ladder b)) - 1)"
  have "?t < int (length (fb_ladder b))" by linarith
  then obtain t where t: "fb_scan_bid b ?t = Some t" "0 \<le> t \<longrightarrow> t \<in> fb_ticks b Q Buy"
    "\<forall>u\<in>fb_ticks b Q Buy. 0 \<le> u \<longrightarrow> u \<le> ?t \<longrightarrow> u \<le> t" using fb_scan_bid_ok[OF core band] by blast
  have c: "\<forall>u\<in>fb_ticks b Q Buy. 0 \<le> u \<longrightarrow> u \<le> fb_bid_cursor b" "\<forall>u\<in>fb_ticks b Q Sell. 0 \<le> u \<longrightarrow> fb_ask_cursor b \<le> u"
    using fb_coreD(6)[OF core] by (auto simp: fb_cursors_ticks)
  have le: "\<forall>u\<in>fb_ticks b Q Buy. 0 \<le> u \<longrightarrow> u \<le> t"
    using t(3) c(1) fb_ticks_bound[OF core] by (metis min.bounded_iff zle_diff1_eq)
  then have "fb_rel (b\<lparr>fb_bid_cursor := t\<rparr>) Q"
    using c(2) fb_ticks_geo[of "b\<lparr>fb_bid_cursor := t\<rparr>" b] by (intro fb_rel_query[OF rel]) (auto simp: fb_cursors_ticks)
  then show ?thesis using t(1,2) le by (force simp: fb_ladder_best_bid_def fb_lad_def)
qed

lemma fb_ladder_best_ask_ok:
  assumes rel: "fb_rel b Q" and band: "fb_band_set b"
  shows "\<exists>b' t. fb_ladder_best_ask b = Some (b', t) \<and> fb_query b b' \<and> fb_rel b' Q \<and> fb_lad b Q Sell t"
proof -
  have core: "fb_core b Q" using rel by (simp add: fb_rel_def)
  let ?t = "max (fb_ask_cursor b) 0" and ?n = "int (length (fb_ladder b))"
  have "0 \<le> ?t" by simp
  then obtain t where t: "fb_scan_ask b ?t = Some t" "0 \<le> t" "t < ?n \<longrightarrow> t \<in> fb_ticks b Q Sell"
    "\<forall>u\<in>fb_ticks b Q Sell. ?t \<le> u \<longrightarrow> u < ?n \<longrightarrow> t \<le> u" using fb_scan_ask_ok[OF core band] by blast
  have c: "\<forall>u\<in>fb_ticks b Q Buy. 0 \<le> u \<longrightarrow> u \<le> fb_bid_cursor b" "\<forall>u\<in>fb_ticks b Q Sell. 0 \<le> u \<longrightarrow> fb_ask_cursor b \<le> u"
    using fb_coreD(6)[OF core] by (auto simp: fb_cursors_ticks)
  have le: "\<forall>u\<in>fb_ticks b Q Sell. 0 \<le> u \<longrightarrow> t \<le> u \<and> u < ?n"
    using t(4) c(2) fb_ticks_bound[OF core] by (metis max.bounded_iff)
  then have "fb_rel (b\<lparr>fb_ask_cursor := t\<rparr>) Q"
    using c(1) fb_ticks_geo[of "b\<lparr>fb_ask_cursor := t\<rparr>" b] by (intro fb_rel_query[OF rel]) (auto simp: fb_cursors_ticks)
  moreover have "fb_lad b Q Sell (if t < ?n then t else -1)" using t(2,3) le by (force simp: fb_lad_def)
  ultimately show ?thesis using t(1) by (force simp: fb_ladder_best_ask_def)
qed

definition fb_side :: "side \<Rightarrow> fast_book \<Rightarrow> (price \<times> flevel) list" where
  "fb_side s b = (if s = Buy then fb_bids b else fb_asks b)"

definition fb_fallback_ref :: "side \<Rightarrow> price \<Rightarrow> level_ref" where
  "fb_fallback_ref s p = (if s = Buy then InBids p else InAsks p)"

lemma fb_side_simps [simp]: "fb_side Buy b = fb_bids b" "fb_side Sell b = fb_asks b"
  "fb_fallback_ref Buy p = InBids p" "fb_fallback_ref Sell p = InAsks p"
  by (simp_all add: fb_side_def fb_fallback_ref_def)

lemma fb_side_level: "level_at b (fb_fallback_ref s p) = map_of (fb_side s b) p"
  by (simp add: fb_side_def fb_fallback_ref_def)

lemma fb_ref_fallback: "valid_side s \<Longrightarrow> valid_side s' \<Longrightarrow>
    fb_ref b s' p = fb_fallback_ref s p' \<longleftrightarrow> s' = s \<and> p = p' \<and> fb_tick_index b p < 0"
  by (auto simp: fb_ref_simps)

lemma fb_side_sorted: "fb_maps_ok b \<Longrightarrow> valid_side s \<Longrightarrow> omap_sorted (better s) (fb_side s b)"
proof -
  have "better Buy = (>)" "better Sell = (<)" by (auto simp: fun_eq_iff)
  then show "fb_maps_ok b \<Longrightarrow> valid_side s \<Longrightarrow> omap_sorted (better s) (fb_side s b)"
    by (auto simp: fb_maps_ok_def fb_sorted_def)
qed

lemma fb_fallback_keys:
  assumes rel: "fb_rel b Q" and s: "valid_side s"
  shows "fst ` set (fb_side s b) = {p \<in> fn_price ` set (Q s). fb_tick_index b p < 0}"
proof (intro equalityI subsetI)
  have core: "fb_core b Q" and tidy: "fb_tidy b" using rel by (auto simp: fb_rel_def)
  note C = fb_coreD[OF core]
  fix p
  show "p \<in> {p \<in> fn_price ` set (Q s). fb_tick_index b p < 0}" if p: "p \<in> fst ` set (fb_side s b)"
  proof -
    obtain l where l: "(p, l) \<in> set (fb_side s b)" using p by auto
    have "map_of (fb_side s b) p = Some l"
      using l better.sorted_distinct[OF fb_side_sorted[OF C(7) s]] by (simp add: map_of_is_SomeI)
    then have "fb_level_ok (fb_pool b) l (fb_nodes b Q (fb_fallback_ref s p))"
      using fb_levels_okD(1)[OF C(5)] fb_side_level by metis
    moreover have "(p, l) \<in> set (fb_bids b) \<union> set (fb_asks b)" using l s by auto
    then have "fl_head l \<noteq> kNil" using bspec[OF tidy[unfolded fb_tidy_def]] by fastforce
    ultimately have "fb_nodes b Q (fb_fallback_ref s p) \<noteq> []" by (auto simp: fb_level_ok_def fb_links_def)
    then obtain s' n where "valid_side s'" "n \<in> set (Q s')" "fb_ref b s' (fn_price n) = fb_fallback_ref s p"
      by (auto simp: fb_nodes_def filter_empty_conv)
    then show ?thesis using fb_ref_fallback[OF s] by auto
  qed
  show "p \<in> fst ` set (fb_side s b)" if p: "p \<in> {p \<in> fn_price ` set (Q s). fb_tick_index b p < 0}"
  proof -
    obtain n where n: "n \<in> set (Q s)" "fn_price n = p" "fb_tick_index b p < 0" using p by auto
    then have "fb_ref b s p = fb_fallback_ref s p" using fb_ref_fallback[OF s s] by blast
    then have "map_of (fb_side s b) p \<noteq> None"
      using fb_levels_okD(2)[where Q = Q, OF C(5) s n(1)] n(2) fb_side_level by metis
    then show ?thesis by (simp add: map_of_eq_None_iff)
  qed
qed

text \<open>The best order of a side decides between the ladder and the fallback map.\<close>

definition fb_best_res :: "fast_book \<Rightarrow> fqueues \<Rightarrow> side \<Rightarrow> (price \<times> level_ref \<times> bool) option" where
  "fb_best_res b Q s = (case Q s of [] \<Rightarrow> None
     | n # _ \<Rightarrow> Some (fn_price n, fb_ref b s (fn_price n), fb_tick_index b (fn_price n) < 0))"

lemma fb_head_best:
  assumes "fb_core b Q" "valid_side s" "Q s = n # ns" "p \<in> fn_price ` set (Q s)"
  shows "\<not> better s p (fn_price n)"
  using spec_inv_queue(1)[OF fb_coreD(2)[OF assms(1)] assms(2)] assms(2-) better.irrefl by auto

lemma better_price_at:
  "fc_tick (fb_cfg b) > 0 \<Longrightarrow> better s (fb_price_at b t) (fb_price_at b u) \<longleftrightarrow> better s t u"
  by (simp add: better_def fb_price_at_mono)

lemma fb_lad_price:
  assumes "fb_core b Q" "fb_lad b Q s t" "0 \<le> t"
  shows "fb_price_at b t \<in> fn_price ` set (Q s)" "fb_tick_index b (fb_price_at b t) = t"
proof -
  obtain p where "p \<in> fn_price ` set (Q s)" "t = fb_tick_index b p"
    using assms(2,3) by (auto simp: fb_lad_def fb_ticks_def)
  then show "fb_price_at b t \<in> fn_price ` set (Q s)" "fb_tick_index b (fb_price_at b t) = t"
    using fb_tick_price(1)[OF fb_coreD(1)[OF assms(1)], of p] assms(3) by simp_all
qed

lemma fb_pick:
  assumes rel: "fb_rel b Q" and s: "valid_side s" and lad: "fb_lad b Q s t"
  defines "best \<equiv> if 0 \<le> t then Some (fb_price_at b t, InLadder (nat t), False) else None"
  shows "(case fb_side s b of [] \<Rightarrow> best
      | (fb, _) # _ \<Rightarrow> (case best of None \<Rightarrow> Some (fb, fb_fallback_ref s fb, True)
          | Some (x, _) \<Rightarrow> if better s fb x then Some (fb, fb_fallback_ref s fb, True) else best)) = fb_best_res b Q s"
proof (cases "Q s")
  case Nil
  then have "fb_side s b = []" using fb_fallback_keys[OF rel s] by simp
  moreover have "\<not> 0 \<le> t" using lad Nil by (auto simp: fb_lad_def fb_ticks_def)
  ultimately show ?thesis by (simp add: best_def fb_best_res_def Nil)
next
  case (Cons n ns)
  have core: "fb_core b Q" using rel by (simp add: fb_rel_def)
  note C = fb_coreD[OF core] and H = fb_head_best[where Q = Q, OF core s Cons] and L = fb_lad_price[OF core lad]
  let ?P = "fn_price n"
  have P: "?P \<in> fn_price ` set (Q s)" by (simp add: Cons)
  have keys: "fst ` set (fb_side s b) = {p \<in> fn_price ` set (Q s). fb_tick_index b p < 0}"
    by (rule fb_fallback_keys[OF rel s])
  have fbP: "fb \<in> fn_price ` set (Q s)" if "fb_side s b = (fb, l) # m" for fb l m
  proof -
    have "fb \<in> fst ` set (fb_side s b)" by (simp add: that)
    then show ?thesis unfolding keys by simp
  qed
  show ?thesis
  proof (cases "0 \<le> fb_tick_index b ?P")
    case True
    then have t: "0 \<le> t" "\<not> better s (fb_tick_index b ?P) t" using lad P by (auto simp: fb_lad_def fb_ticks_def)
    have "\<not> better s t (fb_tick_index b ?P)"
      using H[OF L(1)[OF t(1)]] better_price_at[OF C(1)] fb_tick_price(1)[OF C(1) True] by metis
    then have "t = fb_tick_index b ?P" using t(2) better.total by blast
    then show ?thesis using True H[OF fbP] fb_tick_price(1)[OF C(1) True]
      by (auto simp: best_def fb_best_res_def Cons fb_ref_def split: list.splits)
  next
    case False
    then have "?P \<in> fst ` set (fb_side s b)" using keys P by simp
    then obtain fb l m where f: "fb_side s b = (fb, l) # m" by (cases "fb_side s b") auto
    have "fb = ?P \<or> better s fb ?P"
      using fb_side_sorted[OF C(7) s] \<open>?P \<in> fst ` set (fb_side s b)\<close> by (auto simp: f)
    then have "fb = ?P" using H[OF fbP[OF f]] by blast
    moreover have "better s ?P (fb_price_at b t)" if "0 \<le> t"
      using H[OF L(1)[OF that]] L(2)[OF that] that False better.total by metis
    moreover have "fb_ref b s ?P = fb_fallback_ref s ?P" using False fb_ref_fallback[OF s s] by simp
    ultimately show ?thesis using False by (simp add: f best_def fb_best_res_def Cons)
  qed
qed

end
