(* ===== verification/Fast_Book_Refine.thy ===== *)
theory Fast_Book_Refine
  imports Fast_Book_Rel
begin

text \<open>
  The operations of the production book, each against the abstract operation it refines, the
  snapshot and the invariant check, and the interpretation of the book interface.
\<close>

section \<open>Best prices\<close>

text \<open>The ladder scan that \<^verbatim>\<open>match\<close>, \<^verbatim>\<open>matchable\<close> and the best-price queries share.\<close>

abbreviation fb_ladder_opp :: "fast_book \<Rightarrow> side \<Rightarrow> (fast_book \<times> int) option" where
  "fb_ladder_opp b side \<equiv> (if fb_band_set b then (if side = Buy then fb_ladder_best_ask b else fb_ladder_best_bid b)
     else Some (b, -1))"

lemma fb_ladder_opp_ok:
  assumes rel: "fb_rel b Q" and side: "valid_side side"
  shows "\<exists>b1 t. fb_ladder_opp b side = Some (b1, t) \<and> fb_query b b1 \<and> fb_rel b1 Q \<and> fb_lad b Q (opp side) t"
proof (cases "fb_band_set b")
  case True
  then show ?thesis using fb_ladder_best_ask_ok[OF rel] fb_ladder_best_bid_ok[OF rel] side by auto
next
  case False
  then have "Q Buy = []" "Q Sell = []" using rel fb_coreD(9) by (auto simp: fb_rel_def)
  then have "fb_lad b Q (opp side) (-1)" by (auto simp: fb_lad_def fb_ticks_def opp_def)
  then show ?thesis using False rel by auto
qed

lemma fb_best_level_ok:
  assumes rel: "fb_rel b Q" and side: "valid_side side"
  shows "\<exists>b1. fb_best_level b side = Some (b1, fb_best_res b Q (opp side)) \<and> fb_query b b1 \<and> fb_rel b1 Q"
proof -
  obtain b1 t where t: "fb_ladder_opp b side = Some (b1, t)" "fb_query b b1" "fb_rel b1 Q" "fb_lad b Q (opp side) t"
    using fb_ladder_opp_ok[OF rel side] by blast
  note F = fb_query_fields[OF t(2)] and g = fb_query_geo[OF t(2)]
  have "fb_lad b1 Q (opp side) t" using t(4) fb_ticks_geo[OF g] by (simp add: fb_lad_def)
  note P = fb_pick[OF t(3) _ this]
  have "fb_best_res b1 Q (opp side) = fb_best_res b Q (opp side)"
    using fb_ref_geo[OF g] fb_tick_index_geo[OF g] by (simp add: fb_best_res_def split: list.split)
  with P have P': "(case fb_side (opp side) b1 of [] \<Rightarrow> if 0 \<le> t then Some (fb_price_at b1 t, InLadder (nat t), False) else None
      | (fb, _) # _ \<Rightarrow> (case if 0 \<le> t then Some (fb_price_at b1 t, InLadder (nat t), False) else None of
          None \<Rightarrow> Some (fb, fb_fallback_ref (opp side) fb, True)
        | Some (x, _) \<Rightarrow> if better (opp side) fb x then Some (fb, fb_fallback_ref (opp side) fb, True)
            else if 0 \<le> t then Some (fb_price_at b1 t, InLadder (nat t), False) else None)) = fb_best_res b Q (opp side)"
    by simp
  from side have "fb_best_level b side = Some (b1, fb_best_res b Q (opp side))"
  proof
    assume S: "side = Buy"
    have t': "(if fb_band_set b then fb_ladder_best_ask b else Some (b, -1)) = Some (b1, t)" using t(1) S by (auto split: if_splits)
    show ?thesis unfolding S opp_simps(1,2) P'[unfolded S opp_simps(1,2) fb_side_simps better_simps, symmetric]
      by (simp only: fb_best_level_def t' bind.bind_lunit case_prod_conv Let_def simp_thms Buy_Sell if_True if_False)
  next
    assume S: "side = Sell"
    have t': "(if fb_band_set b then fb_ladder_best_bid b else Some (b, -1)) = Some (b1, t)" using t(1) S by (auto split: if_splits)
    show ?thesis unfolding S opp_simps(1,2) P'[unfolded S opp_simps(1,2) fb_side_simps better_simps, symmetric]
      by (simp only: fb_best_level_def t' bind.bind_lunit case_prod_conv Let_def simp_thms Buy_Sell if_True if_False)
  qed
  then show ?thesis using t(2,3) by blast
qed

lemma fb_best_bid_level:
  "fb_best_bid b = map_option (\<lambda>(b1, r). (b1, map_option fst r)) (fb_best_level b Sell)"
  by (cases "fb_band_set b"; cases "fb_ladder_best_bid b")
    (auto simp: fb_best_bid_def fb_best_level_def split: list.split)

lemma fb_best_ask_level:
  "fb_best_ask b = map_option (\<lambda>(b1, r). (b1, map_option fst r)) (fb_best_level b Buy)"
  by (cases "fb_band_set b"; cases "fb_ladder_best_ask b")
    (auto simp: fb_best_ask_def fb_best_level_def split: list.split)

lemma fb_best_res_price: "valid_side s \<Longrightarrow> map_option fst (fb_best_res b Q s) = spec_best s (fb_spec b Q)"
  by (auto simp: fb_best_res_def spec_best_def split: list.split)

lemma fb_best_ok:
  assumes "fb_rel b Q"
  shows "\<exists>b1. fb_best_bid b = Some (b1, spec_best Buy (fb_spec b Q)) \<and> fb_query b b1 \<and> fb_rel b1 Q"
    "\<exists>b1. fb_best_ask b = Some (b1, spec_best Sell (fb_spec b Q)) \<and> fb_query b b1 \<and> fb_rel b1 Q"
  using fb_best_level_ok[OF assms, of Sell] fb_best_level_ok[OF assms, of Buy]
    fb_best_res_price[of Buy b Q] fb_best_res_price[of Sell b Q]
  by (auto simp: fb_best_bid_level fb_best_ask_level)

lemma fb_would_cross_ok:
  assumes "fb_rel b Q" "valid_side side"
  shows "\<exists>b1. fb_would_cross b side p = Some (b1, spec_would_cross (fb_spec b Q) side p) \<and> fb_query b b1 \<and> fb_rel b1 Q"
proof -
  have e: "spec_would_cross sb side p = (case spec_best (opp side) sb of None \<Rightarrow> False | Some x \<Rightarrow> crosses side p x)" for sb
    by (simp add: spec_would_cross_def spec_best_def split: list.split)
  show ?thesis using fb_best_ok[OF assms(1)] assms(2) unfolding e by (auto simp: fb_would_cross_def)
qed

section \<open>Matching\<close>

lemma fb_tidy_level:
  assumes "fb_maps_ok b"
  shows "fb_tidy b \<longleftrightarrow> (\<forall>s p l. valid_side s \<longrightarrow> level_at b (fb_fallback_ref s p) = Some l \<longrightarrow> fl_head l \<noteq> kNil)"
proof -
  have m: "(p, l) \<in> set (fb_side s b) \<longleftrightarrow> level_at b (fb_fallback_ref s p) = Some l" if "valid_side s" for s p l
    using better.sorted_distinct[OF fb_side_sorted[OF assms that]] unfolding fb_side_level
    by (simp add: map_of_eq_Some_iff)
  have "fb_tidy b \<longleftrightarrow> (\<forall>s p l. valid_side s \<longrightarrow> (p, l) \<in> set (fb_side s b) \<longrightarrow> fl_head l \<noteq> kNil)"
    unfolding fb_tidy_def by (auto simp: fb_side_def split: if_splits; metis Buy_Sell fb_side_simps(1,2) snd_conv UnCI)
  then show ?thesis using m by simp
qed

lemma fb_after_tidy:
  assumes "fb_rel b Q" "fb_after r b b'" "level_at b' r = Some l" "fl_head l \<noteq> kNil \<or> (\<exists>t. r = InLadder t)"
  shows "fb_tidy b'"
proof -
  have m: "fb_maps_ok b" using assms(1) fb_coreD(7) by (auto simp: fb_rel_def)
  then have m': "fb_maps_ok b'" using assms(2) fb_maps_frame by (auto simp: fb_after_def)
  have "fl_head l' \<noteq> kNil" if s: "valid_side s" "level_at b' (fb_fallback_ref s p) = Some l'" for s p l'
  proof (cases "fb_fallback_ref s p = r")
    case True
    then have "fl_head l \<noteq> kNil" using assms(4) by (auto simp: fb_fallback_ref_def split: if_splits)
    then show ?thesis using True s(2) assms(3) by simp
  next
    case False
    then have "level_at b (fb_fallback_ref s p) = Some l'" using assms(2) s(2) by (simp add: fb_after_def fb_frame_def)
    then show ?thesis using assms(1) s(1) fb_tidy_level[OF m] unfolding fb_rel_def by blast
  qed
  then show ?thesis using fb_tidy_level[OF m'] by blast
qed

text \<open>Erasing an empty fallback level.\<close>

definition fb_del :: "side \<Rightarrow> price \<Rightarrow> fast_book \<Rightarrow> fast_book" where
  "fb_del s p b = (if s = Buy then b\<lparr>fb_bids := AList.delete p (fb_bids b)\<rparr> else b\<lparr>fb_asks := AList.delete p (fb_asks b)\<rparr>)"

lemma fb_del_fields:
  "fb_geo (fb_del s p b) = fb_geo b" "fb_pool (fb_del s p b) = fb_pool b" "fb_index (fb_del s p b) = fb_index b"
  "fb_free (fb_del s p b) = fb_free b" "fb_next_match_id (fb_del s p b) = fb_next_match_id b"
  "fb_bid_cursor (fb_del s p b) = fb_bid_cursor b" "fb_ask_cursor (fb_del s p b) = fb_ask_cursor b"
  "fb_cfg (fb_del s p b) = fb_cfg b" "fb_band_set (fb_del s p b) = fb_band_set b"
  by (simp_all add: fb_del_def fb_geo_def)

lemma level_at_fb_del: "valid_side s \<Longrightarrow> level_at (fb_del s p b) r = (if r = fb_fallback_ref s p then None else level_at b r)"
  by (cases r) (auto simp: fb_del_def fb_fallback_ref_def AList.delete_conv)

lemma fb_del_maps: "fb_maps_ok b \<Longrightarrow> fb_maps_ok (fb_del s p b)"
proof -
  have "fb_tick_index (fb_del s p b) = fb_tick_index b" by (rule fb_tick_index_geo) (rule fb_del_fields)
  then show "fb_maps_ok b \<Longrightarrow> fb_maps_ok (fb_del s p b)"
    using desc.sorted_delete[of "fb_bids b" p] asc.sorted_delete[of "fb_asks b" p]
    by (auto simp: fb_maps_ok_def fb_sorted_def fb_del_def AList.delete_eq)
qed

lemma fb_erase_rel:
  assumes core: "fb_core b Q" and s: "valid_side s" and l: "level_at b (fb_fallback_ref s p) = Some l" "fl_head l = kNil"
    and tidy: "\<forall>s' p' l'. valid_side s' \<longrightarrow> fb_fallback_ref s' p' \<noteq> fb_fallback_ref s p \<longrightarrow>
      level_at b (fb_fallback_ref s' p') = Some l' \<longrightarrow> fl_head l' \<noteq> kNil"
  shows "fb_rel (fb_del s p b) Q"
proof -
  note C = fb_coreD[OF core] and D = fb_del_fields[of s p b] and L = level_at_fb_del[OF s, of p b]
  have ref: "fb_ref (fb_del s p b) = fb_ref b" and tick: "fb_tick_index (fb_del s p b) = fb_tick_index b"
    by (rule fb_ref_geo[OF D(1)], rule fb_tick_index_geo[OF D(1)])
  have "fb_links (fb_pool b) l (map fst (fb_nodes b Q (fb_fallback_ref s p)))"
    using fb_levels_okD(1)[OF C(5) l(1)] by (simp add: fb_level_ok_def)
  moreover have "kNil \<notin> set (map fst (fb_nodes b Q (fb_fallback_ref s p)))"
    using fb_addr_ok(2)[OF core, of Buy] fb_addr_ok(2)[OF core, of Sell] by (fastforce simp: fb_nodes_def)
  ultimately have N: "fb_nodes b Q (fb_fallback_ref s p) = []" using l(2)
    by (cases "fb_nodes b Q (fb_fallback_ref s p)") (auto simp: fb_links_def)
  have "fb_levels_ok (fb_del s p b) Q"
    unfolding fb_levels_ok_def
  proof (intro conjI allI impI)
    fix r l' assume "level_at (fb_del s p b) r = Some l'"
    then show "fb_level_ok (fb_pool (fb_del s p b)) l' (fb_nodes (fb_del s p b) Q r)"
      using fb_levels_okD(1)[OF C(5)] D(2) by (simp add: L fb_nodes_def ref split: if_splits)
  next
    fix s' n assume n: "valid_side s'" "n \<in> set (Q s')"
    then have "fb_ref b s' (fn_price n) \<noteq> fb_fallback_ref s p" using N by (auto simp: fb_nodes_def filter_empty_conv)
    then show "level_at (fb_del s p b) (fb_ref (fb_del s p b) s' (fn_price n)) \<noteq> None"
      using fb_levels_okD(2)[where Q = Q, OF C(5) n] by (simp add: L ref)
    show "fb_node_ok (fb_pool (fb_del s p b)) s' n" using fb_levels_okD(3)[where Q = Q, OF C(5) n] D(2) by simp
  qed
  moreover have "spec_inv (fb_spec (fb_del s p b) Q)" using C(2) D(5) by (simp add: fb_spec_def)
  ultimately have "fb_core (fb_del s p b) Q" using C D fb_del_maps[OF C(7)]
    by (simp add: fb_core_def fb_index_ok_def fb_pool_ok_def fb_addrs_def fb_cursors_ok_def tick)
  then show ?thesis using tidy unfolding fb_rel_def fb_tidy_level[OF fb_del_maps[OF C(7)]] L by (metis option.distinct(1))
qed

text \<open>An operation on one level ends by erasing the level if it is an empty fallback level.\<close>

lemma fb_settle:
  assumes rel: "fb_rel b Q" and core: "fb_core b' Q'" and s: "valid_side s"
    and a: "fb_after (fb_ref b s p) b b'" "level_at b' (fb_ref b s p) = Some l"
  shows "fb_rel (if fl_head l = kNil \<and> fb_tick_index b p < 0 then fb_del s p b' else b') Q'"
proof (cases "fl_head l = kNil \<and> fb_tick_index b p < 0")
  case True
  have tidy: "fb_tidy b" and m: "fb_maps_ok b" using rel fb_coreD(7) by (auto simp: fb_rel_def)
  have r: "fb_ref b s p = fb_fallback_ref s p" using True fb_ref_fallback[OF s s] by blast
  have *: "fl_head l' \<noteq> kNil" if "valid_side s'" "fb_fallback_ref s' p' \<noteq> fb_fallback_ref s p"
    "level_at b' (fb_fallback_ref s' p') = Some l'" for s' p' l'
  proof -
    have "level_at b (fb_fallback_ref s' p') = Some l'" using that a(1) r by (simp add: fb_after_def fb_frame_def)
    then show ?thesis using tidy that(1) unfolding fb_tidy_level[OF m] by blast
  qed
  have "fb_rel (fb_del s p b') Q'"
    using a(2) r True * by (intro fb_erase_rel[OF core s]) (simp, simp, blast)
  then show ?thesis using True by simp
next
  case False
  then have "fl_head l \<noteq> kNil \<or> (\<exists>t. fb_ref b s p = InLadder t)" by (auto simp: fb_ref_def)
  then show ?thesis using False core fb_after_tidy[OF rel a] by (auto simp: fb_rel_def)
qed

lemma fb_match_0: "fb_match b oid side limit 0 = Some (b, 0, [])"
  by (subst fb_match.simps) simp

lemma prio_level_split:
  assumes "prio_sorted s (map snd (n # q))"
  obtains ns rest where "n # q = ns @ rest" "n \<in> set ns" "\<forall>m\<in>set ns. fn_price m = fn_price n"
    "\<forall>m\<in>set rest. fn_price m \<noteq> fn_price n"
proof -
  let ?P = "\<lambda>m. fn_price m = fn_price n"
  let ?r = "dropWhile ?P (n # q)"
  have e: "n # q = takeWhile ?P (n # q) @ ?r" by simp
  have "fn_price m \<noteq> fn_price n" if m: "m \<in> set ?r" for m
  proof -
    have "?r \<noteq> []" using m by (metis empty_iff empty_set)
    then obtain x xs where r: "?r = x # xs" by (meson neq_Nil_conv)
    have x: "\<not> ?P x" using hd_dropWhile[of ?P "n # q"] r by (metis list.distinct(1) list.sel(1))
    have srt: "prio_sorted s (map snd (takeWhile ?P (n # q)) @ map snd (x # xs))" using assms e r by (metis map_append)
    then have "\<not> better s (fn_price x) (fn_price n)" by (simp add: prio_sorted_append)
    then have "better s (fn_price n) (fn_price x)" using x better.total by metis
    moreover have "m = x \<or> \<not> better s (fn_price m) (fn_price x)" using m r srt by (auto simp: prio_sorted_append)
    ultimately show ?thesis by (metis x)
  qed
  moreover have "\<forall>m\<in>set (takeWhile ?P (n # q)). ?P m" by (auto dest: set_takeWhileD)
  moreover have "n \<in> set (takeWhile ?P (n # q))" by simp
  ultimately show ?thesis using that[OF e] by blast
qed

lemma sweep_level_left:
  assumes "sweep oid side limit mid q (map snd ns) = (evs, left, mid', rs)" "\<forall>m\<in>set ns. fn_price m = p"
    "crosses side limit p" "map snd ns' = rs"
  shows "\<forall>m\<in>set ns'. fn_price m = p" "ns' \<noteq> [] \<Longrightarrow> left = 0"
proof -
  have sub: "rs_price ` set rs \<subseteq> {p}"
    using image_mono[OF sweep_set[OF assms(1)], of snd] assms(2) by (auto simp: image_image)
  show p: "\<forall>m\<in>set ns'. fn_price m = p"
  proof
    fix m assume "m \<in> set ns'"
    then have "fn_price m \<in> rs_price ` set rs" using assms(4) by auto
    then show "fn_price m = p" using sub by blast
  qed
  show "left = 0" if "ns' \<noteq> []"
  proof (rule ccontr)
    assume "left \<noteq> 0"
    moreover have "prio_sorted (opp side) (map snd ns)"
      using assms(2) better.irrefl by (induction ns) auto
    ultimately have "\<forall>r\<in>set rs. \<not> crosses side limit (rs_price r)" using sweep_maximal[OF assms(1)] by blast
    then show False using that p assms(3,4) by (cases ns') auto
  qed
qed

lemma fb_level_emptied:
  assumes core: "fb_core b (Q(s := ns @ rest))" and s: "valid_side s" and opp: "\<forall>m\<in>set (Q (opp s)). fn_price m \<noteq> p"
    and p: "\<forall>m\<in>set ns. fn_price m = p" "\<forall>m\<in>set rest. fn_price m \<noteq> p" and l: "level_at b (fb_ref b s p) = Some l"
  shows "fl_head l = kNil \<longleftrightarrow> ns = []"
proof -
  have o: "(Q(s := ns @ rest)) (opp s) = Q (opp s)" using s by (auto simp: opp_def)
  have "filter (\<lambda>n. fn_price n = p) (ns @ rest) = ns" using p by (simp add: filter_empty_conv)
  then have h: "fl_head l = hd_or (map fst ns)"
    using fb_level_head[OF core s _ l] opp o by simp
  show ?thesis
  proof (cases ns)
    case (Cons n ns')
    then have "fst n \<noteq> kNil" using fb_addr_ok(2)[OF core s, of n] by simp
    then show ?thesis using h Cons by simp
  qed (use h in simp)
qed

text \<open>One round of the loop of \<^verbatim>\<open>match\<close>: the best level trades, and is erased if it was a fallback level.\<close>

lemma fb_match_round:
  assumes rel: "fb_rel b Q" and o: "valid_side s" and Q: "Q s = ns @ rest" "n \<in> set ns"
    and p: "\<forall>m\<in>set ns. fn_price m = fn_price n" "\<forall>m\<in>set rest. fn_price m \<noteq> fn_price n"
    and c: "crosses side limit (fn_price n)"
    and sw: "sweep oid side limit (fb_next_match_id b) q (map snd ns) = (evs, left, mid, rs)"
  shows "\<exists>b2 l ns'. fb_consume_level b (fb_ref b s (fn_price n)) (fn_price n) oid side q = Some (b2, q - left, evs) \<and>
    level_at b2 (fb_ref b s (fn_price n)) = Some l \<and> map snd ns' = rs \<and> fb_next_match_id b2 = mid \<and>
    (fl_head l = kNil \<longleftrightarrow> ns' = []) \<and>
    fb_rel (if fl_head l = kNil \<and> fb_tick_index b (fn_price n) < 0 then fb_del s (fn_price n) b2 else b2) (Q(s := ns' @ rest))"
proof -
  let ?p = "fn_price n" and ?r = "fb_ref b s (fn_price n)"
  have core: "fb_core b Q" using rel by (simp add: fb_rel_def)
  note C = fb_coreD[OF core]
  have n: "n \<in> set (Q s)" using Q by simp
  have opp: "\<forall>m\<in>set (Q (opp s)). fn_price m \<noteq> ?p" by (rule fb_one_side[where Q = Q, OF C(2) o n])
  have la: "level_at b ?r \<noteq> None" by (rule fb_levels_okD(2)[where Q = Q, OF C(5) o n])
  obtain b2 ns' where b2: "fb_consume_level b ?r ?p oid side q = Some (b2, q - left, evs)"
    "fb_core b2 (Q(s := ns' @ rest))" "map snd ns' = rs" "fb_next_match_id b2 = mid" "fb_after ?r b b2"
    using fb_consume_ok[where Q = Q, OF core o Q(1) p opp la c sw] by blast
  obtain l where l: "level_at b2 ?r = Some l" using b2(5) by (auto simp: fb_after_def)
  have r2: "fb_ref b2 = fb_ref b" using b2(5) by (intro fb_ref_geo) (simp add: fb_after_def fb_frame_def)
  have e: "fl_head l = kNil \<longleftrightarrow> ns' = []"
    using fb_level_emptied[where Q = Q, OF b2(2) o opp sweep_level_left(1)[OF sw p(1) c b2(3)] p(2)] l r2 by simp
  from fb_settle[OF rel b2(2) o b2(5) l] show ?thesis using b2 l e by blast
qed

lemma fb_match_step:
  assumes "q \<noteq> 0" "valid_side side" "fb_best_level b side = Some (b1, Some (p, r, from_fb))" "crosses side limit p"
    "fb_consume_level b1 r p oid side q = Some (b2, got, evs)" "level_at b2 r = Some l"
  shows "fb_match b oid side limit q = do {
     (b4, filled, evs') \<leftarrow> fb_match (if fl_head l = kNil \<and> from_fb then fb_del (opp side) p b2 else b2) oid side limit (q - got);
     Some (b4, got + filled, evs @ evs') }"
proof -
  have d: "fb_del (opp side) p b2 = (if side = Buy then b2\<lparr>fb_asks := AList.delete p (fb_asks b2)\<rparr>
      else b2\<lparr>fb_bids := AList.delete p (fb_bids b2)\<rparr>)" using assms(2) by (auto simp: fb_del_def opp_def)
  show ?thesis using assms(1,3-) by (subst fb_match.simps) (simp add: d Let_def)
qed

lemma fb_match_ok:
  assumes "fb_rel b Q" "valid_side side"
    "sweep oid side limit (fb_next_match_id b) q (map snd (Q (opp side))) = (evs, left, mid, rs)"
  shows "\<exists>b' ns. fb_match b oid side limit q = Some (b', q - left, evs) \<and> fb_rel b' (Q(opp side := ns)) \<and>
    map snd ns = rs \<and> fb_next_match_id b' = mid"
  using assms
proof (induction "length (Q (opp side))" arbitrary: b Q q evs rule: less_induct)
  case less
  let ?o = "opp side"
  note rel = less.prems(1) and sw = less.prems(3)
  have idem: "Q(?o := Q ?o) = Q" by simp
  obtain b1 where b1: "fb_best_level b side = Some (b1, fb_best_res b Q ?o)" "fb_query b b1" "fb_rel b1 Q"
    using fb_best_level_ok[OF rel less.prems(2)] by blast
  note F = fb_query_fields[OF b1(2)] and g = fb_query_geo[OF b1(2)]
  show ?case
  proof (cases "q = 0")
    case True
    then show ?thesis using fb_match_0 rel sw idem by (auto simp: sweep_0 intro!: exI[of _ b] exI[of _ "Q ?o"])
  next
    case q: False
    show ?thesis
    proof (cases "Q ?o = [] \<or> \<not> crosses side limit (fn_price (hd (Q ?o)))")
      case True
      then have "fb_match b oid side limit q = Some (b1, 0, [])"
        using q b1(1) by (subst fb_match.simps) (auto simp: fb_best_res_def split: list.split)
      moreover have "(evs, left, mid, rs) = ([], q, fb_next_match_id b, map snd (Q ?o))"
        using sw sweep_no_cross[of "map snd (Q ?o)" side limit oid "fb_next_match_id b" q] True by (cases "Q ?o") auto
      ultimately show ?thesis using b1(3) F(6) idem by (auto intro!: exI[of _ b1] exI[of _ "Q ?o"])
    next
      case False
      then obtain n qs where n: "Q ?o = n # qs" "crosses side limit (fn_price n)" by (cases "Q ?o") auto
      have "prio_sorted ?o (map snd (n # qs))"
        using spec_inv_queue(1)[OF fb_coreD(2), of b Q ?o] rel n(1) by (simp add: fb_rel_def)
      then obtain ns rest where S: "n # qs = ns @ rest" "n \<in> set ns" "\<forall>m\<in>set ns. fn_price m = fn_price n"
        "\<forall>m\<in>set rest. fn_price m \<noteq> fn_price n" by (rule prio_level_split)
      obtain evs1 left1 mid1 rs1 where sw1:
        "sweep oid side limit (fb_next_match_id b) q (map snd ns) = (evs1, left1, mid1, rs1)" by (metis prod_cases4)
      obtain b2 l ns' where b2: "fb_consume_level b1 (fb_ref b1 ?o (fn_price n)) (fn_price n) oid side q = Some (b2, q - left1, evs1)"
        "level_at b2 (fb_ref b1 ?o (fn_price n)) = Some l" "map snd ns' = rs1" "fb_next_match_id b2 = mid1"
        "fl_head l = kNil \<longleftrightarrow> ns' = []"
        "fb_rel (if fl_head l = kNil \<and> fb_tick_index b1 (fn_price n) < 0 then fb_del ?o (fn_price n) b2 else b2) (Q(?o := ns' @ rest))"
        using fb_match_round[OF b1(3) _ _ S(2-4) n(2), where s = ?o and q = q and oid = oid] n(1) S(1) sw1 F(6) by auto
      define b3 where "b3 = (if fl_head l = kNil \<and> fb_tick_index b1 (fn_price n) < 0 then fb_del ?o (fn_price n) b2 else b2)"
      have rel3: "fb_rel b3 (Q(?o := ns' @ rest))" and m3: "fb_next_match_id b3 = mid1"
        using b2(4,6) fb_del_fields(5) by (auto simp: b3_def)
      have ref: "fb_ref b1 = fb_ref b" "fb_tick_index b1 = fb_tick_index b"
        by (rule fb_ref_geo[OF g], rule fb_tick_index_geo[OF g])
      have res: "fb_best_level b side = Some (b1, Some (fn_price n, fb_ref b1 ?o (fn_price n), fb_tick_index b1 (fn_price n) < 0))"
        using b1(1) n(1) ref by (simp add: fb_best_res_def)
      have step: "fb_match b oid side limit q = do {
          (b4, filled, evs') \<leftarrow> fb_match b3 oid side limit (q - (q - left1));
          Some (b4, q - left1 + filled, evs1 @ evs') }"
        unfolding b3_def by (rule fb_match_step[OF q less.prems(2) res n(2) b2(1,2)])
      have sw': "(if rs1 = [] then case sweep oid side limit mid1 left1 (map snd rest) of
            (evs', q'', mid'', ys') \<Rightarrow> (evs1 @ evs', q'', mid'', ys')
          else (evs1, left1, mid1, rs1 @ map snd rest)) = (evs, left, mid, rs)"
        using sw sw1 unfolding n(1) S(1) map_append sweep_append by simp
      show ?thesis
      proof (cases "ns' = []")
        case True
        obtain evs2 where e2: "sweep oid side limit mid1 left1 (map snd rest) = (evs2, left, mid, rs)" "evs = evs1 @ evs2"
          using sw' b2(3) True by (auto split: prod.splits)
        have "length ((Q(?o := rest)) ?o) < length (Q ?o)" using n(1) S(1,2) by (cases ns) auto
        then obtain b' ns2 where r: "fb_match b3 oid side limit left1 = Some (b', left1 - left, evs2)"
          "fb_rel b' ((Q(?o := rest))(?o := ns2))" "map snd ns2 = rs" "fb_next_match_id b' = mid"
          using less.hyps[of "Q(?o := rest)" b3 left1 evs2] rel3 m3 e2(1) less.prems(2) True by auto
        then show ?thesis using step e2(2) by auto
      next
        case False
        then have "left1 = 0" using sweep_level_left(2)[OF sw1 S(3) n(2) b2(3)] by blast
        moreover have "rs1 \<noteq> []" using False b2(3) by auto
        ultimately have "evs = evs1" "left = 0" "mid = mid1" "rs = map snd (ns' @ rest)" "fb_match b oid side limit q = Some (b3, q, evs1)"
          using sw' b2(3) step by (auto simp: fb_match_0)
        then show ?thesis using rel3 m3 by auto
      qed
    qed
  qed
qed

lemma fb_match_refines:
  assumes rel: "fb_rel b Q" and side: "valid_side side"
    and m: "spec_match oid side limit q (fb_spec b Q) = (sb', evs, filled)"
  shows "\<exists>b' Q'. fb_match b oid side limit q = Some (b', filled, evs) \<and> fb_rel b' Q' \<and> fb_spec b' Q' = sb'"
proof -
  obtain left mid rs where sw: "sweep oid side limit (fb_next_match_id b) q (map snd (Q (opp side))) = (evs, left, mid, rs)"
    and sb': "sb' = set_queue (opp side) rs ((fb_spec b Q)\<lparr>sb_match := mid\<rparr>)" and f: "filled = q - left"
    using m by (auto simp: spec_match_def split: prod.splits)
  obtain b' ns where b': "fb_match b oid side limit q = Some (b', q - left, evs)" "fb_rel b' (Q(opp side := ns))"
    "map snd ns = rs" "fb_next_match_id b' = mid" using fb_match_ok[OF rel side sw] by blast
  have "fb_spec b' (Q(opp side := ns)) = sb'" using b'(3,4) fb_spec_upd[of "opp side" b' Q ns b] by (simp add: sb')
  then show ?thesis using b'(1,2) f by blast
qed

section \<open>Removing and reducing\<close>

lemma fb_level_for_ref: "level_at b (fb_ref b s p) \<noteq> None \<Longrightarrow> fb_level_for b s p = (b, fb_ref b s p)"
  by (auto simp: fb_level_for_def fb_ref_def Let_def split: if_splits)

lemma fb_remove_ok:
  assumes rel: "fb_rel b Q" and s: "valid_side s" and Q: "Q s = xs @ (a, r) # ys"
  shows "\<exists>b'. fb_remove_resting b a = Some b' \<and> fb_rel b' (Q(s := xs @ ys)) \<and> fb_next_match_id b' = fb_next_match_id b"
proof -
  let ?p = "rs_price r" and ?r = "fb_ref b s (rs_price r)"
  have core: "fb_core b Q" using rel by (simp add: fb_rel_def)
  note C = fb_coreD[OF core]
  have inQ: "(a, r) \<in> set (Q s)" using Q by simp
  note N = fb_addr_ok[where Q = Q, OF core s inQ] fb_node_fields[where Q = Q, OF core s inQ]
  obtain l where l: "level_at b ?r = Some l" using fb_levels_okD(2)[where Q = Q, OF C(5) s inQ] by auto
  obtain b2 where b2: "level_upd b ?r (\<lambda>l. l\<lparr>fl_total := fl_total l - rs_qty r\<rparr>) = Some b2" "fb_touch ?r b b2"
    "level_at b2 ?r = Some (l\<lparr>fl_total := fl_total l - rs_qty r\<rparr>)" "fb_pool b2 = fb_pool b"
    using level_upd_ok[OF C(8) l] by metis
  have f2: "fb_frame ?r b b2" using b2(2) by (simp add: fb_touch_def)
  obtain b3 where b3: "fb_unlink b2 ?r a = Some b3" "fb_touch ?r b2 b3" "level_at b3 ?r \<noteq> None"
    "fb_levels_ok b3 (Q(s := xs @ ys))"
    using fb_detach[where Q = Q and q = "fo_open (fb_pool b ! unat a)", OF core s Q f2 _ l b2(3)] b2(4) by auto
  have t3: "fb_touch ?r b b3" by (rule fb_touch_trans[OF b2(2) b3(2)])
  obtain ix e where ix: "fm_erase (fb_index b3) (rs_id r) = Some (ix, e)" "fm_inv ix"
    "fm_abs ix = (fm_abs (fb_index b))(rs_id r := None)"
    using fm.erase_ok[of "fb_index b" "rs_id r"] C(3) t3 by (auto simp: fb_index_ok_def fb_touch_def)
  let ?b4 = "fb_free_order (b3\<lparr>fb_index := ix\<rparr>) a"
  have t4: "fb_frame ?r b ?b4" "length (fb_pool ?b4) = length (fb_pool b)" "fb_bid_cursor ?b4 = fb_bid_cursor b"
    "fb_ask_cursor ?b4 = fb_ask_cursor b" "fb_free ?b4 = fb_free b @ [a]" "fb_index ?b4 = ix"
    "fb_next_match_id ?b4 = fb_next_match_id b" "level_at ?b4 ?r \<noteq> None"
    using t3 b3(3) by (auto simp: fb_free_order_def fb_touch_def fb_frame_def)
  have "fb_levels_ok ?b4 (Q(s := xs @ ys)) = fb_levels_ok b3 (Q(s := xs @ ys))"
    by (rule fb_levels_fields) (simp_all add: fb_free_order_def)
  then have c4: "fb_core ?b4 (Q(s := xs @ ys))"
    using ix t4(6) b3(4) by (intro fb_core_delete[where Q = Q, OF core s Q t4(1-5)]) simp_all
  obtain l4 where l4: "level_at ?b4 ?r = Some l4" using t4(8) by auto
  have tk: "fb_tick_index ?b4 = fb_tick_index b" using t4(1) by (intro fb_tick_index_geo) (simp add: fb_frame_def)
  let ?b5 = "if fl_head l4 = kNil \<and> fb_tick_index b ?p < 0 then fb_del s ?p ?b4 else ?b4"
  have "fb_erase_level_if_fallback ?b4 s ?p ?r = Some ?b5"
    using l4 s tk by (auto simp: fb_erase_level_if_fallback_def fb_del_def)
  then have "fb_remove_resting b a = Some ?b5"
    using N l b2(1) b3(1) ix(1) fb_level_for_ref[of b s ?p] by (simp add: fb_remove_resting_def)
  moreover have "fb_rel ?b5 (Q(s := xs @ ys))"
    using t4 by (intro fb_settle[OF rel c4 s _ l4]) (simp add: fb_after_def)
  moreover have "fb_next_match_id ?b5 = fb_next_match_id b" using t4(7) by (simp add: fb_del_fields)
  ultimately show ?thesis by blast
qed

lemma fb_reduce_ok:
  assumes rel: "fb_rel b Q" and s: "valid_side s" and Q: "Q s = xs @ (a, r) # ys" and q: "q \<noteq> 0"
  shows "\<exists>b1 b2. pool_upd b a (\<lambda>x. x\<lparr>fo_open := q\<rparr>) = Some b1 \<and> fb_level_for b1 s (rs_price r) = (b1, fb_ref b s (rs_price r)) \<and>
    level_upd b1 (fb_ref b s (rs_price r)) (\<lambda>l. l\<lparr>fl_total := fl_total l - (rs_qty r - q)\<rparr>) = Some b2 \<and>
    fb_rel b2 (Q(s := xs @ (a, r\<lparr>rs_qty := q\<rparr>) # ys)) \<and> fb_next_match_id b2 = fb_next_match_id b"
proof -
  let ?r = "fb_ref b s (rs_price r)"
  have core: "fb_core b Q" and tidy: "fb_tidy b" using rel by (auto simp: fb_rel_def)
  note C = fb_coreD[OF core]
  have inQ: "(a, r) \<in> set (Q s)" using Q by simp
  have a: "unat a < length (fb_pool b)" using fb_addr_ok(1)[where Q = Q, OF core s inQ] by simp
  obtain l where l: "level_at b ?r = Some l" using fb_levels_okD(2)[where Q = Q, OF C(5) s inQ] by auto
  obtain b1 b2 where w: "pool_upd b a (\<lambda>x. x\<lparr>fo_open := q\<rparr>) = Some b1"
    "level_upd b1 ?r (\<lambda>l. l\<lparr>fl_total := fl_total l - (rs_qty r - q)\<rparr>) = Some b2" "fb_touch ?r b b2"
    "level_at b2 ?r = Some (l\<lparr>fl_total := fl_total l - (rs_qty r - q)\<rparr>)"
    "fb_pool b2 = (fb_pool b)[unat a := (fb_pool b ! unat a)\<lparr>fo_open := q\<rparr>]"
    using fb_write_order[OF a C(8) l, of "\<lambda>x. x\<lparr>fo_open := q\<rparr>" "\<lambda>l. l\<lparr>fl_total := fl_total l - (rs_qty r - q)\<rparr>"] by auto
  have b1: "b1 = b\<lparr>fb_pool := (fb_pool b)[unat a := (fb_pool b ! unat a)\<lparr>fo_open := q\<rparr>]\<rparr>"
    using w(1) a by (simp add: pool_upd_def)
  have "fb_ref b1 = fb_ref b" by (rule fb_ref_geo) (simp add: b1)
  then have lf: "fb_level_for b1 s (rs_price r) = (b1, ?r)" using fb_level_for_ref[of b1 s "rs_price r"] l by (simp add: b1)
  have t: "fb_frame ?r b b2" "length (fb_pool b2) = length (fb_pool b)" "fb_bid_cursor b2 = fb_bid_cursor b"
    "fb_ask_cursor b2 = fb_ask_cursor b" "fb_free b2 = fb_free b" "fb_index b2 = fb_index b"
    "fb_next_match_id b2 = fb_next_match_id b" using w(3) by (auto simp: fb_touch_def)
  have "fb_levels_ok b2 (Q(s := xs @ (a, r\<lparr>rs_qty := q\<rparr>) # ys))"
    using a w(4,5) by (intro fb_levels_set_qty[where Q = Q, OF core s Q t(1) l]) (auto simp: pool_nth_upd)
  then have c2: "fb_core b2 (Q(s := xs @ (a, r\<lparr>rs_qty := q\<rparr>) # ys))"
    by (rule fb_core_set_qty[where Q = Q, OF core s Q q t(1-6)])
  have "fl_head l \<noteq> kNil \<or> (\<exists>t. ?r = InLadder t)"
  proof (cases "fb_tick_index b (rs_price r) < 0")
    case True
    then have "?r = fb_fallback_ref s (rs_price r)" using fb_ref_fallback[OF s s] by blast
    then show ?thesis using tidy l s unfolding fb_tidy_level[OF C(7)] by metis
  qed (auto simp: fb_ref_def)
  then have "fb_tidy b2" using w(4) t(1,3,4) by (intro fb_after_tidy[OF rel _ w(4)]) (simp_all add: fb_after_def)
  then show ?thesis using w(1,2) lf c2 t(7) by (auto simp: fb_rel_def)
qed

section \<open>Resting\<close>

lemma fb_level_ok_empty: "fb_level_ok P fl_empty []"
  by (simp add: fb_level_ok_def fb_links_def fl_empty_def)

lemma fb_set_band_ok:
  assumes rel: "fb_rel b Q"
  shows "fb_rel (fb_set_band b p) Q" "fb_band_set (fb_set_band b p)" "fb_next_match_id (fb_set_band b p) = fb_next_match_id b"
proof -
  let ?b = "fb_set_band b p"
  show "fb_band_set ?b" "fb_next_match_id ?b = fb_next_match_id b" by (simp_all add: fb_set_band_def Let_def)
  show "fb_rel ?b Q"
  proof (cases "fb_band_set b")
    case False
    have core: "fb_core b Q" using rel by (simp add: fb_rel_def)
    note C = fb_coreD[OF core]
    have Q: "Q Buy = []" "Q Sell = []" using C(9) False by auto
    have e: "fb_bids b = []" "fb_asks b = []"
      using fb_fallback_keys[OF rel, of Buy] fb_fallback_keys[OF rel, of Sell] Q by simp_all
    have F: "fb_pool ?b = fb_pool b" "fb_free ?b = fb_free b" "fb_index ?b = fb_index b" "fb_cfg ?b = fb_cfg b"
      "fb_bids ?b = []" "fb_asks ?b = []" "fb_spec ?b Q = fb_spec b Q"
      using False e by (simp_all add: fb_set_band_def Let_def fb_spec_def)
    have "l = fl_empty" if "level_at ?b r = Some l" for r l
      using that False F(5,6) by (cases r) (auto simp: fb_set_band_def Let_def split: if_splits)
    then have "fb_levels_ok ?b Q" using fb_level_ok_empty Q by (auto simp: fb_levels_ok_def fb_nodes_def)
    then show ?thesis using C Q F \<open>fb_band_set ?b\<close>
      by (simp add: fb_rel_def fb_core_def fb_tidy_def fb_index_ok_def fb_pool_ok_def fb_addrs_def fb_cursors_ok_def
          fb_maps_ok_def fb_sorted_def)
  qed (use rel in \<open>simp add: fb_set_band_def\<close>)
qed

text \<open>\<^verbatim>\<open>level_for\<close> finds the level or creates an empty one.\<close>

definition fb_ins :: "side \<Rightarrow> price \<Rightarrow> fast_book \<Rightarrow> fast_book" where
  "fb_ins s p b = (if s = Buy then b\<lparr>fb_bids := omap_upd (>) p fl_empty (fb_bids b)\<rparr>
     else b\<lparr>fb_asks := omap_upd (<) p fl_empty (fb_asks b)\<rparr>)"

lemma fb_ins_fields:
  "fb_geo (fb_ins s p b) = fb_geo b" "fb_pool (fb_ins s p b) = fb_pool b" "fb_index (fb_ins s p b) = fb_index b"
  "fb_free (fb_ins s p b) = fb_free b" "fb_next_match_id (fb_ins s p b) = fb_next_match_id b"
  "fb_bid_cursor (fb_ins s p b) = fb_bid_cursor b" "fb_ask_cursor (fb_ins s p b) = fb_ask_cursor b"
  "fb_cfg (fb_ins s p b) = fb_cfg b" "fb_band_set (fb_ins s p b) = fb_band_set b"
  by (simp_all add: fb_ins_def fb_geo_def)

lemma fb_ins_ok:
  assumes core: "fb_core b Q" and s: "valid_side s" and t: "fb_tick_index b p < 0" and n: "level_at b (fb_fallback_ref s p) = None"
  shows "fb_core (fb_ins s p b) Q" "\<forall>r. level_at (fb_ins s p b) r = (if r = fb_fallback_ref s p then Some fl_empty else level_at b r)"
proof -
  note C = fb_coreD[OF core] and F = fb_ins_fields[of s p b]
  have ref: "fb_ref (fb_ins s p b) = fb_ref b" and tick: "fb_tick_index (fb_ins s p b) = fb_tick_index b"
    by (rule fb_ref_geo[OF F(1)], rule fb_tick_index_geo[OF F(1)])
  have srt: "omap_sorted (>) (fb_bids b)" "omap_sorted (<) (fb_asks b)" using C(8) by (auto simp: fb_sorted_def)
  show L: "\<forall>r. level_at (fb_ins s p b) r = (if r = fb_fallback_ref s p then Some fl_empty else level_at b r)"
  proof
    fix r show "level_at (fb_ins s p b) r = (if r = fb_fallback_ref s p then Some fl_empty else level_at b r)"
      using s srt by (cases r) (auto simp: fb_ins_def desc.map_of_omap_upd asc.map_of_omap_upd)
  qed
  have N: "fb_nodes b Q (fb_fallback_ref s p) = []"
    using fb_levels_okD(2)[OF C(5), of Buy] fb_levels_okD(2)[OF C(5), of Sell] n
    by (fastforce simp: fb_nodes_def filter_empty_conv)
  have "fb_levels_ok (fb_ins s p b) Q"
    unfolding fb_levels_ok_def
  proof (intro conjI allI impI)
    fix r l assume "level_at (fb_ins s p b) r = Some l"
    then show "fb_level_ok (fb_pool (fb_ins s p b)) l (fb_nodes (fb_ins s p b) Q r)"
      using fb_levels_okD(1)[OF C(5)] F(2) N fb_level_ok_empty L by (auto simp: fb_nodes_def ref split: if_splits)
  next
    fix s' n assume n: "valid_side s'" "n \<in> set (Q s')"
    show "level_at (fb_ins s p b) (fb_ref (fb_ins s p b) s' (fn_price n)) \<noteq> None"
      using fb_levels_okD(2)[where Q = Q, OF C(5) n] L ref by simp
    show "fb_node_ok (fb_pool (fb_ins s p b)) s' n" using fb_levels_okD(3)[where Q = Q, OF C(5) n] F(2) by simp
  qed
  moreover have "spec_inv (fb_spec (fb_ins s p b) Q)" using C(2) F(5) by (simp add: fb_spec_def)
  moreover have "fb_maps_ok (fb_ins s p b)" using C(7) t tick srt desc.sorted_omap_upd asc.sorted_omap_upd
    by (auto simp: fb_maps_ok_def fb_sorted_def fb_ins_def)
  ultimately show "fb_core (fb_ins s p b) Q" using C F
    by (simp add: fb_core_def fb_index_ok_def fb_pool_ok_def fb_addrs_def fb_cursors_ok_def tick)
qed

lemma fb_level_for_ok:
  assumes core: "fb_core b Q" and s: "valid_side s"
  shows "\<exists>b' l. fb_level_for b s p = (b', fb_ref b s p) \<and> fb_core b' Q \<and> level_at b' (fb_ref b s p) = Some l \<and>
    fb_geo b' = fb_geo b \<and> fb_next_match_id b' = fb_next_match_id b \<and>
    (\<forall>r. r \<noteq> fb_ref b s p \<longrightarrow> level_at b' r = level_at b r)"
proof (cases "level_at b (fb_ref b s p)")
  case (Some l)
  then show ?thesis using fb_level_for_ref[of b s p] core by auto
next
  case None
  have t: "fb_tick_index b p < 0"
    using None fb_tick_price(2)[OF fb_coreD(1)[OF core], of p] by (auto simp: fb_ref_def nat_less_iff split: if_splits)
  then have r: "fb_ref b s p = fb_fallback_ref s p" using fb_ref_fallback[OF s s] by blast
  have "fb_level_for b s p = (fb_ins s p b, fb_ref b s p)"
    using None t r s by (auto simp: fb_level_for_def fb_ins_def fb_ref_def)
  then show ?thesis using fb_ins_ok[OF core s t] None r fb_ins_fields[of s p b] by auto
qed

text \<open>Allocation hands out an address that no live order has.\<close>

lemma fb_alloc_ok:
  assumes ok: "fb_pool_ok b Q" and room: "length (Q Buy) + length (Q Sell) < unat kNil"
  defines "live \<equiv> map fst (Q Buy) @ map fst (Q Sell)"
  shows "\<exists>P F a. fb_alloc_order b oid s p q = Some (b\<lparr>fb_pool := P, fb_free := F\<rparr>, a) \<and>
    P ! unat a = \<lparr>fo_id = oid, fo_price = p, fo_open = q, fo_prev = kNil, fo_next = kNil, fo_side = s\<rparr> \<and>
    unat a < length P \<and> length P \<le> unat kNil \<and> (\<forall>c\<in>set live. c \<noteq> a \<and> P ! unat c = fb_pool b ! unat c) \<and>
    mset (map unat (a # live @ F)) = mset [0..<length P]"
proof -
  let ?x = "\<lparr>fo_id = oid, fo_price = p, fo_open = q, fo_prev = kNil, fo_next = kNil, fo_side = s\<rparr>"
  have A: "fb_addrs b Q = live @ fb_free b" by (simp add: fb_addrs_def live_def)
  note I = fb_addrs_in_pool[OF ok, unfolded A]
  have m: "mset (map unat (live @ fb_free b)) = mset [0..<length (fb_pool b)]" "length (fb_pool b) \<le> unat kNil"
    using ok unfolding fb_pool_ok_def A by auto
  show ?thesis
  proof (cases "fb_free b" rule: rev_cases)
    case (snoc F a)
    let ?P = "(fb_pool b)[unat a := ?x]"
    have a: "unat a < length (fb_pool b)" "a \<notin> set live" using I(1) snoc by (auto simp: fb_addrs_ok_def)
    have "fb_alloc_order b oid s p q = Some (b\<lparr>fb_pool := ?P, fb_free := F\<rparr>, a)"
      using a(1) snoc by (simp add: fb_alloc_order_def pool_upd_def)
    moreover have "\<forall>c\<in>set live. c \<noteq> a \<and> ?P ! unat c = fb_pool b ! unat c" using a by (auto simp: pool_nth_upd)
    ultimately show ?thesis using a m snoc
      by (intro exI[of _ ?P] exI[of _ F] exI[of _ a]) (simp add: pool_nth_upd)
  next
    case Nil
    let ?n = "length (fb_pool b)" and ?P = "fb_pool b @ [?x]"
    have "?n < unat kNil" using I(2) room Nil by (simp add: live_def)
    then have u: "unat (of_nat ?n :: u32) = ?n" by (simp add: kNil_def unat_of_nat)
    have "fb_alloc_order b oid s p q = Some (b\<lparr>fb_pool := ?P, fb_free := []\<rparr>, of_nat ?n)"
      using Nil u by (simp add: fb_alloc_order_def pool_upd_def)
    moreover have "\<forall>c\<in>set live. c \<noteq> of_nat ?n \<and> ?P ! unat c = fb_pool b ! unat c"
    proof (intro ballI conjI)
      fix c assume "c \<in> set live"
      then have "unat c < ?n" using I(1) by (simp add: fb_addrs_ok_def)
      then show "c \<noteq> of_nat ?n" "?P ! unat c = fb_pool b ! unat c" using u by (auto simp: nth_append)
    qed
    ultimately show ?thesis using m Nil u \<open>?n < unat kNil\<close>
      by (intro exI[of _ ?P] exI[of _ "[]"] exI[of _ "of_nat ?n"]) simp
  qed
qed

text \<open>Linking an allocated order to the tail of its level.\<close>

lemma fb_append_ok:
  assumes b: "fb_sorted b" "level_at b r = Some l" and l: "fb_links (fb_pool b) l as" and ok: "fb_addrs_ok b (as @ [a])"
    and a: "fo_next (fb_pool b ! unat a) = kNil"
  shows "\<exists>b1 b2 b3 l'. pool_upd b a (\<lambda>x. x\<lparr>fo_prev := fl_tail l\<rparr>) = Some b1 \<and>
    (if fl_tail l \<noteq> kNil then pool_upd b1 (fl_tail l) (\<lambda>x. x\<lparr>fo_next := a\<rparr>)
     else level_upd b1 r (\<lambda>l. l\<lparr>fl_head := a\<rparr>)) = Some b2 \<and>
    level_upd b2 r (\<lambda>l. l\<lparr>fl_tail := a, fl_total := fl_total l + q\<rparr>) = Some b3 \<and> fb_touch r b b3 \<and>
    level_at b3 r = Some l' \<and> fl_total l' = fl_total l + q \<and> fb_links (fb_pool b3) l' (as @ [a]) \<and>
    (\<forall>c. c \<notin> set (as @ [a]) \<longrightarrow> fb_pool b3 ! unat c = fb_pool b ! unat c) \<and>
    (\<forall>c :: u32. fo_body (fb_pool b3 ! unat c) = fo_body (fb_pool b ! unat c))"
proof -
  have D: "distinct (as @ [a])" "kNil \<notin> set (as @ [a])" "\<forall>c\<in>set (as @ [a]). unat c < length (fb_pool b)"
    using ok by (auto simp: fb_addrs_ok_def)
  have S: "fl_head l = hd_or as" "fl_tail l = last_or kNil as" "fb_seg (fb_pool b) kNil as kNil"
    using l by (auto simp: fb_links_def)
  let ?P1 = "(fb_pool b)[unat a := (fb_pool b ! unat a)\<lparr>fo_prev := fl_tail l\<rparr>]"
  let ?b1 = "b\<lparr>fb_pool := ?P1\<rparr>"
  have p1: "pool_upd b a (\<lambda>x. x\<lparr>fo_prev := fl_tail l\<rparr>) = Some ?b1" "fb_touch r b ?b1"
    using pool_upd_ok[of a b] D(3) by simp_all
  have s1: "fb_sorted ?b1" "level_at ?b1 r = Some l" using b by (simp_all add: fb_sorted_def)
  have seg1: "fb_seg ?P1 kNil as kNil" using S(3) D fb_seg_frame[of as ?P1 "fb_pool b" kNil kNil] by (auto simp: pool_nth_upd)
  have 2: "\<exists>b2 l2. (if fl_tail l \<noteq> kNil then pool_upd ?b1 (fl_tail l) (\<lambda>x. x\<lparr>fo_next := a\<rparr>)
      else level_upd ?b1 r (\<lambda>l. l\<lparr>fl_head := a\<rparr>)) = Some b2 \<and> fb_touch r ?b1 b2 \<and> level_at b2 r = Some l2 \<and>
    fl_head l2 = hd_or (as @ [a]) \<and> fl_total l2 = fl_total l \<and> fb_seg (fb_pool b2) kNil (as @ [a]) kNil \<and>
    (\<forall>c. c \<notin> set (as @ [a]) \<longrightarrow> fb_pool b2 ! unat c = fb_pool b ! unat c) \<and>
    (\<forall>c :: u32. fo_body (fb_pool b2 ! unat c) = fo_body (fb_pool b ! unat c))"
  proof (cases as rule: rev_cases)
    case Nil
    then have "fl_tail l = kNil" using S(2) by simp
    moreover have "fb_seg ?P1 kNil [a] kNil" using a D(3) \<open>fl_tail l = kNil\<close> by (simp add: pool_nth_upd)
    moreover have "\<forall>c. c \<noteq> a \<longrightarrow> ?P1 ! unat c = fb_pool b ! unat c" "\<forall>c :: u32. fo_body (?P1 ! unat c) = fo_body (fb_pool b ! unat c)"
      using D(3) by (auto simp: pool_nth_upd fo_body_def)
    ultimately show ?thesis using level_upd_ok[OF s1, of "\<lambda>l. l\<lparr>fl_head := a\<rparr>"] Nil by auto
  next
    case (snoc as' z)
    let ?P2 = "?P1[unat z := (?P1 ! unat z)\<lparr>fo_next := a\<rparr>]"
    have z: "fl_tail l = z" "z \<noteq> kNil" "z \<noteq> a" "unat z < length ?P1" using S(2) snoc D by auto
    have "fb_seg ?P2 kNil as a" using fb_seg_set_next[of ?P1 kNil as' z kNil a] seg1 z(4) D(1) by (simp add: snoc)
    moreover have "?P2 ! unat a = (fb_pool b ! unat a)\<lparr>fo_prev := z\<rparr>" using z D(3) by (simp add: pool_nth_upd)
    ultimately have "fb_seg ?P2 kNil (as @ [a]) kNil" using a snoc by (simp add: fb_seg_append)
    moreover have "\<forall>c. c \<notin> set (as @ [a]) \<longrightarrow> ?P2 ! unat c = fb_pool b ! unat c"
      "\<forall>c :: u32. fo_body (?P2 ! unat c) = fo_body (fb_pool b ! unat c)"
      using z(4) D(3) snoc by (auto simp: pool_nth_upd fo_body_def)
    moreover have "pool_upd ?b1 z (\<lambda>x. x\<lparr>fo_next := a\<rparr>) = Some (b\<lparr>fb_pool := ?P2\<rparr>)" "fb_touch r ?b1 (b\<lparr>fb_pool := ?P2\<rparr>)"
      using pool_upd_ok[of z ?b1] z(4) by simp_all
    moreover have "hd_or (as @ [a]) = fl_head l" using S(1) snoc by (cases as') auto
    ultimately show ?thesis using z b(2) by (intro exI[of _ "b\<lparr>fb_pool := ?P2\<rparr>"] exI[of _ l]) simp
  qed
  then obtain b2 l2 where b2: "(if fl_tail l \<noteq> kNil then pool_upd ?b1 (fl_tail l) (\<lambda>x. x\<lparr>fo_next := a\<rparr>)
      else level_upd ?b1 r (\<lambda>l. l\<lparr>fl_head := a\<rparr>)) = Some b2" "fb_touch r ?b1 b2" "level_at b2 r = Some l2"
    "fl_head l2 = hd_or (as @ [a])" "fl_total l2 = fl_total l" "fb_seg (fb_pool b2) kNil (as @ [a]) kNil"
    "\<forall>c. c \<notin> set (as @ [a]) \<longrightarrow> fb_pool b2 ! unat c = fb_pool b ! unat c"
    "\<forall>c :: u32. fo_body (fb_pool b2 ! unat c) = fo_body (fb_pool b ! unat c)" by blast
  have "fb_sorted b2" using s1(1) fb_touch_sorted[OF b2(2)] by simp
  then obtain b3 where b3: "level_upd b2 r (\<lambda>l. l\<lparr>fl_tail := a, fl_total := fl_total l + q\<rparr>) = Some b3" "fb_touch r b2 b3"
    "level_at b3 r = Some (l2\<lparr>fl_tail := a, fl_total := fl_total l2 + q\<rparr>)" "fb_pool b3 = fb_pool b2"
    using level_upd_ok[OF _ b2(3)] by metis
  have "fb_touch r b b3" by (rule fb_touch_trans[OF p1(2) fb_touch_trans[OF b2(2) b3(2)]])
  then show ?thesis using p1(1) b2 b3
    by (intro exI[of _ ?b1] exI[of _ b2] exI[of _ b3] exI[of _ "l2\<lparr>fl_tail := a, fl_total := fl_total l2 + q\<rparr>"])
      (simp add: fb_links_def)
qed

lemma fb_move_cursors_query: "fb_query b (fb_move_cursors b s p)"
  by (auto simp: fb_move_cursors_def Let_def)

lemma fb_move_cursors_ok:
  assumes "fb_cursors_ok b Q" "valid_side s" "fn_price ` set q \<subseteq> insert p (fn_price ` set (Q s))"
  shows "fb_cursors_ok (fb_move_cursors b s p) (Q(s := q))"
proof -
  let ?b = "fb_move_cursors b s p"
  have t: "fb_tick_index ?b = fb_tick_index b" by (rule fb_tick_index_geo[OF fb_query_geo[OF fb_move_cursors_query]])
  have c: "fb_bid_cursor b \<le> fb_bid_cursor ?b" "fb_ask_cursor ?b \<le> fb_ask_cursor b"
    "0 \<le> fb_tick_index b p \<Longrightarrow> s = Buy \<Longrightarrow> fb_tick_index b p \<le> fb_bid_cursor ?b"
    "0 \<le> fb_tick_index b p \<Longrightarrow> s = Sell \<Longrightarrow> fb_ask_cursor ?b \<le> fb_tick_index b p"
    by (auto simp: fb_move_cursors_def Let_def)
  note o = assms(1)[unfolded fb_cursors_ok_def]
  have "fb_tick_index b x \<le> fb_bid_cursor ?b" if "x \<in> fn_price ` set ((Q(s := q)) Buy)" "0 \<le> fb_tick_index b x" for x
  proof -
    have "x \<in> fn_price ` set (Q Buy) \<or> x = p \<and> s = Buy" using that(1) subsetD[OF assms(3), of x] by (auto split: if_splits)
    then show ?thesis using o[THEN conjunct1, rule_format, of x] c(1,3) that(2) by fastforce
  qed
  moreover have "fb_ask_cursor ?b \<le> fb_tick_index b x" if "x \<in> fn_price ` set ((Q(s := q)) Sell)" "0 \<le> fb_tick_index b x" for x
  proof -
    have "x \<in> fn_price ` set (Q Sell) \<or> x = p \<and> s = Sell" using that(1) subsetD[OF assms(3), of x] by (auto split: if_splits)
    then show ?thesis using o[THEN conjunct2, rule_format, of x] c(2,4) that(2) by fastforce
  qed
  ultimately show ?thesis unfolding fb_cursors_ok_def t by blast
qed

lemma fb_enqueue:
  assumes "prio_sorted s (map snd q)"
  obtains n1 n2 where "q = n1 @ n2" "enqueue s r (map snd q) = map snd n1 @ r # map snd n2" "\<forall>m\<in>set n2. fn_price m \<noteq> rs_price r"
proof -
  obtain q1 q2 where Q: "map snd q = q1 @ q2" "enqueue s r (map snd q) = q1 @ r # q2"
    "\<forall>x\<in>set q2. better s (rs_price r) (rs_price x)" using enqueue_split[OF assms] by metis
  obtain n1 n2 where n: "q = n1 @ n2" "map snd n1 = q1" "map snd n2 = q2" using Q(1) by (auto simp: map_eq_append_conv)
  have "\<forall>m\<in>set n2. fn_price m \<noteq> rs_price r" using Q(3) n(3) better.irrefl by (metis image_eqI list.set_map)
  then show ?thesis using that n Q(2) by simp
qed

lemma fb_rest_link:
  assumes core: "fb_core b Q" and s: "valid_side s" and l: "level_at b (fb_ref b s p) = Some l"
    and opp: "\<forall>m\<in>set (Q (opp s)). fn_price m \<noteq> p" and room: "length (Q Buy) + length (Q Sell) < unat kNil"
    and q: "Q s = n1 @ n2" "\<forall>m\<in>set n2. fn_price m \<noteq> p"
  shows "\<exists>b3 a b4 b5 b6 l'. fb_alloc_order b oid s p q = Some (b3, a) \<and> level_at b3 (fb_ref b s p) = Some l \<and>
    pool_upd b3 a (\<lambda>x. x\<lparr>fo_prev := fl_tail l\<rparr>) = Some b4 \<and>
    (if fl_tail l \<noteq> kNil then pool_upd b4 (fl_tail l) (\<lambda>x. x\<lparr>fo_next := a\<rparr>)
     else level_upd b4 (fb_ref b s p) (\<lambda>l. l\<lparr>fl_head := a\<rparr>)) = Some b5 \<and>
    level_upd b5 (fb_ref b s p) (\<lambda>l. l\<lparr>fl_tail := a, fl_total := fl_total l + q\<rparr>) = Some b6 \<and>
    fb_frame (fb_ref b s p) b b6 \<and> fb_bid_cursor b6 = fb_bid_cursor b \<and> fb_ask_cursor b6 = fb_ask_cursor b \<and>
    fb_index b6 = fb_index b \<and> fb_next_match_id b6 = fb_next_match_id b \<and>
    level_at b6 (fb_ref b s p) = Some l' \<and> fl_head l' \<noteq> kNil \<and>
    fb_levels_ok b6 (Q(s := n1 @ (a, \<lparr>rs_id = oid, rs_price = p, rs_qty = q\<rparr>) # n2)) \<and>
    fb_pool_ok b6 (Q(s := n1 @ (a, \<lparr>rs_id = oid, rs_price = p, rs_qty = q\<rparr>) # n2))"
proof -
  let ?r = "fb_ref b s p" and ?rs = "\<lparr>rs_id = oid, rs_price = p, rs_qty = q\<rparr>" and ?f = "filter (\<lambda>n. fn_price n = p)"
  let ?live = "map fst (Q Buy) @ map fst (Q Sell)"
  note C = fb_coreD[OF core]
  obtain P F a where al: "fb_alloc_order b oid s p q = Some (b\<lparr>fb_pool := P, fb_free := F\<rparr>, a)"
    "P ! unat a = \<lparr>fo_id = oid, fo_price = p, fo_open = q, fo_prev = kNil, fo_next = kNil, fo_side = s\<rparr>"
    "unat a < length P" "length P \<le> unat kNil" "\<forall>c\<in>set ?live. c \<noteq> a \<and> P ! unat c = fb_pool b ! unat c"
    "mset (map unat (a # ?live @ F)) = mset [0..<length P]" using fb_alloc_ok[OF C(4) room] by blast
  let ?b3 = "b\<lparr>fb_pool := P, fb_free := F\<rparr>"
  have fq: "?f (Q s) = ?f n1" using q by (simp add: filter_empty_conv)
  have sub: "set (map fst (?f n1)) \<subseteq> set ?live" using q(1) s by auto
  have d: "distinct ?live" using fb_addrs_in_pool(1)[OF C(4)] by (auto simp: fb_addrs_ok_def fb_addrs_def)
  have lk: "fb_level_ok (fb_pool b) l (?f n1)"
    using fb_levels_okD(1)[OF C(5) l] fb_nodes_ref[where Q = Q, OF C(1) s opp] fq by simp
  moreover have "fb_seg P kNil (map fst (?f n1)) kNil = fb_seg (fb_pool b) kNil (map fst (?f n1)) kNil"
    using al(5) subsetD[OF sub] by (intro fb_seg_frame) blast
  ultimately have "fb_links P l (map fst (?f n1))" by (simp add: fb_level_ok_def fb_links_def)
  moreover have ao: "fb_addrs_ok ?b3 (map fst (?f n1) @ [a])"
  proof -
    have "fb_addrs_ok ?b3 (a # ?live @ F)"
      using fb_addrs_in_pool(1)[of ?b3 "\<lambda>s'. if s' = Buy then (a, ?rs) # Q Buy else Q s'"] al(4,6)
      by (simp add: fb_pool_ok_def fb_addrs_def)
    moreover have "a \<notin> set (map fst (?f n1))" using al(5) subsetD[OF sub, of a] by blast
    moreover have "distinct (map fst (?f n1))" using d s q(1) by (auto intro: distinct_map_filter)
    ultimately show ?thesis using sub by (elim fb_addrs_ok_sub) (simp_all only: distinct_append set_append, auto)
  qed
  ultimately obtain b4 b5 b6 l' where b6: "pool_upd ?b3 a (\<lambda>x. x\<lparr>fo_prev := fl_tail l\<rparr>) = Some b4"
    "(if fl_tail l \<noteq> kNil then pool_upd b4 (fl_tail l) (\<lambda>x. x\<lparr>fo_next := a\<rparr>)
      else level_upd b4 ?r (\<lambda>l. l\<lparr>fl_head := a\<rparr>)) = Some b5"
    "level_upd b5 ?r (\<lambda>l. l\<lparr>fl_tail := a, fl_total := fl_total l + q\<rparr>) = Some b6" "fb_touch ?r ?b3 b6"
    "level_at b6 ?r = Some l'" "fl_total l' = fl_total l + q" "fb_links (fb_pool b6) l' (map fst (?f n1) @ [a])"
    "\<forall>c. c \<notin> set (map fst (?f n1) @ [a]) \<longrightarrow> fb_pool b6 ! unat c = P ! unat c"
    "\<forall>c :: u32. fo_body (fb_pool b6 ! unat c) = fo_body (P ! unat c)"
    using fb_append_ok[of ?b3 ?r l "map fst (?f n1)" a q] C(8) l al(2) by (auto simp: fb_sorted_def)
  have f6: "fb_frame ?r b b6" "fb_bid_cursor b6 = fb_bid_cursor b" "fb_ask_cursor b6 = fb_ask_cursor b"
    "fb_index b6 = fb_index b" "fb_next_match_id b6 = fb_next_match_id b" "fb_free b6 = F" "length (fb_pool b6) = length P"
    using b6(4) by (auto simp: fb_touch_def fb_frame_def)
  have "fl_head l' \<noteq> kNil" using b6(7) ao by (cases "?f n1") (auto simp: fb_links_def fb_addrs_ok_def)
  moreover have "fb_pool_ok b6 (Q(s := n1 @ (a, ?rs) # n2))"
    using al(4,6) f6(6,7) q(1) s by (auto simp: fb_pool_ok_def fb_addrs_def)
  moreover have "fb_levels_ok b6 (Q(s := n1 @ (a, ?rs) # n2))"
  proof (rule fb_levels_update[where Q = Q and p = p, OF C(5,1) s f6(1) opp _ _ b6(5)])
    show "filter (\<lambda>n. fn_price n \<noteq> p) (n1 @ (a, ?rs) # n2) = filter (\<lambda>n. fn_price n \<noteq> p) (Q s)" using q(1) by simp
    have "?f (n1 @ (a, ?rs) # n2) = ?f n1 @ [(a, ?rs)]" using q(2) by (simp add: filter_empty_conv)
    then show "fb_level_ok (fb_pool b6) l' (?f (n1 @ (a, ?rs) # n2))" using lk b6(6,7) by (simp add: fb_level_ok_def)
    show "\<forall>n\<in>set (n1 @ (a, ?rs) # n2). fn_price n = p \<longrightarrow> fb_node_ok (fb_pool b6) s n"
    proof (intro ballI impI)
      fix n assume n: "n \<in> set (n1 @ (a, ?rs) # n2)" "fn_price n = p"
      show "fb_node_ok (fb_pool b6) s n"
      proof (cases "n = (a, ?rs)")
        case False
        then have m: "n \<in> set (Q s)" using n(1) q(1) by auto
        then have "P ! unat (fst n) = fb_pool b ! unat (fst n)" using al(5) s by auto
        then show ?thesis using fb_levels_okD(3)[where Q = Q, OF C(5) s m] b6(9) by (simp add: fb_node_ok_def)
      qed (use al(2) b6(9) in \<open>simp add: fb_node_ok_def fo_body_def\<close>)
    qed
    show "\<forall>s' n. valid_side s' \<longrightarrow> n \<in> set (Q s') \<longrightarrow> fn_price n \<noteq> p \<longrightarrow> fb_pool b6 ! unat (fst n) = fb_pool b ! unat (fst n)"
    proof (intro allI impI)
      fix s' n assume n: "valid_side s'" "n \<in> set (Q s')" "fn_price n \<noteq> p"
      have i: "n \<in> set (Q Buy @ Q Sell)" using n(1,2) by auto
      have "fst n \<notin> set (map fst (?f n1))"
      proof
        assume "fst n \<in> set (map fst (?f n1))"
        then obtain m where m: "m \<in> set (?f n1)" "fst n = fst m" unfolding set_map by (rule imageE)
        then have "m \<in> set (Q Buy @ Q Sell)" "fn_price m = p" using q(1) s by auto
        then show False using distinct_map_inj[of fst "Q Buy @ Q Sell" n m] d i n(3) m(2) by auto
      qed
      moreover have "fst n \<in> set ?live" using i by auto
      ultimately show "fb_pool b6 ! unat (fst n) = fb_pool b ! unat (fst n)" using b6(8) al(5) by auto
    qed
  qed
  ultimately show ?thesis using al(1) b6(1-3,5) f6(1-5) l
    by (intro exI[of _ ?b3] exI[of _ a] exI[of _ b4] exI[of _ b5] exI[of _ b6] exI[of _ l']) simp
qed

lemma map_of_insert: "k \<notin> fst ` set xs \<Longrightarrow> map_of (xs @ (k, v) # ys) = (map_of (xs @ ys))(k \<mapsto> v)"
  by (induction xs) auto

lemma fb_entries_insert:
  assumes s: "valid_side s" and Q: "Q s = n1 @ n2" and fresh: "rs_id r \<notin> fst ` set (fb_entries Q)"
  shows "map_of (fb_entries (Q(s := n1 @ (a, r) # n2))) = (map_of (fb_entries Q))(rs_id r \<mapsto> a)"
proof -
  let ?e = "map (\<lambda>n. (rs_id (snd n), fst n))"
  let ?xs = "if s = Buy then ?e n1 else ?e (Q Buy) @ ?e n1" and ?ys = "if s = Buy then ?e n2 @ ?e (Q Sell) else ?e n2"
  have e: "fb_entries Q = ?xs @ ?ys" "fb_entries (Q(s := n1 @ (a, r) # n2)) = ?xs @ (rs_id r, a) # ?ys"
    using s Q by (auto simp: fb_entries_def)
  have "rs_id r \<notin> fst ` set ?xs" using fresh unfolding e(1) set_append image_Un by blast
  then show ?thesis unfolding e by (rule map_of_insert)
qed

lemma fb_rest_ok:
  assumes rel: "fb_rel b Q" and s: "valid_side s" and fresh: "oid \<notin> set (spec_ids (fb_spec b Q))"
    and room: "length (Q Buy) + length (Q Sell) < unat kNil" and inv: "spec_inv (spec_rest oid s p q (fb_spec b Q))"
  shows "\<exists>b' Q'. fb_rest b oid s p q = Some b' \<and> fb_rel b' Q' \<and> fb_spec b' Q' = spec_rest oid s p q (fb_spec b Q)"
proof -
  let ?rs = "\<lparr>rs_id = oid, rs_price = p, rs_qty = q\<rparr>" and ?b1 = "fb_set_band b p" and ?r = "fb_ref (fb_set_band b p) s p"
  note B = fb_set_band_ok[OF rel, of p]
  have core1: "fb_core ?b1 Q" and tidy1: "fb_tidy ?b1" using B(1) by (auto simp: fb_rel_def)
  obtain b2 l where b2: "fb_level_for ?b1 s p = (b2, ?r)" "fb_core b2 Q" "level_at b2 ?r = Some l" "fb_geo b2 = fb_geo ?b1"
    "fb_next_match_id b2 = fb_next_match_id ?b1" "\<forall>r. r \<noteq> ?r \<longrightarrow> level_at b2 r = level_at ?b1 r"
    using fb_level_for_ok[OF core1 s] by blast
  note C = fb_coreD[OF b2(2)]
  have ref: "fb_ref b2 = fb_ref ?b1" by (rule fb_ref_geo[OF b2(4)])
  have "prio_sorted s (map snd (Q s))" using spec_inv_queue(1)[OF C(2) s] s by simp
  then obtain n1 n2 where Q: "Q s = n1 @ n2" "enqueue s ?rs (map snd (Q s)) = map snd n1 @ ?rs # map snd n2"
    "\<forall>m\<in>set n2. fn_price m \<noteq> p" by (rule fb_enqueue[where r = ?rs]) simp
  have spec: "fb_spec b' (Q(s := n1 @ (a, ?rs) # n2)) = spec_rest oid s p q (fb_spec b Q)"
    if "fb_next_match_id b' = fb_next_match_id b" for a b'
    using that s Q(2) unfolding fb_spec_upd[OF s, where b = b] by (auto simp: spec_rest_def fb_spec_def queue_of_def)
  have "spec_inv (fb_spec b (Q(s := n1 @ (0, ?rs) # n2)))" using inv spec[of b 0] by simp
  from fb_one_side[OF this s, of "(0, ?rs)"]
  have "\<forall>m\<in>set ((Q(s := n1 @ (0, ?rs) # n2)) (opp s)). fn_price m \<noteq> fn_price (0, ?rs)" by simp
  moreover have "(Q(s := n1 @ (0, ?rs) # n2)) (opp s) = Q (opp s)" using s by (auto simp: opp_def)
  ultimately have opp: "\<forall>m\<in>set (Q (opp s)). fn_price m \<noteq> p" by simp
  obtain b3 a b4 b5 b6 l' where k: "fb_alloc_order b2 oid s p q = Some (b3, a)" "level_at b3 ?r = Some l"
    "pool_upd b3 a (\<lambda>x. x\<lparr>fo_prev := fl_tail l\<rparr>) = Some b4"
    "(if fl_tail l \<noteq> kNil then pool_upd b4 (fl_tail l) (\<lambda>x. x\<lparr>fo_next := a\<rparr>)
      else level_upd b4 ?r (\<lambda>l. l\<lparr>fl_head := a\<rparr>)) = Some b5"
    "level_upd b5 ?r (\<lambda>l. l\<lparr>fl_tail := a, fl_total := fl_total l + q\<rparr>) = Some b6"
    and k6: "fb_frame ?r b2 b6" "fb_bid_cursor b6 = fb_bid_cursor b2" "fb_ask_cursor b6 = fb_ask_cursor b2"
      "fb_index b6 = fb_index b2" "fb_next_match_id b6 = fb_next_match_id b2" "level_at b6 ?r = Some l'" "fl_head l' \<noteq> kNil"
      "fb_levels_ok b6 (Q(s := n1 @ (a, ?rs) # n2))" "fb_pool_ok b6 (Q(s := n1 @ (a, ?rs) # n2))"
    using fb_rest_link[where Q = Q, OF b2(2) s _ opp room Q(1,3), where l = l and oid = oid and q = q] b2(3) unfolding ref by blast
  let ?Q = "Q(s := n1 @ (a, ?rs) # n2)"
  obtain ix where ix: "fm_insert (fb_index b6) oid a = Some ix" "fm_inv ix" "fm_abs ix = (fm_abs (fb_index b2))(oid \<mapsto> a)"
    using fm.insert_ok[of "fb_index b2" oid a] C(3) k6(4) by (auto simp: fb_index_ok_def)
  let ?b7 = "b6\<lparr>fb_index := ix\<rparr>" and ?b8 = "fb_move_cursors (b6\<lparr>fb_index := ix\<rparr>) s p"
  note F = fb_query_fields[OF fb_move_cursors_query, of ?b7 s p] and g = fb_query_geo[OF fb_move_cursors_query, of ?b7 s p]
  have "fb_rest b oid s p q = Some ?b8" using b2(1) k ix(1) by (simp add: fb_rest_def del: if_split)
  moreover have "fb_spec ?b8 ?Q = spec_rest oid s p q (fb_spec b Q)" using F(6) k6(5) b2(5) B(3) by (intro spec) simp
  moreover have "fb_rel ?b8 ?Q"
  proof -
    have fr: "fb_frame (fb_ref b2 s p) b2 ?b8" using k6(1) F g unfolding ref by (simp add: fb_frame_def)
    have e: "fst ` set (fb_entries Q) = set (spec_ids (fb_spec b Q))" using fb_entries_ids[of Q b] by (metis list.set_map)
    have "fb_index_ok ?b8 ?Q" using ix(2,3) C(3) F(4) fb_entries_insert[where Q = Q, OF s Q(1), of ?rs a] fresh e
      by (simp add: fb_index_ok_def)
    moreover have "fb_pool_ok ?b8 ?Q" using k6(9) F(1,5) by (simp add: fb_pool_ok_def fb_addrs_def)
    moreover have "fb_levels_ok ?b8 ?Q = fb_levels_ok b6 ?Q" using F(1,10) g by (intro fb_levels_fields) simp_all
    moreover have "fb_cursors_ok ?b7 Q" using C(6) k6(1,2,3) fb_tick_index_geo[of ?b7 b2]
      by (simp add: fb_cursors_ok_def fb_frame_def)
    then have "fb_cursors_ok ?b8 ?Q" using Q(1) by (intro fb_move_cursors_ok[OF _ s]) auto
    moreover have "spec_inv (fb_spec ?b8 ?Q)" using calculation inv \<open>fb_spec ?b8 ?Q = _\<close> by simp
    ultimately have "fb_core ?b8 ?Q" using k6(8) B(2) b2(4)
      by (intro fb_core_update[where Q = Q, OF b2(2) s fr]) (simp_all add: fb_geo_def)
    moreover have "fl_head x \<noteq> kNil" if x: "valid_side s'" "level_at ?b8 (fb_fallback_ref s' p') = Some x" for s' p' x
    proof (cases "fb_fallback_ref s' p' = ?r")
      case True
      then show ?thesis using x(2) F(10) k6(6,7) by simp
    next
      case False
      then have "level_at ?b1 (fb_fallback_ref s' p') = Some x"
        using x(2) F(10) k6(1) b2(6) by (simp add: fb_frame_def)
      then show ?thesis using tidy1 x(1) unfolding fb_tidy_level[OF fb_coreD(7)[OF core1]] by blast
    qed
    then have "fb_tidy ?b8" using fb_tidy_level[OF fb_coreD(7)[OF calculation]] by blast
    ultimately show ?thesis by (simp add: fb_rel_def)
  qed
  ultimately show ?thesis by blast
qed

end
