(* ===== verification/Fast_Book_Sim.thy ===== *)
theory Fast_Book_Sim
  imports Fast_Book_Refine
begin

text \<open>
  The public operations of the production book simulate those of the abstract book, and so does its
  snapshot; the invariant check of the code passes on every book in the relation.
\<close>

section \<open>The simulation\<close>

definition fb_sim :: "fast_book \<Rightarrow> spec_book \<Rightarrow> bool" where
  "fb_sim b sb \<longleftrightarrow> (\<exists>Q. fb_rel b Q \<and> fb_spec b Q = sb)"

text \<open>A pool index is a 32-bit number and \<^verbatim>\<open>kNil\<close> is taken: the book holds fewer orders than that.\<close>

definition fb_room :: "spec_book \<Rightarrow> bool" where
  "fb_room sb \<longleftrightarrow> length (sb_bids sb) + length (sb_asks sb) < 2 ^ 32 - 1"

lemma fb_sim_spec: "fb_sim b sb \<Longrightarrow> spec_inv sb"
  by (auto simp: fb_sim_def fb_rel_def dest: fb_coreD(2))

lemma fb_sim_query:
  "fb_query b b' \<Longrightarrow> fb_rel b' Q \<Longrightarrow> fb_spec b Q = sb \<Longrightarrow> fb_sim b' sb"
  using fb_query_fields(6)[of b b'] by (auto simp: fb_sim_def fb_spec_def intro!: exI[of _ Q])

lemma fb_match_sim:
  assumes "fb_sim b sb" "valid_side side" "spec_match oid side limit q sb = (sb', evs, filled)"
  shows "\<exists>b'. fb_match b oid side limit q = Some (b', filled, evs) \<and> fb_sim b' sb'"
  using assms fb_match_refines unfolding fb_sim_def by blast

lemma fb_rest_sim:
  assumes "fb_sim b sb" "valid_side s" "oid \<notin> set (spec_ids sb)" "fb_room sb" "spec_inv (spec_rest oid s p q sb)"
  shows "\<exists>b'. fb_rest b oid s p q = Some b' \<and> fb_sim b' (spec_rest oid s p q sb)"
proof -
  obtain Q where Q: "fb_rel b Q" "fb_spec b Q = sb" using assms(1) by (auto simp: fb_sim_def)
  have "length (Q Buy) + length (Q Sell) < unat kNil" using assms(4) Q(2) by (auto simp: fb_room_def kNil_def)
  then show ?thesis using fb_rest_ok[OF Q(1) assms(2)] assms(3,5) Q(2) unfolding fb_sim_def by blast
qed

lemma fb_would_cross_sim:
  assumes "fb_sim b sb" "valid_side side"
  shows "\<exists>b'. fb_would_cross b side p = Some (b', spec_would_cross sb side p) \<and> fb_sim b' sb"
  using assms fb_would_cross_ok[where side = side and p = p] fb_sim_query unfolding fb_sim_def by metis

lemma fb_best_sim:
  assumes "fb_sim b sb"
  shows "\<exists>b'. fb_best_bid b = Some (b', spec_best Buy sb) \<and> fb_sim b' sb"
    "\<exists>b'. fb_best_ask b = Some (b', spec_best Sell sb) \<and> fb_sim b' sb"
proof -
  obtain Q where Q: "fb_rel b Q" "fb_spec b Q = sb" using assms by (auto simp: fb_sim_def)
  show "\<exists>b'. fb_best_bid b = Some (b', spec_best Buy sb) \<and> fb_sim b' sb"
    "\<exists>b'. fb_best_ask b = Some (b', spec_best Sell sb) \<and> fb_sim b' sb"
    using fb_best_ok[OF Q(1)] fb_sim_query Q(2) by metis+
qed

lemma fb_find_index:
  assumes "fb_sim b sb"
  shows "fm_contains (fb_index b) oid = Some (oid \<in> set (spec_ids sb))"
    "spec_find sb oid = None \<Longrightarrow> fm_find (fb_index b) oid = Some None"
proof -
  obtain Q where Q: "fb_rel b Q" "fb_spec b Q = sb" using assms by (auto simp: fb_sim_def)
  have I: "fm_inv (fb_index b)" "fm_abs (fb_index b) = map_of (fb_entries Q)"
    using Q(1) fb_coreD(3) by (auto simp: fb_rel_def fb_index_ok_def)
  have d: "dom (fm_abs (fb_index b)) = set (spec_ids sb)"
    using fb_entries_ids[of Q b] by (metis I(2) Q(2) dom_map_of_conv_image_fst list.set_map)
  then show "fm_contains (fb_index b) oid = Some (oid \<in> set (spec_ids sb))" using fm.contains_ok[OF I(1)] by simp
  show "fm_find (fb_index b) oid = Some None" if "spec_find sb oid = None"
    using that d fm.find_ok[OF I(1)] spec_find_None[of sb oid] by auto
qed

text \<open>What the index leads to, and removing and reducing the order there.\<close>

lemma fb_located:
  assumes "fb_sim b sb" "spec_find sb oid = Some (s, r)"
  obtains Q xs a ys where "fb_rel b Q" "fb_spec b Q = sb" "valid_side s" "Q s = xs @ (a, r) # ys" "rs_id r = oid"
    "fm_find (fb_index b) oid = Some (Some a)" "pool_at b a = Some (fb_pool b ! unat a)"
    "fo_body (fb_pool b ! unat a) = (oid, rs_price r, rs_qty r, s)"
proof -
  obtain Q where Q: "fb_rel b Q" "fb_spec b Q = sb" using assms by (auto simp: fb_sim_def)
  have core: "fb_core b Q" using Q(1) by (simp add: fb_rel_def)
  note F = spec_find_Some[OF assms(2)] and C = fb_coreD[OF core]
  have "r \<in> snd ` set (Q s)" using F(1,2) Q(2) by auto
  then obtain a where a: "(a, r) \<in> set (Q s)" by auto
  then obtain xs ys where S: "Q s = xs @ (a, r) # ys" by (meson split_list)
  have "(oid, a) \<in> set (fb_entries Q)" using a F(1,3) by (force simp: fb_entries_def)
  moreover have "distinct (map fst (fb_entries Q))" using C(2) fb_entries_ids[of Q b] by (simp add: spec_inv_def)
  ultimately have "map_of (fb_entries Q) oid = Some a" by simp
  then have "fm_find (fb_index b) oid = Some (Some a)" using C(3) fm.find_ok[of "fb_index b" oid] by (simp add: fb_index_ok_def)
  moreover have "fo_body (fb_pool b ! unat a) = (oid, rs_price r, rs_qty r, s)"
    using fb_levels_okD(3)[where Q = Q, OF C(5) F(1) a] F(3) by (simp add: fb_node_ok_def)
  moreover have "pool_at b a = Some (fb_pool b ! unat a)" using fb_addr_ok(3)[where Q = Q, OF core F(1) a] by simp
  ultimately show ?thesis using that Q F(1,3) S by blast
qed

lemma fb_spec_split:
  assumes "fb_rel b Q" "fb_spec b Q = sb" "valid_side s" "Q s = xs @ (a, r) # ys" "rs_id r = oid"
    "fb_next_match_id b' = fb_next_match_id b"
  shows "fb_spec b' (Q(s := xs @ ys)) = spec_remove oid sb"
    "fb_spec b' (Q(s := xs @ (a, r\<lparr>rs_qty := q\<rparr>) # ys)) = spec_reduce oid q sb"
proof -
  have inv: "spec_inv sb" using assms(1,2) fb_coreD(2) by (auto simp: fb_rel_def)
  have q: "queue_of s sb = map snd xs @ r # map snd ys" using assms(2-4) by auto
  have d: "distinct (map rs_id (map snd xs @ r # map snd ys))" using spec_inv_ids[OF inv assms(3)] q by simp
  have "oid \<notin> rs_id ` set (queue_of (opp s) sb)"
    using inv assms(3,5) q by (auto simp: spec_inv_def spec_ids_def queue_of_def opp_def split: if_splits)
  note R = spec_remove_split[OF assms(3) q assms(5) d this] spec_reduce_split[OF assms(3) q assms(5) d this]
  have "sb\<lparr>sb_match := fb_next_match_id b'\<rparr> = sb" using assms(2,6) by (auto simp: fb_spec_def)
  then show "fb_spec b' (Q(s := xs @ ys)) = spec_remove oid sb"
    "fb_spec b' (Q(s := xs @ (a, r\<lparr>rs_qty := q\<rparr>) # ys)) = spec_reduce oid q sb"
    using R fb_spec_upd[OF assms(3), where b = b and b' = b' and Q = Q] assms(2) by simp_all
qed

section \<open>The public operations\<close>

lemma fb_room_match:
  assumes "fb_room sb" "spec_match oid side limit q sb = (sb', evs, filled)"
  shows "fb_room sb'"
  using assms by (auto simp: spec_match_def fb_room_def set_queue_def queue_of_def opp_def split: prod.splits if_splits
    dest!: sweep_length)

lemma fb_room_remove: "fb_room sb \<Longrightarrow> fb_room (spec_remove oid sb)"
  using length_filter_le[of "\<lambda>r. rs_id r \<noteq> oid" "sb_bids sb"] length_filter_le[of "\<lambda>r. rs_id r \<noteq> oid" "sb_asks sb"]
  unfolding fb_room_def spec_remove_def by (simp del: length_filter_le)

text \<open>Matching and then resting what is left, as \<^verbatim>\<open>add\<close> and the crossing branch of \<^verbatim>\<open>replace\<close> do.\<close>

lemma fb_enter_sim:
  assumes sim: "fb_sim b sb" and side: "valid_side side" and room: "fb_room sb" and fresh: "oid \<notin> set (spec_ids sb)" and p: "p > 0"
    and e: "spec_enter oid side p q sb = (sb', evs, filled)"
  obtains b1 evs1 where "fb_match b oid side p q = Some (b1, filled, evs1)"
    "if q - filled > 0 then
       evs = evs1 @ [EvAdded \<lparr>ad_id = oid, ad_side = side, ad_price = p, ad_qty = q - filled\<rparr>] \<and>
       (\<exists>b2. fb_rest b1 oid side p (q - filled) = Some b2 \<and> fb_sim b2 sb')
     else evs = evs1 \<and> fb_sim b1 sb'"
proof -
  obtain sb1 evs1 filled' where m: "spec_match oid side p q sb = (sb1, evs1, filled')" by (metis prod_cases3)
  have f: "filled' = filled" using e m by (simp add: spec_enter_def split: if_splits)
  obtain b1 where b1: "fb_match b oid side p q = Some (b1, filled, evs1)" "fb_sim b1 sb1"
    using fb_match_sim[OF sim side] m f by blast
  note M = spec_match_inv[OF fb_sim_spec[OF sim] side m[unfolded f]]
  have "oid \<notin> set (spec_ids sb1)" using M(2) fresh by blast
  moreover from this have "q - filled \<noteq> 0 \<Longrightarrow> spec_inv (spec_rest oid side p (q - filled) sb1)"
    using spec_rest_inv(1)[OF M(1) side _ p] M(3) by blast
  ultimately have "q - filled \<noteq> 0 \<Longrightarrow> \<exists>b2. fb_rest b1 oid side p (q - filled) = Some b2 \<and>
      fb_sim b2 (spec_rest oid side p (q - filled) sb1)"
    using fb_rest_sim[OF b1(2) side] fb_room_match[OF room m] by blast
  then show ?thesis using that[OF b1(1)] e m f b1(2) by (auto simp: spec_enter_def split: if_splits)
qed

lemma fb_add_sim:
  assumes sim: "fb_sim b sb" and side: "valid_side side" and room: "fb_room sb"
    and a: "spec_add sb oid side p q = (sb', evs, res)"
  shows "\<exists>b'. fb_add b oid side p q = Some (b', evs, res) \<and> fb_sim b' sb'"
proof (cases "p \<le> 0 \<or> q = 0 \<or> oid \<in> set (spec_ids sb)")
  case True
  then show ?thesis using a sim fb_find_index(1)[OF sim, of oid] by (auto simp: spec_add_def fb_add_def split: if_splits)
next
  case False
  then obtain filled where e: "spec_enter oid side p q sb = (sb', evs, filled)"
    "res = \<lparr>ar_status = Ok, ar_filled = filled, ar_resting = q - filled\<rparr>"
    using a by (auto simp: spec_add_def split: prod.splits)
  obtain b1 evs1 where b1: "fb_match b oid side p q = Some (b1, filled, evs1)"
    "if q - filled > 0 then evs = evs1 @ [EvAdded \<lparr>ad_id = oid, ad_side = side, ad_price = p, ad_qty = q - filled\<rparr>] \<and>
       (\<exists>b2. fb_rest b1 oid side p (q - filled) = Some b2 \<and> fb_sim b2 sb')
     else evs = evs1 \<and> fb_sim b1 sb'"
    using fb_enter_sim[OF sim side room _ _ e(1)] False by auto
  then show ?thesis using False e(2) fb_find_index(1)[OF sim, of oid]
    by (auto simp: fb_add_def Let_def split: if_splits)
qed

lemma fb_execute_ioc_sim:
  assumes "fb_sim b sb" "valid_side side" "spec_match oid side limit q sb = (sb', evs, filled)"
  shows "\<exists>b'. fb_execute_ioc b oid side limit q = Some (b', filled, evs) \<and> fb_sim b' sb'"
  unfolding fb_execute_ioc_def by (rule fb_match_sim[OF assms])

lemma fb_remove_sim:
  assumes sim: "fb_sim b sb" and f: "spec_find sb oid = Some (s, r)"
  obtains a b' where "fm_find (fb_index b) oid = Some (Some a)" "pool_at b a = Some (fb_pool b ! unat a)"
    "fo_body (fb_pool b ! unat a) = (oid, rs_price r, rs_qty r, s)" "fb_remove_resting b a = Some b'"
    "fb_sim b' (spec_remove oid sb)"
proof -
  obtain Q xs a ys where L: "fb_rel b Q" "fb_spec b Q = sb" "valid_side s" "Q s = xs @ (a, r) # ys" "rs_id r = oid"
    "fm_find (fb_index b) oid = Some (Some a)" "pool_at b a = Some (fb_pool b ! unat a)"
    "fo_body (fb_pool b ! unat a) = (oid, rs_price r, rs_qty r, s)" by (rule fb_located[OF sim f])
  obtain b' where b': "fb_remove_resting b a = Some b'" "fb_rel b' (Q(s := xs @ ys))" "fb_next_match_id b' = fb_next_match_id b"
    using fb_remove_ok[where Q = Q, OF L(1,3,4)] by blast
  have "fb_sim b' (spec_remove oid sb)"
    using b'(2) fb_spec_split(1)[where Q = Q, OF L(1-5) b'(3)] unfolding fb_sim_def by blast
  then show ?thesis using that L b'(1) by blast
qed

lemma fb_cancel_sim:
  assumes sim: "fb_sim b sb" and c: "spec_cancel sb oid keep = (sb', evs, f)"
  shows "\<exists>b'. fb_cancel b oid keep = Some (b', evs, f) \<and> fb_sim b' sb'"
proof (cases "spec_find sb oid")
  case None
  then show ?thesis using c sim fb_find_index(2)[OF sim None] by (auto simp: spec_cancel_def fb_cancel_def)
next
  case (Some sr)
  obtain s r where sr: "sr = (s, r)" by (cases sr)
  note F = Some[unfolded sr]
  show ?thesis
  proof (cases "keep \<noteq> 0 \<and> keep < rs_qty r")
    case False
    obtain a b' where R: "fm_find (fb_index b) oid = Some (Some a)" "pool_at b a = Some (fb_pool b ! unat a)"
      "fo_body (fb_pool b ! unat a) = (oid, rs_price r, rs_qty r, s)" "fb_remove_resting b a = Some b'"
      "fb_sim b' (spec_remove oid sb)" by (rule fb_remove_sim[OF sim F])
    then show ?thesis using False c F sim by (auto simp: spec_cancel_def fb_cancel_def fo_body_def not_less split: if_splits)
  next
    case True
    obtain Q xs a ys where L: "fb_rel b Q" "fb_spec b Q = sb" "valid_side s" "Q s = xs @ (a, r) # ys" "rs_id r = oid"
      "fm_find (fb_index b) oid = Some (Some a)" "pool_at b a = Some (fb_pool b ! unat a)"
      "fo_body (fb_pool b ! unat a) = (oid, rs_price r, rs_qty r, s)" by (rule fb_located[OF sim F])
    obtain b1 b2 where w: "pool_upd b a (\<lambda>x. x\<lparr>fo_open := keep\<rparr>) = Some b1"
      "fb_level_for b1 s (rs_price r) = (b1, fb_ref b s (rs_price r))"
      "level_upd b1 (fb_ref b s (rs_price r)) (\<lambda>l. l\<lparr>fl_total := fl_total l - (rs_qty r - keep)\<rparr>) = Some b2"
      "fb_rel b2 (Q(s := xs @ (a, r\<lparr>rs_qty := keep\<rparr>) # ys))" "fb_next_match_id b2 = fb_next_match_id b"
      using fb_reduce_ok[where Q = Q, OF L(1,3,4)] True by blast
    have "fb_sim b2 (spec_reduce oid keep sb)"
      using w(4) fb_spec_split(2)[where Q = Q, OF L(1-5) w(5)] unfolding fb_sim_def by blast
    then show ?thesis using True c F L(6-8) w(1-3) by (auto simp: spec_cancel_def fb_cancel_def fo_body_def not_less)
  qed
qed

lemma fb_replace_sim:
  assumes sim: "fb_sim b sb" and room: "fb_room sb" and c: "spec_replace sb old_id new_id p q = (sb', evs, f)"
  shows "\<exists>b'. fb_replace b old_id new_id p q = Some (b', evs, f) \<and> fb_sim b' sb'"
proof (cases "spec_find sb old_id")
  case None
  then show ?thesis using c sim fb_find_index(2)[OF sim None] by (auto simp: spec_replace_def fb_replace_def)
next
  case (Some sr)
  obtain s r where sr: "sr = (s, r)" by (cases sr)
  note F = Some[unfolded sr] and dup = fb_find_index(1)[OF sim, of new_id]
  have s: "valid_side s" by (rule spec_find_Some(1)[OF F])
  obtain a b1 where R: "fm_find (fb_index b) old_id = Some (Some a)" "pool_at b a = Some (fb_pool b ! unat a)"
    "fo_body (fb_pool b ! unat a) = (old_id, rs_price r, rs_qty r, s)" "fb_remove_resting b a = Some b1"
    "fb_sim b1 (spec_remove old_id sb)" by (rule fb_remove_sim[OF sim F])
  show ?thesis
  proof (cases "new_id = old_id \<or> new_id \<in> set (spec_ids sb) \<or> p \<le> 0 \<or> q = 0")
    case True
    then show ?thesis using c F sim R(1) dup by (auto simp: spec_replace_def fb_replace_def split: if_splits)
  next
    case False
    let ?sb = "spec_remove old_id sb"
    have inv: "spec_inv ?sb" and fresh: "new_id \<notin> set (spec_ids ?sb)" and room1: "fb_room ?sb"
      using spec_remove_inv[OF fb_sim_spec[OF sim], of old_id] False fb_room_remove[OF room] by auto
    obtain b2 where b2: "fb_would_cross b1 s p = Some (b2, spec_would_cross ?sb s p)" "fb_sim b2 ?sb"
      using fb_would_cross_sim[OF R(5) s] by blast
    have e: "fo_side (fb_pool b ! unat a) = s" "fo_open (fb_pool b ! unat a) = rs_qty r" using R(3) by (auto simp: fo_body_def)
    show ?thesis
    proof (cases "spec_would_cross ?sb s p")
      case True
      obtain evs2 filled where E: "spec_enter new_id s p q ?sb = (sb', evs2, filled)"
        "evs = EvCanceled \<lparr>ce_id = old_id, ce_canceled_qty = rs_qty r, ce_removed = True\<rparr> # evs2" "f"
        using c F False True by (auto simp: spec_replace_def split: prod.splits)
      obtain b3 evs1 where b3: "fb_match b2 new_id s p q = Some (b3, filled, evs1)"
        "if q - filled > 0 then evs2 = evs1 @ [EvAdded \<lparr>ad_id = new_id, ad_side = s, ad_price = p, ad_qty = q - filled\<rparr>] \<and>
           (\<exists>b4. fb_rest b3 new_id s p (q - filled) = Some b4 \<and> fb_sim b4 sb')
         else evs2 = evs1 \<and> fb_sim b3 sb'"
        using fb_enter_sim[OF b2(2) s room1 fresh _ E(1)] False by auto
      then show ?thesis using False True R(1,2,4) dup b2(1) e E(2,3)
        by (auto simp: fb_replace_def Let_def split: if_splits)
    next
      case nc: False
      have "\<forall>x\<in>set (queue_of (opp s) ?sb). \<not> crosses s p (rs_price x)"
        using nc spec_inv_queue(1)[OF inv, of "opp s"] crosses_better[of s p _ ]
        by (auto simp: spec_would_cross_def split: list.splits)
      then have "spec_inv (spec_rest new_id s p q ?sb)" using spec_rest_inv(1)[OF inv s fresh] False by auto
      then obtain b3 where "fb_rest b2 new_id s p q = Some b3" "fb_sim b3 (spec_rest new_id s p q ?sb)"
        using fb_rest_sim[OF b2(2) s fresh room1] by blast
      then show ?thesis using False nc R(1,2,4) dup b2(1) e c F
        by (auto simp: fb_replace_def spec_replace_def Let_def)
    qed
  qed
qed

section \<open>Snapshots\<close>

text \<open>A level as the snapshot shows it.\<close>

definition fb_snap :: "fqueues \<Rightarrow> side \<Rightarrow> price \<Rightarrow> snapshot_level" where
  "fb_snap Q s p = \<lparr>sl_price = p,
     sl_orders = map (\<lambda>n. \<lparr>so_id = rs_id (snd n), so_qty = rs_qty (snd n)\<rparr>) (filter (\<lambda>n. fn_price n = p) (Q s))\<rparr>"

lemma fb_chain_ok:
  assumes core: "fb_core b Q" and s: "valid_side s" and sub: "set ns \<subseteq> set (Q s)"
    and seg: "fb_seg (fb_pool b) u (map fst ns) kNil"
  shows "fb_chain b (hd_or (map fst ns)) = Some (map (\<lambda>n. \<lparr>so_id = rs_id (snd n), so_qty = rs_qty (snd n)\<rparr>) ns)"
  using sub seg
proof (induction ns arbitrary: u)
  case Nil
  then show ?case by (subst fb_chain.simps) simp
next
  case (Cons n ns)
  have n: "n \<in> set (Q s)" using Cons.prems(1) by simp
  note A = fb_addr_ok[where Q = Q, OF core s n] fb_node_fields[where Q = Q, OF core s n]
  have "fo_next (fb_pool b ! unat (fst n)) = hd_or (map fst ns)" "fb_seg (fb_pool b) (fst n) (map fst ns) kNil"
    using Cons.prems(2) by (cases ns; auto)+
  then show ?case using A Cons.IH Cons.prems(1) by (subst fb_chain.simps) simp
qed

lemma group_levels_prices:
  "prio_sorted s (map snd q) \<Longrightarrow> Q s = q \<Longrightarrow>
   \<exists>ps. sorted_wrt (better s) ps \<and> set ps = fn_price ` set q \<and> group_levels (map snd q) = map (fb_snap Q s) ps"
proof (induction "length q" arbitrary: q Q rule: less_induct)
  case less
  show ?case
  proof (cases q)
    case (Cons n q')
    obtain ns rest where S: "n # q' = ns @ rest" "n \<in> set ns" "\<forall>m\<in>set ns. fn_price m = fn_price n"
      "\<forall>m\<in>set rest. fn_price m \<noteq> fn_price n" using less.prems(1) unfolding Cons by (rule prio_level_split)
    have q: "q = ns @ rest" using Cons S(1) by simp
    have srt: "prio_sorted s (map snd rest)" "\<forall>m\<in>set rest. \<not> better s (fn_price m) (fn_price n)"
      using less.prems(1) S(2) by (auto simp: q prio_sorted_append)
    let ?Q = "Q(s := rest)"
    obtain ps where ps: "sorted_wrt (better s) ps" "set ps = fn_price ` set rest" "group_levels (map snd rest) = map (fb_snap ?Q s) ps"
      using less.hyps[of rest ?Q] srt(1) S(2) by (cases ns) (auto simp: q)
    have "fb_snap ?Q s p = fb_snap Q s p" if "p \<in> set ps" for p
      using that ps(2) S(3,4) less.prems(2) by (auto simp: fb_snap_def q filter_empty_conv)
    then have "group_levels (map snd rest) = map (fb_snap Q s) ps" using ps(3) by simp
    moreover have "filter (\<lambda>m. fn_price m = fn_price n) q = ns" using S(3,4) by (simp add: q filter_empty_conv)
    moreover have "group_levels (map snd ns @ map snd rest) = \<lparr>sl_price = fn_price n,
        sl_orders = map (\<lambda>r. \<lparr>so_id = rs_id r, so_qty = rs_qty r\<rparr>) (map snd ns)\<rparr> # group_levels (map snd rest)"
    proof (rule group_levels_block)
      show "map snd ns \<noteq> []" using S(2) by auto
      show "\<forall>r\<in>set (map snd ns). rs_price r = fn_price n" using S(3) by simp
      show "map snd rest = [] \<or> rs_price (hd (map snd rest)) \<noteq> fn_price n" using S(4) by (cases rest) simp_all
    qed
    ultimately have "group_levels (map snd q) = map (fb_snap Q s) (fn_price n # ps)"
      using less.prems(2) by (simp add: q fb_snap_def comp_def)
    moreover have "sorted_wrt (better s) (fn_price n # ps)" using ps(1,2) srt(2) S(4) better.total by fastforce
    moreover have "fn_price ` set ns = (\<lambda>_. fn_price n) ` set ns" using S(3) by (intro image_cong) simp_all
    then have "set (fn_price n # ps) = fn_price ` set q" using ps(2) image_constant[OF S(2), of "fn_price n"] by (simp add: q image_Un)
    ultimately show ?thesis by blast
  qed simp
qed

text \<open>A list of levels that a loop over the book yields for one side.\<close>

definition fb_listed :: "fast_book \<Rightarrow> side \<Rightarrow> (price \<times> flevel) list \<Rightarrow> price set \<Rightarrow> bool" where
  "fb_listed b s L ps \<longleftrightarrow> distinct (map fst L) \<and> fst ` set L = ps \<and> (\<forall>(p, l)\<in>set L. level_at b (fb_ref b s p) = Some l)"

lemma fb_fill_levels_ok:
  assumes core: "fb_core b Q" and s: "valid_side s" and L: "fb_listed b s L ps" and ps: "ps \<subseteq> fn_price ` set (Q s)"
  shows "fb_fill_levels b L = Some (map (fb_snap Q s) (map fst L))"
  using L ps
proof (induction L arbitrary: ps)
  case (Cons x L)
  obtain p l where x: "x = (p, l)" by (cases x)
  have l: "level_at b (fb_ref b s p) = Some l" using Cons.prems(1) by (simp add: fb_listed_def x)
  have "p \<in> fn_price ` set (Q s)" using Cons.prems by (auto simp: fb_listed_def x)
  then obtain n where n: "n \<in> set (Q s)" "fn_price n = p" by auto
  have opp: "\<forall>m\<in>set (Q (opp s)). fn_price m \<noteq> p" using fb_one_side[where Q = Q, OF fb_coreD(2)[OF core] s n(1)] n(2) by simp
  have "fb_links (fb_pool b) l (map fst (filter (\<lambda>n. fn_price n = p) (Q s)))"
    using fb_levels_okD(1)[OF fb_coreD(5)[OF core] l] fb_nodes_ref[where Q = Q, OF fb_coreD(1)[OF core] s opp]
    by (simp add: fb_level_ok_def)
  then have "fb_chain b (fl_head l) = Some (sl_orders (fb_snap Q s p))"
    using fb_chain_ok[where Q = Q, OF core s, of "filter (\<lambda>n. fn_price n = p) (Q s)"] by (auto simp: fb_links_def fb_snap_def)
  moreover have "fb_listed b s L (fst ` set L)" using Cons.prems(1) by (auto simp: fb_listed_def)
  ultimately show ?case using Cons.IH[of "fst ` set L"] Cons.prems by (auto simp: x fb_listed_def fb_snap_def)
qed simp

abbreviation fb_prices_from :: "fast_book \<Rightarrow> fqueues \<Rightarrow> side \<Rightarrow> nat \<Rightarrow> price set" where
  "fb_prices_from b Q s i \<equiv> {p \<in> fn_price ` set (Q s). int i \<le> fb_tick_index b p}"

lemma fb_prices_from_step:
  assumes core: "fb_core b Q"
  shows "fb_prices_from b Q s i = (if int i \<in> fb_ticks b Q s then insert (fb_price_at b (int i)) (fb_prices_from b Q s (i + 1))
    else fb_prices_from b Q s (i + 1))"
proof -
  have *: "fb_tick_index b p = int i \<Longrightarrow> p = fb_price_at b (int i)" for p
    using fb_tick_price(1)[OF fb_coreD(1)[OF core], of p] by simp
  have "fb_prices_from b Q s i = {p \<in> fn_price ` set (Q s). fb_tick_index b p = int i} \<union> fb_prices_from b Q s (i + 1)"
    by auto
  moreover have "{p \<in> P. fb_tick_index b p = int i} = (if int i \<in> fb_tick_index b ` P then {fb_price_at b (int i)} else {})" for P
    using * by (auto simp: image_iff)
  ultimately show ?thesis unfolding fb_ticks_def by simp
qed

lemma fb_ladder_at:
  assumes core: "fb_core b Q" and j: "j < length (fb_ladder b)"
  shows "fl_head (fb_ladder b ! j) = kNil \<and> int j \<notin> fb_ticks b Q Buy \<and> int j \<notin> fb_ticks b Q Sell \<or>
    (\<exists>s x. valid_side s \<and> fl_head (fb_ladder b ! j) \<noteq> kNil \<and> pool_at b (fl_head (fb_ladder b ! j)) = Some x \<and> fo_side x = s \<and>
      int j \<in> fb_ticks b Q s \<and> int j \<notin> fb_ticks b Q (opp s))"
proof (cases "fb_band_set b")
  case True
  have lo: "fb_level_ok (fb_pool b) (fb_ladder b ! j) (fb_nodes b Q (InLadder j))"
    using fb_levels_okD(1)[OF fb_coreD(5)[OF core], of "InLadder j"] j by simp
  have e: "fl_head (fb_ladder b ! j) = kNil" if "int j \<notin> fb_ticks b Q Buy" "int j \<notin> fb_ticks b Q Sell"
  proof -
    have "fb_nodes b Q (InLadder j) = []"
      using that by (force simp: fb_nodes_def fb_ref_simps(1) filter_empty_conv fb_ticks_def)
    then show ?thesis using lo by (simp add: fb_level_ok_def fb_links_def)
  qed
  have j': "0 \<le> int j" "int j < int (length (fb_ladder b))" using j by auto
  have "fb_head_side b s (fb_ladder b ! j) = Some (int j \<in> fb_ticks b Q s)" if "valid_side s" for s
    using fb_ladder_level[OF core that True j'] j by simp
  from this[of Buy] this[of Sell] e show ?thesis
    by (cases "int j \<in> fb_ticks b Q Buy"; cases "int j \<in> fb_ticks b Q Sell"; auto split: if_splits)
next
  case False
  then have Q: "Q Buy = []" "Q Sell = []" using fb_coreD(9)[OF core] by auto
  have "fb_level_ok (fb_pool b) (fb_ladder b ! j) (fb_nodes b Q (InLadder j))"
    using fb_levels_okD(1)[OF fb_coreD(5)[OF core], of "InLadder j"] j by simp
  then show ?thesis using Q by (simp add: fb_nodes_def fb_level_ok_def fb_links_def fb_ticks_def)
qed

lemma fb_split_ladder_ok:
  assumes core: "fb_core b Q" and "ls = drop i (fb_ladder b)"
  shows "\<exists>bids asks. fb_split_ladder b i ls = Some (bids, asks) \<and>
    fb_listed b Buy bids (fb_prices_from b Q Buy i) \<and> fb_listed b Sell asks (fb_prices_from b Q Sell i)"
  using assms(2)
proof (induction ls arbitrary: i)
  case Nil
  then have "\<not> int i \<le> fb_tick_index b p" for p
    using fb_tick_price(2)[OF fb_coreD(1)[OF core], of p] by auto
  then show ?case by (simp add: fb_listed_def)
next
  case (Cons l ls)
  have i1: "i < length (fb_ladder b)"
  proof (rule ccontr)
    assume "\<not> i < length (fb_ladder b)"
    then show False using Cons.prems by simp
  qed
  have "l # ls = fb_ladder b ! i # drop (Suc i) (fb_ladder b)" using Cons.prems Cons_nth_drop_Suc[OF i1] by simp
  then have i: "i < length (fb_ladder b)" "l = fb_ladder b ! i" "ls = drop (i + 1) (fb_ladder b)" using i1 by simp_all
  obtain bids asks where r: "fb_split_ladder b (i + 1) ls = Some (bids, asks)"
    "fb_listed b Buy bids (fb_prices_from b Q Buy (i + 1))" "fb_listed b Sell asks (fb_prices_from b Q Sell (i + 1))"
    using Cons.IH[OF i(3)] by blast
  have add: "fb_listed b s ((fb_price_at b (int i), l) # L) (fb_prices_from b Q s i)"
    if "fb_listed b s L (fb_prices_from b Q s (i + 1))" "int i \<in> fb_ticks b Q s" for s L
  proof -
    have "fb_tick_index b (fb_price_at b (int i)) = int i"
      using that(2) fb_tick_price(1)[OF fb_coreD(1)[OF core]] by (auto simp: fb_ticks_def)
    then show ?thesis using that i(1,2) fb_prices_from_step[OF core, of s i]
      by (auto simp: fb_listed_def fb_ref_def)
  qed
  from fb_ladder_at[OF core i(1)] show ?case
    using r add[OF r(2)] add[OF r(3)] fb_prices_from_step[OF core, of Buy i] fb_prices_from_step[OF core, of Sell i] i(2)
    by (elim disjE exE conjE) (auto simp: opp_def split: if_splits)
qed

lemma fb_listed_side:
  assumes rel: "fb_rel b Q" and s: "valid_side s"
  shows "fb_listed b s (fb_side s b) {p \<in> fn_price ` set (Q s). fb_tick_index b p < 0}"
proof -
  have core: "fb_core b Q" using rel by (simp add: fb_rel_def)
  have d: "distinct (map fst (fb_side s b))" by (rule better.sorted_distinct[OF fb_side_sorted[OF fb_coreD(7)[OF core] s]])
  moreover have "level_at b (fb_ref b s p) = Some l" if x: "(p, l) \<in> set (fb_side s b)" for p l
  proof -
    have "p \<in> fst ` set (fb_side s b)" using x by force
    then have "fb_tick_index b p < 0" unfolding fb_fallback_keys[OF rel s] by simp
    then have "fb_ref b s p = fb_fallback_ref s p" using fb_ref_fallback[OF s s] by blast
    then show ?thesis using fb_side_level x d by simp
  qed
  ultimately show ?thesis using fb_fallback_keys[OF rel s] by (auto simp: fb_listed_def)
qed

lemma fb_listed_append:
  "fb_listed b s L ps \<Longrightarrow> fb_listed b s L' ps' \<Longrightarrow> ps \<inter> ps' = {} \<Longrightarrow> fb_listed b s (L @ L') (ps \<union> ps')"
  by (auto simp: fb_listed_def image_Un)

lemma fb_listed_all:
  assumes rel: "fb_rel b Q" and s: "valid_side s" and A: "fb_listed b s A (fb_prices_from b Q s 0)"
  shows "fb_listed b s (A @ fb_side s b) (fn_price ` set (Q s))"
proof -
  have "fb_listed b s (A @ fb_side s b) (fb_prices_from b Q s 0 \<union> {p \<in> fn_price ` set (Q s). fb_tick_index b p < 0})"
    by (rule fb_listed_append[OF A fb_listed_side[OF rel s]]) auto
  moreover have "fb_prices_from b Q s 0 \<union> {p \<in> fn_price ` set (Q s). fb_tick_index b p < 0} = fn_price ` set (Q s)" by auto
  ultimately show ?thesis by simp
qed

lemma fb_listed_sort: "fb_listed b s L ps \<Longrightarrow> fb_listed b s (sort_key f L) ps"
proof -
  have "mset (map fst (sort_key f L)) = mset (map fst L)" by simp
  then have "distinct (map fst (sort_key f L)) = distinct (map fst L)" by (rule mset_eq_imp_distinct_iff)
  then show "fb_listed b s L ps \<Longrightarrow> fb_listed b s (sort_key f L) ps" by (simp add: fb_listed_def)
qed

lemma sort_key_strict:
  fixes L :: "(price \<times> 'a) list"
  assumes "distinct (map fst L)"
  shows "sorted_wrt (better Sell) (map fst (sort_key fst L))" "sorted_wrt (better Buy) (map fst (sort_key (\<lambda>x. - fst x) L))"
proof -
  have d: "distinct (map fst (sort_key f L))" for f :: "price \<times> 'a \<Rightarrow> int"
    using mset_eq_imp_distinct_iff[of "map fst (sort_key f L)" "map fst L"] assms by simp
  have b: "better Sell = (<)" "better Buy = (>)" by (auto simp: fun_eq_iff)
  have "sorted (map fst (sort_key fst L))" by simp
  then show "sorted_wrt (better Sell) (map fst (sort_key fst L))"
    using d[of fst] unfolding b by (simp add: strict_sorted_iff)
  have g: "sorted_wrt (\<lambda>x y. - x \<le> - y) xs \<Longrightarrow> distinct xs \<Longrightarrow> sorted_wrt (>) xs" for xs :: "price list"
    by (induction xs) (auto simp: order_less_le)
  let ?L = "sort_key (\<lambda>x. - fst x) L"
  have "sorted_wrt (\<lambda>x y. - x \<le> - y) (map fst ?L)" using sorted_sort_key[of "\<lambda>x. - fst x" L] by (simp add: sorted_wrt_map)
  then show "sorted_wrt (better Buy) (map fst ?L)"
    using g d[of "\<lambda>x. - fst x"] unfolding b by blast
qed

lemma fb_side_snapshot:
  assumes rel: "fb_rel b Q" and s: "valid_side s" and A: "fb_listed b s A (fb_prices_from b Q s 0)"
    and L: "sorted_wrt (better s) (map fst (sort_key f (A @ fb_side s b)))"
  shows "fb_fill_levels b (sort_key f (A @ fb_side s b)) = Some (group_levels (map snd (Q s)))"
proof -
  have core: "fb_core b Q" using rel by (simp add: fb_rel_def)
  let ?L = "sort_key f (A @ fb_side s b)"
  have lst: "fb_listed b s ?L (fn_price ` set (Q s))" by (rule fb_listed_sort[OF fb_listed_all[OF rel s A]])
  obtain ps where ps: "sorted_wrt (better s) ps" "set ps = fn_price ` set (Q s)" "group_levels (map snd (Q s)) = map (fb_snap Q s) ps"
    using group_levels_prices[of s "Q s" Q] spec_inv_queue(1)[OF fb_coreD(2)[OF core] s] s by auto
  have "map fst ?L = ps" using better.sorted_unique[OF L ps(1)] ps(2) lst by (simp add: fb_listed_def)
  then show ?thesis using fb_fill_levels_ok[OF core s lst] ps(3) by simp
qed

lemma fb_snapshot_sim:
  assumes "fb_sim b sb"
  shows "fb_snapshot b = Some (spec_snapshot sb)"
proof -
  obtain Q where Q: "fb_rel b Q" "fb_spec b Q = sb" using assms by (auto simp: fb_sim_def)
  have core: "fb_core b Q" using Q(1) by (simp add: fb_rel_def)
  obtain bids asks where r: "fb_split_ladder b 0 (fb_ladder b) = Some (bids, asks)"
    "fb_listed b Buy bids (fb_prices_from b Q Buy 0)" "fb_listed b Sell asks (fb_prices_from b Q Sell 0)"
    using fb_split_ladder_ok[OF core, of "fb_ladder b" 0] by auto
  have d: "distinct (map fst (bids @ fb_bids b))" "distinct (map fst (asks @ fb_asks b))"
    using fb_listed_all[OF Q(1) _ r(2)] fb_listed_all[OF Q(1) _ r(3)] by (simp_all add: fb_listed_def)
  have "fb_fill_levels b (sort_key (\<lambda>x. - fst x) (bids @ fb_bids b)) = Some (group_levels (map snd (Q Buy)))"
    using fb_side_snapshot[OF Q(1) _ r(2)] sort_key_strict(2)[OF d(1)] by simp
  moreover have "fb_fill_levels b (sort_key fst (asks @ fb_asks b)) = Some (group_levels (map snd (Q Sell)))"
    using fb_side_snapshot[OF Q(1) _ r(3)] sort_key_strict(1)[OF d(2)] by simp
  ultimately show ?thesis using r(1) Q(2) by (auto simp: fb_snapshot_def spec_snapshot_def)
qed

section \<open>The interface\<close>

definition fb_config_ok :: "fb_config \<Rightarrow> bool" where
  "fb_config_ok cfg \<longleftrightarrow> fc_tick cfg > 0 \<and> 0 \<le> fc_band_half_ticks cfg \<and> fc_band_half_ticks cfg < 2 ^ 30"

lemma fb_new_sim:
  assumes "fb_config_ok cfg"
  shows "fb_sim (fb_new cfg) spec_empty"
proof -
  let ?b = "fb_new cfg" and ?Q = "\<lambda>_. [] :: fnode list"
  have "level_at ?b r = None" for r by (cases r) (simp_all add: fb_new_def)
  then have "fb_levels_ok ?b ?Q" by (simp add: fb_levels_ok_def)
  moreover have e: "fb_spec ?b ?Q = spec_empty" by (simp add: fb_spec_def spec_empty_def fb_new_def)
  moreover have "fb_index_ok ?b ?Q" by (simp add: fm.new_ok fb_index_ok_def fb_entries_def fb_new_def)
  ultimately have "fb_rel ?b ?Q" using assms spec_inv_empty
    by (simp add: fb_rel_def fb_core_def fb_tidy_def fb_pool_ok_def fb_addrs_def fb_cursors_ok_def fb_maps_ok_def
        fb_sorted_def fb_config_ok_def fb_new_def)
  then show ?thesis using e unfolding fb_sim_def by blast
qed

lemma fb_default_config_ok: "fb_config_ok fb_default_config"
  by (simp add: fb_config_ok_def fb_default_config_def)

definition fb_fresh :: "fast_book \<Rightarrow> bool" where
  "fb_fresh b \<longleftrightarrow> fb_config_ok (fb_cfg b) \<and> b = fb_new (fb_cfg b)"

interpretation fast: matching_book fb_sim fb_room fb_fresh fb_add fb_cancel fb_replace fb_snapshot
proof unfold_locales
  show "fb_sim b spec_empty" if "fb_fresh b" for b using that fb_new_sim by (metis fb_fresh_def)
qed (fact fb_sim_spec fb_add_sim fb_cancel_sim fb_replace_sim fb_snapshot_sim)+

section \<open>The invariant check\<close>

lemma fb_check_chain_ok:
  assumes core: "fb_core b Q" and s: "valid_side s" and sub: "set ns \<subseteq> set (Q s)" and p: "\<forall>n\<in>set ns. fn_price n = p"
    and seg: "fb_seg (fb_pool b) u (map fst ns) kNil"
  shows "fb_check_chain b p s u acc cnt (hd_or (map fst ns)) =
    Some (Inr (last_or u (map fst ns), acc + (\<Sum>n\<leftarrow>ns. rs_qty (snd n)), cnt + length ns))"
  using sub seg p
proof (induction ns arbitrary: u acc cnt)
  case Nil
  then show ?case by (subst fb_check_chain.simps) simp
next
  case (Cons n ns)
  have n: "n \<in> set (Q s)" using Cons.prems(1) by simp
  note A = fb_addr_ok[where Q = Q, OF core s n] fb_node_fields[where Q = Q, OF core s n] and C = fb_coreD[OF core]
  have nx: "fo_prev (fb_pool b ! unat (fst n)) = u" "fo_next (fb_pool b ! unat (fst n)) = hd_or (map fst ns)"
    "fb_seg (fb_pool b) (fst n) (map fst ns) kNil" using Cons.prems(2) by (cases ns; auto)+
  have q: "rs_qty (snd n) \<noteq> 0" using spec_inv_queue(2)[OF C(2) s] n s by auto
  have "(rs_id (snd n), fst n) \<in> set (fb_entries Q)" using n s by (force simp: fb_entries_def)
  moreover have "distinct (map fst (fb_entries Q))" using C(2) fb_entries_ids[of Q b] by (simp add: spec_inv_def)
  ultimately have "fm_find (fb_index b) (rs_id (snd n)) = Some (Some (fst n))"
    using C(3) fm.find_ok[of "fb_index b" "rs_id (snd n)"] by (simp add: fb_index_ok_def)
  then show ?case using A nx q Cons by (subst fb_check_chain.simps) (simp add: add.assoc)
qed

lemma fb_check_level_ok:
  assumes core: "fb_core b Q" and s: "valid_side s" and sub: "set ns \<subseteq> set (Q s)" and p: "\<forall>n\<in>set ns. fn_price n = p"
    and l: "fb_level_ok (fb_pool b) l ns" and e: "e = None \<or> e = Some s"
  shows "fb_check_level b p l e cnt = Some (Inr (cnt + length ns))"
proof (cases ns)
  case Nil
  then show ?thesis using l by (simp add: fb_check_level_def fb_level_ok_def fb_links_def)
next
  case (Cons n ns')
  have n: "n \<in> set (Q s)" using sub Cons by simp
  have L: "fl_head l = hd_or (map fst ns)" "fl_tail l = last_or kNil (map fst ns)" "fb_seg (fb_pool b) kNil (map fst ns) kNil"
    "fl_total l = (\<Sum>n\<leftarrow>ns. rs_qty (snd n))" using l by (auto simp: fb_level_ok_def fb_links_def)
  have h: "fl_head l = fst n" using L(1) Cons by simp
  have "fb_check_chain b p s kNil 0 cnt (fl_head l) = Some (Inr (fl_tail l, fl_total l, cnt + length ns))"
    using fb_check_chain_ok[where Q = Q, OF core s sub p L(3), of 0 cnt] L by simp
  then show ?thesis using fb_addr_ok[where Q = Q, OF core s n] fb_node_fields(4)[where Q = Q, OF core s n] h e
    by (auto simp: fb_check_level_def)
qed

definition fb_count_from :: "fast_book \<Rightarrow> fqueues \<Rightarrow> nat \<Rightarrow> nat" where
  "fb_count_from b Q i = length (filter (\<lambda>n. int i \<le> fb_tick_index b (fn_price n)) (Q Buy)) +
     length (filter (\<lambda>n. int i \<le> fb_tick_index b (fn_price n)) (Q Sell))"

lemma length_filter_split:
  "(\<And>x. P x = (A x \<or> B x)) \<Longrightarrow> (\<And>x. \<not> (A x \<and> B x)) \<Longrightarrow> length (filter P xs) = length (filter A xs) + length (filter B xs)"
  by (induction xs) auto

lemma fb_count_step: "fb_count_from b Q i = length (fb_nodes b Q (InLadder i)) + fb_count_from b Q (i + 1)"
proof -
  have "length (filter (\<lambda>n. int i \<le> fb_tick_index b (fn_price n)) q) =
    length (filter (\<lambda>n. fb_tick_index b (fn_price n) = int i) q) + length (filter (\<lambda>n. int (i + 1) \<le> fb_tick_index b (fn_price n)) q)" for q
    by (rule length_filter_split) auto
  then show ?thesis by (simp add: fb_count_from_def fb_nodes_def fb_ref_simps(1))
qed

lemma fb_ladder_one_side:
  assumes core: "fb_core b Q"
  obtains s where "valid_side s" "set (fb_nodes b Q (InLadder i)) \<subseteq> set (Q s)"
    "\<forall>n\<in>set (fb_nodes b Q (InLadder i)). fn_price n = fb_price_at b (int i)"
proof -
  let ?ns = "fb_nodes b Q (InLadder i)"
  note C = fb_coreD[OF core]
  have p: "\<forall>n\<in>set ?ns. fn_price n = fb_price_at b (int i)"
  proof
    fix n assume "n \<in> set ?ns"
    then have "fb_tick_index b (fn_price n) = int i" by (auto simp: fb_nodes_def fb_ref_simps(1))
    then show "fn_price n = fb_price_at b (int i)" using fb_tick_price(1)[OF C(1), of "fn_price n"] by simp
  qed
  have "\<exists>s. valid_side s \<and> set ?ns \<subseteq> set (Q s)"
  proof (cases ?ns)
    case (Cons n ns)
    then have "n \<in> set ?ns" by simp
    then obtain s where s: "valid_side s" "n \<in> set (Q s)" by (auto simp: fb_nodes_def)
    have "m \<in> set (Q s)" if m: "m \<in> set ?ns" for m
    proof (rule ccontr)
      assume "m \<notin> set (Q s)"
      then have "m \<in> set (Q (opp s))" using m s(1) by (auto simp: fb_nodes_def opp_def)
      then have "fn_price m \<noteq> fn_price n" using fb_one_side[where Q = Q, OF C(2) s] by blast
      then show False using p m \<open>n \<in> set ?ns\<close> by simp
    qed
    then show ?thesis using s(1) by blast
  qed auto
  then show ?thesis using that p by blast
qed

lemma fb_check_ladder_ok:
  assumes core: "fb_core b Q"
  shows "ls = drop i (fb_ladder b) \<Longrightarrow> fb_check_ladder b i ls cnt = Some (Inr (cnt + fb_count_from b Q i))"
proof (induction ls arbitrary: i cnt)
  case Nil
  then have "\<not> int i \<le> fb_tick_index b p" for p
    using fb_tick_price(2)[OF fb_coreD(1)[OF core], of p] by auto
  then show ?case by (simp add: fb_count_from_def)
next
  case (Cons l ls)
  have i: "i < length (fb_ladder b)"
  proof (rule ccontr)
    assume "\<not> i < length (fb_ladder b)"
    then show False using Cons.prems by simp
  qed
  have "l # ls = fb_ladder b ! i # drop (Suc i) (fb_ladder b)" using Cons.prems Cons_nth_drop_Suc[OF i] by simp
  then have l: "l = fb_ladder b ! i" "ls = drop (i + 1) (fb_ladder b)" by simp_all
  have lo: "fb_level_ok (fb_pool b) l (fb_nodes b Q (InLadder i))"
    using fb_levels_okD(1)[OF fb_coreD(5)[OF core], of "InLadder i"] i l(1) by simp
  obtain s where s: "valid_side s" "set (fb_nodes b Q (InLadder i)) \<subseteq> set (Q s)"
    "\<forall>n\<in>set (fb_nodes b Q (InLadder i)). fn_price n = fb_price_at b (int i)" by (rule fb_ladder_one_side[OF core])
  have "fb_check_level b (fb_price_at b (int i)) l None cnt = Some (Inr (cnt + length (fb_nodes b Q (InLadder i))))"
    by (rule fb_check_level_ok[OF core s lo]) simp
  then show ?case using Cons.IH[OF l(2), of "cnt + length (fb_nodes b Q (InLadder i))"] fb_count_step[of b Q i] by (simp add: add.assoc)
qed

lemma fb_check_fallback_ok:
  assumes core: "fb_core b Q" and s: "valid_side s"
  shows "fb_listed b s L ps \<Longrightarrow> ps \<subseteq> fn_price ` set (Q s) \<Longrightarrow> \<forall>x\<in>set L. fl_head (snd x) \<noteq> kNil \<Longrightarrow>
    fb_check_fallback b s msg L cnt = Some (Inr (cnt + length (filter (\<lambda>n. fn_price n \<in> ps) (Q s))))"
proof (induction L arbitrary: ps cnt)
  case Nil
  then show ?case by (simp add: fb_listed_def)
next
  case (Cons x L)
  obtain p l where x: "x = (p, l)" by (cases x)
  let ?ns = "filter (\<lambda>n. fn_price n = p) (Q s)" and ?ps = "fst ` set L"
  have l: "level_at b (fb_ref b s p) = Some l" and d: "p \<notin> ?ps" "ps = insert p ?ps" "fb_listed b s L ?ps"
    using Cons.prems(1) by (auto simp: fb_listed_def x image_iff)
  then obtain n where n: "n \<in> set (Q s)" "fn_price n = p" using Cons.prems(2) by auto
  have opp: "\<forall>m\<in>set (Q (opp s)). fn_price m \<noteq> p" using fb_one_side[where Q = Q, OF fb_coreD(2)[OF core] s n(1)] n(2) by simp
  have "fb_level_ok (fb_pool b) l ?ns"
    using fb_levels_okD(1)[OF fb_coreD(5)[OF core] l] fb_nodes_ref[where Q = Q, OF fb_coreD(1)[OF core] s opp] by simp
  then have "fb_check_level b p l (Some s) cnt = Some (Inr (cnt + length ?ns))"
    by (intro fb_check_level_ok[where Q = Q, OF core s]) auto
  moreover have "length (filter (\<lambda>n. fn_price n \<in> ps) (Q s)) = length ?ns + length (filter (\<lambda>n. fn_price n \<in> ?ps) (Q s))"
    by (rule length_filter_split) (use d in auto)
  ultimately show ?case using Cons.IH[OF d(3), of "cnt + length ?ns"] Cons.prems d(2) by (simp add: x add.assoc)
qed

lemma fb_check_invariants_sim:
  assumes "fb_sim b sb"
  shows "\<exists>b'. fb_check_invariants b = Some (b', Inr ()) \<and> fb_sim b' sb"
proof -
  obtain Q where Q: "fb_rel b Q" "fb_spec b Q = sb" using assms by (auto simp: fb_sim_def)
  have core: "fb_core b Q" and tidy: "fb_tidy b" using Q(1) by (auto simp: fb_rel_def)
  note C = fb_coreD[OF core]
  let ?N = "\<lambda>s. length (filter (\<lambda>n. fn_price n \<in> {p \<in> fn_price ` set (Q s). fb_tick_index b p < 0}) (Q s))"
  have F: "fb_check_fallback b s msg (fb_side s b) cnt = Some (Inr (cnt + ?N s))" if "valid_side s" for s msg cnt
    using that tidy by (intro fb_check_fallback_ok[OF core that fb_listed_side[OF Q(1) that]]) (auto simp: fb_tidy_def)
  have L: "fb_check_ladder b 0 (fb_ladder b) 0 = Some (Inr (fb_count_from b Q 0))"
    using fb_check_ladder_ok[OF core, of "fb_ladder b" 0 0] by simp
  have "length (filter (\<lambda>n. True) (Q s)) = length (filter (\<lambda>n. 0 \<le> fb_tick_index b (fn_price n)) (Q s)) +
    length (filter (\<lambda>n. fb_tick_index b (fn_price n) < 0) (Q s))" for s by (rule length_filter_split) auto
  moreover have "?N s = length (filter (\<lambda>n. fb_tick_index b (fn_price n) < 0) (Q s))" for s
    by (intro arg_cong[where f = length] filter_cong) auto
  ultimately have "fb_count_from b Q 0 + ?N Buy + ?N Sell = length (Q Buy) + length (Q Sell)" by (simp add: fb_count_from_def)
  moreover have "fm_size (fb_index b) = length (Q Buy) + length (Q Sell)"
  proof -
    have d: "distinct (map fst (fb_entries Q))" using C(2) fb_entries_ids[of Q b] by (simp add: spec_inv_def)
    have "fm_size (fb_index b) = card (dom (map_of (fb_entries Q)))" using C(3) fm.size_ok[of "fb_index b"] by (auto simp: fb_index_ok_def)
    then show ?thesis using length_alist_dom[OF d] by (simp add: fb_entries_def)
  qed
  moreover obtain b1 where b1: "fb_best_bid b = Some (b1, spec_best Buy sb)" "fb_sim b1 sb" using fb_best_sim(1)[OF assms] by blast
  moreover obtain b2 where b2: "fb_best_ask b1 = Some (b2, spec_best Sell sb)" "fb_sim b2 sb" using fb_best_sim(2)[OF b1(2)] by blast
  moreover have "\<forall>x y. spec_best Buy sb = Some x \<longrightarrow> spec_best Sell sb = Some y \<longrightarrow> x < y"
    using fb_sim_spec[OF assms] by (auto simp: spec_best_def spec_inv_def queue_of_def split: list.splits)
  ultimately have "fb_check_invariants b = Some (b2, Inr ())"
    using L F[of Buy] F[of Sell] by (auto simp: fb_check_invariants_def split: option.split)
  then show ?thesis using b2(2) by blast
qed

section \<open>Matchable quantity\<close>

definition qsum :: "(fnode \<Rightarrow> bool) \<Rightarrow> fnode list \<Rightarrow> qty" where
  "qsum P q = (\<Sum>n\<leftarrow>filter P q. rs_qty (snd n))"

lemma qsum_split: "(\<And>x. P x = (A x \<or> B x)) \<Longrightarrow> (\<And>x. \<not> (A x \<and> B x)) \<Longrightarrow> qsum P q = qsum A q + qsum B q"
  by (induction q) (auto simp: qsum_def)

lemma qsum_none: "(\<And>n. n \<in> set q \<Longrightarrow> \<not> P n) \<Longrightarrow> qsum P q = 0"
  by (induction q) (auto simp: qsum_def)

lemma qsum_cong: "(\<And>n. n \<in> set q \<Longrightarrow> P n = P' n) \<Longrightarrow> qsum P q = qsum P' q"
  unfolding qsum_def by (metis (no_types, lifting) filter_cong)

lemma fb_ladder_total:
  assumes core: "fb_core b Q" and s: "valid_side s" and t: "int j \<in> fb_ticks b Q s" "j < length (fb_ladder b)"
  shows "fl_total (fb_ladder b ! j) = qsum (\<lambda>n. fb_tick_index b (fn_price n) = int j) (Q s)"
proof -
  note C = fb_coreD[OF core]
  obtain n where n: "n \<in> set (Q s)" "fb_tick_index b (fn_price n) = int j" using t(1) by (auto simp: fb_ticks_def)
  have r: "fb_ref b s (fn_price n) = InLadder j" using n(2) by (simp add: fb_ref_simps(1))
  have "fb_level_ok (fb_pool b) (fb_ladder b ! j) (filter (\<lambda>m. fn_price m = fn_price n) (Q s))"
    using fb_levels_okD(1)[OF C(5), of "InLadder j"] t(2) fb_nodes_ref[where Q = Q, OF C(1) s fb_one_side[where Q = Q, OF C(2) s n(1)]] r
    by simp
  moreover have "fn_price m = fn_price n \<longleftrightarrow> fb_tick_index b (fn_price m) = int j" for m
    using n(2) fb_tick_price(1)[OF C(1), of "fn_price m"] fb_tick_price(1)[OF C(1), of "fn_price n"] by auto
  ultimately show ?thesis by (simp add: fb_level_ok_def qsum_def)
qed

text \<open>The quantity at one tick of the ladder that is within the limit.\<close>

lemma fb_tick_qsum:
  assumes core: "fb_core b Q" and s: "valid_side s" and t: "t \<in> fb_ticks b Q s" "0 \<le> t"
  shows "level_at b (InLadder (nat t)) = Some l \<Longrightarrow>
    qsum (\<lambda>n. fb_tick_index b (fn_price n) = t \<and> P (fn_price n)) (Q s) = (if P (fb_price_at b t) then fl_total l else 0)"
proof -
  assume l: "level_at b (InLadder (nat t)) = Some l"
  have p: "fb_tick_index b p = t \<Longrightarrow> p = fb_price_at b t" for p
    using fb_tick_price(1)[OF fb_coreD(1)[OF core], of p] t(2) by simp
  have "fl_total l = qsum (\<lambda>n. fb_tick_index b (fn_price n) = t) (Q s)"
    using fb_ladder_total[where Q = Q, OF core s, of "nat t"] t l by (auto split: if_splits)
  moreover have "qsum (\<lambda>n. fb_tick_index b (fn_price n) = t \<and> P (fn_price n)) (Q s) =
    (if P (fb_price_at b t) then qsum (\<lambda>n. fb_tick_index b (fn_price n) = t) (Q s) else 0)"
    using p by (auto intro!: qsum_cong qsum_none)
  ultimately show ?thesis by simp
qed

text \<open>The loops over the ladder, upwards for asks and downwards for bids.\<close>

lemma fb_matchable_asks_ok:
  assumes "fb_core b Q" "fb_band_set b"
  shows "0 \<le> t \<Longrightarrow> fb_matchable_asks b limit t =
    Some (qsum (\<lambda>n. t \<le> fb_tick_index b (fn_price n) \<and> fn_price n \<le> limit) (Q Sell))"
  using assms
proof (induction b limit t rule: fb_matchable_asks.induct)
  case (1 b limit t)
  note core = 1(4) and band = 1(5)
  note tick = fb_coreD(1)[OF core]
  show ?case
  proof (cases "t < int (length (fb_ladder b))")
    case False
    then have "\<not> t \<le> fb_tick_index b p" for p using fb_tick_price(2)[OF tick, of p] 1(3) by auto
    then show ?thesis using False by (subst fb_matchable_asks.simps) (simp add: qsum_none)
  next
    case True
    obtain l where l: "level_at b (InLadder (nat t)) = Some l" "fb_head_side b Sell l = Some (t \<in> fb_ticks b Q Sell)"
      using fb_ladder_level[OF core _ band 1(3) True, of Sell] by auto
    have split: "qsum (\<lambda>n. t \<le> fb_tick_index b (fn_price n) \<and> fn_price n \<le> limit) (Q Sell) =
      qsum (\<lambda>n. fb_tick_index b (fn_price n) = t \<and> fn_price n \<le> limit) (Q Sell) +
      qsum (\<lambda>n. t + 1 \<le> fb_tick_index b (fn_price n) \<and> fn_price n \<le> limit) (Q Sell)"
      by (intro qsum_split) auto
    show ?thesis
    proof (cases "t \<in> fb_ticks b Q Sell")
      case False
      have "fb_matchable_asks b limit t = fb_matchable_asks b limit (t + 1)"
        using l True False 1(3) by (subst fb_matchable_asks.simps) simp
      moreover have "qsum (\<lambda>n. fb_tick_index b (fn_price n) = t \<and> fn_price n \<le> limit) (Q Sell) = 0"
        using False by (intro qsum_none) (auto simp: fb_ticks_def)
      ultimately show ?thesis using 1(1)[of l False] l True False 1(3) core band split by simp
    next
      case found: True
      note S = fb_tick_qsum[where Q = Q and P = "\<lambda>p. p \<le> limit", OF core _ found 1(3) l(1)]
      show ?thesis
      proof (cases "fb_price_at b t > limit")
        case over: True
        have "\<not> (t \<le> fb_tick_index b p \<and> p \<le> limit)" for p
          using fb_price_at_mono(2)[OF tick, of t "fb_tick_index b p"] fb_tick_price(1)[OF tick, of p] over 1(3) by auto
        then show ?thesis using l True found over 1(3) by (subst fb_matchable_asks.simps) (simp add: qsum_none)
      next
        case False
        then show ?thesis using 1(2)[of l True] l True found 1(3) core band split S
          by (subst fb_matchable_asks.simps) simp
      qed
    qed
  qed
qed

lemma fb_matchable_bids_ok:
  assumes "fb_core b Q" "fb_band_set b"
  shows "t < int (length (fb_ladder b)) \<Longrightarrow> fb_matchable_bids b limit t =
    Some (qsum (\<lambda>n. 0 \<le> fb_tick_index b (fn_price n) \<and> fb_tick_index b (fn_price n) \<le> t \<and> fn_price n \<ge> limit) (Q Buy))"
  using assms
proof (induction b limit t rule: fb_matchable_bids.induct)
  case (1 b limit t)
  note core = 1(4) and band = 1(5)
  note tick = fb_coreD(1)[OF core]
  show ?case
  proof (cases "0 \<le> t")
    case False
    then show ?thesis by (subst fb_matchable_bids.simps) (simp add: qsum_none)
  next
    case True
    obtain l where l: "level_at b (InLadder (nat t)) = Some l" "fb_head_side b Buy l = Some (t \<in> fb_ticks b Q Buy)"
      using fb_ladder_level[OF core _ band True 1(3), of Buy] by auto
    have split: "qsum (\<lambda>n. 0 \<le> fb_tick_index b (fn_price n) \<and> fb_tick_index b (fn_price n) \<le> t \<and> fn_price n \<ge> limit) (Q Buy) =
      qsum (\<lambda>n. fb_tick_index b (fn_price n) = t \<and> fn_price n \<ge> limit) (Q Buy) +
      qsum (\<lambda>n. 0 \<le> fb_tick_index b (fn_price n) \<and> fb_tick_index b (fn_price n) \<le> t - 1 \<and> fn_price n \<ge> limit) (Q Buy)"
      using True by (intro qsum_split) auto
    show ?thesis
    proof (cases "t \<in> fb_ticks b Q Buy")
      case False
      have "fb_matchable_bids b limit t = fb_matchable_bids b limit (t - 1)"
        using l True False by (subst fb_matchable_bids.simps) simp
      moreover have "qsum (\<lambda>n. fb_tick_index b (fn_price n) = t \<and> fn_price n \<ge> limit) (Q Buy) = 0"
        using False by (intro qsum_none) (auto simp: fb_ticks_def)
      ultimately show ?thesis using 1(1)[of l False] l True False 1(3) core band split by simp
    next
      case found: True
      note S = fb_tick_qsum[where Q = Q and P = "\<lambda>p. p \<ge> limit", OF core _ found True l(1)]
      show ?thesis
      proof (cases "fb_price_at b t < limit")
        case under: True
        have "\<not> (0 \<le> fb_tick_index b p \<and> fb_tick_index b p \<le> t \<and> p \<ge> limit)" for p
          using fb_price_at_mono(2)[OF tick, of "fb_tick_index b p" t] fb_tick_price(1)[OF tick, of p] under by auto
        then show ?thesis using l True found under by (subst fb_matchable_bids.simps) (simp add: qsum_none)
      next
        case False
        then show ?thesis using 1(2)[of l True] l True found 1(3) core band split S
          by (subst fb_matchable_bids.simps) simp
      qed
    qed
  qed
qed

lemma fb_matchable_fallback_ok:
  assumes core: "fb_core b Q" and s: "valid_side side"
  shows "fb_listed b (opp side) L ps \<Longrightarrow> ps \<subseteq> fn_price ` set (Q (opp side)) \<Longrightarrow> sorted_wrt (better (opp side)) (map fst L) \<Longrightarrow>
    fb_matchable_fallback side limit L = qsum (\<lambda>n. fn_price n \<in> ps \<and> crosses side limit (fn_price n)) (Q (opp side))"
proof (induction L arbitrary: ps)
  case Nil
  then show ?case by (simp add: fb_listed_def qsum_none)
next
  case (Cons x L)
  let ?o = "opp side"
  obtain p l where x: "x = (p, l)" by (cases x)
  have o: "valid_side ?o" by simp
  let ?ps = "fst ` set L"
  have l: "level_at b (fb_ref b ?o p) = Some l" and d: "p \<notin> ?ps" "ps = insert p ?ps" "fb_listed b ?o L ?ps"
    using Cons.prems(1) by (auto simp: fb_listed_def x image_iff)
  then obtain n where n: "n \<in> set (Q ?o)" "fn_price n = p" using Cons.prems(2) by auto
  have opp: "\<forall>m\<in>set (Q (opp ?o)). fn_price m \<noteq> p" using fb_one_side[where Q = Q, OF fb_coreD(2)[OF core] o n(1)] n(2) by simp
  have "fb_level_ok (fb_pool b) l (filter (\<lambda>n. fn_price n = p) (Q ?o))"
    using fb_levels_okD(1)[OF fb_coreD(5)[OF core] l] fb_nodes_ref[where Q = Q, OF fb_coreD(1)[OF core] o opp] by simp
  then have tot: "fl_total l = qsum (\<lambda>n. fn_price n = p) (Q ?o)" by (simp add: fb_level_ok_def qsum_def)
  have worse: "better ?o p p'" if "p' \<in> ?ps" for p' using Cons.prems(3) that by (auto simp: x)
  have c: "(if side = Buy then p > limit else p < limit) = (\<not> crosses side limit p)" using s by auto
  show ?case
  proof (cases "crosses side limit p")
    case False
    have "\<not> crosses side limit p'" if "p' \<in> ?ps" for p'
      using False worse[OF that] crosses_better[of side limit p' p] better.asym by blast
    then have "qsum (\<lambda>n. fn_price n \<in> ps \<and> crosses side limit (fn_price n)) (Q ?o) = 0"
      using False d(2) by (intro qsum_none) auto
    then show ?thesis using False c by (simp add: x)
  next
    case True
    have "qsum (\<lambda>n. fn_price n \<in> ps \<and> crosses side limit (fn_price n)) (Q ?o) =
      qsum (\<lambda>n. fn_price n = p) (Q ?o) + qsum (\<lambda>n. fn_price n \<in> ?ps \<and> crosses side limit (fn_price n)) (Q ?o)"
      using True d(1,2) by (intro qsum_split) auto
    then show ?thesis using True c tot Cons.IH[OF d(3)] Cons.prems d(2) by (simp add: x)
  qed
qed

lemma fb_matchable_ladder:
  assumes rel: "fb_rel b Q" and s: "valid_side side" and lad: "fb_lad b Q (opp side) t"
  shows "(if side = Buy then fb_matchable_asks b limit t else fb_matchable_bids b limit t) =
    Some (qsum (\<lambda>n. 0 \<le> fb_tick_index b (fn_price n) \<and> crosses side limit (fn_price n)) (Q (opp side)))"
proof (cases "0 \<le> t")
  case False
  then have "qsum (\<lambda>n. 0 \<le> fb_tick_index b (fn_price n) \<and> crosses side limit (fn_price n)) (Q (opp side)) = 0"
    using lad by (intro qsum_none) (auto simp: fb_lad_def fb_ticks_def)
  then show ?thesis using False by (subst fb_matchable_asks.simps, subst fb_matchable_bids.simps) simp
next
  case True
  have core: "fb_core b Q" using rel by (simp add: fb_rel_def)
  have t: "t \<in> fb_ticks b Q (opp side)" using lad True by (simp add: fb_lad_def)
  have band: "fb_band_set b" using fb_coreD(9)[OF core] t s by (auto simp: fb_ticks_def opp_def split: if_splits)
  have tl: "t < int (length (fb_ladder b))" by (rule fb_ticks_bound[OF core t True])
  have u: "\<not> better (opp side) (fb_tick_index b (fn_price n)) t" if "n \<in> set (Q (opp side))" "0 \<le> fb_tick_index b (fn_price n)" for n
    using lad that by (auto simp: fb_lad_def fb_ticks_def)
  from s show ?thesis
  proof
    assume S: "side = Buy"
    have "qsum (\<lambda>n. t \<le> fb_tick_index b (fn_price n) \<and> fn_price n \<le> limit) (Q Sell) =
      qsum (\<lambda>n. 0 \<le> fb_tick_index b (fn_price n) \<and> crosses side limit (fn_price n)) (Q Sell)"
      using u True by (intro qsum_cong) (force simp: S)
    then show ?thesis using fb_matchable_asks_ok[OF core band True, of limit] S by simp
  next
    assume S: "side = Sell"
    have "qsum (\<lambda>n. 0 \<le> fb_tick_index b (fn_price n) \<and> fb_tick_index b (fn_price n) \<le> t \<and> fn_price n \<ge> limit) (Q Buy) =
      qsum (\<lambda>n. 0 \<le> fb_tick_index b (fn_price n) \<and> crosses side limit (fn_price n)) (Q Buy)"
      using u True by (intro qsum_cong) (force simp: S)
    then show ?thesis using fb_matchable_bids_ok[OF core band tl, of limit] S by simp
  qed
qed

lemma fb_matchable_sim:
  assumes sim: "fb_sim b sb" and s: "valid_side side"
  shows "\<exists>b'. fb_matchable b side limit = Some (b', spec_matchable sb side limit) \<and> fb_sim b' sb"
proof -
  let ?o = "opp side"
  obtain Q where Q: "fb_rel b Q" "fb_spec b Q = sb" using sim by (auto simp: fb_sim_def)
  obtain b1 t where t: "fb_ladder_opp b side = Some (b1, t)" "fb_query b b1" "fb_rel b1 Q" "fb_lad b Q ?o t"
    using fb_ladder_opp_ok[OF Q(1) s] by blast
  have lad: "fb_lad b1 Q ?o t" using t(4) fb_ticks_geo[OF fb_query_geo[OF t(2)]] by (simp add: fb_lad_def)
  have core: "fb_core b1 Q" using t(3) by (simp add: fb_rel_def)
  have o: "valid_side ?o" by simp
  let ?K = "{p \<in> fn_price ` set (Q ?o). fb_tick_index b1 p < 0}"
  have F: "fb_matchable_fallback side limit (fb_side ?o b1) = qsum (\<lambda>n. fn_price n \<in> ?K \<and> crosses side limit (fn_price n)) (Q ?o)"
    by (rule fb_matchable_fallback_ok[OF core s fb_listed_side[OF t(3) o]]) (use fb_side_sorted[OF fb_coreD(7)[OF core] o] in auto)
  have "qsum (\<lambda>n. fn_price n \<in> ?K \<and> crosses side limit (fn_price n)) (Q ?o) =
      qsum (\<lambda>n. fb_tick_index b1 (fn_price n) < 0 \<and> crosses side limit (fn_price n)) (Q ?o)"
    by (rule qsum_cong) auto
  moreover have "qsum (\<lambda>n. crosses side limit (fn_price n)) (Q ?o) =
    qsum (\<lambda>n. 0 \<le> fb_tick_index b1 (fn_price n) \<and> crosses side limit (fn_price n)) (Q ?o) +
    qsum (\<lambda>n. fb_tick_index b1 (fn_price n) < 0 \<and> crosses side limit (fn_price n)) (Q ?o)"
    by (rule qsum_split) auto
  moreover have "spec_matchable sb side limit = qsum (\<lambda>n. crosses side limit (fn_price n)) (Q ?o)"
    using Q(2) o by (auto simp: spec_matchable_def qsum_def filter_map comp_def)
  ultimately have "fb_matchable b side limit = Some (b1, spec_matchable sb side limit)"
    using fb_matchable_ladder[OF t(3) s lad, of limit] F t(1) s by (auto simp: fb_matchable_def split: if_splits)
  then show ?thesis using fb_sim_query[OF t(2,3) Q(2)] by blast
qed

end
