(* ===== verification/Fast_Book_Props.thy ===== *)
theory Fast_Book_Props
  imports Fast_Book_Sim Order_Book_Refine
begin

text \<open>
  What the optimised book guarantees: it behaves exactly as the reference book, every operation on
  a book its operations can reach returns, its invariant check never fails, and the quantity it
  reports as matchable is the 32-bit sum of what could trade.
\<close>

section \<open>Reachable books\<close>

text \<open>Every public operation that changes the book, the queries that move a cursor included.\<close>

inductive fb_reachable :: "fast_book \<Rightarrow> bool" where
  fb_reachable_new: "fb_config_ok cfg \<Longrightarrow> fb_reachable (fb_new cfg)"
| fb_reachable_add: "fb_reachable b \<Longrightarrow> valid_side side \<Longrightarrow> fm_size (fb_index b) < 2 ^ 32 - 1 \<Longrightarrow>
    fb_add b oid side p q = Some (b', evs, r) \<Longrightarrow> fb_reachable b'"
| fb_reachable_ioc: "fb_reachable b \<Longrightarrow> valid_side side \<Longrightarrow>
    fb_execute_ioc b oid side p q = Some (b', filled, evs) \<Longrightarrow> fb_reachable b'"
| fb_reachable_cancel: "fb_reachable b \<Longrightarrow> fb_cancel b oid keep = Some (b', evs, f) \<Longrightarrow> fb_reachable b'"
| fb_reachable_replace: "fb_reachable b \<Longrightarrow> fm_size (fb_index b) < 2 ^ 32 - 1 \<Longrightarrow>
    fb_replace b old_id new_id p q = Some (b', evs, f) \<Longrightarrow> fb_reachable b'"
| fb_reachable_best_bid: "fb_reachable b \<Longrightarrow> fb_best_bid b = Some (b', r) \<Longrightarrow> fb_reachable b'"
| fb_reachable_best_ask: "fb_reachable b \<Longrightarrow> fb_best_ask b = Some (b', r) \<Longrightarrow> fb_reachable b'"
| fb_reachable_matchable: "fb_reachable b \<Longrightarrow> valid_side side \<Longrightarrow> fb_matchable b side limit = Some (b', q) \<Longrightarrow> fb_reachable b'"
| fb_reachable_check: "fb_reachable b \<Longrightarrow> fb_check_invariants b = Some (b', r) \<Longrightarrow> fb_reachable b'"

lemma fb_sim_size:
  assumes "fb_sim b sb"
  shows "fm_size (fb_index b) = length (sb_bids sb) + length (sb_asks sb)"
proof -
  obtain Q where Q: "fb_rel b Q" "fb_spec b Q = sb" using assms by (auto simp: fb_sim_def)
  note C = fb_coreD[OF conjunct1[OF Q(1)[unfolded fb_rel_def]]]
  have "fm_size (fb_index b) = card (dom (map_of (fb_entries Q)))"
    using C(3) fm.size_ok[of "fb_index b"] by (simp add: fb_index_ok_def)
  also have "\<dots> = card (set (map fst (fb_entries Q)))" by (simp add: dom_map_of_conv_image_fst)
  also have "\<dots> = length (map fst (fb_entries Q))"
    using C(2) fb_entries_ids[of Q b] by (intro distinct_card) (simp add: spec_inv_def)
  finally show ?thesis using Q(2) by (auto simp: fb_entries_def fb_spec_def)
qed

lemma fb_sim_room: "fb_sim b sb \<Longrightarrow> fm_size (fb_index b) < 2 ^ 32 - 1 \<Longrightarrow> fb_room sb"
  by (simp add: fb_room_def fb_sim_size)

lemma fb_reachable_sim: "fb_reachable b \<Longrightarrow> \<exists>sb. fb_sim b sb"
proof (induction rule: fb_reachable.induct)
  case (fb_reachable_new cfg)
  then show ?case using fb_new_sim by blast
next
  case (fb_reachable_add b side oid p q b' evs r)
  then obtain sb where sb: "fb_sim b sb" by blast
  obtain sb' e r' where "spec_add sb oid side p q = (sb', e, r')" by (metis prod_cases3)
  from fb_add_sim[OF sb fb_reachable_add(2) fb_sim_room[OF sb fb_reachable_add(3)] this] fb_reachable_add(4)
  show ?case by auto
next
  case (fb_reachable_ioc b side oid p q b' filled evs)
  then obtain sb where sb: "fb_sim b sb" by blast
  obtain sb' e f where "spec_match oid side p q sb = (sb', e, f)" by (metis prod_cases3)
  from fb_execute_ioc_sim[OF sb fb_reachable_ioc(2) this] fb_reachable_ioc(3) show ?case by auto
next
  case (fb_reachable_cancel b oid keep b' evs f)
  then obtain sb where sb: "fb_sim b sb" by blast
  obtain sb' e f' where "spec_cancel sb oid keep = (sb', e, f')" by (metis prod_cases3)
  from fb_cancel_sim[OF sb this] fb_reachable_cancel(2) show ?case by auto
next
  case (fb_reachable_replace b old_id new_id p q b' evs f)
  then obtain sb where sb: "fb_sim b sb" by blast
  obtain sb' e f' where "spec_replace sb old_id new_id p q = (sb', e, f')" by (metis prod_cases3)
  from fb_replace_sim[OF sb fb_sim_room[OF sb fb_reachable_replace(2)] this] fb_reachable_replace(3) show ?case by auto
next
  case (fb_reachable_best_bid b b' r)
  then show ?case using fb_best_sim(1) by fastforce
next
  case (fb_reachable_best_ask b b' r)
  then show ?case using fb_best_sim(2) by fastforce
next
  case (fb_reachable_matchable b side limit b' q)
  then obtain sb where "fb_sim b sb" by blast
  from fb_matchable_sim[OF this fb_reachable_matchable(2), of limit] fb_reachable_matchable(3) show ?case by auto
next
  case (fb_reachable_check b b' r)
  then show ?case using fb_check_invariants_sim by fastforce
qed

text \<open>A sequence of fewer than \<open>2 ^ 32\<close> commands cannot fill the pool: each adds at most one order.\<close>

lemma room_run_short: "spec_size sb + length cs < 2 ^ 32 - 1 \<Longrightarrow> room_run fb_room sb cs"
proof (induction cs arbitrary: sb)
  case (Cons c cs)
  moreover have "spec_size (fst (spec_step sb c)) + length cs < 2 ^ 32 - 1"
    using Cons.prems spec_step_size[of sb c] by simp
  ultimately show ?case by (simp add: fb_room_def spec_size_def)
qed simp

section \<open>Both books\<close>

interpretation books: two_books ob_sim "\<lambda>_. True" "\<lambda>b. b = ob_empty" ob_add_opt ob_cancel ob_replace
    "\<lambda>b. Some (ob_snapshot b)" fb_sim fb_room fb_fresh fb_add fb_cancel fb_replace fb_snapshot
  by unfold_locales

text \<open>Books that a sequence of commands leads to, and one for the examples.\<close>

lemma fb_run_reachable:
  "fb_reachable b \<Longrightarrow> fb_sim b sb \<Longrightarrow> \<forall>c\<in>set cs. valid_cmd c \<Longrightarrow> room_run fb_room sb cs \<Longrightarrow>
   book_run fb_add fb_cancel fb_replace b cs = Some (b', outs) \<Longrightarrow> fb_reachable b'"
proof (induction cs arbitrary: b sb outs)
  case (Cons c cs)
  obtain sb1 r where s: "spec_step sb c = (sb1, r)" by (metis surj_pair)
  have room: "fb_room sb" "room_run fb_room sb1 cs" using Cons.prems(4) s by auto
  obtain b1 where b1: "book_step fb_add fb_cancel fb_replace b c = Some (b1, r)" "fb_sim b1 sb1"
    using fast.step_ok[OF Cons.prems(2) _ room(1) s] Cons.prems(3) by auto
  have sz: "fm_size (fb_index b) < 2 ^ 32 - 1" using room(1) fb_sim_size[OF Cons.prems(2)] by (simp add: fb_room_def)
  have "fb_reachable b1" using b1(1) Cons.prems(1,3) sz
    by (cases c) (auto intro: fb_reachable_add fb_reachable_cancel fb_reachable_replace)
  moreover obtain outs1 where "book_run fb_add fb_cancel fb_replace b1 cs = Some (b', outs1)"
    using Cons.prems(5) b1(1) by (auto simp: bind_eq_Some_conv)
  ultimately show ?case using Cons.IH[OF _ b1(2) _ room(2)] Cons.prems(3) by auto
qed simp

definition fb_small :: fb_config where
  "fb_small = \<lparr>fc_tick = 1, fc_band_half_ticks = 2, fc_expected_orders = 2\<rparr>"

definition fb_demo_cmds :: "book_cmd list" where
  "fb_demo_cmds = [Add 1 Sell 100 5, Add 2 Sell 101 4, Add 3 Sell 200 7, Add 4 Buy 95 6]"

definition fb_demo :: fast_book where
  "fb_demo = (case book_run fb_add fb_cancel fb_replace (fb_new fb_small) fb_demo_cmds of
     Some (b, outs) \<Rightarrow> b | None \<Rightarrow> fb_new fb_small)"

lemma fb_demo_reachable: "fb_reachable fb_demo"
proof -
  have ok: "fb_config_ok fb_small" by (simp add: fb_config_ok_def fb_small_def)
  note new = fb_reachable_new[OF ok]
  have "room_run fb_room spec_empty fb_demo_cmds" "\<forall>c\<in>set fb_demo_cmds. valid_cmd c"
    by (rule room_run_short) (simp_all add: spec_size_def spec_empty_def fb_demo_cmds_def)
  from fb_run_reachable[OF new fb_new_sim[OF ok] this(2,1)] new show ?thesis
    unfolding fb_demo_def by (auto split: option.splits)
qed

section \<open>Properties\<close>

text \<open>
  C2. The optimised book cannot be told from the reference book: whatever sequence of adds, cancels and
  replaces both are given, every event, every result and the final snapshot agree. In particular no
  matching loop of either runs forever and no access is out of bounds.
\<close>

theorem fast_book_equals_reference:
  assumes "fb_config_ok cfg" "\<forall>c\<in>set cs. valid_cmd c" "length cs < 2 ^ 32 - 1"
  shows "\<exists>a b outs. book_run ob_add_opt ob_cancel ob_replace ob_empty cs = Some (a, outs) \<and>
    book_run fb_add fb_cancel fb_replace (fb_new cfg) cs = Some (b, outs) \<and>
    fb_snapshot b = Some (ob_snapshot a)"
proof -
  have "room_run fb_room spec_empty cs"
    using assms(3) by (intro room_run_short) (simp add: spec_size_def spec_empty_def)
  moreover have "fb_fresh (fb_new cfg)" using assms(1) by (simp add: fb_fresh_def fb_new_def)
  ultimately show ?thesis
    using books.runs_agree[OF refl _ assms(2) room_run_True, of "fb_new cfg"] by metis
qed

theorem fast_book_equals_reference_witness:
  "\<exists>a b outs. book_run ob_add_opt ob_cancel ob_replace ob_empty [Add 1 Sell 100 5, Add 2 Buy 120 7, Replace 2 3 99 1] = Some (a, outs) \<and>
     book_run fb_add fb_cancel fb_replace (fb_new fb_default_config) [Add 1 Sell 100 5, Add 2 Buy 120 7, Replace 2 3 99 1] = Some (b, outs) \<and>
     fb_snapshot b = Some (ob_snapshot a)"
  by (rule fast_book_equals_reference[OF fb_default_config_ok]) simp_all

text \<open>
  C16. On every reachable book every operation of the optimised book returns: the matching loop, the
  cursor scans, the level chains and the probe sequences of the index end, and no operation touches
  a pool slot, a level or an index entry that does not exist.
\<close>

theorem fb_operations_return:
  assumes "fb_reachable b" "valid_side side" "fm_size (fb_index b) < 2 ^ 32 - 1"
  shows "(\<exists>b' evs r. fb_add b oid side p q = Some (b', evs, r)) \<and> (\<exists>b' evs f. fb_cancel b oid q = Some (b', evs, f)) \<and>
    (\<exists>b' evs f. fb_replace b oid new_id p q = Some (b', evs, f)) \<and>
    (\<exists>b' evs n. fb_execute_ioc b oid side p q = Some (b', n, evs)) \<and> (\<exists>b' n. fb_matchable b side p = Some (b', n)) \<and>
    (\<exists>b' r. fb_best_bid b = Some (b', r)) \<and> (\<exists>b' r. fb_best_ask b = Some (b', r)) \<and>
    (\<exists>f. fb_contains b oid = Some f) \<and> (\<exists>sn. fb_snapshot b = Some sn)"
proof -
  obtain sb where sb: "fb_sim b sb" using fb_reachable_sim[OF assms(1)] by blast
  note room = fb_sim_room[OF sb assms(3)]
  obtain a1 a2 a3 where a: "spec_add sb oid side p q = (a1, a2, a3)" by (metis prod_cases3)
  obtain c1 c2 c3 where c: "spec_cancel sb oid q = (c1, c2, c3)" by (metis prod_cases3)
  obtain r1 r2 r3 where r: "spec_replace sb oid new_id p q = (r1, r2, r3)" by (metis prod_cases3)
  obtain m1 m2 m3 where m: "spec_match oid side p q sb = (m1, m2, m3)" by (metis prod_cases3)
  show ?thesis using fb_add_sim[OF sb assms(2) room a] fb_cancel_sim[OF sb c] fb_replace_sim[OF sb room r]
    fb_execute_ioc_sim[OF sb assms(2) m] fb_matchable_sim[OF sb assms(2)] fb_best_sim[OF sb] fb_snapshot_sim[OF sb]
    fb_find_index(1)[OF sb, of oid] unfolding fb_contains_def by metis
qed

theorem fb_operations_return_witness:
  "\<exists>b' evs r. fb_add fb_demo 9 Buy 150 8 = Some (b', evs, r)"
proof -
  have "fm_size (fb_index fb_demo) = 4" by code_simp
  then show ?thesis using fb_operations_return[OF fb_demo_reachable, of Buy] by simp
qed

text \<open>
  C17. \<^verbatim>\<open>FastBook::check_invariants\<close> never throws on a reachable book, and leaves what the book shows
  as it is: chains are linked both ways, level totals are the sums of their orders, no fallback
  level is empty, every order is indexed, and the book is neither crossed nor locked.
\<close>

theorem fb_check_invariants_never_fails:
  assumes "fb_reachable b"
  shows "\<exists>b'. fb_check_invariants b = Some (b', Inr ()) \<and> fb_snapshot b' = fb_snapshot b"
proof -
  obtain sb where sb: "fb_sim b sb" using fb_reachable_sim[OF assms] by blast
  from fb_check_invariants_sim[OF this] obtain b' where "fb_check_invariants b = Some (b', Inr ())" "fb_sim b' sb" by blast
  then show ?thesis using fb_snapshot_sim sb by metis
qed

theorem fb_check_invariants_never_fails_witness: "\<exists>b'. fb_check_invariants fb_demo = Some (b', Inr ())"
  using fb_check_invariants_never_fails[OF fb_demo_reachable] by blast

text \<open>
  C25. \<^verbatim>\<open>matchable\<close> is the sum of the quantities of the opposite orders within the limit, modulo
  \<open>2 ^ 32\<close>, and changes nothing a snapshot shows; below \<open>2 ^ 32\<close> shares it is exact.
\<close>

theorem fb_matchable_is_available:
  assumes "fb_reachable b" "valid_side side" "fb_snapshot b = Some sn"
  shows "\<exists>b' q. fb_matchable b side limit = Some (b', q) \<and> fb_snapshot b' = Some sn \<and>
    unat q = avail side limit (snap_orders (snap_side (opp side) sn)) mod 2 ^ 32"
proof -
  obtain sb where sb: "fb_sim b sb" using fb_reachable_sim[OF assms(1)] by blast
  then have "sn = spec_snapshot sb" using fb_snapshot_sim assms(3) by auto
  then show ?thesis using fb_matchable_sim[OF sb assms(2), of limit] fb_snapshot_sim unat_matchable[of sb side limit] by auto
qed

theorem fb_matchable_is_available_witness:
  "\<exists>b' q. fb_matchable fb_demo Buy 150 = Some (b', q) \<and> unat q = 9"
proof -
  let ?sn = "the (fb_snapshot fb_demo)"
  have sn: "fb_snapshot fb_demo = Some ?sn" "avail Buy 150 (snap_orders (snap_side (opp Buy) ?sn)) = 9" by code_simp+
  from fb_matchable_is_available[OF fb_demo_reachable _ sn(1), of Buy 150] sn(2) show ?thesis by auto
qed

text \<open>
  C24. An immediate-or-cancel execution fills exactly the smaller of its quantity and what is
  available within its limit, takes exactly that from the opposite side, and never rests: its own
  side of the book stays as it is.
\<close>

theorem fb_execute_ioc_fills_available:
  assumes "fb_reachable b" "valid_side side" "fb_snapshot b = Some sn"
  shows "\<exists>b' filled evs sn'. fb_execute_ioc b oid side limit q = Some (b', filled, evs) \<and> fb_snapshot b' = Some sn' \<and>
    unat filled = min (unat q) (avail side limit (snap_orders (snap_side (opp side) sn))) \<and>
    shares (snap_orders (snap_side (opp side) sn)) = shares (snap_orders (snap_side (opp side) sn')) + unat filled \<and>
    snap_side side sn' = snap_side side sn"
proof -
  obtain sb where sb: "fb_sim b sb" using fb_reachable_sim[OF assms(1)] by blast
  have sn: "sn = spec_snapshot sb" using fb_snapshot_sim[OF sb] assms(3) by auto
  obtain evs left mid rs where S: "sweep oid side limit (sb_match sb) q (queue_of (opp side) sb) = (evs, left, mid, rs)"
    by (metis prod_cases4)
  let ?sb' = "set_queue (opp side) rs (sb\<lparr>sb_match := mid\<rparr>)"
  have "spec_match oid side limit q sb = (?sb', evs, q - left)" using S by (simp add: spec_match_def)
  from fb_execute_ioc_sim[OF sb assms(2) this] obtain b' where
    b': "fb_execute_ioc b oid side limit q = Some (b', q - left, evs)" "fb_sim b' ?sb'" by blast
  have Q: "queue_of (opp side) ?sb' = rs" "queue_of side ?sb' = queue_of side sb"
    using assms(2) by (auto simp: queue_of_def set_queue_def opp_def)
  have "prio_sorted (opp side) (queue_of (opp side) sb)"
    using fb_sim_spec[OF sb] assms(2) by (intro spec_inv_queue(1)) auto
  from sweep_avail[OF S this] sweep_shares[OF S] sweep_le[OF S] show ?thesis
    using b'(1) fb_snapshot_sim[OF b'(2)] Q unfolding sn by (auto simp: unat_sub)
qed

theorem fb_execute_ioc_fills_available_witness:
  "\<exists>b' filled evs. fb_execute_ioc fb_demo 9 Buy 150 20 = Some (b', filled, evs) \<and> unat filled = 9"
proof -
  let ?sn = "the (fb_snapshot fb_demo)"
  have sn: "fb_snapshot fb_demo = Some ?sn" "avail Buy 150 (snap_orders (snap_side (opp Buy) ?sn)) = 9" by code_simp+
  from fb_execute_ioc_fills_available[OF fb_demo_reachable _ sn(1), of Buy 9 150 20] sn(2) show ?thesis by auto
qed

text \<open>
  C26. The index of the optimised book is a map: any sequence of insertions, erasures and lookups on
  the open-addressing table, from any initial capacity, returns, gives the results a finite map
  gives, and ends with as many entries as that map has. Growth and the backward shift of an erasure
  lose no key and leave no tombstone that a probe would have to pass.
\<close>

theorem flat_map_is_a_map:
  assumes "ref_run Map.empty cs = (f, outs)"
  shows "\<exists>m. map_run fm_find fm_insert fm_erase (fm_new n) cs = Some (m, outs) \<and> fm_size m = card (dom f) \<and>
    (\<forall>k. fm_find m k = Some (f k))"
  using assms by (rule fm.run_from_new)

theorem flat_map_is_a_map_witness:
  "\<exists>m. map_run fm_find fm_insert fm_erase (fm_new 0) [MInsert 1 (10 :: nat), MInsert 17 20, MErase 1, MFind 17] =
     Some (m, [MDone, MDone, MErased True, MFound (Some 20)]) \<and> fm_find m 1 = Some None"
proof -
  let ?cs = "[MInsert 1 10, MInsert 17 20, MErase 1, MFind 17] :: (u64, nat) map_cmd list" and ?f = "Map.empty(17 \<mapsto> 20)"
  have "ref_run Map.empty ?cs = (?f, [MDone, MDone, MErased True, MFound (Some 20)])" by (auto simp: fun_eq_iff)
  from flat_map_is_a_map[OF this, of 0] show ?thesis by auto
qed

end
