(* ===== verification/Engine.thy ===== *)
theory Engine
  imports Fast_Book Ouch
begin

text \<open>
  The matching engine of \<^verbatim>\<open>src/engine/engine.hpp\<close> and \<^verbatim>\<open>engine.cpp\<close>: one optimised book per symbol,
  the bookkeeping of live orders and tokens, and the responses and market events it produces. The
  two outgoing queues are lists of what has been pushed. A book operation reports its events as a
  list; the engine's callbacks read and write only the engine's own tables, never the book, so
  running them after the operation, in the order of the events, is what the synchronous callbacks
  do. The clock is the argument \<open>now\<close> of \<open>process\<close>.
\<close>

section \<open>Messages\<close>

datatype ouch_in = EnterOrder enter_order | CancelOrder cancel_order | ReplaceOrder replace_order

record command =
  cm_client_id :: u64
  cm_msg :: ouch_in

datatype ouch_out =
    SystemEvent ouch_system_event
  | Accepted accepted
  | Executed executed
  | Canceled canceled
  | Replaced replaced
  | Rejected rejected

record client_response =
  cr_client_id :: u64
  cr_msg :: ouch_out

record market_event =
  me_ts :: u64
  me_symbol :: symbol
  me_ev :: book_event

section \<open>State\<close>

record order_info =
  oi_client_id :: u64
  oi_token :: token
  oi_symbol :: symbol
  oi_side :: side
  oi_open :: qty

type_synonym token_key = "u64 \<times> bytes"

record engine =
  en_books :: "symbol \<rightharpoonup> fast_book"
  en_orders :: "order_id \<rightharpoonup> order_info"
  en_live_tokens :: "token_key \<rightharpoonup> order_id"
  en_used_tokens :: "token_key set"
  en_next_ref :: order_id
  en_current_symbol :: symbol
  en_now :: u64
  en_suppress_ouch_cancel :: bool
  en_to_gateway :: "client_response list"
  en_to_feed :: "market_event list"

definition en_init :: engine where
  "en_init = \<lparr>en_books = Map.empty, en_orders = Map.empty, en_live_tokens = Map.empty, en_used_tokens = {},
     en_next_ref = 1, en_current_symbol = replicate 8 0, en_now = 0, en_suppress_ouch_cancel = False,
     en_to_gateway = [], en_to_feed = []\<rparr>"

definition token_str :: "token \<Rightarrow> bytes" where
  "token_str t = token_view t"

definition en_respond :: "u64 \<Rightarrow> ouch_out \<Rightarrow> engine \<Rightarrow> engine" where
  "en_respond client m e = e\<lparr>en_to_gateway := en_to_gateway e @ [\<lparr>cr_client_id = client, cr_msg = m\<rparr>]\<rparr>"

definition en_publish :: "book_event \<Rightarrow> engine \<Rightarrow> engine" where
  "en_publish ev e = e\<lparr>en_to_feed := en_to_feed e @ [\<lparr>me_ts = en_now e, me_symbol = en_current_symbol e, me_ev = ev\<rparr>]\<rparr>"

text \<open>\<^verbatim>\<open>book_for\<close> creates the book of a symbol on first use; the second result is the book.\<close>

definition book_for :: "symbol \<Rightarrow> engine \<Rightarrow> engine \<times> fast_book" where
  "book_for symbol e =
     (case en_books e symbol of
        Some b \<Rightarrow> (e, b)
      | None \<Rightarrow> let b = fb_new fb_default_config in (e\<lparr>en_books := (en_books e)(symbol \<mapsto> b)\<rparr>, b))"

definition put_book :: "symbol \<Rightarrow> fast_book \<Rightarrow> engine \<Rightarrow> engine" where
  "put_book symbol b e = e\<lparr>en_books := (en_books e)(symbol \<mapsto> b)\<rparr>"

definition token_used :: "u64 \<Rightarrow> token \<Rightarrow> engine \<Rightarrow> bool" where
  "token_used client token e \<longleftrightarrow> (client, token_str token) \<in> en_used_tokens e"

definition reject :: "u64 \<Rightarrow> token \<Rightarrow> u8 \<Rightarrow> engine \<Rightarrow> engine" where
  "reject client token reason e =
     en_respond client (Rejected \<lparr>rj_timestamp = en_now e, rj_token = token, rj_reason = reason\<rparr>) e"

definition reduce_open :: "order_id \<Rightarrow> qty \<Rightarrow> engine \<Rightarrow> engine" where
  "reduce_open oid by e =
     (case en_orders e oid of
        None \<Rightarrow> e
      | Some info \<Rightarrow>
          let info' = info\<lparr>oi_open := oi_open info - by\<rparr> in
          if oi_open info' = 0 then
            e\<lparr>en_live_tokens := (en_live_tokens e)((oi_client_id info', token_str (oi_token info')) := None),
              en_orders := (en_orders e)(oid := None)\<rparr>
          else e\<lparr>en_orders := (en_orders e)(oid \<mapsto> info')\<rparr>)"

section \<open>Book callbacks\<close>

definition notify :: "executed_event \<Rightarrow> order_id \<Rightarrow> u8 \<Rightarrow> engine \<Rightarrow> engine" where
  "notify ev oid liquidity e =
     (case en_orders e oid of
        None \<Rightarrow> e
      | Some info \<Rightarrow>
          en_respond (oi_client_id info) (Executed \<lparr>ex_timestamp = en_now e, ex_token = oi_token info,
            ex_executed_shares = xe_qty ev, ex_execution_price = xe_price ev,
            ex_liquidity_flag = liquidity, ex_match_number = xe_match_id ev\<rparr>) e)"

definition on_added :: "added_event \<Rightarrow> engine \<Rightarrow> engine" where
  "on_added ev e = en_publish (EvAdded ev) e"

definition on_executed :: "executed_event \<Rightarrow> engine \<Rightarrow> engine" where
  "on_executed ev e =
     (let e = en_publish (EvExecuted ev) e;
          e = notify ev (xe_resting_id ev) 0x41 e;
          e = notify ev (xe_aggressor_id ev) 0x52 e;
          e = reduce_open (xe_resting_id ev) (xe_qty ev) e
      in reduce_open (xe_aggressor_id ev) (xe_qty ev) e)"

definition notify_cancel :: "canceled_event \<Rightarrow> engine \<Rightarrow> engine" where
  "notify_cancel ev e =
     (if en_suppress_ouch_cancel e then e
      else case en_orders e (ce_id ev) of
        None \<Rightarrow> e
      | Some info \<Rightarrow> en_respond (oi_client_id info) (Canceled \<lparr>ca_timestamp = en_now e,
          ca_token = oi_token info, ca_decrement_shares = ce_canceled_qty ev, ca_reason = 0x55\<rparr>) e)"

definition on_canceled :: "canceled_event \<Rightarrow> engine \<Rightarrow> engine" where
  "on_canceled ev e =
     (let e = notify_cancel ev (en_publish (EvCanceled ev) e)
      in if ce_removed ev then reduce_open (ce_id ev) (ce_canceled_qty ev) e
         else case en_orders e (ce_id ev) of
           None \<Rightarrow> e
         | Some info \<Rightarrow> e\<lparr>en_orders := (en_orders e)(ce_id ev \<mapsto> info\<lparr>oi_open := oi_open info - ce_canceled_qty ev\<rparr>)\<rparr>)"

definition on_replaced :: "replaced_event \<Rightarrow> engine \<Rightarrow> engine" where
  "on_replaced ev e = en_publish (EvReplaced ev) e"

fun on_event :: "book_event \<Rightarrow> engine \<Rightarrow> engine" where
  "on_event (EvAdded ev) e = on_added ev e"
| "on_event (EvExecuted ev) e = on_executed ev e"
| "on_event (EvCanceled ev) e = on_canceled ev e"
| "on_event (EvReplaced ev) e = on_replaced ev e"

section \<open>Handlers\<close>

definition cancel_unrested :: "u64 \<Rightarrow> order_id \<Rightarrow> token \<Rightarrow> qty \<Rightarrow> u8 \<Rightarrow> engine \<Rightarrow> engine" where
  "cancel_unrested client ref token q reason e =
     (let e = en_respond client (Canceled \<lparr>ca_timestamp = en_now e, ca_token = token,
            ca_decrement_shares = q, ca_reason = reason\<rparr>) e
      in e\<lparr>en_live_tokens := (en_live_tokens e)((client, token_str token) := None),
           en_orders := (en_orders e)(ref := None)\<rparr>)"

definition accepted_for :: "enter_order \<Rightarrow> order_id \<Rightarrow> u64 \<Rightarrow> accepted" where
  "accepted_for m ref now = \<lparr>ac_timestamp = now, ac_token = eo_token m, ac_side = eo_side m,
     ac_shares = eo_shares m, ac_stock = eo_stock m, ac_price = eo_price m, ac_tif = eo_tif m,
     ac_firm = eo_firm m, ac_display = eo_display m, ac_order_ref = ref, ac_capacity = eo_capacity m,
     ac_intermarket_sweep = eo_intermarket_sweep m, ac_min_qty = eo_min_qty m,
     ac_cross_type = eo_cross_type m, ac_order_state = 0x4C, ac_bbo_weight_indicator = 0\<rparr>"

definition replaced_for :: "replace_order \<Rightarrow> order_info \<Rightarrow> order_id \<Rightarrow> u64 \<Rightarrow> replaced" where
  "replaced_for m info ref now = \<lparr>rp_timestamp = now, rp_replacement_token = ro_replacement_token m,
     rp_side = oi_side info, rp_shares = ro_shares m, rp_stock = oi_symbol info, rp_price = ro_price m,
     rp_tif = ro_tif m, rp_firm = replicate 4 0, rp_display = ro_display m, rp_order_ref = ref,
     rp_capacity = 0, rp_intermarket_sweep = ro_intermarket_sweep m, rp_min_qty = ro_min_qty m,
     rp_cross_type = 0, rp_order_state = 0x4C, rp_bbo_weight_indicator = 0, rp_previous_token = oi_token info\<rparr>"

definition kPriceMax :: price where "kPriceMax = 2 ^ 63 - 1"

text \<open>The bookkeeping of an accepted order, up to its Accepted response.\<close>

definition accept_order :: "u64 \<Rightarrow> enter_order \<Rightarrow> engine \<Rightarrow> engine \<times> order_id" where
  "accept_order client m e =
     (let ref = en_next_ref e;
          k = (client, token_str (eo_token m));
          e = e\<lparr>en_next_ref := ref + 1,
                en_used_tokens := insert k (en_used_tokens e),
                en_live_tokens := (en_live_tokens e)(k \<mapsto> ref),
                en_orders := (en_orders e)(ref \<mapsto> \<lparr>oi_client_id = client, oi_token = eo_token m,
                  oi_symbol = eo_stock m, oi_side = eo_side m, oi_open = eo_shares m\<rparr>),
                en_current_symbol := eo_stock m\<rparr>
      in (en_respond client (Accepted (accepted_for m ref (en_now e))) e, ref))"

text \<open>The rest of the handler: the minimum-quantity gate, then an immediate execution or an add.\<close>

definition enter_book :: "u64 \<Rightarrow> enter_order \<Rightarrow> order_id \<Rightarrow> engine \<Rightarrow> engine option" where
  "enter_book client m ref e = do {
     let market = (eo_price m = kMarketPrice);
     let (e1, book) = book_for (eo_stock m) e;
     let limit = (if market then (if eo_side m = Buy then kPriceMax else 1) else eo_price m);
     let ioc = (market \<or> eo_tif m = kTifIOC);
     (book, avail) \<leftarrow> (if eo_min_qty m > 0 then fb_matchable book (eo_side m) limit else Some (book, 0));
     let e2 = put_book (eo_stock m) book e1;
     (if eo_min_qty m > 0 \<and> avail < eo_min_qty m then
        Some (cancel_unrested client ref (eo_token m) (eo_shares m) 0x44 e2)
      else if ioc then do {
        (book, filled, evs) \<leftarrow> fb_execute_ioc book ref (eo_side m) limit (eo_shares m);
        let e3 = fold on_event evs (put_book (eo_stock m) book e2);
        let remainder = eo_shares m - filled;
        Some (if remainder > 0 then cancel_unrested client ref (eo_token m) remainder 0x49 e3 else e3)
      } else do {
        (book, evs, r) \<leftarrow> fb_add book ref (eo_side m) (eo_price m) (eo_shares m);
        Some (fold on_event evs (put_book (eo_stock m) book e2))
      })
   }"

definition handle_enter :: "u64 \<Rightarrow> enter_order \<Rightarrow> engine \<Rightarrow> engine option" where
  "handle_enter client m e =
     (let market = (eo_price m = kMarketPrice) in
      if token_used client (eo_token m) e then Some (reject client (eo_token m) 0x54 e)
      else if \<not> market \<and> eo_price m \<le> 0 then Some (reject client (eo_token m) 0x58 e)
      else if eo_shares m = 0 then Some (reject client (eo_token m) 0x5A e)
      else if eo_side m \<noteq> Buy \<and> eo_side m \<noteq> Sell then Some (reject client (eo_token m) 0x53 e)
      else case accept_order client m e of (e, ref) \<Rightarrow> enter_book client m ref e)"

definition handle_cancel :: "u64 \<Rightarrow> cancel_order \<Rightarrow> engine \<Rightarrow> engine option" where
  "handle_cancel client m e =
     (case en_live_tokens e (client, token_str (co_token m)) of
        None \<Rightarrow> Some e
      | Some ref \<Rightarrow>
          (case en_orders e ref of
             None \<Rightarrow> Some e
           | Some info \<Rightarrow> do {
               let e = e\<lparr>en_current_symbol := oi_symbol info\<rparr>;
               let (e, book) = book_for (oi_symbol info) e;
               (book, evs, f) \<leftarrow> fb_cancel book ref (co_shares m);
               Some (fold on_event evs (put_book (oi_symbol info) book e))
             }))"

text \<open>The bookkeeping of a replacement, from its Replaced response to the swap of the orders.\<close>

definition swap_order :: "u64 \<Rightarrow> replace_order \<Rightarrow> order_id \<Rightarrow> order_info \<Rightarrow> engine \<Rightarrow> engine \<times> order_id" where
  "swap_order client m old_ref info e =
     (let new_ref = en_next_ref e;
          k = (client, token_str (ro_replacement_token m));
          e = e\<lparr>en_current_symbol := oi_symbol info,
                en_next_ref := new_ref + 1,
                en_used_tokens := insert k (en_used_tokens e)\<rparr>;
          e = en_respond client (Replaced (replaced_for m info new_ref (en_now e))) e
      in (e\<lparr>en_live_tokens := (en_live_tokens e)((client, token_str (ro_existing_token m)) := None, k \<mapsto> new_ref),
            en_orders := (en_orders e)(old_ref := None, new_ref \<mapsto> \<lparr>oi_client_id = client,
              oi_token = ro_replacement_token m, oi_symbol = oi_symbol info, oi_side = oi_side info,
              oi_open = ro_shares m\<rparr>)\<rparr>, new_ref))"

definition handle_replace :: "u64 \<Rightarrow> replace_order \<Rightarrow> engine \<Rightarrow> engine option" where
  "handle_replace client m e =
     (case en_live_tokens e (client, token_str (ro_existing_token m)) of
        None \<Rightarrow> Some e
      | Some old_ref \<Rightarrow>
          if token_used client (ro_replacement_token m) e then Some e
          else if ro_price m \<le> 0 \<or> ro_shares m = 0 then Some e
          else (case en_orders e old_ref of
             None \<Rightarrow> Some e
           | Some info \<Rightarrow> do {
               let (e, new_ref) = swap_order client m old_ref info e;
               let (e, book) = book_for (oi_symbol info) (e\<lparr>en_suppress_ouch_cancel := True\<rparr>);
               (book, evs, f) \<leftarrow> fb_replace book old_ref new_ref (ro_price m) (ro_shares m);
               Some ((fold on_event evs (put_book (oi_symbol info) book e))\<lparr>en_suppress_ouch_cancel := False\<rparr>)
             }))"

fun handle :: "u64 \<Rightarrow> ouch_in \<Rightarrow> engine \<Rightarrow> engine option" where
  "handle client (EnterOrder m) e = handle_enter client m e"
| "handle client (CancelOrder m) e = handle_cancel client m e"
| "handle client (ReplaceOrder m) e = handle_replace client m e"

definition process :: "u64 \<Rightarrow> command \<Rightarrow> engine \<Rightarrow> engine option" where
  "process now cmd e = handle (cm_client_id cmd) (cm_msg cmd) (e\<lparr>en_now := now\<rparr>)"

definition book_snapshot_of :: "engine \<Rightarrow> symbol \<Rightarrow> book_snapshot option" where
  "book_snapshot_of e symbol =
     (case en_books e symbol of None \<Rightarrow> Some \<lparr>bs_bids = [], bs_asks = []\<rparr> | Some b \<Rightarrow> fb_snapshot b)"

text \<open>The commands of a run with the times they are processed at.\<close>

fun process_all :: "(u64 \<times> command) list \<Rightarrow> engine \<Rightarrow> engine option" where
  "process_all [] e = Some e"
| "process_all ((now, cmd) # cmds) e = do { e1 \<leftarrow> process now cmd e; process_all cmds e1 }"

end
