(* ===== verification/Book_Replay.thy ===== *)
theory Book_Replay
  imports Matching_Book
begin

text \<open>
  The events of a book tell everything about it: applying them one by one to the abstract book
  before an operation gives the abstract book after it. This is what the engine's order table and
  the book builder at the far end of the market data feed rely on.
\<close>

section \<open>Applying events\<close>

definition replay_reduce :: "order_id \<Rightarrow> qty \<Rightarrow> spec_book \<Rightarrow> spec_book" where
  "replay_reduce oid by sb =
     (case spec_find sb oid of
        None \<Rightarrow> sb
      | Some (s, r) \<Rightarrow> if by \<ge> rs_qty r then spec_remove oid sb else spec_reduce oid (rs_qty r - by) sb)"

fun replay_event :: "book_event \<Rightarrow> spec_book \<Rightarrow> spec_book" where
  "replay_event (EvAdded a) sb = spec_rest (ad_id a) (ad_side a) (ad_price a) (ad_qty a) sb"
| "replay_event (EvExecuted x) sb = (replay_reduce (xe_resting_id x) (xe_qty x) sb)\<lparr>sb_match := xe_match_id x + 1\<rparr>"
| "replay_event (EvCanceled c) sb =
     (if ce_removed c then spec_remove (ce_id c) sb else replay_reduce (ce_id c) (ce_canceled_qty c) sb)"
| "replay_event (EvReplaced r) sb =
     spec_rest (re_new_id r) (re_side r) (re_price r) (re_qty r) (spec_remove (re_old_id r) sb)"

text \<open>The executions of a sweep, applied to the book, take out what it trades.\<close>

lemma set_queue_simps [simp]:
  "set_queue s (queue_of s sb) sb = sb" "set_queue s q (set_queue s q' sb) = set_queue s q sb"
  "sb_match (set_queue s q sb) = sb_match sb"
  "(set_queue s q sb)\<lparr>sb_match := mid\<rparr> = set_queue s q (sb\<lparr>sb_match := mid\<rparr>)"
  by (auto simp: set_queue_def queue_of_def)

lemma replay_head:
  assumes "spec_inv sb" "valid_side s" "queue_of s sb = r # rs"
  shows "replay_reduce (rs_id r) (rs_qty r) sb = set_queue s rs sb"
    "q < rs_qty r \<Longrightarrow> replay_reduce (rs_id r) q sb = set_queue s (r\<lparr>rs_qty := rs_qty r - q\<rparr> # rs) sb"
proof -
  have f: "spec_find sb (rs_id r) = Some (s, r)" using assms by (intro spec_find_eq) auto
  have q: "queue_of s sb = [] @ r # rs" using assms(3) by simp
  have d: "distinct (map rs_id ([] @ r # rs))" "rs_id r \<notin> rs_id ` set (queue_of (opp s) sb)"
    using assms by (auto simp: spec_inv_def spec_ids_def queue_of_def opp_def)
  show "replay_reduce (rs_id r) (rs_qty r) sb = set_queue s rs sb"
    using f spec_remove_split[OF assms(2) q refl d] by (simp add: replay_reduce_def)
  show "q < rs_qty r \<Longrightarrow> replay_reduce (rs_id r) q sb = set_queue s (r\<lparr>rs_qty := rs_qty r - q\<rparr> # rs) sb"
    using f spec_reduce_split[OF assms(2) q refl d] by (simp add: replay_reduce_def)
qed

lemma replay_sweep:
  "sweep oid side limit mid q rs = (evs, q', mid', rs') \<Longrightarrow> spec_inv sb \<Longrightarrow> valid_side side \<Longrightarrow>
   queue_of (opp side) sb = rs \<Longrightarrow> sb_match sb = mid \<Longrightarrow>
   fold replay_event evs sb = set_queue (opp side) rs' (sb\<lparr>sb_match := mid'\<rparr>)"
proof (induction oid side limit mid q rs arbitrary: evs q' mid' rs' sb rule: sweep.induct)
  case (2 oid side limit mid q r rs)
  note H = replay_head[OF 2(3) _ 2(5)]
  have o: "valid_side (opp side)" by (simp add: opp_def)
  consider "q = 0 \<or> \<not> crosses side limit (rs_price r)" | "q \<noteq> 0" "crosses side limit (rs_price r)" "q < rs_qty r"
    | "q \<noteq> 0" "crosses side limit (rs_price r)" "\<not> q < rs_qty r" by blast
  then show ?case
  proof cases
    case 1
    then show ?thesis using 2 set_queue_simps(1)[of "opp side" sb] by auto
  next
    case 2
    then show ?thesis using "2.prems" H(2)[OF o] by (auto simp: exec_event_def)
  next
    case 3
    let ?sb = "set_queue (opp side) rs (sb\<lparr>sb_match := mid + 1\<rparr>)"
    obtain evs1 where S: "sweep oid side limit (mid + 1) (q - rs_qty r) rs = (evs1, q', mid', rs')"
      "evs = exec_event r oid side (rs_qty r) mid # evs1"
      using "2.prems"(1) 3 by (auto split: prod.splits)
    have "spec_inv ?sb" using spec_inv_delete_at[of "sb\<lparr>sb_match := mid + 1\<rparr>" "opp side" "[]" r rs] "2.prems"(2,4) o by simp
    then have "fold replay_event evs1 ?sb = set_queue (opp side) rs' (?sb\<lparr>sb_match := mid'\<rparr>)"
      using "2.IH"[OF _ _ S(1)] 3 "2.prems"(3) o by auto
    then show ?thesis using S(2) H(1)[OF o] by (simp add: exec_event_def)
  qed
qed (auto simp: set_queue_def queue_of_def)

section \<open>Every operation\<close>

lemma replay_match:
  assumes "spec_inv sb" "valid_side side" "spec_match oid side limit q sb = (sb', evs, filled)"
  shows "fold replay_event evs sb = sb'"
  using assms(3) replay_sweep[OF _ assms(1,2) refl refl] by (auto simp: spec_match_def split: prod.splits)

lemma replay_enter:
  assumes "spec_inv sb" "valid_side side" "spec_enter oid side p q sb = (sb', evs, filled)"
  shows "fold replay_event evs sb = sb'"
proof -
  obtain sb1 evs1 f where "spec_match oid side p q sb = (sb1, evs1, f)" by (metis prod_cases3)
  with replay_match[OF assms(1,2) this] assms(3) show ?thesis by (auto simp: spec_enter_def split: if_splits)
qed

lemma replay_add:
  assumes "spec_inv sb" "valid_side side" "spec_add sb oid side p q = (sb', evs, r)"
  shows "fold replay_event evs sb = sb'"
  using assms(3) replay_enter[OF assms(1,2), of oid p q] by (auto simp: spec_add_def split: if_splits prod.splits)

lemma replay_cancel:
  assumes "spec_cancel sb oid keep = (sb', evs, f)"
  shows "fold replay_event evs sb = sb'"
proof -
  have *: "(a \<le> a - keep) = (keep = 0 \<or> a = 0)" if "keep \<le> a" for a
    using that unat_sub_less[of keep a] by (cases "keep = 0") (auto simp: word_le_nat_alt)
  show ?thesis using assms
    by (auto simp: spec_cancel_def replay_reduce_def not_le * less_imp_le split: option.splits if_splits)
qed

lemma replay_replace:
  assumes "spec_inv sb" "spec_replace sb old_id new_id p q = (sb', evs, f)"
  shows "fold replay_event evs sb = sb'"
proof (cases "spec_find sb old_id")
  case None
  then show ?thesis using assms(2) by (simp add: spec_replace_def)
next
  case (Some sr)
  then obtain s r where F: "spec_find sb old_id = Some (s, r)" by (metis surj_pair)
  have "valid_side s" using spec_find_Some(1)[OF F] .
  then show ?thesis using assms(2) replay_enter[OF spec_remove_inv(1)[OF assms(1)], of s]
    by (auto simp: spec_replace_def F Let_def split: if_splits prod.splits)
qed

lemma replay_step:
  assumes "spec_inv sb" "valid_cmd c" "spec_step sb c = (sb', evs, r)"
  shows "fold replay_event evs sb = sb'"
proof (cases c)
  case (Add i s p q)
  then show ?thesis using assms replay_add[OF assms(1), of s i p q] by (auto split: prod.splits)
next
  case (Cancel i q)
  then show ?thesis using assms replay_cancel[of sb i q] by (auto split: prod.splits)
next
  case (Replace i j p q)
  then show ?thesis using assms replay_replace[OF assms(1), of i j p q] by (auto split: prod.splits)
qed

section \<open>What an event does to one order\<close>

lemma find_set_qty:
  "find (\<lambda>r. rs_id r = k) (set_qty oid q rs) =
     map_option (\<lambda>r. if k = oid then r\<lparr>rs_qty := q\<rparr> else r) (find (\<lambda>r. rs_id r = k) rs)"
  by (induction rs) (auto simp: set_qty_def)

lemma find_filter_id:
  "find (\<lambda>r. rs_id r = k) (filter (\<lambda>r. rs_id r \<noteq> oid) rs) = (if k = oid then None else find (\<lambda>r. rs_id r = k) rs)"
  by (induction rs) auto

lemma find_enqueue:
  "rs_id r \<notin> rs_id ` set rs \<Longrightarrow>
   find (\<lambda>x. rs_id x = k) (enqueue s r rs) = (if k = rs_id r then Some r else find (\<lambda>x. rs_id x = k) rs)"
  by (induction s r rs rule: enqueue.induct) (auto simp: find_None_iff)

lemma spec_find_remove: "spec_find (spec_remove oid sb) k = (if k = oid then None else spec_find sb k)"
  by (auto simp: spec_find_def spec_remove_def find_filter_id split: option.splits)

lemma spec_find_reduce:
  "spec_find (spec_reduce oid q sb) k =
     (if k = oid then map_option (\<lambda>(s, r). (s, r\<lparr>rs_qty := q\<rparr>)) (spec_find sb k) else spec_find sb k)"
  by (auto simp: spec_find_def spec_reduce_def find_set_qty option.map_comp comp_def option.map_ident split: option.splits)

lemma spec_find_rest:
  assumes "valid_side s" "oid \<notin> set (spec_ids sb)"
  shows "spec_find (spec_rest oid s p q sb) k =
    (if k = oid then Some (s, \<lparr>rs_id = oid, rs_price = p, rs_qty = q\<rparr>) else spec_find sb k)"
proof -
  have n: "oid \<notin> rs_id ` set (sb_bids sb)" "oid \<notin> rs_id ` set (sb_asks sb)" using assms(2) by (auto simp: spec_ids_def)
  then have "find (\<lambda>r. rs_id r = oid) (sb_bids sb) = None" by (auto simp: find_None_iff)
  then show ?thesis using assms(1) n
    by (auto simp: spec_find_def spec_rest_def queue_of_def set_queue_def find_enqueue split: option.splits)
qed

lemma spec_find_match [simp]: "spec_find (sb\<lparr>sb_match := mid\<rparr>) k = spec_find sb k"
  by (simp add: spec_find_def split: option.splits)

lemma spec_find_replay_reduce:
  "spec_find (replay_reduce oid by sb) k =
     (case spec_find sb k of
        None \<Rightarrow> None
      | Some (s, r) \<Rightarrow> if k \<noteq> oid then Some (s, r) else if by \<ge> rs_qty r then None else Some (s, r\<lparr>rs_qty := rs_qty r - by\<rparr>))"
  by (auto simp: replay_reduce_def spec_find_remove spec_find_reduce split: option.splits)

end
