(* ===== verification/Engine_Inv.thy ===== *)
theory Engine_Inv
  imports Engine Book_Replay Fast_Book_Sim
begin

text \<open>
  The invariant of the engine. The order table holds exactly the resting orders of all books, with
  their open quantities; tokens and live orders correspond one to one; the books are what the
  published market events say they are; and the responses sent to the owner of an order account
  for every share of it.
\<close>

section \<open>The order table\<close>

type_synonym order_table = "order_id \<rightharpoonup> order_info"

definition tbl_reduce :: "order_id \<Rightarrow> qty \<Rightarrow> order_table \<Rightarrow> order_table" where
  "tbl_reduce oid by T =
     (case T oid of
        None \<Rightarrow> T
      | Some i \<Rightarrow> if oi_open i - by = 0 then T(oid := None) else T(oid \<mapsto> i\<lparr>oi_open := oi_open i - by\<rparr>))"

definition tbl_dec :: "order_id \<Rightarrow> qty \<Rightarrow> order_table \<Rightarrow> order_table" where
  "tbl_dec oid by T = (case T oid of None \<Rightarrow> T | Some i \<Rightarrow> T(oid \<mapsto> i\<lparr>oi_open := oi_open i - by\<rparr>))"

fun tbl_event :: "book_event \<Rightarrow> order_table \<Rightarrow> order_table" where
  "tbl_event (EvAdded a) T = T"
| "tbl_event (EvExecuted x) T = tbl_reduce (xe_aggressor_id x) (xe_qty x) (tbl_reduce (xe_resting_id x) (xe_qty x) T)"
| "tbl_event (EvCanceled c) T =
     (if ce_removed c then tbl_reduce (ce_id c) (ce_canceled_qty c) T else tbl_dec (ce_id c) (ce_canceled_qty c) T)"
| "tbl_event (EvReplaced r) T = T"

text \<open>The callbacks change the table in this way, and of the rest only what they send.\<close>

lemma respond_simps [simp]:
  "en_orders (en_respond c m e) = en_orders e" "en_live_tokens (en_respond c m e) = en_live_tokens e"
  "en_books (en_respond c m e) = en_books e" "en_used_tokens (en_respond c m e) = en_used_tokens e"
  "en_next_ref (en_respond c m e) = en_next_ref e" "en_now (en_respond c m e) = en_now e"
  "en_current_symbol (en_respond c m e) = en_current_symbol e" "en_to_feed (en_respond c m e) = en_to_feed e"
  "en_suppress_ouch_cancel (en_respond c m e) = en_suppress_ouch_cancel e"
  "en_to_gateway (en_respond c m e) = en_to_gateway e @ [\<lparr>cr_client_id = c, cr_msg = m\<rparr>]"
  by (simp_all add: en_respond_def)

lemma publish_simps [simp]:
  "en_orders (en_publish ev e) = en_orders e" "en_live_tokens (en_publish ev e) = en_live_tokens e"
  "en_books (en_publish ev e) = en_books e" "en_used_tokens (en_publish ev e) = en_used_tokens e"
  "en_next_ref (en_publish ev e) = en_next_ref e" "en_now (en_publish ev e) = en_now e"
  "en_current_symbol (en_publish ev e) = en_current_symbol e" "en_to_gateway (en_publish ev e) = en_to_gateway e"
  "en_suppress_ouch_cancel (en_publish ev e) = en_suppress_ouch_cancel e"
  "en_to_feed (en_publish ev e) = en_to_feed e @ [\<lparr>me_ts = en_now e, me_symbol = en_current_symbol e, me_ev = ev\<rparr>]"
  by (simp_all add: en_publish_def)

lemma notify_simps [simp]:
  "en_orders (notify ev oid l e) = en_orders e" "en_live_tokens (notify ev oid l e) = en_live_tokens e"
  "en_books (notify ev oid l e) = en_books e" "en_used_tokens (notify ev oid l e) = en_used_tokens e"
  "en_next_ref (notify ev oid l e) = en_next_ref e" "en_now (notify ev oid l e) = en_now e"
  "en_current_symbol (notify ev oid l e) = en_current_symbol e" "en_to_feed (notify ev oid l e) = en_to_feed e"
  "en_suppress_ouch_cancel (notify ev oid l e) = en_suppress_ouch_cancel e"
  by (simp_all add: notify_def split: option.splits)

lemma notify_cancel_simps [simp]:
  "en_orders (notify_cancel ev e) = en_orders e" "en_live_tokens (notify_cancel ev e) = en_live_tokens e"
  "en_books (notify_cancel ev e) = en_books e" "en_used_tokens (notify_cancel ev e) = en_used_tokens e"
  "en_next_ref (notify_cancel ev e) = en_next_ref e" "en_now (notify_cancel ev e) = en_now e"
  "en_current_symbol (notify_cancel ev e) = en_current_symbol e" "en_to_feed (notify_cancel ev e) = en_to_feed e"
  "en_suppress_ouch_cancel (notify_cancel ev e) = en_suppress_ouch_cancel e"
  by (simp_all add: notify_cancel_def split: option.splits)

lemma reduce_open_simps [simp]:
  "en_orders (reduce_open oid q e) = tbl_reduce oid q (en_orders e)"
  "en_books (reduce_open oid q e) = en_books e" "en_used_tokens (reduce_open oid q e) = en_used_tokens e"
  "en_next_ref (reduce_open oid q e) = en_next_ref e" "en_now (reduce_open oid q e) = en_now e"
  "en_current_symbol (reduce_open oid q e) = en_current_symbol e" "en_to_feed (reduce_open oid q e) = en_to_feed e"
  "en_suppress_ouch_cancel (reduce_open oid q e) = en_suppress_ouch_cancel e"
  "en_to_gateway (reduce_open oid q e) = en_to_gateway e"
  by (auto simp: reduce_open_def tbl_reduce_def Let_def split: option.splits)

lemma on_event_orders: "en_orders (on_event ev e) = tbl_event ev (en_orders e)"
  by (cases ev) (auto simp: on_added_def on_executed_def on_canceled_def on_replaced_def tbl_dec_def Let_def
    split: option.splits)

lemma on_event_frame:
  "en_books (on_event ev e) = en_books e" "en_used_tokens (on_event ev e) = en_used_tokens e"
  "en_next_ref (on_event ev e) = en_next_ref e" "en_now (on_event ev e) = en_now e"
  "en_current_symbol (on_event ev e) = en_current_symbol e"
  "en_suppress_ouch_cancel (on_event ev e) = en_suppress_ouch_cancel e"
  "en_to_feed (on_event ev e) = en_to_feed e @ [\<lparr>me_ts = en_now e, me_symbol = en_current_symbol e, me_ev = ev\<rparr>]"
  by (cases ev; simp add: on_added_def on_executed_def on_canceled_def on_replaced_def Let_def split: option.splits)+

lemma fold_on_event:
  "en_orders (fold on_event evs e) = fold tbl_event evs (en_orders e)"
  "en_books (fold on_event evs e) = en_books e" "en_used_tokens (fold on_event evs e) = en_used_tokens e"
  "en_next_ref (fold on_event evs e) = en_next_ref e" "en_now (fold on_event evs e) = en_now e"
  "en_current_symbol (fold on_event evs e) = en_current_symbol e"
  "en_suppress_ouch_cancel (fold on_event evs e) = en_suppress_ouch_cancel e"
  "en_to_feed (fold on_event evs e) =
     en_to_feed e @ map (\<lambda>ev. \<lparr>me_ts = en_now e, me_symbol = en_current_symbol e, me_ev = ev\<rparr>) evs"
  by (induction evs arbitrary: e) (simp_all add: on_event_orders on_event_frame)

section \<open>Tokens\<close>

definition order_key :: "order_info \<Rightarrow> token_key" where
  "order_key i = (oi_client_id i, token_str (oi_token i))"

lemma order_key_open [simp]: "order_key (i\<lparr>oi_open := q\<rparr>) = order_key i"
  by (simp add: order_key_def)

definition live_ok :: "order_table \<Rightarrow> (token_key \<rightharpoonup> order_id) \<Rightarrow> bool" where
  "live_ok T L \<longleftrightarrow> (\<forall>k ref. L k = Some ref \<longleftrightarrow> (\<exists>i. T ref = Some i \<and> order_key i = k))"

lemma live_ok_inj: "live_ok T L \<Longrightarrow> T a = Some i \<Longrightarrow> T b = Some j \<Longrightarrow> order_key i = order_key j \<Longrightarrow> a = b"
  by (metis live_ok_def option.inject)

lemma live_ok_erase:
  assumes "live_ok T L" "T oid = Some i"
  shows "live_ok (T(oid := None)) (L(order_key i := None))"
  using assms live_ok_inj[OF assms(1)] unfolding live_ok_def by (auto; metis)

lemma live_ok_update:
  "live_ok T L \<Longrightarrow> T oid = Some i \<Longrightarrow> order_key i' = order_key i \<Longrightarrow> live_ok (T(oid \<mapsto> i')) L"
  unfolding live_ok_def by (auto; metis)

lemma live_ok_insert:
  assumes "live_ok T L" "T oid = None" "L (order_key i) = None"
  shows "live_ok (T(oid \<mapsto> i)) (L(order_key i \<mapsto> oid))"
proof -
  have "\<And>ref j. T ref = Some j \<Longrightarrow> order_key j \<noteq> order_key i"
    using assms(1,3) unfolding live_ok_def by (metis option.distinct(1))
  then show ?thesis using assms(1,2) by (simp add: live_ok_def)
qed

lemma live_ok_reduce_open:
  assumes "live_ok (en_orders e) (en_live_tokens e)"
  shows "live_ok (en_orders (reduce_open oid q e)) (en_live_tokens (reduce_open oid q e))"
proof (cases "en_orders e oid")
  case None
  then show ?thesis using assms by (simp add: reduce_open_def)
next
  case (Some i)
  then show ?thesis using live_ok_erase[OF assms Some] live_ok_update[OF assms Some]
    by (auto simp: reduce_open_def Let_def order_key_def)
qed

lemma live_ok_on_event:
  assumes "live_ok (en_orders e) (en_live_tokens e)"
  shows "live_ok (en_orders (on_event ev e)) (en_live_tokens (on_event ev e))"
proof (cases ev)
  case (EvExecuted x)
  then show ?thesis using assms by (simp add: on_executed_def Let_def live_ok_reduce_open del: reduce_open_simps)
next
  case (EvCanceled c)
  then show ?thesis using assms live_ok_update[OF assms] live_ok_reduce_open[of "notify_cancel c (en_publish ev e)"]
    by (cases "ce_removed c"; cases "en_orders e (ce_id c)") (simp_all add: on_canceled_def Let_def)
qed (use assms in \<open>simp_all add: on_added_def on_replaced_def\<close>)

lemma live_ok_fold:
  "live_ok (en_orders e) (en_live_tokens e) \<Longrightarrow>
   live_ok (en_orders (fold on_event evs e)) (en_live_tokens (fold on_event evs e))"
  by (induction evs arbitrary: e) (simp_all add: live_ok_on_event)

section \<open>The table and the books\<close>

text \<open>What the table and a book say about an order: its side and its open quantity.\<close>

definition tbl_view :: "order_table \<Rightarrow> symbol \<Rightarrow> order_id \<Rightarrow> (side \<times> qty) option" where
  "tbl_view T sm ref =
     (case T ref of None \<Rightarrow> None | Some i \<Rightarrow> if oi_symbol i = sm then Some (oi_side i, oi_open i) else None)"

definition book_view :: "spec_book \<Rightarrow> order_id \<Rightarrow> (side \<times> qty) option" where
  "book_view sb ref = map_option (\<lambda>(s, r). (s, rs_qty r)) (spec_find sb ref)"

type_synonym books = "symbol \<Rightarrow> spec_book"

definition tbl_ok :: "books \<Rightarrow> order_table \<Rightarrow> bool" where
  "tbl_ok S T \<longleftrightarrow> (\<forall>sm ref. tbl_view T sm ref = book_view (S sm) ref)"

lemma tbl_view_upd [simp]:
  "tbl_view (T(k := None)) sm ref = (if ref = k then None else tbl_view T sm ref)"
  "tbl_view (T(k \<mapsto> i)) sm ref =
     (if ref = k then if oi_symbol i = sm then Some (oi_side i, oi_open i) else None else tbl_view T sm ref)"
  by (simp_all add: tbl_view_def)

lemma book_view_None: "book_view sb ref = None \<longleftrightarrow> ref \<notin> set (spec_ids sb)"
  by (simp add: book_view_def spec_find_None)

lemma book_view_ops [simp]:
  "book_view (sb\<lparr>sb_match := mid\<rparr>) ref = book_view sb ref"
  "book_view (spec_remove k sb) ref = (if ref = k then None else book_view sb ref)"
  "book_view (replay_reduce k by sb) ref =
     (case book_view sb ref of None \<Rightarrow> None
      | Some (s, q) \<Rightarrow> if ref \<noteq> k then Some (s, q) else if by \<ge> q then None else Some (s, q - by))"
  by (auto simp: book_view_def spec_find_remove spec_find_replay_reduce split: option.splits)

lemma book_view_rest:
  "valid_side s \<Longrightarrow> book_view sb k = None \<Longrightarrow>
   book_view (spec_rest k s p q sb) ref = (if ref = k then Some (s, q) else book_view sb ref)"
  by (simp add: book_view_None) (simp add: book_view_def spec_find_rest)

lemma tbl_ok_lookup:
  assumes "tbl_ok S T" "book_view (S sm) k = Some (s, q)"
  obtains i where "T k = Some i" "oi_symbol i = sm" "oi_side i = s" "oi_open i = q"
proof -
  have "tbl_view T sm k = Some (s, q)" using assms by (simp add: tbl_ok_def)
  then show ?thesis using that by (auto simp: tbl_view_def split: option.splits if_splits)
qed

lemma tbl_ok_absent: "tbl_ok S T \<Longrightarrow> T k = None \<Longrightarrow> book_view (S sm) k = None"
proof -
  assume "tbl_ok S T" "T k = None"
  then have "tbl_view T sm k = book_view (S sm) k" by (simp add: tbl_ok_def)
  then show ?thesis using \<open>T k = None\<close> by (simp add: tbl_view_def)
qed

lemma tbl_ok_other:
  assumes "tbl_ok S T" "T k = Some i" "sm \<noteq> oi_symbol i"
  shows "book_view (S sm) k = None"
proof -
  have "tbl_view T sm k = book_view (S sm) k" using assms(1) by (simp add: tbl_ok_def)
  then show ?thesis using assms(2,3) by (simp add: tbl_view_def)
qed

text \<open>An order that trades or is cancelled in part.\<close>

lemma tbl_ok_reduce:
  assumes "tbl_ok S T" "book_view (S sm) k = Some (s, q)" "x \<le> q"
    and sb: "\<And>ref. book_view sb' ref = book_view (replay_reduce k x (S sm)) ref"
  shows "tbl_ok (S(sm := sb')) (tbl_reduce k x T)"
proof -
  obtain i where i: "T k = Some i" "oi_symbol i = sm" "oi_side i = s" "oi_open i = q"
    by (rule tbl_ok_lookup[OF assms(1,2)])
  have other: "book_view (S sm') k = None" if "sm' \<noteq> sm" for sm'
    using tbl_ok_other[OF assms(1) i(1)] i(2) that by simp
  have "tbl_view (tbl_reduce k x T) sm' ref = book_view ((S(sm := sb')) sm') ref" for sm' ref
    using assms other i by (cases "ref = k"; cases "sm' = sm") (auto simp: tbl_ok_def tbl_reduce_def split: option.splits)
  then show ?thesis by (simp add: tbl_ok_def)
qed

lemma tbl_ok_remove:
  assumes "tbl_ok S T"  "T k = Some i" "oi_symbol i = sm"
  shows "tbl_ok (S(sm := spec_remove k (S sm))) (T(k := None))"
proof -
  have "book_view (S sm') k = None" if "sm' \<noteq> sm" for sm'
    using tbl_ok_other[OF assms(1,2)] assms(3) that by simp
  then show ?thesis using assms(1) by (simp add: tbl_ok_def)
qed

lemma tbl_ok_rest:
  assumes "tbl_ok S (T(k := None))" "T k = Some i" "oi_symbol i = sm" "oi_side i = s" "oi_open i = q" "valid_side s"
  shows "tbl_ok (S(sm := spec_rest k s p q (S sm))) T"
proof -
  have n: "book_view (S sm') k = None" for sm' using assms(1)[unfolded tbl_ok_def, rule_format, of sm' k] by simp
  have T: "tbl_view T sm' ref = (if ref = k then if sm = sm' then Some (s, q) else None else book_view (S sm') ref)" for sm' ref
    using assms(1-5) by (auto simp: tbl_ok_def tbl_view_def split: if_splits)
  show ?thesis using n by (simp add: tbl_ok_def T book_view_rest[OF assms(6)])
qed

section \<open>Events that fit the table\<close>

text \<open>
  No subtraction of a callback wraps: the orders an execution names are there and open for at least its
  quantity, and a cancel is of an order that has gone from the table or is open for what is cancelled.
\<close>

fun ev_fits :: "bool \<Rightarrow> book_event \<Rightarrow> order_table \<Rightarrow> bool" where
  "ev_fits quiet (EvAdded a) T = True"
| "ev_fits quiet (EvReplaced r) T = True"
| "ev_fits quiet (EvExecuted x) T \<longleftrightarrow> xe_resting_id x \<noteq> xe_aggressor_id x \<and>
     (\<exists>i. T (xe_resting_id x) = Some i \<and> xe_qty x \<le> oi_open i) \<and> (\<exists>j. T (xe_aggressor_id x) = Some j \<and> xe_qty x \<le> oi_open j)"
| "ev_fits quiet (EvCanceled c) T \<longleftrightarrow> T (ce_id c) = None \<or>
     \<not> quiet \<and> (\<exists>i. T (ce_id c) = Some i \<and> (if ce_removed c then ce_canceled_qty c = oi_open i else ce_canceled_qty c < oi_open i))"

fun evs_fit :: "bool \<Rightarrow> book_event list \<Rightarrow> order_table \<Rightarrow> bool" where
  "evs_fit quiet [] T = True"
| "evs_fit quiet (ev # evs) T \<longleftrightarrow> ev_fits quiet ev T \<and> evs_fit quiet evs (tbl_event ev T)"

lemma evs_fit_append: "evs_fit quiet (evs @ evs') T \<longleftrightarrow> evs_fit quiet evs T \<and> evs_fit quiet evs' (fold tbl_event evs T)"
  by (induction evs arbitrary: T) auto

text \<open>The order on its way into the book, with what it has left.\<close>

definition in_flight :: "order_info \<Rightarrow> qty \<Rightarrow> order_info option" where
  "in_flight i q = (if q = 0 then None else Some (i\<lparr>oi_open := q\<rparr>))"

lemma tbl_reduce_other [simp]: "k \<noteq> k' \<Longrightarrow> tbl_reduce k x T k' = T k'"
  by (simp add: tbl_reduce_def split: option.splits)

lemma tbl_reduce_in_flight: "T k = in_flight i q \<Longrightarrow> x \<le> q \<Longrightarrow> tbl_reduce k x T k = in_flight i (q - x)"
  by (auto simp: tbl_reduce_def in_flight_def split: option.splits if_splits)

lemma tbl_reduce_drop [simp]: "(tbl_reduce k x T)(k := None) = T(k := None)"
  by (auto simp: tbl_reduce_def split: option.splits)

lemma tbl_reduce_commute: "k \<noteq> k' \<Longrightarrow> (tbl_reduce k x T)(k' := None) = tbl_reduce k x (T(k' := None))"
  by (auto simp: tbl_reduce_def split: option.splits)

lemma tbl_exec:
  assumes "tbl_ok S (T(oid := None))" "T oid = in_flight i q" "spec_inv (S sm)" "valid_side side"
    "queue_of (opp side) (S sm) = r # rs" "x \<le> rs_qty r" "x \<le> q" "q \<noteq> 0"
    "\<And>ref. book_view sb' ref = book_view (replay_reduce (rs_id r) x (S sm)) ref"
    and ev: "ev = exec_event r oid side x mid"
  shows "tbl_ok (S(sm := sb')) ((tbl_event ev T)(oid := None))" "tbl_event ev T oid = in_flight i (q - x)"
    "ev_fits quiet ev T"
proof -
  have "spec_find (S sm) (rs_id r) = Some (opp side, r)" using assms(3,4,5) by (intro spec_find_eq) (auto simp: opp_def)
  then have v: "book_view (S sm) (rs_id r) = Some (opp side, rs_qty r)" by (simp add: book_view_def)
  obtain j where j: "(T(oid := None)) (rs_id r) = Some j" "oi_open j = rs_qty r" by (rule tbl_ok_lookup[OF assms(1) v])
  then have n: "rs_id r \<noteq> oid" "T (rs_id r) = Some j" by (auto split: if_splits)
  show "tbl_ok (S(sm := sb')) ((tbl_event ev T)(oid := None))"
    using tbl_ok_reduce[OF assms(1) v assms(6,9)] n by (simp add: ev exec_event_def tbl_reduce_commute)
  show "tbl_event ev T oid = in_flight i (q - x)"
    using tbl_reduce_in_flight[of "tbl_reduce (rs_id r) x T" oid i q x] assms(2,7) n by (simp add: ev exec_event_def)
  have "T oid = Some (i\<lparr>oi_open := q\<rparr>)" using assms(2,8) by (simp add: in_flight_def)
  then show "ev_fits quiet ev T" using n j(2) assms(6,7) by (auto simp: ev exec_event_def)
qed

section \<open>Book operations and the table\<close>

lemma tbl_sweep:
  "sweep oid side limit mid q rs = (evs, q', mid', rs') \<Longrightarrow> spec_inv (S sm) \<Longrightarrow> valid_side side \<Longrightarrow>
   queue_of (opp side) (S sm) = rs \<Longrightarrow> sb_match (S sm) = mid \<Longrightarrow> tbl_ok S (T(oid := None)) \<Longrightarrow> T oid = in_flight i q \<Longrightarrow>
   tbl_ok (S(sm := set_queue (opp side) rs' ((S sm)\<lparr>sb_match := mid'\<rparr>))) ((fold tbl_event evs T)(oid := None)) \<and>
   fold tbl_event evs T oid = in_flight i q' \<and> evs_fit quiet evs T"
proof (induction oid side limit mid q rs arbitrary: evs q' mid' rs' S T rule: sweep.induct)
  case (2 oid side limit mid q r rs)
  note P = "2.prems"
  have o: "valid_side (opp side)" by (simp add: opp_def)
  note H = replay_head[OF P(2) o P(4)]
  consider "q = 0 \<or> \<not> crosses side limit (rs_price r)" | "q \<noteq> 0" "crosses side limit (rs_price r)" "q < rs_qty r"
    | "q \<noteq> 0" "crosses side limit (rs_price r)" "\<not> q < rs_qty r" by blast
  then show ?case
  proof cases
    case 1
    then have "set_queue (opp side) rs' ((S sm)\<lparr>sb_match := mid'\<rparr>) = S sm"
      using P(1,4,5) set_queue_simps(1)[of "opp side" "S sm"] by auto
    then show ?thesis using 1 P by auto
  next
    case 2
    let ?sb = "set_queue (opp side) rs' ((S sm)\<lparr>sb_match := mid'\<rparr>)"
    have "book_view ?sb ref = book_view (replay_reduce (rs_id r) q (S sm)) ref" for ref
      using P(1) 2 H(2)[OF 2(3)] book_view_ops(1)[where sb = "replay_reduce (rs_id r) q (S sm)"] by auto
    note E = tbl_exec[where mid = mid, OF P(6,7,2,3,4) less_imp_le[OF 2(3)] order_refl 2(1) this refl]
    have evs: "evs = [exec_event r oid side q mid]" "q' = 0" using P(1) 2 by auto
    then have T: "fold tbl_event evs T = tbl_event (exec_event r oid side q mid) T" by simp
    have "fold tbl_event evs T oid = in_flight i q'" "evs_fit quiet evs T" using E(2,3) evs by simp_all
    then show ?thesis unfolding T using E(1) by blast
  next
    case 3
    let ?sb = "set_queue (opp side) rs ((S sm)\<lparr>sb_match := mid + 1\<rparr>)" and ?x = "rs_qty r"
    let ?ev = "exec_event r oid side ?x mid"
    obtain evs1 where S: "sweep oid side limit (mid + 1) (q - ?x) rs = (evs1, q', mid', rs')" "evs = ?ev # evs1"
      using P(1) 3 by (auto split: prod.splits)
    have "book_view ?sb ref = book_view (replay_reduce (rs_id r) ?x (S sm)) ref" for ref
      using H(1) book_view_ops(1)[where sb = "replay_reduce (rs_id r) ?x (S sm)"] by simp
    note E = tbl_exec[where mid = mid, OF P(6,7,2,3,4) order_refl _ 3(1) this refl]
    have sb: "spec_inv ((S(sm := ?sb)) sm)" "queue_of (opp side) ((S(sm := ?sb)) sm) = rs" "sb_match ((S(sm := ?sb)) sm) = mid + 1"
      using spec_inv_delete_at[of "(S sm)\<lparr>sb_match := mid + 1\<rparr>" "opp side" "[]" r rs] P(2,4) o by simp_all
    have eq: "(S(sm := ?sb))(sm := set_queue (opp side) rs' (((S(sm := ?sb)) sm)\<lparr>sb_match := mid'\<rparr>)) =
      S(sm := set_queue (opp side) rs' ((S sm)\<lparr>sb_match := mid'\<rparr>))" by simp
    have q: "?x \<le> q" "\<not> (q = 0 \<or> \<not> crosses side limit (rs_price r))" using 3 by auto
    from "2.IH"[OF q(2) 3(3) S(1) sb(1) P(3) sb(2,3) E(1)[OF q(1)] E(2)[OF q(1)]] show ?thesis
      unfolding eq S(2) fold_simps evs_fit.simps using E(3)[OF q(1)] by blast
  qed
next
  case (1 oid side limit mid q)
  then have "set_queue (opp side) rs' ((S sm)\<lparr>sb_match := mid'\<rparr>) = S sm"
    using set_queue_simps(1)[of "opp side" "S sm"] by auto
  then show ?case using 1 by auto
qed

lemma tbl_match:
  assumes "spec_match oid side limit q (S sm) = (sb', evs, filled)" "spec_inv (S sm)" "valid_side side"
    "tbl_ok S (T(oid := None))" "T oid = in_flight i q"
  shows "tbl_ok (S(sm := sb')) ((fold tbl_event evs T)(oid := None))" "fold tbl_event evs T oid = in_flight i (q - filled)"
    "evs_fit quiet evs T"
proof -
  obtain evs1 left mid rs where S: "sweep oid side limit (sb_match (S sm)) q (queue_of (opp side) (S sm)) = (evs1, left, mid, rs)"
    by (metis prod_cases4)
  then have "evs = evs1" "filled = q - left" "sb' = set_queue (opp side) rs ((S sm)\<lparr>sb_match := mid\<rparr>)"
    using assms(1) by (auto simp: spec_match_def)
  with tbl_sweep[OF S assms(2,3) refl refl assms(4,5), of quiet] show
    "tbl_ok (S(sm := sb')) ((fold tbl_event evs T)(oid := None))" "fold tbl_event evs T oid = in_flight i (q - filled)"
    "evs_fit quiet evs T" by auto
qed

lemma tbl_enter:
  assumes "spec_enter oid side p q (S sm) = (sb', evs, filled)" "spec_inv (S sm)" "valid_side side"
    "tbl_ok S (T(oid := None))" "T oid = Some i" "oi_symbol i = sm" "oi_side i = side" "oi_open i = q" "q \<noteq> 0"
  shows "tbl_ok (S(sm := sb')) (fold tbl_event evs T)" "evs_fit quiet evs T"
proof -
  obtain sb1 evs1 f where m: "spec_match oid side p q (S sm) = (sb1, evs1, f)" by (metis prod_cases3)
  have T: "T oid = in_flight i q" using assms(5,8,9) by (simp add: in_flight_def)
  note M = tbl_match[OF m assms(2,3,4) T]
  let ?T = "fold tbl_event evs1 T"
  have "tbl_ok (S(sm := sb')) (fold tbl_event evs T) \<and> evs_fit quiet evs T"
  proof (cases "q - f = 0")
    case True
    then have "?T(oid := None) = ?T" using M(2) by (auto simp: in_flight_def)
    then show ?thesis using True M(1,3) m assms(1) by (auto simp: spec_enter_def)
  next
    case False
    then have "?T oid = Some (i\<lparr>oi_open := q - f\<rparr>)" using M(2) by (simp add: in_flight_def)
    from tbl_ok_rest[OF M(1) this, of sm side "q - f" p] show ?thesis
      using False M(3) m assms(1,3,6,7) by (auto simp: spec_enter_def evs_fit_append)
  qed
  then show "tbl_ok (S(sm := sb')) (fold tbl_event evs T)" "evs_fit quiet evs T" by auto
qed

lemma tbl_cancel:
  assumes "spec_cancel (S sm) oid keep = (sb', evs, f)" "tbl_ok S T" "spec_inv (S sm)"
  shows "tbl_ok (S(sm := sb')) (fold tbl_event evs T)" "evs_fit False evs T"
proof -
  have "tbl_ok (S(sm := sb')) (fold tbl_event evs T) \<and> evs_fit False evs T"
  proof (cases "spec_find (S sm) oid")
    case None
    then show ?thesis using assms by (auto simp: spec_cancel_def)
  next
    case (Some sr)
    then obtain s r where F: "spec_find (S sm) oid = Some (s, r)" by (metis surj_pair)
    then have v: "book_view (S sm) oid = Some (s, rs_qty r)" by (simp add: book_view_def)
    obtain i where i: "T oid = Some i" "oi_symbol i = sm" "oi_side i = s" "oi_open i = rs_qty r"
      by (rule tbl_ok_lookup[OF assms(2) v])
    have nz: "rs_qty r \<noteq> 0" using spec_find_Some[OF F] spec_inv_queue(2)[OF assms(3)] by auto
    consider "keep \<ge> rs_qty r" | "keep < rs_qty r" "keep = 0" | "keep < rs_qty r" "keep \<noteq> 0" by fastforce
    then show ?thesis
    proof cases
      case 1
      then show ?thesis using assms F by (auto simp: spec_cancel_def)
    next
      case 2
      then show ?thesis using assms(1) F i tbl_ok_remove[OF assms(2) i(1,2)] by (auto simp: spec_cancel_def tbl_reduce_def)
    next
      case 3
      have lt: "rs_qty r - keep < rs_qty r" using 3 unat_sub_less[of keep "rs_qty r"] by (simp add: word_less_nat_alt word_le_nat_alt)
      have c: "sb' = spec_reduce oid keep (S sm)"
        "evs = [EvCanceled \<lparr>ce_id = oid, ce_canceled_qty = rs_qty r - keep, ce_removed = False\<rparr>]"
        using assms(1) F 3 by (auto simp: spec_cancel_def not_le[symmetric])
      have "replay_reduce oid (rs_qty r - keep) (S sm) = sb'" using lt F c by (simp add: replay_reduce_def)
      with tbl_ok_reduce[OF assms(2) v less_imp_le[OF lt], of sb'] show ?thesis
        using c i lt 3 by (auto simp: tbl_reduce_def tbl_dec_def)
    qed
  qed
  then show "tbl_ok (S(sm := sb')) (fold tbl_event evs T)" "evs_fit False evs T" by auto
qed

lemma tbl_replace:
  assumes "spec_replace (S sm) old_id new_id p q = (sb', evs, f)" "spec_inv (S sm)" "tbl_ok S T"
    "T old_id = Some j" "oi_symbol j = sm" "T new_id = None" "p > 0" "q \<noteq> 0"
    "oi_symbol i = sm" "oi_side i = oi_side j" "oi_open i = q"
  shows "tbl_ok (S(sm := sb')) (fold tbl_event evs (T(old_id := None, new_id \<mapsto> i)))"
    "evs_fit True evs (T(old_id := None, new_id \<mapsto> i))" "f"
proof -
  let ?T = "T(old_id := None, new_id \<mapsto> i)" and ?sb = "spec_remove old_id (S sm)"
  have "book_view (S sm) old_id = tbl_view T sm old_id" using assms(3) by (simp add: tbl_ok_def)
  also have "\<dots> = Some (oi_side j, oi_open j)" using assms(4,5) by (simp add: tbl_view_def)
  finally obtain r where F: "spec_find (S sm) old_id = Some (oi_side j, r)" by (auto simp: book_view_def)
  have side: "valid_side (oi_side j)" using spec_find_Some(1)[OF F] .
  have new: "new_id \<noteq> old_id" "new_id \<notin> set (spec_ids (S sm))"
    using assms(4,6) tbl_ok_absent[OF assms(3,6), of sm] by (auto simp: book_view_None)
  have T: "tbl_ok (S(sm := ?sb)) (?T(new_id := None))"
    using tbl_ok_remove[OF assms(3,4,5)] assms(6) new by (simp add: fun_upd_idem)
  have old: "tbl_reduce old_id x ?T = ?T" for x using new by (simp add: tbl_reduce_def)
  have "tbl_ok (S(sm := sb')) (fold tbl_event evs ?T) \<and> evs_fit True evs ?T \<and> f"
  proof (cases "spec_would_cross ?sb (oi_side j) p")
    case True
    obtain sb2 evs2 f2 where e: "spec_enter new_id (oi_side j) p q ?sb = (sb2, evs2, f2)" by (metis prod_cases3)
    have "tbl_ok (S(sm := sb2)) (fold tbl_event evs2 ?T)" "evs_fit True evs2 ?T"
      using tbl_enter[of new_id "oi_side j" p q "S(sm := ?sb)" sm sb2 evs2 f2 ?T i] e T spec_remove_inv(1)[OF assms(2)] side assms(8-)
      by (simp_all)
    then show ?thesis using assms(1,7,8) F new True e old by (auto simp: spec_replace_def Let_def)
  next
    case False
    have "tbl_ok (S(sm := spec_rest new_id (oi_side j) p q ?sb)) ?T"
      using tbl_ok_rest[OF T, of i sm "oi_side j" q p] assms(9-) side by simp
    then show ?thesis using assms(1,7,8) F new False by (auto simp: spec_replace_def Let_def)
  qed
  then show "tbl_ok (S(sm := sb')) (fold tbl_event evs ?T)" "evs_fit True evs ?T" f by auto
qed

end
