(* ===== verification/Engine_Account.thy ===== *)
theory Engine_Account
  imports Engine_Inv
begin

text \<open>
  What the engine tells the owner of an order. The account of a token is the shares entered under
  it, less every execution and every cancelled share reported for it. It is the open quantity as
  long as the order is live and zero once it is done, unless a replacement took its place.
\<close>

section \<open>Accounts\<close>

definition resp_key :: "client_response \<Rightarrow> token \<Rightarrow> token_key" where
  "resp_key r t = (cr_client_id r, token_str t)"

definition acct_resp :: "token_key \<Rightarrow> client_response \<Rightarrow> int" where
  "acct_resp k r =
     (case cr_msg r of
        Accepted a \<Rightarrow> if resp_key r (ac_token a) = k then uint (ac_shares a) else 0
      | Replaced p \<Rightarrow> if resp_key r (rp_replacement_token p) = k then uint (rp_shares p) else 0
      | Executed x \<Rightarrow> if resp_key r (ex_token x) = k then - uint (ex_executed_shares x) else 0
      | Canceled c \<Rightarrow> if resp_key r (ca_token c) = k then - uint (ca_decrement_shares c) else 0
      | _ \<Rightarrow> 0)"

definition acct :: "token_key \<Rightarrow> client_response list \<Rightarrow> int" where
  "acct k out = (\<Sum>r\<leftarrow>out. acct_resp k r)"

definition supersedes :: "token_key \<Rightarrow> client_response \<Rightarrow> bool" where
  "supersedes k r = (case cr_msg r of Replaced p \<Rightarrow> resp_key r (rp_previous_token p) = k | _ \<Rightarrow> False)"

definition superseded :: "token_key \<Rightarrow> client_response list \<Rightarrow> bool" where
  "superseded k out = list_ex (supersedes k) out"

lemma acct_append [simp]: "acct k (out @ out') = acct k out + acct k out'" "acct k [r] = acct_resp k r" "acct k [] = 0"
  by (simp_all add: acct_def)

lemma superseded_append [simp]:
  "superseded k (out @ out') = (superseded k out \<or> superseded k out')" "superseded k [r] = supersedes k r" "superseded k [] = False"
  by (simp_all add: superseded_def)

definition keys_of :: "order_table \<Rightarrow> token_key set" where
  "keys_of T = order_key ` ran T"

definition acct_ok :: "order_table \<Rightarrow> client_response list \<Rightarrow> bool" where
  "acct_ok T out \<longleftrightarrow> (\<forall>ref i. T ref = Some i \<longrightarrow> acct (order_key i) out = uint (oi_open i)) \<and>
     (\<forall>k. k \<notin> keys_of T \<longrightarrow> superseded k out \<or> acct k out = 0)"

lemma acct_okI:
  "(\<And>ref i. T ref = Some i \<Longrightarrow> acct (order_key i) out = uint (oi_open i)) \<Longrightarrow>
   (\<And>k. k \<notin> keys_of T \<Longrightarrow> superseded k out \<or> acct k out = 0) \<Longrightarrow> acct_ok T out"
  unfolding acct_ok_def by blast

lemma acct_okD:
  assumes "acct_ok T out"
  shows "T ref = Some i \<Longrightarrow> acct (order_key i) out = uint (oi_open i)" "k \<notin> keys_of T \<Longrightarrow> superseded k out \<or> acct k out = 0"
  using assms unfolding acct_ok_def by blast+

definition inj_keys :: "order_table \<Rightarrow> bool" where
  "inj_keys T \<longleftrightarrow> (\<forall>a b i j. T a = Some i \<longrightarrow> T b = Some j \<longrightarrow> order_key i = order_key j \<longrightarrow> a = b)"

lemma keys_ofI: "T ref = Some i \<Longrightarrow> order_key i \<in> keys_of T"
  by (auto simp: keys_of_def ran_def)

lemma keys_of_iff: "k \<in> keys_of T \<longleftrightarrow> (\<exists>ref i. T ref = Some i \<and> order_key i = k)"
  by (auto simp: keys_of_def ran_def)

lemma keys_ofE:
  assumes "k \<in> keys_of T"
  obtains ref i where "T ref = Some i" "order_key i = k"
  using assms unfolding keys_of_iff by blast

lemma live_inj_keys: "live_ok T L \<Longrightarrow> inj_keys T"
  unfolding inj_keys_def using live_ok_inj by blast

lemma keys_of_upd:
  "k \<in> keys_of (T(a := v)) \<longleftrightarrow> (\<exists>i. v = Some i \<and> order_key i = k) \<or> (\<exists>ref i. ref \<noteq> a \<and> T ref = Some i \<and> order_key i = k)"
  unfolding keys_of_iff by (cases "\<exists>i. v = Some i \<and> order_key i = k") (force split: if_splits)+

lemma keys_of_drop:
  assumes "inj_keys T" "T a = Some i"
  shows "keys_of (T(a := None)) = keys_of T - {order_key i}"
proof (intro set_eqI iffI)
  fix k assume "k \<in> keys_of (T(a := None))"
  then obtain ref j where j: "ref \<noteq> a" "T ref = Some j" "order_key j = k" unfolding keys_of_upd by blast
  moreover have "order_key j \<noteq> order_key i" using assms j(1,2) unfolding inj_keys_def by blast
  ultimately show "k \<in> keys_of T - {order_key i}" using keys_ofI[of T ref j] by simp
next
  fix k assume k: "k \<in> keys_of T - {order_key i}"
  then obtain ref j where j: "T ref = Some j" "order_key j = k" by (auto elim: keys_ofE)
  moreover have "ref \<noteq> a" using k j assms(2) by auto
  ultimately show "k \<in> keys_of (T(a := None))" unfolding keys_of_upd by blast
qed

lemma keys_of_put:
  assumes "T a = Some i" "order_key i' = order_key i"
  shows "keys_of (T(a \<mapsto> i')) = keys_of T"
proof (intro set_eqI iffI)
  fix k assume "k \<in> keys_of (T(a \<mapsto> i'))"
  then show "k \<in> keys_of T" using assms keys_ofI[of T] unfolding keys_of_upd by auto
next
  fix k assume "k \<in> keys_of T"
  then obtain ref j where j: "T ref = Some j" "order_key j = k" unfolding keys_of_iff by blast
  then show "k \<in> keys_of (T(a \<mapsto> i'))" using assms unfolding keys_of_upd by (cases "ref = a") auto
qed

lemma keys_of_new:
  assumes "T a = None"
  shows "keys_of (T(a \<mapsto> i)) = insert (order_key i) (keys_of T)"
proof (intro set_eqI iffI)
  fix k assume "k \<in> keys_of (T(a \<mapsto> i))"
  then show "k \<in> insert (order_key i) (keys_of T)" using keys_ofI[of T] unfolding keys_of_upd by auto
next
  fix k assume k: "k \<in> insert (order_key i) (keys_of T)"
  show "k \<in> keys_of (T(a \<mapsto> i))"
  proof (cases "k = order_key i")
    case False
    then obtain ref j where "T ref = Some j" "order_key j = k" using k by (auto elim: keys_ofE)
    then show ?thesis using assms unfolding keys_of_upd by (cases "ref = a") auto
  qed (simp add: keys_of_upd)
qed

section \<open>Accounts under the callbacks\<close>

text \<open>A response that takes \<open>x\<close> shares off one order, with the order reduced by as much.\<close>

lemma acct_reduce:
  assumes ok: "acct_ok T out" and inj: "inj_keys T" and a: "T a = Some i" and x: "x \<le> oi_open i"
    and m: "acct_resp (order_key i) m = - uint x" "\<And>k. k \<noteq> order_key i \<Longrightarrow> acct_resp k m = 0"
  shows "acct_ok (tbl_reduce a x T) (out @ [m])"
proof -
  have u: "uint (oi_open i - x) = uint (oi_open i) - uint x" using x by (simp add: uint_sub_if' word_le_def)
  have k: "acct (order_key i) (out @ [m]) = uint (oi_open i - x)" using acct_okD(1)[OF ok a] m(1) u by simp
  have other: "acct (order_key j) (out @ [m]) = uint (oi_open j)" if "T b = Some j" "b \<noteq> a" for b j
  proof -
    have "order_key j \<noteq> order_key i" using inj a that unfolding inj_keys_def by blast
    then show ?thesis using acct_okD(1)[OF ok that(1)] m(2) by simp
  qed
  have rest: "superseded k' (out @ [m]) \<or> acct k' (out @ [m]) = 0" if "k' \<notin> keys_of T" for k'
  proof -
    have "k' \<noteq> order_key i" using that keys_ofI[of T a i] a by blast
    then show ?thesis using acct_okD(2)[OF ok that] m(2)[of k'] by auto
  qed
  show ?thesis
  proof (cases "oi_open i - x = 0")
    case True
    then have T: "tbl_reduce a x T = T(a := None)" using a by (simp add: tbl_reduce_def)
    show ?thesis unfolding T
    proof (rule acct_okI)
      show "superseded k' (out @ [m]) \<or> acct k' (out @ [m]) = 0" if "k' \<notin> keys_of (T(a := None))" for k'
        using that rest[of k'] k True unfolding keys_of_drop[OF inj, of a i, OF a] by (cases "k' = order_key i") simp_all
    qed (use other in \<open>auto split: if_splits\<close>)
  next
    case False
    then have T: "tbl_reduce a x T = T(a \<mapsto> i\<lparr>oi_open := oi_open i - x\<rparr>)" using a by (simp add: tbl_reduce_def)
    have K: "keys_of (T(a \<mapsto> i\<lparr>oi_open := oi_open i - x\<rparr>)) = keys_of T" using a by (intro keys_of_put) simp_all
    show ?thesis unfolding T
    proof (rule acct_okI)
      show "superseded k' (out @ [m]) \<or> acct k' (out @ [m]) = 0" if "k' \<notin> keys_of (T(a \<mapsto> i\<lparr>oi_open := oi_open i - x\<rparr>))" for k'
        using that rest[of k'] unfolding K by blast
    qed (use other k in \<open>auto split: if_splits\<close>)
  qed
qed

lemma inj_keys_reduce: "inj_keys T \<Longrightarrow> inj_keys (tbl_reduce a x T)"
  by (auto simp: tbl_reduce_def inj_keys_def split: option.splits)

lemma acct_executed:
  assumes "acct_ok (en_orders e) (en_to_gateway e)" "inj_keys (en_orders e)" "ev_fits quiet (EvExecuted x) (en_orders e)"
  shows "acct_ok (en_orders (on_executed x e)) (en_to_gateway (on_executed x e))"
proof -
  let ?T = "en_orders e" and ?a = "xe_resting_id x" and ?b = "xe_aggressor_id x" and ?q = "xe_qty x"
  obtain i j where i: "?T ?a = Some i" "?q \<le> oi_open i" and j: "?T ?b = Some j" "?q \<le> oi_open j" and n: "?a \<noteq> ?b"
    using assms(3) by auto
  let ?m = "\<lambda>(i :: order_info) l. \<lparr>cr_client_id = oi_client_id i, cr_msg = Executed \<lparr>ex_timestamp = en_now e, ex_token = oi_token i,
    ex_executed_shares = ?q, ex_execution_price = xe_price x, ex_liquidity_flag = l, ex_match_number = xe_match_id x\<rparr>\<rparr>"
  have m: "acct_resp (order_key i) (?m i l) = - uint ?q" "k \<noteq> order_key i \<Longrightarrow> acct_resp k (?m i l) = 0" for i l k
    by (auto simp: acct_resp_def order_key_def resp_key_def)
  have "acct_ok (tbl_reduce ?a ?q ?T) (en_to_gateway e @ [?m i 0x41])"
    by (rule acct_reduce[OF assms(1,2) i m])
  then have "acct_ok (tbl_reduce ?b ?q (tbl_reduce ?a ?q ?T)) ((en_to_gateway e @ [?m i 0x41]) @ [?m j 0x52])"
    using j n by (intro acct_reduce[OF _ inj_keys_reduce[OF assms(2)] _ _ m]) auto
  moreover have "en_to_gateway (on_executed x e) = (en_to_gateway e @ [?m i 0x41]) @ [?m j 0x52]"
    using i(1) j(1) by (simp add: on_executed_def Let_def notify_def)
  ultimately show ?thesis using on_event_orders[of "EvExecuted x" e] by simp
qed

lemma acct_canceled:
  assumes "acct_ok (en_orders e) (en_to_gateway e)" "inj_keys (en_orders e)"
    "ev_fits (en_suppress_ouch_cancel e) (EvCanceled c) (en_orders e)"
  shows "acct_ok (en_orders (on_canceled c e)) (en_to_gateway (on_canceled c e))"
proof (cases "en_orders e (ce_id c)")
  case None
  then show ?thesis using assms(1) by (simp add: on_canceled_def notify_cancel_def Let_def tbl_reduce_def)
next
  case (Some i)
  let ?q = "ce_canceled_qty c"
  let ?m = "\<lparr>cr_client_id = oi_client_id i, cr_msg = Canceled \<lparr>ca_timestamp = en_now e, ca_token = oi_token i,
    ca_decrement_shares = ?q, ca_reason = 0x55\<rparr>\<rparr>"
  have q: "\<not> en_suppress_ouch_cancel e" "?q \<le> oi_open i" "\<not> ce_removed c \<Longrightarrow> oi_open i - ?q \<noteq> 0"
    using assms(3) Some by (auto split: if_splits)
  have m: "acct_resp (order_key i) ?m = - uint ?q" "k \<noteq> order_key i \<Longrightarrow> acct_resp k ?m = 0" for k
    by (auto simp: acct_resp_def order_key_def resp_key_def)
  have "en_to_gateway (on_canceled c e) = en_to_gateway e @ [?m]"
    using Some q(1) by (simp add: on_canceled_def notify_cancel_def Let_def)
  moreover have "en_orders (on_canceled c e) = tbl_reduce (ce_id c) ?q (en_orders e)"
    using on_event_orders[of "EvCanceled c" e] Some q(3) by (auto simp: tbl_dec_def tbl_reduce_def)
  ultimately show ?thesis using acct_reduce[OF assms(1,2) Some q(2) m] by simp
qed

lemma acct_on_event:
  assumes "acct_ok (en_orders e) (en_to_gateway e)" "inj_keys (en_orders e)"
    "ev_fits (en_suppress_ouch_cancel e) ev (en_orders e)"
  shows "acct_ok (en_orders (on_event ev e)) (en_to_gateway (on_event ev e))"
  using assms acct_executed acct_canceled by (cases ev) (auto simp: on_added_def on_replaced_def simp del: ev_fits.simps)

lemma acct_fold:
  assumes "acct_ok (en_orders e) (en_to_gateway e)" "live_ok (en_orders e) (en_live_tokens e)"
    "evs_fit (en_suppress_ouch_cancel e) evs (en_orders e)"
  shows "acct_ok (en_orders (fold on_event evs e)) (en_to_gateway (fold on_event evs e))"
  using assms
proof (induction evs arbitrary: e)
  case (Cons ev evs)
  then show ?case using Cons.IH[of "on_event ev e"] acct_on_event[OF _ live_inj_keys] live_ok_on_event[of e ev]
    by (simp add: on_event_orders on_event_frame)
qed simp

text \<open>Callbacks supersede nothing.\<close>

lemma superseded_on_event: "superseded k (en_to_gateway (on_event ev e)) = superseded k (en_to_gateway e)"
  by (cases ev) (auto simp: on_added_def on_executed_def on_canceled_def on_replaced_def notify_def notify_cancel_def Let_def
    supersedes_def split: option.splits)

lemma superseded_fold: "superseded k (en_to_gateway (fold on_event evs e)) = superseded k (en_to_gateway e)"
  by (induction evs arbitrary: e) (simp_all add: superseded_on_event)

section \<open>Orders that enter and leave\<close>

lemma acct_insert:
  assumes "acct_ok T out" "T a = None" "order_key i \<notin> keys_of T" "\<not> superseded (order_key i) out"
    "acct_resp (order_key i) m = uint (oi_open i)" "\<And>k. k \<noteq> order_key i \<Longrightarrow> acct_resp k m = 0"
  shows "acct_ok (T(a \<mapsto> i)) (out @ [m])"
proof (rule acct_okI)
  have z: "acct (order_key i) out = 0" using acct_okD(2)[OF assms(1,3)] assms(4) by blast
  have n: "order_key j \<noteq> order_key i" if "T b = Some j" for b j using assms(3) keys_ofI[of T b j] that by auto
  show "acct (order_key j) (out @ [m]) = uint (oi_open j)" if "(T(a \<mapsto> i)) b = Some j" for b j
    using that z assms(5,6) n acct_okD(1)[OF assms(1), of b j] by (auto split: if_splits)
  show "superseded k (out @ [m]) \<or> acct k (out @ [m]) = 0" if "k \<notin> keys_of (T(a \<mapsto> i))" for k
    using that acct_okD(2)[OF assms(1), of k] assms(6)[of k] keys_of_new[of T a i] assms(2) by auto
qed

lemma acct_drop_superseded:
  assumes "acct_ok T out" "inj_keys T" "T a = Some i" "superseded (order_key i) out"
  shows "acct_ok (T(a := None)) out"
proof (rule acct_okI)
  show "superseded k out \<or> acct k out = 0" if "k \<notin> keys_of (T(a := None))" for k
    using that assms(4) acct_okD(2)[OF assms(1), of k] unfolding keys_of_drop[OF assms(2), of a i, OF assms(3)] by blast
qed (use acct_okD(1)[OF assms(1)] in \<open>auto split: if_splits\<close>)

lemma acct_neutral:
  assumes "acct_ok T out" "\<And>k. acct_resp k m = 0"
  shows "acct_ok T (out @ [m])"
proof (rule acct_okI)
  show "superseded k (out @ [m]) \<or> acct k (out @ [m]) = 0" if "k \<notin> keys_of T" for k
    using acct_okD(2)[OF assms(1) that] assms(2) by auto
qed (use acct_okD(1)[OF assms(1)] assms(2) in auto)

end
