(* ===== verification/Engine_Step.thy ===== *)
theory Engine_Step
  imports Engine_Account
begin

text \<open>
  Every command keeps the engine's invariant and returns. The abstract books of the invariant are not
  a choice: they are the books the published market events replay to.
\<close>

section \<open>The invariant\<close>

definition replay_market :: "market_event \<Rightarrow> books \<Rightarrow> books" where
  "replay_market m S = S(me_symbol m := replay_event (me_ev m) (S (me_symbol m)))"

definition replay_feed :: "market_event list \<Rightarrow> books" where
  "replay_feed ms = fold replay_market ms (\<lambda>_. spec_empty)"

lemma replay_feed_events:
  "replay_feed (ms @ map (\<lambda>ev. \<lparr>me_ts = t, me_symbol = sm, me_ev = ev\<rparr>) evs) =
     (replay_feed ms)(sm := fold replay_event evs (replay_feed ms sm))"
proof -
  have "fold replay_market (map (\<lambda>ev. \<lparr>me_ts = t, me_symbol = sm, me_ev = ev\<rparr>) evs) S = S(sm := fold replay_event evs (S sm))" for S
    by (induction evs arbitrary: S) (simp_all add: replay_market_def)
  then show ?thesis by (simp add: replay_feed_def)
qed

definition books_ok :: "(symbol \<rightharpoonup> fast_book) \<Rightarrow> books \<Rightarrow> bool" where
  "books_ok B S \<longleftrightarrow> (\<forall>sm. case B sm of None \<Rightarrow> S sm = spec_empty | Some b \<Rightarrow> fb_sim b (S sm))"

definition used_ok :: "engine \<Rightarrow> bool" where
  "used_ok e \<longleftrightarrow> keys_of (en_orders e) \<subseteq> en_used_tokens e \<and> (\<forall>k. superseded k (en_to_gateway e) \<longrightarrow> k \<in> en_used_tokens e)"

definition refs_ok :: "engine \<Rightarrow> bool" where
  "refs_ok e \<longleftrightarrow> (\<forall>ref. en_orders e ref \<noteq> None \<longrightarrow> ref < en_next_ref e)"

text \<open>The part that holds also while a book operation reports its events; \<open>n\<close> bounds the orders entered so far.\<close>

definition engine_base :: "nat \<Rightarrow> books \<Rightarrow> engine \<Rightarrow> bool" where
  "engine_base n S e \<longleftrightarrow> books_ok (en_books e) S \<and> live_ok (en_orders e) (en_live_tokens e) \<and>
     acct_ok (en_orders e) (en_to_gateway e) \<and> used_ok e \<and> refs_ok e \<and> unat (en_next_ref e) \<le> n + 1 \<and>
     (\<forall>sm. spec_size (S sm) \<le> n) \<and> S = replay_feed (en_to_feed e)"

lemma engine_baseD:
  assumes "engine_base n S e"
  shows "books_ok (en_books e) S" "live_ok (en_orders e) (en_live_tokens e)" "acct_ok (en_orders e) (en_to_gateway e)"
    "used_ok e" "refs_ok e" "unat (en_next_ref e) \<le> n + 1" "\<And>sm. spec_size (S sm) \<le> n" "S = replay_feed (en_to_feed e)"
  using assms unfolding engine_base_def by blast+

definition engine_inv :: "nat \<Rightarrow> books \<Rightarrow> engine \<Rightarrow> bool" where
  "engine_inv n S e \<longleftrightarrow> engine_base n S e \<and> tbl_ok S (en_orders e) \<and> \<not> en_suppress_ouch_cancel e"

lemma engine_inv_init: "engine_inv 0 (\<lambda>_. spec_empty) en_init"
proof -
  have "tbl_ok (\<lambda>_. spec_empty) Map.empty"
    by (simp add: tbl_ok_def tbl_view_def book_view_def spec_find_def spec_empty_def)
  then show ?thesis
    by (simp add: engine_inv_def engine_base_def en_init_def books_ok_def live_ok_def acct_ok_def used_ok_def refs_ok_def
      keys_of_def spec_size_def spec_empty_def replay_feed_def)
qed

lemma books_ok_inv: "books_ok B S \<Longrightarrow> spec_inv (S sm)"
  using fb_sim_spec spec_inv_empty by (auto simp: books_ok_def dest!: spec[of _ sm] split: option.splits)

lemma books_ok_put:
  assumes "books_ok B S" "fb_sim b sb"
  shows "books_ok (B(sm \<mapsto> b)) (S(sm := sb))"
  unfolding books_ok_def
proof
  fix sm'
  show "case (B(sm \<mapsto> b)) sm' of None \<Rightarrow> (S(sm := sb)) sm' = spec_empty | Some b \<Rightarrow> fb_sim b ((S(sm := sb)) sm')"
    using assms(1)[unfolded books_ok_def, rule_format, of sm'] assms(2) by (cases "sm' = sm") (simp_all split: option.splits)
qed

lemma book_for_ok:
  assumes "books_ok (en_books e) S"
  obtains b where "book_for sm e = (put_book sm b e, b)" "fb_sim b (S sm)"
proof (cases "en_books e sm")
  case None
  then have "S sm = spec_empty" using assms by (auto simp: books_ok_def dest!: spec[of _ sm])
  then show ?thesis using that None fb_new_sim[OF fb_default_config_ok]
    by (simp add: book_for_def put_book_def Let_def)
next
  case (Some b)
  then have "fb_sim b (S sm)" using assms by (auto simp: books_ok_def dest!: spec[of _ sm])
  moreover have "put_book sm b e = e" using Some by (simp add: put_book_def fun_upd_idem)
  ultimately show ?thesis using that Some by (simp add: book_for_def)
qed

lemma put_book_simps [simp]:
  "en_orders (put_book sm b e) = en_orders e" "en_live_tokens (put_book sm b e) = en_live_tokens e"
  "en_books (put_book sm b e) = (en_books e)(sm \<mapsto> b)" "en_used_tokens (put_book sm b e) = en_used_tokens e"
  "en_next_ref (put_book sm b e) = en_next_ref e" "en_now (put_book sm b e) = en_now e"
  "en_current_symbol (put_book sm b e) = en_current_symbol e" "en_to_feed (put_book sm b e) = en_to_feed e"
  "en_suppress_ouch_cancel (put_book sm b e) = en_suppress_ouch_cancel e" "en_to_gateway (put_book sm b e) = en_to_gateway e"
  "put_book sm b' (put_book sm b e) = put_book sm b' e"
  by (simp_all add: put_book_def)

section \<open>Reporting events\<close>

lemma keys_of_put_sub: "(\<And>i. v = Some i \<Longrightarrow> order_key i \<in> keys_of T) \<Longrightarrow> keys_of (T(a := v)) \<subseteq> keys_of T"
  using keys_ofI[of T] unfolding subset_iff keys_of_upd by blast

lemma keys_of_reduce: "keys_of (tbl_reduce a x T) \<subseteq> keys_of T"
proof (cases "T a")
  case (Some i)
  then have "keys_of (T(a := if oi_open i - x = 0 then None else Some (i\<lparr>oi_open := oi_open i - x\<rparr>))) \<subseteq> keys_of T"
    using keys_ofI[of T a i] by (intro keys_of_put_sub) (auto split: if_splits)
  then show ?thesis using Some by (simp add: tbl_reduce_def split: if_splits)
qed (simp add: tbl_reduce_def)

lemma keys_of_dec: "keys_of (tbl_dec a x T) \<subseteq> keys_of T"
proof (cases "T a")
  case (Some i)
  then have "keys_of (T(a \<mapsto> i\<lparr>oi_open := oi_open i - x\<rparr>)) \<subseteq> keys_of T"
    using keys_ofI[of T a i] by (intro keys_of_put_sub) auto
  then show ?thesis using Some by (simp add: tbl_dec_def)
qed (simp add: tbl_dec_def)

lemma keys_of_tbl_event: "keys_of (tbl_event ev T) \<subseteq> keys_of T"
  using keys_of_reduce keys_of_dec by (cases ev) (simp_all add: subset_trans[OF keys_of_reduce keys_of_reduce])

lemma tbl_event_None: "T ref = None \<Longrightarrow> tbl_event ev T ref = None"
  by (cases ev) (auto simp: tbl_reduce_def tbl_dec_def split: option.splits)

lemma fold_tbl_event_keys: "keys_of (fold tbl_event evs T) \<subseteq> keys_of T"
proof (induction evs arbitrary: T)
  case (Cons ev evs)
  show ?case using subset_trans[OF Cons.IH[of "tbl_event ev T"] keys_of_tbl_event] by simp
qed simp

lemma tbl_event_key: "tbl_event ev T r = Some j \<Longrightarrow> \<exists>j0. T r = Some j0 \<and> order_key j0 = order_key j"
  by (cases ev) (auto simp: tbl_reduce_def tbl_dec_def split: option.splits if_splits)

lemma fold_tbl_event_key: "fold tbl_event evs T r = Some j \<Longrightarrow> \<exists>j0. T r = Some j0 \<and> order_key j0 = order_key j"
proof (induction evs arbitrary: T)
  case (Cons ev evs)
  then obtain j1 where "tbl_event ev T r = Some j1" "order_key j1 = order_key j" by (metis fold_simps(2))
  then show ?case using tbl_event_key[of ev T r j1] by auto
qed simp

lemma fold_tbl_event_None: "T ref = None \<Longrightarrow> fold tbl_event evs T ref = None"
  by (induction evs arbitrary: T) (simp_all add: tbl_event_None)

lemma base_events:
  assumes base: "engine_base n S e" and sm: "en_current_symbol e = sm" and b: "fb_sim b sb"
    and sb: "fold replay_event evs (S sm) = sb" "spec_size sb \<le> n" and fit: "evs_fit (en_suppress_ouch_cancel e) evs (en_orders e)"
  shows "engine_base n (S(sm := sb)) (fold on_event evs (put_book sm b e))"
proof -
  let ?e = "put_book sm b e"
  let ?e' = "fold on_event evs ?e"
  note B = engine_baseD[OF base]
  have "S(sm := sb) = replay_feed (en_to_feed ?e')"
    using B(8) sb(1) sm by (simp add: fold_on_event replay_feed_events)
  moreover have "live_ok (en_orders ?e') (en_live_tokens ?e')" using B(2) by (intro live_ok_fold) simp
  moreover have "acct_ok (en_orders ?e') (en_to_gateway ?e')"
    using B(2,3) fit by (intro acct_fold) simp_all
  moreover have "used_ok ?e'"
    using B(4) fold_tbl_event_keys[of evs "en_orders e"]
    unfolding used_ok_def fold_on_event superseded_fold put_book_simps by blast
  moreover have "refs_ok ?e'"
  proof -
    have "ref < en_next_ref e" if "fold tbl_event evs (en_orders e) ref \<noteq> None" for ref
    proof -
      have "en_orders e ref \<noteq> None" using that fold_tbl_event_None[of "en_orders e" ref evs] by (rule contrapos_nn)
      then show ?thesis using B(5) unfolding refs_ok_def by blast
    qed
    then show ?thesis unfolding refs_ok_def fold_on_event put_book_simps by blast
  qed
  moreover have "books_ok (en_books ?e') (S(sm := sb))" using books_ok_put[OF B(1) b] by (simp add: fold_on_event)
  moreover have "unat (en_next_ref ?e') \<le> n + 1" using B(6) by (simp add: fold_on_event)
  moreover have "spec_size ((S(sm := sb)) sm') \<le> n" for sm' using B(7) sb(2) by simp
  ultimately show ?thesis unfolding engine_base_def by blast
qed

section \<open>Orders that enter, leave and change places\<close>

lemma unat_next: "unat (r :: u64) + 1 < 2 ^ 64 \<Longrightarrow> unat (r + 1) = unat r + 1"
  by (simp add: unat_word_ariths)

lemma engine_invD:
  assumes "engine_inv n S e"
  shows "engine_base n S e" "tbl_ok S (en_orders e)" "\<not> en_suppress_ouch_cancel e"
  using assms unfolding engine_inv_def by blast+

lemma fresh_ref: "refs_ok e \<Longrightarrow> en_orders e (en_next_ref e) = None"
  by (auto simp: refs_ok_def)

lemma refs_ok_grow:
  assumes "refs_ok e" "unat (en_next_ref e) + 1 < 2 ^ 64" "en_next_ref e' = en_next_ref e + 1"
    "\<And>ref. en_orders e' ref \<noteq> None \<Longrightarrow> en_orders e ref \<noteq> None \<or> ref = en_next_ref e"
  shows "refs_ok e'"
  unfolding refs_ok_def
proof (intro allI impI)
  fix ref assume "en_orders e' ref \<noteq> None"
  then have "ref \<le> en_next_ref e" using assms(1,4) unfolding refs_ok_def by (metis order_less_imp_le order_refl)
  then show "ref < en_next_ref e'" using unat_next[OF assms(2)] assms(3) by (simp add: word_less_nat_alt word_le_nat_alt)
qed

lemma used_okD:
  assumes "used_ok e" "k \<notin> en_used_tokens e"
  shows "k \<notin> keys_of (en_orders e)" "\<not> superseded k (en_to_gateway e)"
  using assms unfolding used_ok_def by blast+

lemma live_unused:
  assumes "live_ok (en_orders e) L" "used_ok e" "k \<notin> en_used_tokens e"
  shows "L k = None"
proof (rule ccontr)
  assume "L k \<noteq> None"
  then obtain ref where "L k = Some ref" by auto
  then obtain i where "en_orders e ref = Some i" "order_key i = k" using assms(1) unfolding live_ok_def by blast
  then show False using used_okD(1)[OF assms(2,3)] keys_ofI[of "en_orders e" ref i] by blast
qed

lemma accept_ok:
  assumes inv: "engine_inv n S e" and new: "(client, token_str (eo_token m)) \<notin> en_used_tokens e" and n: "n + 2 < 2 ^ 64"
    and a: "accept_order client m e = (e1, ref)"
  shows "engine_base (Suc n) S e1" "tbl_ok S ((en_orders e1)(ref := None))"
    "en_orders e1 ref = Some \<lparr>oi_client_id = client, oi_token = eo_token m, oi_symbol = eo_stock m, oi_side = eo_side m, oi_open = eo_shares m\<rparr>"
    "en_current_symbol e1 = eo_stock m" "\<not> en_suppress_ouch_cancel e1" "en_to_feed e1 = en_to_feed e"
proof -
  note I = engine_invD[OF inv] and B = engine_baseD[OF engine_invD(1)[OF inv]]
  let ?i = "\<lparr>oi_client_id = client, oi_token = eo_token m, oi_symbol = eo_stock m, oi_side = eo_side m, oi_open = eo_shares m\<rparr>"
  have k: "order_key ?i = (client, token_str (eo_token m))" by (simp add: order_key_def)
  have e1: "ref = en_next_ref e" "en_orders e1 = (en_orders e)(ref \<mapsto> ?i)" "en_books e1 = en_books e"
    "en_live_tokens e1 = (en_live_tokens e)(order_key ?i \<mapsto> ref)" "en_used_tokens e1 = insert (order_key ?i) (en_used_tokens e)"
    "en_next_ref e1 = en_next_ref e + 1" "en_to_feed e1 = en_to_feed e" "en_current_symbol e1 = eo_stock m"
    "en_suppress_ouch_cancel e1 = en_suppress_ouch_cancel e"
    "en_to_gateway e1 = en_to_gateway e @ [\<lparr>cr_client_id = client, cr_msg = Accepted (accepted_for m ref (en_now e))\<rparr>]"
    using a by (auto simp: accept_order_def Let_def order_key_def)
  have r: "en_orders e ref = None" using fresh_ref[OF B(5)] e1(1) by simp
  have new': "order_key ?i \<notin> en_used_tokens e" using new k by simp
  have nk: "order_key ?i \<notin> keys_of (en_orders e)" "\<not> superseded (order_key ?i) (en_to_gateway e)"
    using used_okD[OF B(4) new'] by blast+
  have "live_ok (en_orders e1) (en_live_tokens e1)"
    unfolding e1(2,4) by (rule live_ok_insert[where T = "en_orders e", OF B(2) r live_unused[OF B(2,4) new']])
  moreover have "acct_ok (en_orders e1) (en_to_gateway e1)"
    unfolding e1(2,10) by (rule acct_insert[where T = "en_orders e", OF B(3) r nk])
      (auto simp: acct_resp_def resp_key_def order_key_def accepted_for_def)
  moreover have "used_ok e1"
    using B(4) keys_of_new[of "en_orders e" ref ?i] r unfolding used_ok_def e1(2,5,10)
    by (auto simp: supersedes_def)
  moreover have "refs_ok e1" using refs_ok_grow[OF B(5) _ e1(6)] B(6) n e1(1,2) by (auto split: if_splits)
  moreover have "unat (en_next_ref e1) \<le> Suc n + 1" using unat_next[of "en_next_ref e"] B(6) n e1(6) by simp
  ultimately show "engine_base (Suc n) S e1"
    using B(1,7,8) e1(3,7) unfolding engine_base_def by (simp add: le_SucI)
  have "(en_orders e1)(ref := None) = en_orders e" using r e1(2) by (simp add: fun_upd_idem)
  then show "tbl_ok S ((en_orders e1)(ref := None))" using I(2) by simp
  show "en_orders e1 ref = Some ?i" "en_current_symbol e1 = eo_stock m" "\<not> en_suppress_ouch_cancel e1" "en_to_feed e1 = en_to_feed e"
    using e1 I(3) by simp_all
qed

lemma cancel_unrested_ok:
  assumes base: "engine_base n S e" and i: "en_orders e ref = Some i" "order_key i = (client, token_str token)" "oi_open i = q"
    and e1: "e1 = cancel_unrested client ref token q reason e"
  shows "engine_base n S e1" "en_orders e1 = (en_orders e)(ref := None)"
    "en_suppress_ouch_cancel e1 = en_suppress_ouch_cancel e"
proof -
  note B = engine_baseD[OF base]
  let ?m = "\<lparr>cr_client_id = client, cr_msg = Canceled \<lparr>ca_timestamp = en_now e, ca_token = token,
    ca_decrement_shares = q, ca_reason = reason\<rparr>\<rparr>"
  have e: "en_orders e1 = (en_orders e)(ref := None)" "en_live_tokens e1 = (en_live_tokens e)(order_key i := None)"
    "en_to_gateway e1 = en_to_gateway e @ [?m]" "en_books e1 = en_books e" "en_used_tokens e1 = en_used_tokens e"
    "en_next_ref e1 = en_next_ref e" "en_to_feed e1 = en_to_feed e" "en_suppress_ouch_cancel e1 = en_suppress_ouch_cancel e"
    using i(2) by (simp_all add: e1 cancel_unrested_def Let_def)
  have "live_ok (en_orders e1) (en_live_tokens e1)" unfolding e(1,2) by (rule live_ok_erase[where T = "en_orders e", OF B(2) i(1)])
  moreover have "acct_ok (tbl_reduce ref q (en_orders e)) (en_to_gateway e @ [?m])"
    using i by (intro acct_reduce[OF B(3) live_inj_keys[OF B(2)] i(1)]) (auto simp: acct_resp_def resp_key_def)
  then have "acct_ok (en_orders e1) (en_to_gateway e1)" using i by (simp add: e tbl_reduce_def)
  moreover have "used_ok e1"
    using B(4) keys_of_put_sub[of None "en_orders e" ref] unfolding used_ok_def e(1,3,5) by (auto simp: supersedes_def)
  moreover have "refs_ok e1" using B(5) by (simp add: refs_ok_def e)
  ultimately show "engine_base n S e1" using B(1,6,7,8) e unfolding engine_base_def by simp
  show "en_orders e1 = (en_orders e)(ref := None)" "en_suppress_ouch_cancel e1 = en_suppress_ouch_cancel e"
    using e by simp_all
qed

lemma swap_ok:
  assumes inv: "engine_inv n S e" and new: "(client, token_str (ro_replacement_token m)) \<notin> en_used_tokens e" and n: "n + 2 < 2 ^ 64"
    and old: "en_orders e old_ref = Some info" "en_live_tokens e (client, token_str (ro_existing_token m)) = Some old_ref"
    and a: "swap_order client m old_ref info e = (e1, ref)"
    and i: "i = \<lparr>oi_client_id = client, oi_token = ro_replacement_token m, oi_symbol = oi_symbol info, oi_side = oi_side info, oi_open = ro_shares m\<rparr>"
  shows "engine_base (Suc n) S e1" "en_orders e1 = (en_orders e)(old_ref := None, ref \<mapsto> i)" "en_orders e ref = None"
    "en_current_symbol e1 = oi_symbol info" "\<not> en_suppress_ouch_cancel e1" "en_to_feed e1 = en_to_feed e"
proof -
  note I = engine_invD[OF inv] and B = engine_baseD[OF engine_invD(1)[OF inv]]
  let ?T = "en_orders e" and ?m = "\<lparr>cr_client_id = client, cr_msg = Replaced (replaced_for m info ref (en_now e))\<rparr>"
  have ko: "order_key info = (client, token_str (ro_existing_token m))" using old B(2) by (auto simp: live_ok_def)
  have e1: "ref = en_next_ref e" "en_orders e1 = ?T(old_ref := None, ref \<mapsto> i)" "en_books e1 = en_books e"
    "en_live_tokens e1 = (en_live_tokens e)(order_key info := None, order_key i \<mapsto> ref)"
    "en_used_tokens e1 = insert (order_key i) (en_used_tokens e)"
    "en_next_ref e1 = en_next_ref e + 1" "en_to_feed e1 = en_to_feed e" "en_current_symbol e1 = oi_symbol info"
    "en_suppress_ouch_cancel e1 = en_suppress_ouch_cancel e" "en_to_gateway e1 = en_to_gateway e @ [?m]"
    using a ko by (auto simp: swap_order_def Let_def order_key_def i)
  have r: "?T ref = None" using fresh_ref[OF B(5)] e1(1) by simp
  have new': "order_key i \<notin> en_used_tokens e" using new by (simp add: order_key_def i)
  have nk: "order_key i \<notin> keys_of ?T" "\<not> superseded (order_key i) (en_to_gateway e)"
    using used_okD[OF B(4) new'] by blast+
  have kn: "order_key info \<noteq> order_key i" using nk(1) keys_ofI[of ?T old_ref info] old(1) by auto
  have sup: "supersedes k ?m \<longleftrightarrow> k = order_key info" for k
    using ko by (auto simp: supersedes_def resp_key_def replaced_for_def order_key_def)
  have inj: "inj_keys ?T" by (rule live_inj_keys[OF B(2)])
  have L: "live_ok (?T(old_ref := None)) ((en_live_tokens e)(order_key info := None))"
    by (rule live_ok_erase[where T = ?T, OF B(2) old(1)])
  have "live_ok (en_orders e1) (en_live_tokens e1)" unfolding e1(2,4)
    using live_ok_insert[where T = "?T(old_ref := None)", OF L, of ref i] r live_unused[OF B(2,4) new'] by simp
  moreover have "acct_ok (en_orders e1) (en_to_gateway e1)"
  proof -
    have "acct_ok (?T(ref \<mapsto> i)) (en_to_gateway e @ [?m])"
      by (rule acct_insert[where T = ?T, OF B(3) r nk]) (auto simp: acct_resp_def resp_key_def order_key_def replaced_for_def i)
    moreover have "inj_keys (?T(ref \<mapsto> i))" "(?T(ref \<mapsto> i)) old_ref = Some info" "old_ref \<noteq> ref"
      using live_inj_keys[OF live_ok_insert[where T = ?T, OF B(2) r live_unused[OF B(2,4) new']]] old(1) r by auto
    ultimately show ?thesis unfolding e1(2,10)
      using acct_drop_superseded[where T = "?T(ref \<mapsto> i)" and a = old_ref and i = info] sup by (simp add: fun_upd_twist)
  qed
  moreover have "used_ok e1"
  proof -
    have "keys_of (en_orders e1) \<subseteq> insert (order_key i) (keys_of ?T)"
      unfolding e1(2) using keys_of_new[of "?T(old_ref := None)" ref i] keys_of_drop[OF inj, of old_ref info] old(1) r by auto
    then show ?thesis using B(4) old(1) keys_ofI[of ?T old_ref info] sup unfolding used_ok_def e1(5,10) by auto
  qed
  moreover have "refs_ok e1"
    by (rule refs_ok_grow[OF B(5) _ e1(6)]) (use B(6) n e1(1,2) in \<open>auto split: if_splits\<close>)
  moreover have "unat (en_next_ref e1) \<le> Suc n + 1" using unat_next[of "en_next_ref e"] B(6) n e1(6) by simp
  ultimately show "engine_base (Suc n) S e1"
    using B(1,7,8) e1(3,7) unfolding engine_base_def by (simp add: le_SucI)
  show "en_orders e1 = ?T(old_ref := None, ref \<mapsto> i)" "?T ref = None" "en_current_symbol e1 = oi_symbol info"
    "\<not> en_suppress_ouch_cancel e1" "en_to_feed e1 = en_to_feed e"
    using e1 I(3) r by simp_all
qed

section \<open>Handlers\<close>

text \<open>An order on its way into the book of its symbol.\<close>

definition entering :: "nat \<Rightarrow> books \<Rightarrow> engine \<Rightarrow> order_id \<Rightarrow> order_info \<Rightarrow> bool" where
  "entering n S e ref i \<longleftrightarrow> engine_base n S e \<and> tbl_ok S ((en_orders e)(ref := None)) \<and> en_orders e ref = Some i \<and>
     en_current_symbol e = oi_symbol i \<and> \<not> en_suppress_ouch_cancel e \<and> valid_side (oi_side i) \<and> oi_open i \<noteq> 0 \<and>
     spec_size (S (oi_symbol i)) < n \<and> n < 2 ^ 32 - 1"

lemma enteringD:
  assumes "entering n S e ref i"
  shows "engine_base n S e" "tbl_ok S ((en_orders e)(ref := None))" "en_orders e ref = Some i"
    "en_current_symbol e = oi_symbol i" "\<not> en_suppress_ouch_cancel e" "valid_side (oi_side i)" "oi_open i \<noteq> 0"
    "spec_size (S (oi_symbol i)) < n" "fb_room (S (oi_symbol i))" "spec_inv (S (oi_symbol i))"
    "oi_open i = q \<Longrightarrow> en_orders e ref = in_flight i q"
  using assms books_ok_inv[OF engine_baseD(1)] unfolding entering_def
  by (auto simp: in_flight_def fb_room_def spec_size_def)

lemma put_book_base: "engine_base n S e \<Longrightarrow> en_current_symbol e = sm \<Longrightarrow> fb_sim b (S sm) \<Longrightarrow> engine_base n S (put_book sm b e)"
  using base_events[of n S e sm b "S sm" "[]"] engine_baseD(7)[of n S e sm] by simp

lemma entering_kill:
  assumes en: "entering n S e ref i" and k: "order_key i = (client, token_str token)" and b: "fb_sim b (S (oi_symbol i))"
  shows "engine_inv n S (cancel_unrested client ref token (oi_open i) reason (put_book (oi_symbol i) b e))"
proof -
  note E = enteringD[OF en]
  have "en_orders (put_book (oi_symbol i) b e) ref = Some i" using E(3) by simp
  from cancel_unrested_ok[OF put_book_base[OF E(1,4) b] this k refl refl] E(2,5) show ?thesis
    by (simp add: engine_inv_def)
qed

lemma entering_ioc:
  assumes en: "entering n S e ref i" and k: "order_key i = (client, token_str token)"
    and m: "spec_match ref (oi_side i) limit (oi_open i) (S (oi_symbol i)) = (sb, evs, filled)" and b: "fb_sim b sb"
    and e1: "e1 = fold on_event evs (put_book (oi_symbol i) b e)"
  shows "engine_inv n (S(oi_symbol i := sb)) (if oi_open i - filled > 0
    then cancel_unrested client ref token (oi_open i - filled) reason e1 else e1)"
proof -
  note E = enteringD[OF en]
  let ?sm = "oi_symbol i" and ?T = "fold tbl_event evs (en_orders e)"
  note T = tbl_match[OF m E(10,6,2) E(11)[OF refl]]
  have T1: "en_orders e1 = ?T" "\<not> en_suppress_ouch_cancel e1" using E(5) by (simp_all add: e1 fold_on_event)
  have "spec_size sb \<le> n" using spec_match_size[OF m] E(8) by simp
  from base_events[OF E(1,4) b replay_match[OF E(10,6) m] this T(3)]
  have base: "engine_base n (S(?sm := sb)) e1" by (simp add: e1)
  show ?thesis
  proof (cases "oi_open i - filled = 0")
    case True
    then have "?T(ref := None) = ?T" using T(2) by (auto simp: in_flight_def)
    then show ?thesis using base T(1) T1 True by (simp add: engine_inv_def)
  next
    case False
    then have "en_orders e1 ref = Some (i\<lparr>oi_open := oi_open i - filled\<rparr>)" using T(2) T1 by (simp add: in_flight_def)
    from cancel_unrested_ok[OF base this _ _ refl, of client token "oi_open i - filled" reason] k T(1) T1 False
    show ?thesis by (simp add: engine_inv_def)
  qed
qed

lemma entering_add:
  assumes en: "entering n S e ref i"
    and a: "spec_add (S (oi_symbol i)) ref (oi_side i) p (oi_open i) = (sb, evs, r)" and p: "p > 0" and b: "fb_sim b sb"
  shows "engine_inv n (S(oi_symbol i := sb)) (fold on_event evs (put_book (oi_symbol i) b e))"
proof -
  note E = enteringD[OF en]
  have "ref \<notin> set (spec_ids (S (oi_symbol i)))" using tbl_ok_absent[OF E(2), of ref] by (simp add: book_view_None)
  then obtain f where x: "spec_enter ref (oi_side i) p (oi_open i) (S (oi_symbol i)) = (sb, evs, f)"
    using a p E(7) by (auto simp: spec_add_def split: prod.splits)
  have fit: "tbl_ok (S(oi_symbol i := sb)) (fold tbl_event evs (en_orders e))"
    "evs_fit (en_suppress_ouch_cancel e) evs (en_orders e)"
    by (rule tbl_enter[OF x E(10,6,2,3) refl refl refl E(7)])+
  have "spec_size sb \<le> n" using spec_enter_size[OF x] E(8) by simp
  from base_events[OF E(1,4) b replay_enter[OF E(10,6) x] this fit(2)] fit(1) E(5) show ?thesis
    by (simp add: engine_inv_def fold_on_event)
qed

definition enter_limit :: "enter_order \<Rightarrow> price" where
  "enter_limit m = (if eo_price m = kMarketPrice then if eo_side m = Buy then kPriceMax else 1 else eo_price m)"

definition enter_ioc :: "enter_order \<Rightarrow> bool" where
  "enter_ioc m \<longleftrightarrow> eo_price m = kMarketPrice \<or> eo_tif m = kTifIOC"

definition enter_killed :: "enter_order \<Rightarrow> spec_book \<Rightarrow> bool" where
  "enter_killed m sb \<longleftrightarrow> eo_min_qty m > 0 \<and> spec_matchable sb (eo_side m) (enter_limit m) < eo_min_qty m"

text \<open>The three ways an accepted order can go, in terms of the abstract book of its symbol.\<close>

lemma enter_book_run:
  assumes en: "entering n S e ref i" and i: "oi_symbol i = eo_stock m" "oi_side i = eo_side m" "oi_open i = eo_shares m"
    and mt: "spec_match ref (eo_side m) (enter_limit m) (eo_shares m) (S (eo_stock m)) = (sm, evs, f)"
    and ad: "spec_add (S (eo_stock m)) ref (eo_side m) (eo_price m) (eo_shares m) = (sa, evsa, r)"
  obtains b1 b2 b3 where "fb_sim b1 (S (eo_stock m))" "fb_sim b2 sm" "fb_sim b3 sa"
    "enter_book client m ref e = Some (
      if enter_killed m (S (eo_stock m)) then cancel_unrested client ref (eo_token m) (eo_shares m) 0x44 (put_book (eo_stock m) b1 e)
      else if enter_ioc m then let e3 = fold on_event evs (put_book (eo_stock m) b2 e) in
        if eo_shares m - f > 0 then cancel_unrested client ref (eo_token m) (eo_shares m - f) 0x49 e3 else e3
      else fold on_event evsa (put_book (eo_stock m) b3 e))"
proof -
  note E = enteringD[OF en, unfolded i]
  let ?sm = "eo_stock m"
  obtain b where b: "book_for ?sm e = (put_book ?sm b e, b)" "fb_sim b (S ?sm)" by (rule book_for_ok[OF engine_baseD(1)[OF E(1)]])
  let ?av = "if eo_min_qty m > 0 then spec_matchable (S ?sm) (eo_side m) (enter_limit m) else 0"
  obtain b1 where b1: "(if eo_min_qty m > 0 then fb_matchable b (eo_side m) (enter_limit m) else Some (b, 0)) = Some (b1, ?av)" "fb_sim b1 (S ?sm)"
  proof (cases "eo_min_qty m > 0")
    case True
    then show ?thesis using fb_matchable_sim[OF b(2) E(6), of "enter_limit m"] that by (auto simp del: word_gt0_iff)
  next
    case False
    then show ?thesis using b(2) that by (simp del: word_gt0_iff)
  qed
  obtain b2 where b2: "fb_execute_ioc b1 ref (eo_side m) (enter_limit m) (eo_shares m) = Some (b2, f, evs)" "fb_sim b2 sm"
    using fb_execute_ioc_sim[OF b1(2) E(6) mt] by blast
  obtain b3 where b3: "fb_add b1 ref (eo_side m) (eo_price m) (eo_shares m) = Some (b3, evsa, r)" "fb_sim b3 sa"
    using fb_add_sim[OF b1(2) E(6,9) ad] by blast
  have k: "(eo_min_qty m > 0 \<and> ?av < eo_min_qty m) = enter_killed m (S ?sm)" by (simp add: enter_killed_def)
  have "enter_book client m ref e = Some (
      if enter_killed m (S ?sm) then cancel_unrested client ref (eo_token m) (eo_shares m) 0x44 (put_book ?sm b1 e)
      else if enter_ioc m then let e3 = fold on_event evs (put_book ?sm b2 e) in
        if eo_shares m - f > 0 then cancel_unrested client ref (eo_token m) (eo_shares m - f) 0x49 e3 else e3
      else fold on_event evsa (put_book ?sm b3 e))"
    unfolding k[symmetric]
    by (simp only: enter_book_def Let_def b(1) prod.case b1(1)[unfolded enter_limit_def] b2(1)[unfolded enter_limit_def] b3(1)
      enter_limit_def enter_ioc_def Option.bind.bind_lunit put_book_simps(11) split: if_split) blast
  then show ?thesis using that b1(2) b2(2) b3(2) by blast
qed

lemma enter_book_ok:
  assumes en: "entering n S e ref i"
    and i: "order_key i = (client, token_str (eo_token m))" "oi_symbol i = eo_stock m" "oi_side i = eo_side m" "oi_open i = eo_shares m"
    and p: "eo_price m = kMarketPrice \<or> eo_price m > 0"
  obtains e' S' where "enter_book client m ref e = Some e'" "engine_inv n S' e'"
proof -
  obtain sm evs f where mt: "spec_match ref (eo_side m) (enter_limit m) (eo_shares m) (S (eo_stock m)) = (sm, evs, f)" by (metis prod_cases3)
  obtain sa evsa r where ad: "spec_add (S (eo_stock m)) ref (eo_side m) (eo_price m) (eo_shares m) = (sa, evsa, r)" by (metis prod_cases3)
  obtain b1 b2 b3 where B: "fb_sim b1 (S (eo_stock m))" "fb_sim b2 sm" "fb_sim b3 sa" and run: "enter_book client m ref e = Some (
      if enter_killed m (S (eo_stock m)) then cancel_unrested client ref (eo_token m) (eo_shares m) 0x44 (put_book (eo_stock m) b1 e)
      else if enter_ioc m then let e3 = fold on_event evs (put_book (eo_stock m) b2 e) in
        if eo_shares m - f > 0 then cancel_unrested client ref (eo_token m) (eo_shares m - f) 0x49 e3 else e3
      else fold on_event evsa (put_book (eo_stock m) b3 e))"
    by (rule enter_book_run[OF en i(2-) mt ad])
  let ?kill = "enter_killed m (S (eo_stock m))" and ?ioc = "enter_ioc m"
  consider ?kill | "\<not> ?kill" ?ioc | "\<not> ?kill" "\<not> ?ioc" by blast
  then show ?thesis
  proof cases
    case 1
    then show ?thesis using entering_kill[OF en i(1), unfolded i, OF B(1), of "0x44"] that[OF run] by (simp only: if_True simp_thms)
  next
    case 2
    then show ?thesis using entering_ioc[OF en i(1), unfolded i, OF mt B(2) refl, of "0x49"] that[OF run]
      by (simp only: if_False if_True Let_def)
  next
    case 3
    then have "eo_price m > 0" using p unfolding enter_ioc_def by blast
    from 3 entering_add[OF en, unfolded i, OF ad this B(3)] that[OF run] show ?thesis by (simp only: if_False simp_thms)
  qed
qed

lemma engine_inv_respond:
  assumes "engine_inv n S e" "\<And>k. acct_resp k \<lparr>cr_client_id = c, cr_msg = m\<rparr> = 0" "\<And>k. \<not> supersedes k \<lparr>cr_client_id = c, cr_msg = m\<rparr>"
  shows "engine_inv n S (en_respond c m e)"
proof -
  note B = engine_baseD[OF engine_invD(1)[OF assms(1)]]
  have "acct_ok (en_orders e) (en_to_gateway e @ [\<lparr>cr_client_id = c, cr_msg = m\<rparr>])" using B(3) assms(2) by (rule acct_neutral)
  moreover have "used_ok (en_respond c m e)" using B(4) assms(3) by (simp add: used_ok_def)
  moreover have "refs_ok (en_respond c m e)" using B(5) by (simp add: refs_ok_def)
  ultimately show ?thesis using assms(1) B(8) by (simp add: engine_inv_def engine_base_def)
qed

lemma engine_inv_more: "engine_inv n S e \<Longrightarrow> engine_inv (Suc n) S e"
  by (auto simp: engine_inv_def engine_base_def le_SucI)

lemma engine_base_suppress [simp]: "engine_base n S (e\<lparr>en_suppress_ouch_cancel := v\<rparr>) = engine_base n S e"
  by (simp add: engine_base_def used_ok_def refs_ok_def)

lemma engine_inv_fields:
  "engine_inv n S e \<Longrightarrow> engine_inv n S (e\<lparr>en_now := t\<rparr>)" "engine_inv n S e \<Longrightarrow> engine_inv n S (e\<lparr>en_current_symbol := sm\<rparr>)"
proof -
  have "engine_base n S (e\<lparr>en_now := t\<rparr>) = engine_base n S e" "engine_base n S (e\<lparr>en_current_symbol := sm\<rparr>) = engine_base n S e"
    by (simp_all add: engine_base_def used_ok_def refs_ok_def)
  then show "engine_inv n S e \<Longrightarrow> engine_inv n S (e\<lparr>en_now := t\<rparr>)"
    "engine_inv n S e \<Longrightarrow> engine_inv n S (e\<lparr>en_current_symbol := sm\<rparr>)" by (simp_all add: engine_inv_def)
qed

definition enter_refused :: "u64 \<Rightarrow> enter_order \<Rightarrow> engine \<Rightarrow> bool" where
  "enter_refused client m e \<longleftrightarrow> token_used client (eo_token m) e \<or> eo_price m \<noteq> kMarketPrice \<and> eo_price m \<le> 0 \<or>
     eo_shares m = 0 \<or> eo_side m \<noteq> Buy \<and> eo_side m \<noteq> Sell"

lemma enter_accepted:
  assumes inv: "engine_inv n S e" and n: "n + 1 < 2 ^ 32 - 1" and ok: "\<not> enter_refused client m e"
    and i: "i = \<lparr>oi_client_id = client, oi_token = eo_token m, oi_symbol = eo_stock m, oi_side = eo_side m, oi_open = eo_shares m\<rparr>"
  obtains e1 ref where "accept_order client m e = (e1, ref)" "entering (Suc n) S e1 ref i"
    "handle_enter client m e = enter_book client m ref e1"
proof -
  obtain e1 ref where a: "accept_order client m e = (e1, ref)" by (metis surj_pair)
  have "(client, token_str (eo_token m)) \<notin> en_used_tokens e" using ok by (simp add: enter_refused_def token_used_def)
  note A = accept_ok[OF inv this _ a]
  have "spec_size (S (eo_stock m)) \<le> n" using engine_baseD(7)[OF engine_invD(1)[OF inv]] .
  then have "entering (Suc n) S e1 ref i" using A n ok unfolding entering_def enter_refused_def by (simp add: i)
  moreover have "handle_enter client m e = enter_book client m ref e1"
    using ok a by (auto simp: handle_enter_def enter_refused_def Let_def)
  ultimately show ?thesis using that a by blast
qed

lemma handle_enter_ok:
  assumes inv: "engine_inv n S e" and n: "n + 1 < 2 ^ 32 - 1"
  obtains e' S' where "handle_enter client m e = Some e'" "engine_inv (Suc n) S' e'"
proof (cases "enter_refused client m e")
  case True
  then obtain r where "handle_enter client m e = Some (reject client (eo_token m) r e)"
    by (cases "token_used client (eo_token m) e"; cases "eo_price m \<noteq> kMarketPrice \<and> eo_price m \<le> 0"; cases "eo_shares m = 0")
      (simp_all add: handle_enter_def enter_refused_def Let_def)
  moreover have "engine_inv (Suc n) S (reject client (eo_token m) r e)"
    unfolding reject_def
    by (intro engine_inv_more engine_inv_respond[OF inv]) (simp_all add: acct_resp_def supersedes_def)
  ultimately show ?thesis using that by blast
next
  case False
  obtain e1 ref where "entering (Suc n) S e1 ref \<lparr>oi_client_id = client, oi_token = eo_token m, oi_symbol = eo_stock m,
      oi_side = eo_side m, oi_open = eo_shares m\<rparr>" "handle_enter client m e = enter_book client m ref e1"
    by (rule enter_accepted[OF inv n False refl])
  note h = this(2)
  note \<open>entering (Suc n) S e1 ref _\<close>
  then obtain e' S' where "enter_book client m ref e1 = Some e'" "engine_inv (Suc n) S' e'"
    by (rule enter_book_ok[of _ _ _ _ _ client m]) (use False in \<open>auto simp: order_key_def enter_refused_def\<close>)
  then show ?thesis using that h by simp
qed

lemma handle_cancel_run:
  assumes inv: "engine_inv n S e" and live: "en_live_tokens e (client, token_str (co_token m)) = Some ref"
  obtains i sb evs f b1 where "en_orders e ref = Some i" "order_key i = (client, token_str (co_token m))"
    "spec_cancel (S (oi_symbol i)) ref (co_shares m) = (sb, evs, f)" "fb_sim b1 sb"
    "handle_cancel client m e = Some (fold on_event evs (put_book (oi_symbol i) b1 (e\<lparr>en_current_symbol := oi_symbol i\<rparr>)))"
proof -
  note B = engine_baseD[OF engine_invD(1)[OF inv]]
  obtain i where i: "en_orders e ref = Some i" "order_key i = (client, token_str (co_token m))" using live B(2) by (auto simp: live_ok_def)
  let ?sm = "oi_symbol i" and ?e = "e\<lparr>en_current_symbol := oi_symbol i\<rparr>"
  have bk: "books_ok (en_books ?e) S" using B(1) by simp
  obtain b where b: "book_for ?sm ?e = (put_book ?sm b ?e, b)" "fb_sim b (S ?sm)" by (rule book_for_ok[OF bk])
  obtain sb evs f where c: "spec_cancel (S ?sm) ref (co_shares m) = (sb, evs, f)" by (metis prod_cases3)
  obtain b1 where b1: "fb_cancel b ref (co_shares m) = Some (b1, evs, f)" "fb_sim b1 sb" using fb_cancel_sim[OF b(2) c] by blast
  have "handle_cancel client m e = Some (fold on_event evs (put_book ?sm b1 ?e))"
    using live i(1) b b1 by (simp add: handle_cancel_def Let_def)
  then show ?thesis using that i c b1(2) by blast
qed

lemma handle_cancel_ok:
  assumes inv: "engine_inv n S e"
  obtains e' S' where "handle_cancel client m e = Some e'" "engine_inv (Suc n) S' e'"
proof (cases "en_live_tokens e (client, token_str (co_token m))")
  case None
  then show ?thesis using that engine_inv_more[OF inv] by (simp add: handle_cancel_def)
next
  case (Some ref)
  note I = engine_invD[OF inv] and B = engine_baseD[OF engine_invD(1)[OF inv]]
  obtain i sb evs f b1 where "en_orders e ref = Some i" "order_key i = (client, token_str (co_token m))"
    and c: "spec_cancel (S (oi_symbol i)) ref (co_shares m) = (sb, evs, f)" and b1: "fb_sim b1 sb"
    and h: "handle_cancel client m e = Some (fold on_event evs (put_book (oi_symbol i) b1 (e\<lparr>en_current_symbol := oi_symbol i\<rparr>)))"
    by (rule handle_cancel_run[OF inv Some])
  let ?sm = "oi_symbol i" and ?e = "e\<lparr>en_current_symbol := oi_symbol i\<rparr>"
  have "spec_size sb \<le> Suc n"
    using spec_step_size[of "S ?sm" "Cancel ref (co_shares m)"] c B(7)[of ?sm] by simp
  moreover have "engine_base (Suc n) S ?e" using engine_invD(1)[OF engine_inv_more[OF engine_inv_fields(2)[OF inv]]] .
  ultimately have "engine_inv (Suc n) (S(?sm := sb)) (fold on_event evs (put_book ?sm b1 ?e))"
    using base_events[of "Suc n" S ?e ?sm b1 sb evs] b1 replay_cancel[OF c] tbl_cancel[OF c I(2) books_ok_inv[OF B(1)]] I(3)
    by (simp add: engine_inv_def fold_on_event)
  with h show ?thesis using that by blast
qed

definition replace_refused :: "u64 \<Rightarrow> replace_order \<Rightarrow> engine \<Rightarrow> bool" where
  "replace_refused client m e \<longleftrightarrow> token_used client (ro_replacement_token m) e \<or> ro_price m \<le> 0 \<or> ro_shares m = 0"

text \<open>A replace request that is carried out: \<open>e1\<close> is the engine after the swap of the bookkeeping.\<close>

lemma handle_replace_run:
  assumes inv: "engine_inv n S e" and n: "n + 1 < 2 ^ 32 - 1"
    and live: "en_live_tokens e (client, token_str (ro_existing_token m)) = Some old" and ok: "\<not> replace_refused client m e"
  obtains info e1 sb evs f b1 where "en_orders e old = Some info"
    "swap_order client m old info e = (e1, en_next_ref e)"
    "spec_replace (S (oi_symbol info)) old (en_next_ref e) (ro_price m) (ro_shares m) = (sb, evs, f)" "fb_sim b1 sb"
    "handle_replace client m e = Some ((fold on_event evs (put_book (oi_symbol info) b1 (e1\<lparr>en_suppress_ouch_cancel := True\<rparr>)))\<lparr>en_suppress_ouch_cancel := False\<rparr>)"
proof -
  note B = engine_baseD[OF engine_invD(1)[OF inv]]
  obtain info where info: "en_orders e old = Some info" using live B(2) by (auto simp: live_ok_def)
  let ?sm = "oi_symbol info"
  obtain e1 where a: "swap_order client m old info e = (e1, en_next_ref e)" by (simp add: swap_order_def Let_def)
  let ?e = "e1\<lparr>en_suppress_ouch_cancel := True\<rparr>"
  have bk: "books_ok (en_books ?e) S" using B(1) a by (auto simp: swap_order_def Let_def)
  obtain b where b: "book_for ?sm ?e = (put_book ?sm b ?e, b)" "fb_sim b (S ?sm)" by (rule book_for_ok[OF bk])
  obtain sb evs f where c: "spec_replace (S ?sm) old (en_next_ref e) (ro_price m) (ro_shares m) = (sb, evs, f)" by (metis prod_cases3)
  have room: "fb_room (S ?sm)" using B(7)[of ?sm] n by (simp add: fb_room_def spec_size_def)
  obtain b1 where b1: "fb_replace b old (en_next_ref e) (ro_price m) (ro_shares m) = Some (b1, evs, f)" "fb_sim b1 sb"
    using fb_replace_sim[OF b(2) room c] by blast
  have "handle_replace client m e = Some ((fold on_event evs (put_book ?sm b1 ?e))\<lparr>en_suppress_ouch_cancel := False\<rparr>)"
    using live info ok a b b1 by (simp add: handle_replace_def replace_refused_def Let_def)
  then show ?thesis using that info a c b1(2) by blast
qed

lemma handle_replace_refused:
  "en_live_tokens e (client, token_str (ro_existing_token m)) = None \<or> replace_refused client m e \<Longrightarrow> handle_replace client m e = Some e"
  by (auto simp: handle_replace_def replace_refused_def split: option.splits)

lemma handle_replace_ok:
  assumes inv: "engine_inv n S e" and n: "n + 1 < 2 ^ 32 - 1"
  obtains e' S' where "handle_replace client m e = Some e'" "engine_inv (Suc n) S' e'"
proof (cases "en_live_tokens e (client, token_str (ro_existing_token m)) = None \<or> replace_refused client m e")
  case True
  then show ?thesis using that engine_inv_more[OF inv] handle_replace_refused by blast
next
  case False
  then obtain old where live: "en_live_tokens e (client, token_str (ro_existing_token m)) = Some old"
    and ok: "\<not> replace_refused client m e" by auto
  note I = engine_invD[OF inv] and B = engine_baseD[OF engine_invD(1)[OF inv]]
  obtain info e1 sb evs f b1 where info: "en_orders e old = Some info" and a: "swap_order client m old info e = (e1, en_next_ref e)"
    and c: "spec_replace (S (oi_symbol info)) old (en_next_ref e) (ro_price m) (ro_shares m) = (sb, evs, f)" and b1: "fb_sim b1 sb"
    and h: "handle_replace client m e = Some ((fold on_event evs (put_book (oi_symbol info) b1 (e1\<lparr>en_suppress_ouch_cancel := True\<rparr>)))\<lparr>en_suppress_ouch_cancel := False\<rparr>)"
    by (rule handle_replace_run[OF inv n live ok])
  let ?sm = "oi_symbol info" and ?e = "e1\<lparr>en_suppress_ouch_cancel := True\<rparr>"
  let ?i = "\<lparr>oi_client_id = client, oi_token = ro_replacement_token m, oi_symbol = ?sm, oi_side = oi_side info, oi_open = ro_shares m\<rparr>"
  have "(client, token_str (ro_replacement_token m)) \<notin> en_used_tokens e" using ok by (simp add: token_used_def replace_refused_def)
  note A = swap_ok[OF inv this _ info live a refl]
  have base: "engine_base (Suc n) S ?e" using A(1) n by simp
  have new: "en_orders e (en_next_ref e) = None" "en_orders e1 = (en_orders e)(old := None, en_next_ref e \<mapsto> ?i)" "en_current_symbol e1 = ?sm"
    using A n by simp_all
  have T: "tbl_ok (S(?sm := sb)) (fold tbl_event evs (en_orders e1))" "evs_fit True evs (en_orders e1)"
    unfolding new(2) using tbl_replace[OF c books_ok_inv[OF B(1)] I(2) info refl new(1), of ?i] ok by (simp_all add: replace_refused_def)
  have "spec_size sb \<le> Suc n"
    using spec_step_size[of "S ?sm" "Replace old (en_next_ref e) (ro_price m) (ro_shares m)"] c B(7)[of ?sm] by simp
  from base_events[OF base _ b1 replay_replace[OF books_ok_inv[OF B(1)] c] this] T(2) new(3)
  have "engine_base (Suc n) (S(?sm := sb)) (fold on_event evs (put_book ?sm b1 ?e))" by simp
  then have "engine_inv (Suc n) (S(?sm := sb)) ((fold on_event evs (put_book ?sm b1 ?e))\<lparr>en_suppress_ouch_cancel := False\<rparr>)"
    using T(1) by (simp add: engine_inv_def fold_on_event)
  with h show ?thesis using that by blast
qed

lemma process_ok:
  assumes "engine_inv n S e" "n + 1 < 2 ^ 32 - 1"
  obtains e' S' where "process now cmd e = Some e'" "engine_inv (Suc n) S' e'"
proof -
  have inv: "engine_inv n S (e\<lparr>en_now := now\<rparr>)" using engine_inv_fields(1)[OF assms(1)] .
  show ?thesis
  proof (cases "cm_msg cmd")
    case (EnterOrder m)
    then show ?thesis using handle_enter_ok[OF inv assms(2)] that by (metis handle.simps(1) process_def)
  next
    case (CancelOrder m)
    then show ?thesis using handle_cancel_ok[OF inv] that by (metis handle.simps(2) process_def)
  next
    case (ReplaceOrder m)
    then show ?thesis using handle_replace_ok[OF inv assms(2)] that by (metis handle.simps(3) process_def)
  qed
qed

lemma live_order:
  assumes "engine_inv n S e" "en_orders e ref = Some i"
  obtains s r where "spec_find (S (oi_symbol i)) ref = Some (s, r)" "rs_qty r = oi_open i"
proof -
  have "book_view (S (oi_symbol i)) ref = tbl_view (en_orders e) (oi_symbol i) ref" using engine_invD(2)[OF assms(1)] by (simp add: tbl_ok_def)
  then have "book_view (S (oi_symbol i)) ref = Some (oi_side i, oi_open i)" using assms(2) by (simp add: tbl_view_def)
  then show ?thesis using that by (auto simp: book_view_def)
qed

text \<open>An accepted order on its way into the book.\<close>

lemma enter_start:
  assumes inv: "engine_inv n S e" and n: "n < 2 ^ 32 - 2" and ok: "\<not> enter_refused client m e"
    and p: "process now \<lparr>cm_client_id = client, cm_msg = EnterOrder m\<rparr> e = Some e'"
    and i: "i = \<lparr>oi_client_id = client, oi_token = eo_token m, oi_symbol = eo_stock m, oi_side = eo_side m, oi_open = eo_shares m\<rparr>"
  obtains e1 where "entering (Suc n) S e1 (en_next_ref e) i" "enter_book client m (en_next_ref e) e1 = Some e'"
    "en_to_gateway e1 = en_to_gateway e @ [\<lparr>cr_client_id = client, cr_msg = Accepted (accepted_for m (en_next_ref e) now)\<rparr>]"
    "en_to_feed e1 = en_to_feed e" "en_now e1 = now" "en_orders e1 = (en_orders e)(en_next_ref e \<mapsto> i)"
    "en_next_ref e1 = en_next_ref e + 1" "en_used_tokens e1 = insert (client, token_str (eo_token m)) (en_used_tokens e)"
proof -
  let ?e = "e\<lparr>en_now := now\<rparr>"
  have "\<not> enter_refused client m ?e" using ok by (simp add: enter_refused_def token_used_def)
  from enter_accepted[OF engine_inv_fields(1)[OF inv] _ this i] n obtain e1 ref where
    "accept_order client m ?e = (e1, ref)" "entering (Suc n) S e1 ref i" "handle_enter client m ?e = enter_book client m ref e1" by auto
  with p show ?thesis using that[of e1] by (auto simp: accept_order_def Let_def process_def i)
qed

lemma process_all_ok:
  "engine_inv n S e \<Longrightarrow> n + length cmds < 2 ^ 32 - 1 \<Longrightarrow>
   \<exists>e' S'. process_all cmds e = Some e' \<and> engine_inv (n + length cmds) S' e'"
proof (induction cmds arbitrary: n S e)
  case (Cons c cmds)
  obtain now cmd where c: "c = (now, cmd)" by (cases c)
  have "n + 1 < 2 ^ 32 - 1" using Cons.prems(2) by simp
  from process_ok[OF Cons.prems(1) this, of now cmd] obtain e1 S1 where
    "process now cmd e = Some e1" "engine_inv (Suc n) S1 e1" by blast
  then show ?case using Cons.IH[of "Suc n" S1 e1] Cons.prems(2) c by simp
qed auto

end
