(* ===== verification/Engine_Props.thy ===== *)
theory Engine_Props
  imports Engine_Step Order_Book_Refine
begin

text \<open>
  What the engine guarantees after any sequence of commands: it never gets stuck, its order table is
  the set of resting orders, the owner of every order is told about every share of it, and
  minimum-quantity orders trade all or nothing.
\<close>

section \<open>Reachable engines\<close>

inductive engine_reach :: "nat \<Rightarrow> engine \<Rightarrow> bool" where
  reach_init: "engine_reach 0 en_init"
| reach_step: "engine_reach n e \<Longrightarrow> process now cmd e = Some e' \<Longrightarrow> engine_reach (Suc n) e'"

lemma engine_reach_inv: "engine_reach n e \<Longrightarrow> n < 2 ^ 32 - 1 \<Longrightarrow> \<exists>S. engine_inv n S e"
proof (induction rule: engine_reach.induct)
  case reach_init
  then show ?case using engine_inv_init by blast
next
  case (reach_step n e now cmd e')
  then obtain S where "engine_inv n S e" by auto
  from process_ok[OF this, of now cmd] reach_step show ?case by auto
qed

lemma process_all_reach: "engine_reach n e \<Longrightarrow> process_all cmds e = Some e' \<Longrightarrow> engine_reach (n + length cmds) e'"
proof (induction cmds arbitrary: n e)
  case (Cons c cmds)
  obtain now cmd where c: "c = (now, cmd)" by (cases c)
  obtain e1 where "process now cmd e = Some e1" "process_all cmds e1 = Some e'"
    using Cons.prems(2) c by (auto simp: bind_eq_Some_conv)
  then show ?case using Cons.IH[of "Suc n" e1] reach_step[OF Cons.prems(1)] by simp
qed simp

lemma snapshot_of_inv:
  assumes "engine_inv n S e"
  shows "book_snapshot_of e sm = Some (spec_snapshot (S sm))"
  using engine_baseD(1)[OF engine_invD(1)[OF assms]] fb_snapshot_sim
  by (auto simp: book_snapshot_of_def books_ok_def spec_snapshot_def spec_empty_def dest!: spec[of _ sm] split: option.splits)

lemma book_view_queue:
  assumes "spec_inv sb"
  shows "book_view sb ref = Some (s, q) \<longleftrightarrow> valid_side s \<and> (\<exists>r\<in>set (queue_of s sb). rs_id r = ref \<and> rs_qty r = q)"
proof
  assume "book_view sb ref = Some (s, q)"
  then obtain r where "spec_find sb ref = Some (s, r)" "rs_qty r = q" by (auto simp: book_view_def)
  then show "valid_side s \<and> (\<exists>r\<in>set (queue_of s sb). rs_id r = ref \<and> rs_qty r = q)"
    using spec_find_Some[of sb ref s r] by blast
next
  assume "valid_side s \<and> (\<exists>r\<in>set (queue_of s sb). rs_id r = ref \<and> rs_qty r = q)"
  then show "book_view sb ref = Some (s, q)" using spec_find_eq[OF assms, of s] by (auto simp: book_view_def)
qed

text \<open>Two clients: the first offers 100 shares, the second takes 30 of them.\<close>

definition demo_enter :: "bytes \<Rightarrow> side \<Rightarrow> qty \<Rightarrow> price \<Rightarrow> u32 \<Rightarrow> qty \<Rightarrow> enter_order" where
  "demo_enter tok s q p tif mn = \<lparr>eo_token = make_token tok, eo_side = s, eo_shares = q, eo_stock = make_symbol [0x41],
     eo_price = p, eo_tif = tif, eo_firm = replicate 4 0x20, eo_display = 0x59, eo_capacity = 0x41,
     eo_intermarket_sweep = 0x4E, eo_min_qty = mn, eo_cross_type = 0x4E, eo_customer_type = 0x52\<rparr>"

definition demo_flow :: "(u64 \<times> command) list" where
  "demo_flow = [(5, \<lparr>cm_client_id = 1, cm_msg = EnterOrder (demo_enter [0x61] Sell 100 5000 kTifDay 0)\<rparr>),
     (6, \<lparr>cm_client_id = 2, cm_msg = EnterOrder (demo_enter [0x62] Buy 30 5000 kTifDay 0)\<rparr>)]"

lemma demo_flow_reach:
  obtains e where "process_all demo_flow en_init = Some e" "engine_reach 2 e"
proof -
  have L: "length demo_flow = 2" by (simp add: demo_flow_def)
  obtain e where e: "process_all demo_flow en_init = Some e" using process_all_ok[OF engine_inv_init, of demo_flow] L by auto
  moreover have "engine_reach (length demo_flow) e" using process_all_reach[OF reach_init e] by simp
  ultimately show ?thesis using that L by simp
qed

section \<open>Properties\<close>

text \<open>
  C5. The engine never gets stuck: after fewer than \<open>2 ^ 32 - 2\<close> commands, whatever they are, the next
  command is processed to its end; no book operation it needs loops or fails.
\<close>

theorem engine_process_returns:
  assumes "engine_reach n e" "n < 2 ^ 32 - 2"
  shows "\<exists>e'. process now cmd e = Some e'"
proof -
  obtain S where "engine_inv n S e" using engine_reach_inv[OF assms(1)] assms(2) by auto
  from process_ok[OF this, of now cmd] assms(2) show ?thesis by auto
qed

theorem engine_process_returns_witness:
  "\<exists>e'. process 7 \<lparr>cm_client_id = 3, cm_msg = CancelOrder \<lparr>co_token = make_token [0x61], co_shares = 0\<rparr>\<rparr> en_init = Some e'"
  by (rule engine_process_returns[OF reach_init]) simp

text \<open>
  C7. The order table of the engine is exactly the set of resting orders: an entry of a symbol, side
  and open quantity is there if and only if the book of that symbol shows that order on that side
  with that quantity.
\<close>

theorem engine_table_is_resting_orders:
  assumes "engine_reach n e" "n < 2 ^ 32 - 1"
  shows "\<exists>sn. book_snapshot_of e sm = Some sn \<and> (\<forall>side ref q.
    (\<exists>i. en_orders e ref = Some i \<and> oi_symbol i = sm \<and> oi_side i = side \<and> oi_open i = q) \<longleftrightarrow>
    (side = Buy \<or> side = Sell) \<and> (\<exists>r\<in>set (snap_orders (snap_side side sn)). rs_id r = ref \<and> rs_qty r = q))"
proof -
  obtain S where inv: "engine_inv n S e" using engine_reach_inv[OF assms] by blast
  have "(\<exists>i. en_orders e ref = Some i \<and> oi_symbol i = sm \<and> oi_side i = side \<and> oi_open i = q) \<longleftrightarrow>
      valid_side side \<and> (\<exists>r\<in>set (queue_of side (S sm)). rs_id r = ref \<and> rs_qty r = q)" for side ref q
  proof -
    have "tbl_view (en_orders e) sm ref = book_view (S sm) ref" using engine_invD(2)[OF inv] by (simp add: tbl_ok_def)
    moreover have "tbl_view (en_orders e) sm ref = Some (side, q) \<longleftrightarrow>
        (\<exists>i. en_orders e ref = Some i \<and> oi_symbol i = sm \<and> oi_side i = side \<and> oi_open i = q)"
      by (auto simp: tbl_view_def split: option.splits)
    ultimately show ?thesis
      using book_view_queue[OF books_ok_inv[OF engine_baseD(1)[OF engine_invD(1)[OF inv]]], of sm ref side q] by simp
  qed
  then show ?thesis using snapshot_of_inv[OF inv, of sm] by simp
qed

theorem engine_table_is_resting_orders_witness:
  "\<exists>e sn. process_all demo_flow en_init = Some e \<and> book_snapshot_of e (make_symbol [0x41]) = Some sn"
proof -
  obtain e where "process_all demo_flow en_init = Some e" "engine_reach 2 e" by (rule demo_flow_reach)
  with engine_table_is_resting_orders[of 2 e "make_symbol [0x41]"] show ?thesis by auto
qed

text \<open>
  C6. Every share of an order is accounted for to its owner: for a live token, the shares entered
  less all reported executions and cancels are the open quantity of its order; for a token that is not
  live they are zero, unless a replacement took its place. No sum of the engine wraps.
\<close>

theorem engine_accounts_for_every_share:
  assumes "engine_reach n e" "n < 2 ^ 32 - 1"
  shows "case en_live_tokens e k of
      Some ref \<Rightarrow> (\<exists>i. en_orders e ref = Some i \<and> acct k (en_to_gateway e) = uint (oi_open i))
    | None \<Rightarrow> superseded k (en_to_gateway e) \<or> acct k (en_to_gateway e) = 0"
proof -
  obtain S where "engine_inv n S e" using engine_reach_inv[OF assms] by blast
  note B = engine_baseD[OF engine_invD(1)[OF this]]
  show ?thesis
  proof (cases "en_live_tokens e k")
    case None
    then have "k \<notin> keys_of (en_orders e)" using B(2) unfolding live_ok_def keys_of_iff by (metis option.distinct(1))
    then show ?thesis using None acct_okD(2)[OF B(3)] by simp
  next
    case (Some ref)
    then obtain i where "en_orders e ref = Some i" "order_key i = k" using B(2) unfolding live_ok_def by blast
    then show ?thesis using Some acct_okD(1)[OF B(3), of ref i] by simp
  qed
qed

theorem engine_accounts_for_every_share_witness:
  "\<exists>e. process_all demo_flow en_init = Some e \<and> (case en_live_tokens e (1, [0x61]) of
      Some ref \<Rightarrow> (\<exists>i. en_orders e ref = Some i \<and> acct (1, [0x61]) (en_to_gateway e) = uint (oi_open i))
    | None \<Rightarrow> superseded (1, [0x61]) (en_to_gateway e) \<or> acct (1, [0x61]) (en_to_gateway e) = 0)"
proof -
  obtain e where "process_all demo_flow en_init = Some e" "engine_reach 2 e" by (rule demo_flow_reach)
  with engine_accounts_for_every_share[of 2 e "(1, [0x61])"] show ?thesis by auto
qed

text \<open>What a match reports to the clients, and what is left of the order that matched.\<close>

fun is_cancel :: "ouch_out \<Rightarrow> bool" where
  "is_cancel (Canceled c) = True"
| "is_cancel _ = False"

lemma exec_responses:
  assumes "\<forall>ev\<in>set evs. is_exec ev"
  shows "\<exists>out. en_to_gateway (fold on_event evs e) = en_to_gateway e @ out \<and> (\<forall>r\<in>set out. \<not> is_cancel (cr_msg r))"
  using assms
proof (induction evs arbitrary: e)
  case (Cons ev evs)
  then obtain x where x: "ev = EvExecuted x" by (cases ev) auto
  have "\<exists>out. en_to_gateway (on_event ev e) = en_to_gateway e @ out \<and> (\<forall>r\<in>set out. \<not> is_cancel (cr_msg r))"
    by (auto simp: x on_executed_def notify_def Let_def split: option.splits)
  moreover obtain out' where "en_to_gateway (fold on_event (ev # evs) e) = en_to_gateway (on_event ev e) @ out'"
    "\<forall>r\<in>set out'. \<not> is_cancel (cr_msg r)" using Cons.IH[of "on_event ev e"] Cons.prems by auto
  ultimately show ?case by (metis Un_iff append.assoc set_append)
qed simp

lemma match_all_exec: "spec_match oid side limit q sb = (sb', evs, f) \<Longrightarrow> \<forall>ev\<in>set evs. is_exec ev"
  using sweep_is_exec by (fastforce simp: spec_match_def filter_id_conv split: prod.splits)

lemma match_filled:
  assumes "spec_match oid side limit q sb = (sb', evs, f)" "spec_inv sb" "valid_side side"
  shows "unat f = min (unat q) (avail side limit (queue_of (opp side) sb))"
proof -
  obtain evs left mid rs where S: "sweep oid side limit (sb_match sb) q (queue_of (opp side) sb) = (evs, left, mid, rs)"
    by (metis prod_cases4)
  then have "f = q - left" using assms(1) by (simp add: spec_match_def)
  moreover have "prio_sorted (opp side) (queue_of (opp side) sb)" using assms(2,3) by (intro spec_inv_queue(1)) auto
  ultimately show ?thesis using sweep_avail[OF S] sweep_le[OF S] by (auto simp: unat_sub)
qed

text \<open>An order that passes the checks and never rests: killed by its minimum quantity, or filled whole.\<close>

lemma process_killed:
  assumes inv: "engine_inv n S e" and n: "n < 2 ^ 32 - 2" and ok: "\<not> enter_refused client m e"
    and p: "process now \<lparr>cm_client_id = client, cm_msg = EnterOrder m\<rparr> e = Some e'" and k: "enter_killed m (S (eo_stock m))"
  shows "engine_inv (Suc n) S e'" "en_to_feed e' = en_to_feed e"
    "en_to_gateway e' = en_to_gateway e @ [\<lparr>cr_client_id = client, cr_msg = Accepted (accepted_for m (en_next_ref e) now)\<rparr>,
       \<lparr>cr_client_id = client, cr_msg = Canceled \<lparr>ca_timestamp = now, ca_token = eo_token m,
          ca_decrement_shares = eo_shares m, ca_reason = 0x44\<rparr>\<rparr>]"
proof -
  define i where "i = \<lparr>oi_client_id = client, oi_token = eo_token m, oi_symbol = eo_stock m, oi_side = eo_side m, oi_open = eo_shares m\<rparr>"
  note i = i_def order_key_def
  obtain e1 where en: "entering (Suc n) S e1 (en_next_ref e) i" and r: "enter_book client m (en_next_ref e) e1 = Some e'"
    and e1: "en_to_gateway e1 = en_to_gateway e @ [\<lparr>cr_client_id = client, cr_msg = Accepted (accepted_for m (en_next_ref e) now)\<rparr>]"
      "en_to_feed e1 = en_to_feed e" "en_now e1 = now" by (rule enter_start[OF inv n ok p i_def])
  obtain sb evs f where mt: "spec_match (en_next_ref e) (eo_side m) (enter_limit m) (eo_shares m) (S (eo_stock m)) = (sb, evs, f)" by (metis prod_cases3)
  obtain sa evsa x where ad: "spec_add (S (eo_stock m)) (en_next_ref e) (eo_side m) (eo_price m) (eo_shares m) = (sa, evsa, x)" by (metis prod_cases3)
  obtain b1 where b1: "fb_sim b1 (S (eo_stock m))" "e' = cancel_unrested client (en_next_ref e) (eo_token m) (eo_shares m) 0x44 (put_book (eo_stock m) b1 e1)"
    using enter_book_run[OF en _ _ _ mt ad, of client] r k by (auto simp: i)
  show "engine_inv (Suc n) S e'" using entering_kill[OF en, of client "eo_token m" b1 "0x44"] b1 by (simp add: i)
  show "en_to_feed e' = en_to_feed e" "en_to_gateway e' = en_to_gateway e @ [\<lparr>cr_client_id = client, cr_msg = Accepted (accepted_for m (en_next_ref e) now)\<rparr>,
       \<lparr>cr_client_id = client, cr_msg = Canceled \<lparr>ca_timestamp = now, ca_token = eo_token m,
          ca_decrement_shares = eo_shares m, ca_reason = 0x44\<rparr>\<rparr>]"
    using e1 b1(2) by (simp_all add: cancel_unrested_def Let_def)
qed

lemma process_filled:
  assumes inv: "engine_inv n S e" and n: "n < 2 ^ 32 - 2" and ok: "\<not> enter_refused client m e"
    and p: "process now \<lparr>cm_client_id = client, cm_msg = EnterOrder m\<rparr> e = Some e'"
    and k: "\<not> enter_killed m (S (eo_stock m))" "enter_ioc m" and key: "k = (client, token_str (eo_token m))"
    and mt: "spec_match (en_next_ref e) (eo_side m) (enter_limit m) (eo_shares m) (S (eo_stock m)) = (sb, evs, eo_shares m)"
  shows "\<exists>out. en_to_gateway e' = en_to_gateway e @ out \<and> (\<forall>r\<in>set out. \<not> is_cancel (cr_msg r)) \<and> acct k out = 0"
proof -
  define i where "i = \<lparr>oi_client_id = client, oi_token = eo_token m, oi_symbol = eo_stock m, oi_side = eo_side m, oi_open = eo_shares m\<rparr>"
  note i = i_def order_key_def
  let ?acc = "\<lparr>cr_client_id = client, cr_msg = Accepted (accepted_for m (en_next_ref e) now)\<rparr>"
  obtain e1 where en: "entering (Suc n) S e1 (en_next_ref e) i" and r: "enter_book client m (en_next_ref e) e1 = Some e'"
    and e1: "en_to_gateway e1 = en_to_gateway e @ [?acc]" "en_orders e1 = (en_orders e)(en_next_ref e \<mapsto> i)"
    by (rule enter_start[OF inv n ok p i_def])
  obtain sa evsa x where ad: "spec_add (S (eo_stock m)) (en_next_ref e) (eo_side m) (eo_price m) (eo_shares m) = (sa, evsa, x)" by (metis prod_cases3)
  obtain b2 where b2: "fb_sim b2 sb" "e' = fold on_event evs (put_book (eo_stock m) b2 e1)"
    using enter_book_run[OF en _ _ _ mt ad, of client] r k by (auto simp: i Let_def)
  have inv': "engine_inv (Suc n) (S(eo_stock m := sb)) e'"
    using entering_ioc[OF en, of client "eo_token m" "enter_limit m" sb evs "eo_shares m" b2] mt b2 by (simp add: i)
  have "k \<notin> en_used_tokens e" using ok key by (simp add: enter_refused_def token_used_def)
  note new = used_okD[OF engine_baseD(4)[OF engine_invD(1)[OF inv]] this]
  have "k \<notin> keys_of (en_orders e')"
  proof
    assume "k \<in> keys_of (en_orders e')"
    then obtain r j where j: "en_orders e' r = Some j" "order_key j = k" by (rule keys_ofE)
    have "en_orders e' (en_next_ref e) = None"
      using tbl_match(2)[of "en_next_ref e" "oi_side i" "enter_limit m" "oi_open i" S "oi_symbol i" sb evs "eo_shares m" "en_orders e1" i]
        mt enteringD(2,6,10,11)[OF en] b2(2) by (simp add: fold_on_event in_flight_def i_def)
    then have "r \<noteq> en_next_ref e" using j(1) by auto
    then have "\<exists>j0. en_orders e r = Some j0 \<and> order_key j0 = k"
      using fold_tbl_event_key[of evs "en_orders e1" r j] j b2(2) e1(2) by (simp add: fold_on_event)
    then show False using new(1) keys_ofI[of "en_orders e" r] by blast
  qed
  then have fin: "superseded k (en_to_gateway e') \<or> acct k (en_to_gateway e') = 0"
    by (rule acct_okD(2)[OF engine_baseD(3)[OF engine_invD(1)[OF inv']]])
  obtain out where out: "en_to_gateway e' = en_to_gateway e1 @ out" "\<forall>r\<in>set out. \<not> is_cancel (cr_msg r)"
    using exec_responses[OF match_all_exec[OF mt], of "put_book (eo_stock m) b2 e1"] b2(2) by auto
  have "\<not> superseded k (en_to_gateway e')" using new(2) e1(1) b2(2) by (simp add: superseded_fold supersedes_def)
  moreover have "acct k (en_to_gateway e) = 0" using acct_okD(2)[OF engine_baseD(3)[OF engine_invD(1)[OF inv]] new(1)] new(2) by blast
  ultimately have "acct k (?acc # out) = 0" using fin out(1) e1(1) acct_append(1)[of k "[?acc]" out] by simp
  then show ?thesis using out e1(1) by (intro exI[of _ "?acc # out"]) simp
qed

text \<open>An order that may rest is handed to the book.\<close>

lemma process_added:
  assumes inv: "engine_inv n S e" and n: "n < 2 ^ 32 - 2" and ok: "\<not> enter_refused client m e"
    and p: "process now \<lparr>cm_client_id = client, cm_msg = EnterOrder m\<rparr> e = Some e'"
    and k: "eo_min_qty m = 0" "\<not> enter_ioc m"
    and ad: "spec_add (S (eo_stock m)) (en_next_ref e) (eo_side m) (eo_price m) (eo_shares m) = (sa, evs, x)"
  shows "engine_inv (Suc n) (S(eo_stock m := sa)) e'" "en_next_ref e' = en_next_ref e + 1"
    "en_used_tokens e' = insert (client, token_str (eo_token m)) (en_used_tokens e)"
proof -
  define i where "i = \<lparr>oi_client_id = client, oi_token = eo_token m, oi_symbol = eo_stock m, oi_side = eo_side m, oi_open = eo_shares m\<rparr>"
  obtain e1 where en: "entering (Suc n) S e1 (en_next_ref e) i" and r: "enter_book client m (en_next_ref e) e1 = Some e'"
    and e1: "en_next_ref e1 = en_next_ref e + 1" "en_used_tokens e1 = insert (client, token_str (eo_token m)) (en_used_tokens e)"
    by (rule enter_start[OF inv n ok p i_def])
  obtain sb evsm f where mt: "spec_match (en_next_ref e) (eo_side m) (enter_limit m) (eo_shares m) (S (eo_stock m)) = (sb, evsm, f)"
    by (metis prod_cases3)
  have nk: "\<not> enter_killed m (S (eo_stock m))" using k(1) by (simp add: enter_killed_def)
  obtain b3 where b3: "fb_sim b3 sa" "e' = fold on_event evs (put_book (eo_stock m) b3 e1)"
    using enter_book_run[OF en _ _ _ mt ad, of client] r nk k(2) by (auto simp: i_def)
  have pos: "0 < eo_price m" using ok k(2) by (auto simp: enter_refused_def enter_ioc_def)
  show "engine_inv (Suc n) (S(eo_stock m := sa)) e'" using entering_add[OF en, of "eo_price m" sa evs x b3] ad b3 pos by (simp add: i_def)
  show "en_next_ref e' = en_next_ref e + 1" "en_used_tokens e' = insert (client, token_str (eo_token m)) (en_used_tokens e)"
    using e1 b3(2) by (simp_all add: fold_on_event)
qed

text \<open>
  The two outcomes of a fill-or-kill order. Killed: it is accepted and cancelled whole, and neither a
  book nor the feed shows a trace of it. Filled: its executions add up to its quantity and no cancel
  is sent to anyone.
\<close>

definition fok_killed :: "u64 \<Rightarrow> enter_order \<Rightarrow> u64 \<Rightarrow> engine \<Rightarrow> engine \<Rightarrow> bool" where
  "fok_killed client m now e e' \<longleftrightarrow>
     en_to_gateway e' = en_to_gateway e @ [\<lparr>cr_client_id = client, cr_msg = Accepted (accepted_for m (en_next_ref e) now)\<rparr>,
       \<lparr>cr_client_id = client, cr_msg = Canceled \<lparr>ca_timestamp = now, ca_token = eo_token m,
          ca_decrement_shares = eo_shares m, ca_reason = 0x44\<rparr>\<rparr>] \<and>
     en_to_feed e' = en_to_feed e \<and> (\<forall>sm. book_snapshot_of e' sm = book_snapshot_of e sm)"

definition fok_filled :: "u64 \<Rightarrow> enter_order \<Rightarrow> engine \<Rightarrow> engine \<Rightarrow> bool" where
  "fok_filled client m e e' \<longleftrightarrow> (\<exists>out. en_to_gateway e' = en_to_gateway e @ out \<and>
     (\<forall>r\<in>set out. \<not> is_cancel (cr_msg r)) \<and> acct (client, token_str (eo_token m)) out = 0)"

text \<open>
  C8. A fill-or-kill order, which is an immediate-or-cancel or market order whose minimum quantity is
  its whole quantity, trades all or nothing, whatever the book. When fewer shares than it wants rest on the other side
  within its limit, it is killed without a trace. When there are enough of them, and fewer than
  \<open>2 ^ 32\<close> in all, it is filled whole. At \<open>2 ^ 32\<close> shares and beyond the engine's 32-bit sum of
  them has wrapped around, and the wrapped sum decides: the order may then be killed although it could be
  filled, but it is never filled in part.
\<close>

theorem engine_fill_or_kill:
  assumes "engine_reach n e" "n < 2 ^ 32 - 2" "\<not> enter_refused client m e" "enter_ioc m" "eo_min_qty m = eo_shares m"
    "book_snapshot_of e (eo_stock m) = Some sn" "A = avail (eo_side m) (enter_limit m) (snap_orders (snap_side (opp (eo_side m)) sn))"
    "process now \<lparr>cm_client_id = client, cm_msg = EnterOrder m\<rparr> e = Some e'"
  shows "(A < unat (eo_shares m) \<longrightarrow> fok_killed client m now e e') \<and>
    (unat (eo_shares m) \<le> A \<and> A < 2 ^ 32 \<longrightarrow> fok_filled client m e e') \<and>
    (2 ^ 32 \<le> A \<longrightarrow> (if A mod 2 ^ 32 < unat (eo_shares m) then fok_killed client m now e e' else fok_filled client m e e'))"
proof -
  obtain S where inv: "engine_inv n S e" using engine_reach_inv[OF assms(1)] assms(2) by auto
  let ?side = "eo_side m" and ?sb = "S (eo_stock m)"
  have "sn = spec_snapshot ?sb" using snapshot_of_inv[OF inv, of "eo_stock m"] assms(6) by simp
  then have A: "A = avail ?side (enter_limit m) (queue_of (opp ?side) ?sb)" using assms(7) by simp
  have side: "valid_side ?side" and nz: "eo_shares m \<noteq> 0" using assms(3) by (auto simp: enter_refused_def)
  have kill: "enter_killed m ?sb \<longleftrightarrow> A mod 2 ^ 32 < unat (eo_shares m)"
    using unat_matchable[of ?sb ?side "enter_limit m"] assms(5) nz unfolding A by (simp add: enter_killed_def word_less_nat_alt) auto
  have "if A mod 2 ^ 32 < unat (eo_shares m) then fok_killed client m now e e' else fok_filled client m e e'"
  proof (cases "enter_killed m ?sb")
    case True
    note K = process_killed[OF inv assms(2,3,8) True]
    have "book_snapshot_of e' sm = book_snapshot_of e sm" for sm using snapshot_of_inv[OF K(1)] snapshot_of_inv[OF inv] by simp
    then show ?thesis using K(2,3) True kill by (simp add: fok_killed_def)
  next
    case False
    obtain sb evs f where mt: "spec_match (en_next_ref e) ?side (enter_limit m) (eo_shares m) ?sb = (sb, evs, f)" by (metis prod_cases3)
    have "unat f = unat (eo_shares m)"
      using match_filled[OF mt books_ok_inv[OF engine_baseD(1)[OF engine_invD(1)[OF inv]]] side] kill False mod_less_eq_dividend[of A "2 ^ 32"]
      unfolding A by auto
    then have "f = eo_shares m" by (rule word_unat_eq_iff[THEN iffD2])
    then show ?thesis using process_filled[OF inv assms(2,3,8) False assms(4) refl] mt False kill by (simp add: fok_filled_def)
  qed
  moreover have "unat (eo_shares m) < 2 ^ 32" using unsigned_less[of "eo_shares m"] by simp
  ultimately show ?thesis by auto
qed

text \<open>
  On a book with one offer of 100 shares an order for 30 is filled and one for 200 is killed; on a
  book that offers exactly \<open>2 ^ 32\<close> shares, in two orders, an order for 30 is killed.
\<close>

lemma demo_enter_simps [simp]:
  "eo_token (demo_enter tok s q p tif mn) = make_token tok" "eo_side (demo_enter tok s q p tif mn) = s"
  "eo_shares (demo_enter tok s q p tif mn) = q" "eo_stock (demo_enter tok s q p tif mn) = make_symbol [0x41]"
  "eo_price (demo_enter tok s q p tif mn) = p" "eo_tif (demo_enter tok s q p tif mn) = tif" "eo_min_qty (demo_enter tok s q p tif mn) = mn"
  by (simp_all add: demo_enter_def)

lemma demo_offer:
  assumes "engine_inv n S e" "n < 2 ^ 32 - 2" "(1, token_str (make_token tok)) \<notin> en_used_tokens e" "q \<noteq> 0"
    "fst (spec_add (S (make_symbol [0x41])) (en_next_ref e) Sell 5000 q) = sa"
  obtains e' where "process 5 \<lparr>cm_client_id = 1, cm_msg = EnterOrder (demo_enter tok Sell q 5000 kTifDay 0)\<rparr> e = Some e'"
    "engine_inv (Suc n) (S(make_symbol [0x41] := sa)) e'" "en_next_ref e' = en_next_ref e + 1"
    "en_used_tokens e' = insert (1, token_str (make_token tok)) (en_used_tokens e)"
proof -
  let ?m = "demo_enter tok Sell q 5000 kTifDay 0"
  from process_ok[OF assms(1), of 5 "\<lparr>cm_client_id = 1, cm_msg = EnterOrder ?m\<rparr>"] assms(2)
  obtain e' where e': "process 5 \<lparr>cm_client_id = 1, cm_msg = EnterOrder ?m\<rparr> e = Some e'" by auto
  have "\<not> enter_refused 1 ?m e" "\<not> enter_ioc ?m"
    using assms(3,4) by (simp_all add: enter_refused_def token_used_def enter_ioc_def kTifDay_def kTifIOC_def kMarketPrice_def)
  moreover obtain evs x where "spec_add (S (make_symbol [0x41])) (en_next_ref e) Sell 5000 q = (sa, evs, x)"
    using assms(5) by (metis prod.collapse)
  ultimately show ?thesis using that[OF e'] process_added[OF assms(1,2) _ e'] by simp
qed

lemma demo_taker:
  assumes "engine_inv n S e" "n < 2 ^ 32 - 2" "(2, [0x62]) \<notin> en_used_tokens e" "q \<noteq> 0"
    "m = demo_enter [0x62] Buy q 5000 kTifIOC q"
  obtains e' where "\<not> enter_refused 2 m e" "enter_ioc m" "eo_min_qty m = eo_shares m"
    "book_snapshot_of e (eo_stock m) = Some (spec_snapshot (S (make_symbol [0x41])))"
    "avail Buy 5000 (queue_of Sell (S (make_symbol [0x41]))) = avail (eo_side m) (enter_limit m)
       (snap_orders (snap_side (opp (eo_side m)) (spec_snapshot (S (make_symbol [0x41])))))"
    "process 6 \<lparr>cm_client_id = 2, cm_msg = EnterOrder m\<rparr> e = Some e'"
proof -
  from process_ok[OF assms(1), of 6 "\<lparr>cm_client_id = 2, cm_msg = EnterOrder m\<rparr>"] assms(2)
  obtain e' where e': "process 6 \<lparr>cm_client_id = 2, cm_msg = EnterOrder m\<rparr> e = Some e'" by auto
  have "token_str (make_token [0x62]) = [0x62]" by code_simp
  then show ?thesis using assms(3,4,5) e' snapshot_of_inv[OF assms(1)]
    by (intro that[of e']) (simp_all add: enter_refused_def token_used_def enter_ioc_def enter_limit_def kMarketPrice_def)
qed

lemma demo_offers:
  obtains e1 e2 S1 S2 where
    "engine_reach 1 e1" "engine_inv 1 S1 e1" "(2, [0x62]) \<notin> en_used_tokens e1" "avail Buy 5000 (queue_of Sell (S1 (make_symbol [0x41]))) = 100"
    "engine_reach 2 e2" "engine_inv 2 S2 e2" "(2, [0x62]) \<notin> en_used_tokens e2" "avail Buy 5000 (queue_of Sell (S2 (make_symbol [0x41]))) = 2 ^ 32"
proof -
  let ?sy = "make_symbol [0x41]" and ?S = "\<lambda>_ :: symbol. spec_empty"
  let ?r = "\<lambda>i q. \<lparr>rs_id = i, rs_price = 5000, rs_qty = q\<rparr>"
  have t: "token_str (make_token [0x61]) = [0x61]" "token_str (make_token [0x63]) = [0x63]" by code_simp+
  have i: "en_used_tokens en_init = {}" "en_next_ref en_init = 1" by (simp_all add: en_init_def)
  have a: "fst (spec_add spec_empty 1 Sell 5000 100) = spec_empty\<lparr>sb_asks := [?r 1 100]\<rparr>"
    "fst (spec_add spec_empty 1 Sell 5000 (2 ^ 31)) = spec_empty\<lparr>sb_asks := [?r 1 (2 ^ 31)]\<rparr>"
    "fst (spec_add (spec_empty\<lparr>sb_asks := [?r 1 (2 ^ 31)]\<rparr>) 2 Sell 5000 (2 ^ 31)) =
       spec_empty\<lparr>sb_asks := [?r 1 (2 ^ 31), ?r 2 (2 ^ 31)]\<rparr>"
    by code_simp+
  obtain e1 where e1: "process 5 \<lparr>cm_client_id = 1, cm_msg = EnterOrder (demo_enter [0x61] Sell 100 5000 kTifDay 0)\<rparr> en_init = Some e1"
    "engine_inv (Suc 0) (?S(?sy := spec_empty\<lparr>sb_asks := [?r 1 100]\<rparr>)) e1" "en_used_tokens e1 = {(1, [0x61])}"
    by (rule demo_offer[OF engine_inv_init, of "[0x61]" 100]) (simp_all add: i t a(1))
  obtain d where d: "process 5 \<lparr>cm_client_id = 1, cm_msg = EnterOrder (demo_enter [0x61] Sell (2 ^ 31) 5000 kTifDay 0)\<rparr> en_init = Some d"
    "engine_inv (Suc 0) (?S(?sy := spec_empty\<lparr>sb_asks := [?r 1 (2 ^ 31)]\<rparr>)) d" "en_used_tokens d = {(1, [0x61])}" "en_next_ref d = 2"
    by (rule demo_offer[OF engine_inv_init, of "[0x61]" "2 ^ 31"]) (use a(2) in \<open>simp_all add: i t\<close>)
  obtain e2 where e2: "process 5 \<lparr>cm_client_id = 1, cm_msg = EnterOrder (demo_enter [0x63] Sell (2 ^ 31) 5000 kTifDay 0)\<rparr> d = Some e2"
    "engine_inv (Suc (Suc 0)) (?S(?sy := spec_empty\<lparr>sb_asks := [?r 1 (2 ^ 31), ?r 2 (2 ^ 31)]\<rparr>)) e2" "en_used_tokens e2 = {(1, [0x61]), (1, [0x63])}"
    by (rule demo_offer[OF d(2), of "[0x63]" "2 ^ 31"]) (use a(3) in \<open>simp_all add: d(3,4) t insert_commute\<close>)
  have r: "engine_reach 1 e1" "engine_reach 2 e2"
    using reach_step[OF reach_init e1(1)] reach_step[OF reach_step[OF reach_init d(1)] e2(1)] by (simp_all add: numeral_2_eq_2)
  have v: "avail Buy 5000 (queue_of Sell ((?S(?sy := spec_empty\<lparr>sb_asks := [?r 1 100]\<rparr>)) ?sy)) = 100"
    "avail Buy 5000 (queue_of Sell ((?S(?sy := spec_empty\<lparr>sb_asks := [?r 1 (2 ^ 31), ?r 2 (2 ^ 31)]\<rparr>)) ?sy)) = 2 ^ 32"
    by (simp_all add: queue_of_def crosses_def)
  show ?thesis
    by (rule that[OF r(1) e1(2)[folded One_nat_def] _ v(1) r(2) e2(2)[folded numeral_2_eq_2] _ v(2)]) (simp_all add: e1(3) e2(3))
qed

theorem engine_fill_or_kill_witness:
  "(\<exists>e e'. engine_reach 1 e \<and>
      process 6 \<lparr>cm_client_id = 2, cm_msg = EnterOrder (demo_enter [0x62] Buy 30 5000 kTifIOC 30)\<rparr> e = Some e' \<and>
      fok_filled 2 (demo_enter [0x62] Buy 30 5000 kTifIOC 30) e e') \<and>
   (\<exists>e e'. engine_reach 1 e \<and>
      process 6 \<lparr>cm_client_id = 2, cm_msg = EnterOrder (demo_enter [0x62] Buy 200 5000 kTifIOC 200)\<rparr> e = Some e' \<and>
      fok_killed 2 (demo_enter [0x62] Buy 200 5000 kTifIOC 200) 6 e e') \<and>
   (\<exists>e e' sn. engine_reach 2 e \<and> book_snapshot_of e (make_symbol [0x41]) = Some sn \<and>
      avail Buy 5000 (snap_orders (snap_side Sell sn)) = 2 ^ 32 \<and>
      process 6 \<lparr>cm_client_id = 2, cm_msg = EnterOrder (demo_enter [0x62] Buy 30 5000 kTifIOC 30)\<rparr> e = Some e' \<and>
      fok_killed 2 (demo_enter [0x62] Buy 30 5000 kTifIOC 30) 6 e e')"
proof -
  let ?m = "\<lambda>q. demo_enter [0x62] Buy q 5000 kTifIOC q"
  obtain e1 e2 S1 S2 where
    E1: "engine_reach 1 e1" "engine_inv 1 S1 e1" "(2, [0x62]) \<notin> en_used_tokens e1" "avail Buy 5000 (queue_of Sell (S1 (make_symbol [0x41]))) = 100" and
    E2: "engine_reach 2 e2" "engine_inv 2 S2 e2" "(2, [0x62]) \<notin> en_used_tokens e2" "avail Buy 5000 (queue_of Sell (S2 (make_symbol [0x41]))) = 2 ^ 32"
    by (rule demo_offers)
  obtain f where f: "process 6 \<lparr>cm_client_id = 2, cm_msg = EnterOrder (?m 30)\<rparr> e1 = Some f" "fok_filled 2 (?m 30) e1 f"
    by (rule demo_taker[OF E1(2) _ E1(3), of 30 "?m 30"]) (use engine_fill_or_kill[OF E1(1)] E1(4) in auto)
  obtain g where g: "process 6 \<lparr>cm_client_id = 2, cm_msg = EnterOrder (?m 200)\<rparr> e1 = Some g" "fok_killed 2 (?m 200) 6 e1 g"
    by (rule demo_taker[OF E1(2) _ E1(3), of 200 "?m 200"]) (use engine_fill_or_kill[OF E1(1)] E1(4) in auto)
  obtain h where h: "process 6 \<lparr>cm_client_id = 2, cm_msg = EnterOrder (?m 30)\<rparr> e2 = Some h" "fok_killed 2 (?m 30) 6 e2 h"
    by (rule demo_taker[OF E2(2) _ E2(3), of 30 "?m 30"]) (use engine_fill_or_kill[OF E2(1)] E2(4) in auto)
  show ?thesis using E1 E2 f g h snapshot_of_inv[OF E2(2)] by auto
qed

text \<open>
  C9. A cancel request names the quantity to keep. When the token is live and its order has more open
  shares than that, the order is reduced to it, or removed when it is zero, and the client and the feed
  are told the difference; no other order changes. Every other cancel request, of an unknown or dead
  token or one that would not reduce the order, is ignored: no response, no market event.
\<close>

theorem engine_cancel_effect:
  assumes "engine_reach n e" "n < 2 ^ 32 - 1"
    "process now \<lparr>cm_client_id = client, cm_msg = CancelOrder m\<rparr> e = Some e'"
  shows "\<exists>out feed. en_to_gateway e' = en_to_gateway e @ out \<and> en_to_feed e' = en_to_feed e @ feed \<and>
    (case en_live_tokens e (client, token_str (co_token m)) of
       None \<Rightarrow> out = [] \<and> feed = [] \<and> en_orders e' = en_orders e
     | Some ref \<Rightarrow> \<exists>i. en_orders e ref = Some i \<and>
         (if co_shares m < oi_open i then
            out = [\<lparr>cr_client_id = client, cr_msg = Canceled \<lparr>ca_timestamp = now, ca_token = oi_token i,
              ca_decrement_shares = oi_open i - co_shares m, ca_reason = 0x55\<rparr>\<rparr>] \<and>
            feed = [\<lparr>me_ts = now, me_symbol = oi_symbol i, me_ev = EvCanceled \<lparr>ce_id = ref,
              ce_canceled_qty = oi_open i - co_shares m, ce_removed = (co_shares m = 0)\<rparr>\<rparr>] \<and>
            en_orders e' = (en_orders e)(ref := if co_shares m = 0 then None else Some (i\<lparr>oi_open := co_shares m\<rparr>))
          else out = [] \<and> feed = [] \<and> en_orders e' = en_orders e))"
proof -
  obtain S where inv: "engine_inv n S e" using engine_reach_inv[OF assms(1,2)] by auto
  let ?e = "e\<lparr>en_now := now\<rparr>"
  have h: "handle_cancel client m ?e = Some e'" using assms(3) by (simp add: process_def)
  show ?thesis
  proof (cases "en_live_tokens e (client, token_str (co_token m))")
    case None
    then show ?thesis using h by (auto simp: handle_cancel_def)
  next
    case (Some ref)
    have inv': "engine_inv n S ?e" using engine_inv_fields(1)[OF inv] .
    obtain i sb evs f b1 where i: "en_orders ?e ref = Some i" and k: "order_key i = (client, token_str (co_token m))"
      and c: "spec_cancel (S (oi_symbol i)) ref (co_shares m) = (sb, evs, f)" and "fb_sim b1 sb"
      and h': "handle_cancel client m ?e = Some (fold on_event evs (put_book (oi_symbol i) b1 (?e\<lparr>en_current_symbol := oi_symbol i\<rparr>)))"
      by (rule handle_cancel_run[OF inv', of client m ref]) (use Some in simp_all)
    obtain s r where F: "spec_find (S (oi_symbol i)) ref = Some (s, r)" "rs_qty r = oi_open i" using live_order[OF inv, of ref i] i by auto
    have "\<not> en_suppress_ouch_cancel e" using engine_invD(3)[OF inv] .
    moreover have "evs = (if co_shares m < oi_open i then [EvCanceled \<lparr>ce_id = ref, ce_canceled_qty = oi_open i - co_shares m,
        ce_removed = (co_shares m = 0)\<rparr>] else [])"
      using c F by (auto simp: spec_cancel_def not_le not_less split: if_splits)
    ultimately show ?thesis using h h' Some i k
      by (auto simp: order_key_def on_canceled_def notify_cancel_def en_publish_def en_respond_def put_book_def reduce_open_def Let_def)
  qed
qed

theorem engine_cancel_effect_witness:
  "\<exists>e. process 7 \<lparr>cm_client_id = 3, cm_msg = CancelOrder \<lparr>co_token = make_token [0x61], co_shares = 0\<rparr>\<rparr> en_init = Some e \<and> en_to_gateway e = []"
proof -
  obtain e where e: "process 7 \<lparr>cm_client_id = 3, cm_msg = CancelOrder \<lparr>co_token = make_token [0x61], co_shares = 0\<rparr>\<rparr> en_init = Some e"
    using process_ok[OF engine_inv_init, of 7] by auto
  from engine_cancel_effect[OF reach_init _ e] e show ?thesis by (auto simp: en_init_def)
qed

end
