(* ===== verification/Engine_Tokens.thy ===== *)
theory Engine_Tokens
  imports Engine_Props
begin

text \<open>
  The life of an order as its owner sees it, read off the history of the engine's responses: which
  responses open an order, under which token and reference, and which ones report on an order that
  must have been opened before. The invariant ties the history to the token and order tables alone,
  so it needs no bound on the number of commands.
\<close>

section \<open>Histories of responses\<close>

text \<open>Accepted and Replaced open an order: the owner's token and the reference it is given.\<close>

fun opens :: "client_response \<Rightarrow> (token_key \<times> order_id) list" where
  "opens r = (case cr_msg r of
     Accepted a \<Rightarrow> [((cr_client_id r, token_str (ac_token a)), ac_order_ref a)]
   | Replaced a \<Rightarrow> [((cr_client_id r, token_str (rp_replacement_token a)), rp_order_ref a)]
   | _ \<Rightarrow> [])"

definition openings :: "client_response list \<Rightarrow> (token_key \<times> order_id) list" where
  "openings rs = concat (map opens rs)"

abbreviation opened :: "client_response list \<Rightarrow> token_key set" where
  "opened rs \<equiv> set (map fst (openings rs))"

text \<open>
  An execution or a cancel is reported only for an order that has been opened; a rejection blames the
  token exactly when it has been.
\<close>

definition follows :: "client_response list \<Rightarrow> client_response \<Rightarrow> bool" where
  "follows rs r \<longleftrightarrow> (case cr_msg r of
     Executed x \<Rightarrow> (cr_client_id r, token_str (ex_token x)) \<in> opened rs
   | Canceled x \<Rightarrow> (cr_client_id r, token_str (ca_token x)) \<in> opened rs
   | Rejected x \<Rightarrow> rj_reason x = 0x54 \<longleftrightarrow> (cr_client_id r, token_str (rj_token x)) \<in> opened rs
   | _ \<Rightarrow> True)"

definition orderly :: "client_response list \<Rightarrow> bool" where
  "orderly rs \<longleftrightarrow> (\<forall>i<length rs. follows (take i rs) (rs ! i))"

lemma openings_append [simp]: "openings (rs @ rs') = openings rs @ openings rs'" "openings [] = []" "openings [r] = opens r"
  by (simp_all add: openings_def)

lemma orderly_append [simp]: "orderly (rs @ [r]) \<longleftrightarrow> orderly rs \<and> follows rs r" "orderly []"
  by (auto simp: orderly_def nth_append less_Suc_eq)

section \<open>The invariant\<close>

definition tok_inv :: "engine \<Rightarrow> bool" where
  "tok_inv e \<longleftrightarrow> (let os = openings (en_to_gateway e) in
     distinct (map fst os) \<and> map snd os = map of_nat [1..<Suc (length os)] \<and> en_next_ref e = of_nat (Suc (length os)) \<and>
     en_used_tokens e = opened (en_to_gateway e) \<and> keys_of (en_orders e) \<subseteq> en_used_tokens e \<and> orderly (en_to_gateway e))"

lemma tok_invD:
  assumes "tok_inv e"
  shows "distinct (map fst (openings (en_to_gateway e)))"
    "map snd (openings (en_to_gateway e)) = map of_nat [1..<Suc (length (openings (en_to_gateway e)))]"
    "en_next_ref e = of_nat (Suc (length (openings (en_to_gateway e))))"
    "en_used_tokens e = opened (en_to_gateway e)" "keys_of (en_orders e) \<subseteq> en_used_tokens e" "orderly (en_to_gateway e)"
  using assms unfolding tok_inv_def Let_def by blast+

text \<open>It survives any change of the other fields, and any shrinking of the order table.\<close>

lemma tok_inv_frame:
  assumes "tok_inv e" "en_to_gateway e' = en_to_gateway e" "en_next_ref e' = en_next_ref e"
    "en_used_tokens e' = en_used_tokens e" "keys_of (en_orders e') \<subseteq> keys_of (en_orders e)"
  shows "tok_inv e'"
  using tok_invD[OF assms(1)] assms(2-5) unfolding tok_inv_def Let_def by auto

lemma tok_inv_respond:
  assumes "tok_inv e" "opens \<lparr>cr_client_id = c, cr_msg = m\<rparr> = []" "follows (en_to_gateway e) \<lparr>cr_client_id = c, cr_msg = m\<rparr>"
  shows "tok_inv (en_respond c m e)"
  using tok_invD[OF assms(1)] assms(2,3) unfolding tok_inv_def Let_def by (simp del: opens.simps upt_Suc)

text \<open>Opening an order under a token that was not used before.\<close>

lemma tok_inv_open:
  assumes "tok_inv e" "k \<notin> en_used_tokens e" "opens r = [(k, en_next_ref e)]" "follows (en_to_gateway e) r"
    "en_to_gateway e' = en_to_gateway e @ [r]" "en_next_ref e' = en_next_ref e + 1"
    "en_used_tokens e' = insert k (en_used_tokens e)" "keys_of (en_orders e') \<subseteq> insert k (keys_of (en_orders e))"
  shows "tok_inv e'"
proof -
  note I = tok_invD[OF assms(1)]
  have "keys_of (en_orders e') \<subseteq> en_used_tokens e'" using assms(7,8) I(5) by blast
  then show ?thesis using assms(2-7) I unfolding tok_inv_def Let_def by (simp del: opens.simps)
qed

section \<open>Every step keeps it\<close>

lemma used_opened: "tok_inv e \<Longrightarrow> en_orders e ref = Some i \<Longrightarrow> (oi_client_id i, token_str (oi_token i)) \<in> opened (en_to_gateway e)"
  using tok_invD(4,5) keys_ofI[of "en_orders e" ref i] unfolding order_key_def by blast

lemma tok_inv_notify: "tok_inv e \<Longrightarrow> tok_inv (notify ev oid l e)"
  using used_opened[of e oid] by (auto simp: notify_def follows_def intro!: tok_inv_respond split: option.split)

lemma tok_inv_notify_cancel: "tok_inv e \<Longrightarrow> tok_inv (notify_cancel ev e)"
  using used_opened[of e "ce_id ev"] by (auto simp: notify_cancel_def follows_def intro!: tok_inv_respond split: option.split)

lemma tok_inv_publish: "tok_inv e \<Longrightarrow> tok_inv (en_publish ev e)"
  by (erule tok_inv_frame) simp_all

lemma tok_inv_reduce: "tok_inv e \<Longrightarrow> tok_inv (reduce_open oid q e)"
  by (erule tok_inv_frame) (simp_all add: keys_of_reduce)

lemma tok_inv_on_event:
  assumes "tok_inv e"
  shows "tok_inv (on_event ev e)"
proof (cases ev)
  case (EvExecuted x)
  then show ?thesis using assms by (simp add: on_executed_def Let_def tok_inv_notify tok_inv_publish tok_inv_reduce)
next
  case (EvCanceled x)
  let ?e = "notify_cancel x (en_publish (EvCanceled x) e)"
  have n: "tok_inv ?e" using assms by (intro tok_inv_notify_cancel tok_inv_publish)
  show ?thesis
  proof (cases "ce_removed x")
    case True
    then show ?thesis using EvCanceled tok_inv_reduce[OF n] by (simp add: on_canceled_def Let_def)
  next
    case False
    have "tok_inv (on_canceled x e)"
      using keys_of_tbl_event[of ev "en_orders e"] on_event_orders[of ev e] False
      by (intro tok_inv_frame[OF n]) (simp_all add: EvCanceled on_canceled_def Let_def split: option.split)
    then show ?thesis by (simp add: EvCanceled)
  qed
qed (simp_all add: assms on_added_def on_replaced_def tok_inv_publish)

lemma tok_inv_events: "tok_inv e \<Longrightarrow> tok_inv (fold on_event evs e)"
  by (induction evs arbitrary: e) (simp_all add: tok_inv_on_event)

lemma tok_inv_fields [simp]:
  "tok_inv (e\<lparr>en_books := B\<rparr>) = tok_inv e" "tok_inv (put_book sm b e) = tok_inv e" "tok_inv (e\<lparr>en_now := t\<rparr>) = tok_inv e"
  "tok_inv (e\<lparr>en_current_symbol := sm\<rparr>) = tok_inv e" "tok_inv (e\<lparr>en_suppress_ouch_cancel := v\<rparr>) = tok_inv e"
  by (simp_all add: tok_inv_def put_book_def)

lemma book_for_frame:
  assumes "book_for sm e = (e', b)"
  shows "tok_inv e' = tok_inv e" "en_used_tokens e' = en_used_tokens e"
  using assms by (auto simp: book_for_def Let_def split: option.splits)

lemma tok_inv_cancel_unrested:
  assumes "tok_inv e" "(client, token_str token) \<in> en_used_tokens e"
  shows "tok_inv (cancel_unrested client ref token q reason e)"
proof -
  let ?m = "Canceled \<lparr>ca_timestamp = en_now e, ca_token = token, ca_decrement_shares = q, ca_reason = reason\<rparr>"
  have "tok_inv (en_respond client ?m e)"
    using assms tok_invD(4)[OF assms(1)] by (intro tok_inv_respond) (simp_all add: follows_def)
  from tok_inv_frame[OF this] keys_of_put_sub[of None "en_orders e" ref] show ?thesis by (simp add: cancel_unrested_def Let_def)
qed

lemma tok_inv_enter_book:
  assumes "tok_inv e" "(client, token_str (eo_token m)) \<in> en_used_tokens e" "enter_book client m ref e = Some e'"
  shows "tok_inv e'"
proof -
  obtain e1 b where b: "book_for (eo_stock m) e = (e1, b)" by (cases "book_for (eo_stock m) e")
  note B = book_for_frame[OF b]
  show ?thesis using assms B
    by (auto simp: enter_book_def b Let_def bind_eq_Some_conv fold_on_event
      intro!: tok_inv_cancel_unrested tok_inv_events split: if_splits prod.splits)
qed

lemma tok_inv_reject:
  assumes "tok_inv e" "reason = 0x54 \<longleftrightarrow> token_used client token e"
  shows "tok_inv (reject client token reason e)"
  unfolding reject_def using assms tok_invD(4)[OF assms(1)]
  by (intro tok_inv_respond) (simp_all add: follows_def token_used_def)

lemma keys_of_grow: "keys_of (T(ref \<mapsto> i)) \<subseteq> insert (order_key i) (keys_of T)"
  by (auto simp: keys_of_iff split: if_splits)

lemma tok_inv_accept:
  assumes "tok_inv e" "\<not> token_used client (eo_token m) e" "accept_order client m e = (e', ref)"
  shows "tok_inv e'" "(client, token_str (eo_token m)) \<in> en_used_tokens e'"
proof -
  let ?i = "\<lparr>oi_client_id = client, oi_token = eo_token m, oi_symbol = eo_stock m, oi_side = eo_side m, oi_open = eo_shares m\<rparr>"
  show "tok_inv e'" using assms keys_of_grow[of "en_orders e" "en_next_ref e" ?i]
    by (intro tok_inv_open[OF assms(1), of "(client, token_str (eo_token m))"
        "\<lparr>cr_client_id = client, cr_msg = Accepted (accepted_for m (en_next_ref e) (en_now e))\<rparr>"])
      (auto simp: accept_order_def accepted_for_def token_used_def follows_def order_key_def Let_def)
  show "(client, token_str (eo_token m)) \<in> en_used_tokens e'" using assms(3) by (auto simp: accept_order_def Let_def)
qed

lemma tok_inv_swap:
  assumes "tok_inv e" "\<not> token_used client (ro_replacement_token m) e" "swap_order client m old info e = (e', ref)"
  shows "tok_inv e'"
proof -
  let ?i = "\<lparr>oi_client_id = client, oi_token = ro_replacement_token m, oi_symbol = oi_symbol info, oi_side = oi_side info, oi_open = ro_shares m\<rparr>"
  have "keys_of ((en_orders e)(old := None, en_next_ref e \<mapsto> ?i)) \<subseteq> insert (order_key ?i) (keys_of (en_orders e))"
    using keys_of_grow[of "(en_orders e)(old := None)" "en_next_ref e" ?i] keys_of_put_sub[of None "en_orders e" old] by blast
  then show ?thesis using assms
    by (intro tok_inv_open[OF assms(1), of "(client, token_str (ro_replacement_token m))"
        "\<lparr>cr_client_id = client, cr_msg = Replaced (replaced_for m info (en_next_ref e) (en_now e))\<rparr>"])
      (auto simp: swap_order_def replaced_for_def token_used_def follows_def order_key_def Let_def)
qed

lemma tok_inv_handle_enter:
  assumes "tok_inv e" "handle_enter client m e = Some e'"
  shows "tok_inv e'"
proof (cases "enter_refused client m e")
  case True
  then obtain r where "e' = reject client (eo_token m) r e" "r = 0x54 \<longleftrightarrow> token_used client (eo_token m) e"
    using assms(2) by (auto simp: handle_enter_def enter_refused_def Let_def split: if_splits)
  then show ?thesis using tok_inv_reject[OF assms(1)] by simp
next
  case False
  obtain e1 ref where a: "accept_order client m e = (e1, ref)" by (cases "accept_order client m e")
  have "\<not> token_used client (eo_token m) e" using False by (simp add: enter_refused_def)
  note A = tok_inv_accept[OF assms(1) this a]
  have "enter_book client m ref e1 = Some e'" using assms(2) False a by (auto simp: handle_enter_def enter_refused_def Let_def)
  then show ?thesis by (rule tok_inv_enter_book[OF A])
qed

lemma tok_inv_handle_cancel:
  assumes "tok_inv e" "handle_cancel client m e = Some e'"
  shows "tok_inv e'"
  using assms
  by (auto simp: handle_cancel_def Let_def bind_eq_Some_conv book_for_frame(1) intro!: tok_inv_events split: option.splits prod.splits)

lemma tok_inv_handle_replace:
  assumes "tok_inv e" "handle_replace client m e = Some e'"
  shows "tok_inv e'"
proof (cases "e' = e")
  case False
  then obtain old info where u: "\<not> token_used client (ro_replacement_token m) e"
      and i: "en_live_tokens e (client, token_str (ro_existing_token m)) = Some old" "en_orders e old = Some info"
      "\<not> (ro_price m \<le> 0 \<or> ro_shares m = 0)"
    using assms(2) by (auto simp: handle_replace_def split: option.splits if_splits)
  obtain e1 ref where w: "swap_order client m old info e = (e1, ref)" by (cases "swap_order client m old info e")
  obtain e2 b where k: "book_for (oi_symbol info) (e1\<lparr>en_suppress_ouch_cancel := True\<rparr>) = (e2, b)"
    by (cases "book_for (oi_symbol info) (e1\<lparr>en_suppress_ouch_cancel := True\<rparr>)")
  have "tok_inv e2" using tok_inv_swap[OF assms(1) u w] book_for_frame(1)[OF k] by simp
  then show ?thesis using assms(2) u i w k
    by (auto simp: handle_replace_def bind_eq_Some_conv intro!: tok_inv_events)
qed (simp add: assms(1))

lemma tok_inv_process:
  assumes "tok_inv e" "process now cmd e = Some e'"
  shows "tok_inv e'"
proof -
  have n: "tok_inv (e\<lparr>en_now := now\<rparr>)" using assms(1) by simp
  show ?thesis using assms(2) unfolding process_def
    by (cases "cm_msg cmd")
      (auto intro: tok_inv_handle_enter[OF n] tok_inv_handle_cancel[OF n] tok_inv_handle_replace[OF n])
qed

lemma tok_inv_init: "tok_inv en_init"
  by (simp add: tok_inv_def en_init_def keys_of_def)

lemma tok_inv_reach: "engine_reach n e \<Longrightarrow> tok_inv e"
  by (induction rule: engine_reach.induct) (auto simp only: tok_inv_init tok_inv_process)

section \<open>Properties\<close>

text \<open>
  C39. Whatever is sent to the engine, every order has one well-formed life. No token of a client opens
  more than one order, by being accepted or as the new token of a replace; the orders opened are
  numbered one, two, three and so on (modulo 2^64), in the order of the responses that open them; an execution
  or a cancel is reported only under a token that has been opened before; and a rejection gives a used
  token as its reason exactly when that client's token has been opened before.
\<close>

theorem engine_order_lifecycle:
  assumes "engine_reach n e" "rs = en_to_gateway e"
  shows "distinct (map fst (openings rs)) \<and> map snd (openings rs) = map of_nat [1..<Suc (length (openings rs))] \<and>
    (\<forall>i<length rs. case cr_msg (rs ! i) of
       Executed x \<Rightarrow> (cr_client_id (rs ! i), token_str (ex_token x)) \<in> set (map fst (openings (take i rs)))
     | Canceled x \<Rightarrow> (cr_client_id (rs ! i), token_str (ca_token x)) \<in> set (map fst (openings (take i rs)))
     | Rejected x \<Rightarrow> rj_reason x = 0x54 \<longleftrightarrow> (cr_client_id (rs ! i), token_str (rj_token x)) \<in> set (map fst (openings (take i rs)))
     | _ \<Rightarrow> True)"
proof -
  note I = tok_invD[OF tok_inv_reach[OF assms(1)], folded assms(2)]
  show ?thesis by (intro conjI I(1,2) I(6)[unfolded orderly_def follows_def])
qed

theorem engine_order_lifecycle_witness:
  "\<exists>e. process 7 \<lparr>cm_client_id = 1, cm_msg = EnterOrder (demo_enter [0x61] Buy 10 5000 kTifIOC 10)\<rparr> en_init = Some e \<and>
     map snd (openings (en_to_gateway e)) = [1] \<and> length (en_to_gateway e) = 2 \<and> distinct (map fst (openings (en_to_gateway e)))"
proof -
  let ?m = "demo_enter [0x61] Buy 10 5000 kTifIOC 10"
  obtain e where e: "process 7 \<lparr>cm_client_id = 1, cm_msg = EnterOrder ?m\<rparr> en_init = Some e"
    using process_ok[OF engine_inv_init, of 7] by auto
  have h: "\<not> enter_refused 1 ?m en_init" "enter_killed ?m spec_empty"
    by (simp_all add: enter_refused_def token_used_def en_init_def demo_enter_def enter_killed_def, code_simp)
  have g: "length (en_to_gateway e) = 2" "length (openings (en_to_gateway e)) = 1"
    using process_killed(3)[OF engine_inv_init _ h(1) e h(2)] by (simp_all add: en_init_def openings_def)
  from engine_order_lifecycle[OF reach_step[OF reach_init e] refl] show ?thesis using e g by simp
qed

end
