(* ===== verification/Framing.thy ===== *)
theory Framing
  imports Endian
begin

text \<open>
  Byte streams built by appending: what the framing layers share. A frame is a big-endian 16-bit
  length followed by that many bytes; MoldUDP64 blocks, raw ITCH files and SoupBinTCP packets use it.
\<close>

section \<open>Stores behind a prefix\<close>

lemma poke_beyond: "length p \<le> i \<Longrightarrow> poke p i bs = p"
  by (induction p i bs rule: poke.induct) (simp_all add: list_update_beyond)

lemma poke_append_left: "poke (p @ q) (length p) bs = p @ poke q 0 bs"
proof (induction bs arbitrary: p q)
  case (Cons b bs)
  show ?case
  proof (cases q)
    case Nil
    then show ?thesis by (simp add: poke_beyond list_update_beyond)
  next
    case q: (Cons x q')
    show ?thesis using Cons.IH[of "p @ [b]" q'] Cons.IH[of "[b]" q'] by (simp add: q)
  qed
qed simp

lemma poke_all: "length q = length bs \<Longrightarrow> poke q 0 bs = bs"
  using peek_poke_same[of "length bs" bs 0 q] by (simp add: peek_def)

lemma peek_append_left [simp]: "peek (p @ q) (length p) n = take n q"
  by (simp add: peek_def)

lemma unat_lt_power: "unat (w :: 'a :: len word) < 2 ^ LENGTH('a)"
  by (rule unsigned_less)

lemma peek_add: "peek p i (a + b) = peek p i a @ peek p (i + a) b"
  by (simp add: peek_def take_add add.commute)

lemma get_be16_at: "get_be16 (p @ be16 v @ r) (length p) = v"
proof -
  have "p @ be16 v @ r = poke (p @ be16 v @ r) (length p) (be16 v)"
    using poke_append_left[of p "be16 v @ r" "be16 v"] by (simp add: buf_simps poke_all)
  then show ?thesis using get_be16_same[of "length p" "p @ be16 v @ r" v] by simp
qed

lemma get_be64_at: "get_be64 (p @ be64 v @ r) (length p) = v"
proof -
  have "p @ be64 v @ r = poke (p @ be64 v @ r) (length p) (be64 v)"
    using poke_append_left[of p "be64 v @ r" "be64 v"] by (simp add: buf_simps poke_all)
  then show ?thesis using get_be64_same[of "length p" "p @ be64 v @ r" v] by simp
qed

section \<open>Frames\<close>

definition msg_block :: "bytes \<Rightarrow> bytes" where
  "msg_block m = be16 (of_nat (length m)) @ m"

abbreviation blocks :: "bytes list \<Rightarrow> bytes" where
  "blocks ms \<equiv> concat (map msg_block ms)"

end
