(* ===== verification/Mold.thy ===== *)
theory Mold
  imports Framing
begin

text \<open>
  The MoldUDP64 framing of \<^verbatim>\<open>src/mold/mold.hpp\<close> and \<^verbatim>\<open>mold.cpp\<close>: the packetizer that groups messages
  into datagrams below the MTU, the parser of a datagram, and the gap detector of a receiver. A
  \<^verbatim>\<open>vector\<close> of bytes is a list; the parser's pointer and length are the datagram it is called on.
\<close>

section \<open>Packets\<close>

type_synonym session = bytes

definition kHeaderSize :: nat where "kHeaderSize = 20"
definition kEndOfSessionCount :: u16 where "kEndOfSessionCount = 0xFFFF"

definition make_session :: "bytes \<Rightarrow> session" where
  "make_session sv = poke (replicate 10 0x20) 0 (take 10 sv)"

definition make_header :: "session \<Rightarrow> u64 \<Rightarrow> u16 \<Rightarrow> bytes" where
  "make_header session seq cnt =
     (let p = replicate kHeaderSize 0;
          p = poke p 0 session;
          p = put_be64 p 10 seq;
          p = put_be16 p 18 cnt
      in p)"

record packetizer =
  pk_session :: session
  pk_mtu :: nat
  pk_next_seq :: u64
  pk_current :: bytes
  pk_current_count :: u16
  pk_ready :: "bytes list"

definition packetizer_new :: "session \<Rightarrow> nat \<Rightarrow> packetizer" where
  "packetizer_new session mtu = \<lparr>pk_session = session, pk_mtu = mtu, pk_next_seq = 1, pk_current = [],
     pk_current_count = 0, pk_ready = []\<rparr>"

definition begin_packet :: "packetizer \<Rightarrow> packetizer" where
  "begin_packet s = s\<lparr>pk_current := make_header (pk_session s) (pk_next_seq s) 0, pk_current_count := 0\<rparr>"

definition flush :: "packetizer \<Rightarrow> packetizer" where
  "flush s =
     (if pk_current s = [] then s
      else s\<lparr>pk_ready := pk_ready s @ [put_be16 (pk_current s) 18 (pk_current_count s)],
             pk_current := [], pk_current_count := 0\<rparr>)"

definition add_message :: "bytes \<Rightarrow> packetizer \<Rightarrow> packetizer" where
  "add_message data s =
     (let n = length data;
          block = 2 + n;
          s = (if pk_current s \<noteq> [] \<and> length (pk_current s) + block > pk_mtu s then flush s else s);
          s = (if pk_current s = [] then begin_packet s else s);
          at = length (pk_current s);
          p = pk_current s @ replicate block 0;
          p = put_be16 p at (of_nat n);
          p = (if n > 0 then poke p (at + 2) data else p)
      in s\<lparr>pk_current := p, pk_current_count := pk_current_count s + 1, pk_next_seq := pk_next_seq s + 1\<rparr>)"

definition take_packets :: "packetizer \<Rightarrow> bytes list \<times> packetizer" where
  "take_packets s = (pk_ready s, s\<lparr>pk_ready := []\<rparr>)"

definition heartbeat :: "packetizer \<Rightarrow> bytes" where
  "heartbeat s = make_header (pk_session s) (pk_next_seq s) 0"

definition end_of_session :: "packetizer \<Rightarrow> bytes" where
  "end_of_session s = make_header (pk_session s) (pk_next_seq s) kEndOfSessionCount"

section \<open>Parsing\<close>

record downstream_packet =
  dp_session :: session
  dp_seq :: u64
  dp_end_of_session :: bool
  dp_messages :: "bytes list"

text \<open>The loop over the message blocks: the messages and the offset behind the last one.\<close>

fun parse_blocks :: "bytes \<Rightarrow> nat \<Rightarrow> nat \<Rightarrow> (bytes list \<times> nat) option" where
  "parse_blocks p at 0 = Some ([], at)"
| "parse_blocks p at (Suc c) =
     (if at + 2 > length p then None
      else let len = unat (get_be16 p at); at = at + 2 in
        if at + len > length p then None
        else do {
          (ms, end) \<leftarrow> parse_blocks p (at + len) c;
          Some (peek p at len # ms, end)
        })"

definition parse :: "bytes \<Rightarrow> downstream_packet option" where
  "parse p =
     (if length p < kHeaderSize then None
      else do {
        let cnt = get_be16 p 18;
        let eos = (cnt = kEndOfSessionCount);
        (ms, at) \<leftarrow> (if eos then Some ([], kHeaderSize) else parse_blocks p kHeaderSize (unat cnt));
        (if at \<noteq> length p then None
         else Some \<lparr>dp_session = peek p 0 10, dp_seq = get_be64 p 10, dp_end_of_session = eos, dp_messages = ms\<rparr>)
      })"

section \<open>Gap detection\<close>

record gap_detector =
  gd_expected :: u64
  gd_had_gap :: bool

definition gap_detector_new :: gap_detector where
  "gap_detector_new = \<lparr>gd_expected = 1, gd_had_gap = False\<rparr>"

definition on_packet :: "u64 \<Rightarrow> nat \<Rightarrow> gap_detector \<Rightarrow> gap_detector \<times> bool" where
  "on_packet seq message_count g =
     (let gap = seq > gd_expected g;
          g = (if gap then g\<lparr>gd_had_gap := True\<rparr> else g);
          after = seq + of_nat message_count;
          g = (if message_count > 0 \<and> after > gd_expected g then g\<lparr>gd_expected := after\<rparr> else g);
          g = (if gap \<and> message_count = 0 \<and> seq > gd_expected g then g\<lparr>gd_expected := seq\<rparr> else g)
      in (g, gap))"

section \<open>The layout of a packet\<close>

definition packet :: "session \<Rightarrow> u64 \<Rightarrow> u16 \<Rightarrow> bytes list \<Rightarrow> bytes" where
  "packet session seq cnt ms = session @ be64 seq @ be16 cnt @ blocks ms"

lemma length_make_session [simp]: "length (make_session sv) = 10"
  by (simp add: make_session_def)

lemma make_header_eq: "length session = 10 \<Longrightarrow> make_header session seq cnt = packet session seq cnt []"
proof -
  assume s: "length session = 10"
  have "make_header session seq cnt = poke (poke (poke (replicate 10 0 @ replicate 8 0 @ replicate 2 0) 0 session) 10 (be64 seq)) 18 (be16 cnt)"
    by (simp add: make_header_def Let_def buf_simps kHeaderSize_def flip: replicate_add)
  also have "\<dots> = poke (poke (session @ replicate 8 0 @ replicate 2 0) 10 (be64 seq)) 18 (be16 cnt)"
    using s by (simp add: buf_simps poke_all)
  also have "\<dots> = poke ((session @ be64 seq) @ replicate 2 0) 18 (be16 cnt)"
    using poke_append_left[of session "replicate 8 0 @ replicate 2 0" "be64 seq"] s by (simp add: buf_simps poke_all)
  also have "\<dots> = (session @ be64 seq) @ be16 cnt"
    using poke_append_left[of "session @ be64 seq" "replicate 2 0" "be16 cnt"] s by (simp add: poke_all)
  finally show ?thesis by (simp add: packet_def)
qed

lemma length_packet: "length session = 10 \<Longrightarrow> length (packet session seq cnt ms) = 20 + length (blocks ms)"
  by (simp add: packet_def)

lemma packet_count: "length session = 10 \<Longrightarrow> put_be16 (packet session seq c ms) 18 c' = packet session seq c' ms"
  using poke_append_left[of "session @ be64 seq" "be16 c @ blocks ms" "be16 c'"]
  by (simp add: packet_def buf_simps poke_all)

section \<open>Parsing accepts exactly the packets\<close>

lemma parse_blocks_packet:
  "\<forall>m\<in>set ms. length m < 2 ^ 16 \<Longrightarrow>
   parse_blocks (h @ blocks ms @ r) (length h) (length ms) = Some (ms, length h + length (blocks ms))"
proof (induction ms arbitrary: h)
  case (Cons m ms)
  let ?p = "h @ blocks (m # ms) @ r"
  have "unat (get_be16 ?p (length h)) = length m"
    using Cons.prems get_be16_at[of h "of_nat (length m)" "m @ blocks ms @ r"] by (simp add: msg_block_def unat_of_nat)
  moreover have "peek ?p (length h + 2) (length m) = m"
    using peek_append_left[of "h @ be16 (of_nat (length m))" "m @ blocks ms @ r" "length m"] by (simp add: msg_block_def)
  moreover have "parse_blocks ?p (length h + 2 + length m) (length ms) = Some (ms, length h + length (blocks (m # ms)))"
    using Cons.IH[of "h @ msg_block m"] Cons.prems by (simp add: msg_block_def[of m] add.assoc)
  ultimately show ?case by (simp add: msg_block_def[of m])
qed simp

lemma parse_blocks_Some:
  "parse_blocks p at c = Some (ms, fin) \<Longrightarrow> at \<le> length p \<Longrightarrow>
   length ms = c \<and> at \<le> fin \<and> fin \<le> length p \<and> peek p at (fin - at) = blocks ms \<and> (\<forall>m\<in>set ms. length m < 2 ^ 16)"
proof (induction p at c arbitrary: ms rule: parse_blocks.induct)
  case (2 p at c)
  let ?len = "unat (get_be16 p at)"
  have le: "at + 2 + ?len \<le> length p" using "2.prems" by (auto simp: Let_def split: if_splits)
  then obtain ms' where r: "parse_blocks p (at + 2 + ?len) c = Some (ms', fin)" "ms = peek p (at + 2) ?len # ms'"
    using "2.prems" by (auto simp: Let_def bind_eq_Some_conv)
  have IH: "length ms' = c" "at + 2 + ?len \<le> fin" "fin \<le> length p" "peek p (at + 2 + ?len) (fin - (at + 2 + ?len)) = blocks ms'"
    "\<forall>m\<in>set ms'. length m < 2 ^ 16"
    using "2.IH"[OF _ refl refl _ r(1)] le by auto
  have "peek p at (fin - at) = peek p at 2 @ peek p (at + 2) ?len @ peek p (at + 2 + ?len) (fin - (at + 2 + ?len))"
    using le_add_diff_inverse[OF IH(2)] peek_add[of p at 2 "?len + (fin - (at + 2 + ?len))"] peek_add[of p "at + 2" ?len "fin - (at + 2 + ?len)"]
    by (metis add.assoc diff_add_inverse)
  moreover have "be16 (of_nat ?len) = peek p at 2" using be16_get[of at p] le by simp
  moreover have "?len < 2 ^ 16" using unat_lt_power[of "get_be16 p at"] by simp
  ultimately show ?case using IH le r(2) msg_block_def[of "peek p (at + 2) ?len"] by simp
qed (simp add: peek_def)

text \<open>The packets the protocol allows: an end of session carries no messages and the reserved count.\<close>

definition wf_packet :: "downstream_packet \<Rightarrow> bool" where
  "wf_packet d \<longleftrightarrow> length (dp_session d) = 10 \<and> (\<forall>m\<in>set (dp_messages d). length m < 2 ^ 16) \<and>
     (if dp_end_of_session d then dp_messages d = [] else length (dp_messages d) < 2 ^ 16 - 1)"

definition packet_of :: "downstream_packet \<Rightarrow> bytes" where
  "packet_of d = packet (dp_session d) (dp_seq d)
     (if dp_end_of_session d then kEndOfSessionCount else of_nat (length (dp_messages d))) (dp_messages d)"

lemma parse_packet:
  assumes "wf_packet d"
  shows "parse (packet_of d) = Some d"
proof -
  let ?cnt = "if dp_end_of_session d then kEndOfSessionCount else of_nat (length (dp_messages d))"
  note wf = assms[unfolded wf_packet_def]
  have h: "packet_of d = (dp_session d @ be64 (dp_seq d) @ be16 ?cnt) @ blocks (dp_messages d) @ []"
    by (simp add: packet_of_def packet_def)
  have c: "get_be16 (packet_of d) 18 = ?cnt"
    using get_be16_at[of "dp_session d @ be64 (dp_seq d)" ?cnt] wf by (simp add: h)
  have q: "get_be64 (packet_of d) 10 = dp_seq d"
    using get_be64_at[of "dp_session d" "dp_seq d"] wf by (simp add: h)
  have s: "peek (packet_of d) 0 10 = dp_session d" using wf by (simp add: h peek_def)
  have l: "length (packet_of d) = kHeaderSize + length (blocks (dp_messages d))" using wf by (simp add: h kHeaderSize_def)
  show ?thesis
  proof (cases "dp_end_of_session d")
    case True
    then show ?thesis using c q s l wf by (simp add: parse_def)
  next
    case False
    then have u: "unat ?cnt = length (dp_messages d)" using wf by (simp add: unat_of_nat)
    then have n: "?cnt \<noteq> kEndOfSessionCount" using wf False by (auto simp: kEndOfSessionCount_def)
    have b: "parse_blocks (packet_of d) kHeaderSize (unat ?cnt) = Some (dp_messages d, length (packet_of d))"
      using parse_blocks_packet[of "dp_messages d" "dp_session d @ be64 (dp_seq d) @ be16 ?cnt" "[]"] wf u l
      by (simp add: h kHeaderSize_def)
    have "length (packet_of d) \<ge> kHeaderSize" using l by simp
    then show ?thesis using n False b by (simp add: parse_def c q s Let_def)
  qed
qed

lemma parse_Some:
  assumes "parse p = Some d"
  shows "wf_packet d \<and> p = packet_of d"
proof -
  let ?cnt = "get_be16 p 18"
  have len: "20 \<le> length p" using assms by (auto simp: parse_def kHeaderSize_def split: if_splits)
  then obtain ms where d: "(if ?cnt = kEndOfSessionCount then Some ([], kHeaderSize) else parse_blocks p kHeaderSize (unat ?cnt)) = Some (ms, length p)"
    "d = \<lparr>dp_session = peek p 0 10, dp_seq = get_be64 p 10, dp_end_of_session = (?cnt = kEndOfSessionCount), dp_messages = ms\<rparr>"
    using assms by (auto simp: parse_def bind_eq_Some_conv Let_def split: if_splits)
  have b: "peek p 20 (length p - 20) = blocks ms \<and> (\<forall>m\<in>set ms. length m < 2 ^ 16) \<and>
      (if ?cnt = kEndOfSessionCount then ms = [] else length ms = unat ?cnt)"
    using d(1) parse_blocks_Some[of p 20 "unat ?cnt" ms "length p"] len by (auto simp: kHeaderSize_def peek_def split: if_splits)
  have "p = peek p 0 10 @ peek p 10 8 @ peek p 18 2 @ peek p 20 (length p - 20)"
    using append_take_drop_id[of 10 p] append_take_drop_id[of 8 "drop 10 p"] append_take_drop_id[of 2 "drop 18 p"] by (simp add: peek_def)
  moreover have "peek p 10 8 = be64 (get_be64 p 10)" "peek p 18 2 = be16 ?cnt" using len by (simp_all add: be64_get be16_get)
  moreover have "unat ?cnt < 2 ^ 16 - 1" if "?cnt \<noteq> kEndOfSessionCount"
    using that unat_lt_power[of ?cnt] word_unat_eq_iff[of ?cnt kEndOfSessionCount] by (auto simp: kEndOfSessionCount_def)
  ultimately show ?thesis using b d(2) len by (auto simp: wf_packet_def packet_of_def packet_def)
qed

section \<open>The packetizer\<close>

text \<open>
  The packets of the message groups \<open>segs\<close>, numbered from \<open>seq\<close>, and the state of a packetizer that
  has closed the groups \<open>segs\<close> since its last hand-over and has the messages \<open>cur\<close> in the open packet.
\<close>

fun packets :: "session \<Rightarrow> u64 \<Rightarrow> bytes list list \<Rightarrow> bytes list" where
  "packets session seq [] = []"
| "packets session seq (seg # segs) =
     packet session seq (of_nat (length seg)) seg # packets session (seq + of_nat (length seg)) segs"

definition seg_ok :: "nat \<Rightarrow> bytes list \<Rightarrow> bool" where
  "seg_ok mtu seg \<longleftrightarrow> seg \<noteq> [] \<and> (length seg = 1 \<or> 20 + length (blocks seg) \<le> mtu)"

definition pk_state :: "session \<Rightarrow> nat \<Rightarrow> u64 \<Rightarrow> bytes list list \<Rightarrow> bytes list \<Rightarrow> packetizer \<Rightarrow> bool" where
  "pk_state session mtu seq segs cur s \<longleftrightarrow> length session = 10 \<and> pk_session s = session \<and> pk_mtu s = mtu \<and>
     pk_ready s = packets session seq segs \<and> (\<forall>seg\<in>set segs. seg_ok mtu seg) \<and> (cur = [] \<or> seg_ok mtu cur) \<and>
     pk_next_seq s = seq + of_nat (length (concat segs)) + of_nat (length cur) \<and>
     pk_current_count s = of_nat (length cur) \<and>
     pk_current s = (if cur = [] then [] else packet session (seq + of_nat (length (concat segs))) 0 cur)"

lemma packets_snoc:
  "packets session seq (segs @ [seg]) =
     packets session seq segs @ [packet session (seq + of_nat (length (concat segs))) (of_nat (length seg)) seg]"
  by (induction segs arbitrary: seq) (simp_all add: add.assoc)

lemma packet_not_Nil [simp]: "packet session seq c ms \<noteq> []"
  using length_packet[of "replicate 10 0" seq c ms] by (auto simp: packet_def be16_def)

lemma pk_state_new: "length session = 10 \<Longrightarrow> pk_state session mtu 1 [] [] (packetizer_new session mtu)"
  by (simp add: pk_state_def packetizer_new_def)

lemma flush_state:
  "pk_state session mtu seq segs cur s \<Longrightarrow> pk_state session mtu seq (if cur = [] then segs else segs @ [cur]) [] (flush s)"
  by (auto simp: pk_state_def flush_def packets_snoc packet_count)

lemma append_block:
  "(let q = put_be16 (p @ replicate (2 + length m) 0) (length p) (of_nat (length m))
    in if length m > 0 then poke q (length p + 2) m else q) = p @ msg_block m"
proof -
  have "poke (p @ replicate (2 + length m) 0) (length p) (be16 (of_nat (length m))) = (p @ be16 (of_nat (length m))) @ replicate (length m) 0"
    using poke_append_left[of p "replicate 2 0 @ replicate (length m) 0" "be16 (of_nat (length m))"]
    by (simp add: be16_def numeral_2_eq_2)
  then show ?thesis
    using poke_append_left[of "p @ be16 (of_nat (length m))" "replicate (length m) 0" m]
    by (simp add: Let_def put_be16_poke poke_all msg_block_def)
qed

lemma add_message_open:
  assumes "\<not> (pk_current s \<noteq> [] \<and> length (pk_current s) + (2 + length m) > pk_mtu s)"
  shows "add_message m s = (let s = (if pk_current s = [] then begin_packet s else s)
    in s\<lparr>pk_current := pk_current s @ msg_block m, pk_current_count := pk_current_count s + 1, pk_next_seq := pk_next_seq s + 1\<rparr>)"
  using assms unfolding add_message_def Let_def by (simp only: append_block[unfolded Let_def] if_False)

lemma add_message_full:
  assumes "pk_current s \<noteq> [] \<and> length (pk_current s) + (2 + length m) > pk_mtu s"
  shows "add_message m s = add_message m (flush s)"
proof -
  have "\<not> (pk_current (flush s) \<noteq> [] \<and> length (pk_current (flush s)) + (2 + length m) > pk_mtu (flush s))" by (simp add: flush_def)
  then show ?thesis unfolding add_message_def Let_def using assms by (simp only: if_True if_False simp_thms)
qed

lemma append_message:
  assumes st: "pk_state session mtu seq segs cur s" and fits: "cur = [] \<or> 20 + length (blocks cur) + 2 + length m \<le> mtu"
  shows "pk_state session mtu seq segs (cur @ [m]) (add_message m s)"
proof -
  note S = st[unfolded pk_state_def]
  let ?s = "if pk_current s = [] then begin_packet s else s"
  have "add_message m s = ?s\<lparr>pk_current := pk_current ?s @ msg_block m, pk_current_count := pk_current_count ?s + 1, pk_next_seq := pk_next_seq ?s + 1\<rparr>"
    using add_message_open[of s m] S fits by (auto simp: length_packet Let_def)
  moreover have "pk_current ?s = packet session (seq + of_nat (length (concat segs))) 0 cur"
    using S by (auto simp: begin_packet_def make_header_eq)
  moreover have "seg_ok mtu (cur @ [m])" using S fits by (auto simp: seg_ok_def msg_block_def[of m])
  ultimately show ?thesis using S unfolding pk_state_def by (auto simp: begin_packet_def packet_def)
qed

lemma add_message_state:
  assumes st: "pk_state session mtu seq segs cur s"
  shows "\<exists>segs' cur'. concat segs' @ cur' = concat segs @ cur @ [m] \<and> pk_state session mtu seq segs' cur' (add_message m s)"
proof (cases "cur = [] \<or> 20 + length (blocks cur) + 2 + length m \<le> mtu")
  case True
  then show ?thesis using append_message[OF st] by (intro exI[of _ segs] exI[of _ "cur @ [m]"]) auto
next
  case False
  then have "add_message m s = add_message m (flush s)"
    using st by (intro add_message_full) (auto simp: pk_state_def length_packet)
  then have "pk_state session mtu seq (segs @ [cur]) [m] (add_message m s)"
    using append_message[OF flush_state[OF st], of m] False by simp
  then show ?thesis by (intro exI[of _ "segs @ [cur]"] exI[of _ "[m]"]) auto
qed

lemma add_messages_state:
  assumes "pk_state session mtu seq segs cur s"
  shows "\<exists>segs' cur'. concat segs' @ cur' = concat segs @ cur @ ms \<and> pk_state session mtu seq segs' cur' (fold add_message ms s)"
  using assms
proof (induction ms arbitrary: segs cur s)
  case (Cons m ms)
  from add_message_state[OF Cons.prems, of m] obtain segs1 cur1 where
    1: "concat segs1 @ cur1 = concat segs @ cur @ [m]" "pk_state session mtu seq segs1 cur1 (add_message m s)" by blast
  have "concat segs1 @ cur1 @ ms = concat segs @ cur @ m # ms" using 1(1) by (metis append.assoc append_Cons append_Nil)
  then show ?case using Cons.IH[OF 1(2)] by (simp only: fold_simps)
qed auto

text \<open>Below this MTU no packet holds so many messages that its count wraps or reads as an end of session.\<close>

lemma seg_ok_packet:
  assumes "seg_ok mtu seg" "mtu < 131090" "length session = 10" "\<forall>m\<in>set seg. length m < 2 ^ 16"
  shows "parse (packet session seq (of_nat (length seg)) seg) =
    Some \<lparr>dp_session = session, dp_seq = seq, dp_end_of_session = False, dp_messages = seg\<rparr>"
proof -
  have "2 * length ms \<le> length (blocks ms)" for ms by (induction ms) (auto simp: msg_block_def)
  from this[of seg] have "length seg < 2 ^ 16 - 1" using assms(1,2) by (auto simp: seg_ok_def)
  then show ?thesis
    using parse_packet[of "\<lparr>dp_session = session, dp_seq = seq, dp_end_of_session = False, dp_messages = seg\<rparr>"] assms(3,4)
    by (simp add: wf_packet_def packet_of_def)
qed

section \<open>Gaps\<close>

lemma unat_add_nat: "unat (a :: u64) + n < 2 ^ 64 \<Longrightarrow> unat (a + of_nat n) = unat a + n"
  by (simp add: unat_word_ariths unat_of_nat)

lemma on_packet_messages:
  assumes "gd_expected g \<le> seq" "0 < n" "unat seq + n < 2 ^ 64"
  shows "fst (on_packet seq n g) = \<lparr>gd_expected = seq + of_nat n, gd_had_gap = (gd_had_gap g \<or> gd_expected g \<noteq> seq)\<rparr>"
proof -
  have "gd_expected g < seq + of_nat n" using assms unat_add_nat[OF assms(3)] by (simp add: word_less_nat_alt word_le_nat_alt)
  then show ?thesis using assms(1,2) by (cases g) (auto simp: on_packet_def Let_def)
qed

text \<open>
  What arrives at a receiver, in any order: the sequence number and the message count of each packet,
  zero for a heartbeat. A packet carries the numbers from its own on, one for each message.
\<close>

type_synonym arrival = "u64 \<times> nat"

definition numbers :: "arrival list \<Rightarrow> nat set" where
  "numbers ps = (\<Union>(seq, cnt)\<in>set ps. {unat seq..<unat seq + cnt})"

definition detect :: "arrival list \<Rightarrow> gap_detector" where
  "detect ps = fold (\<lambda>(seq, cnt) g. fst (on_packet seq cnt g)) ps gap_detector_new"

text \<open>Some packet arrives before a message with a smaller number.\<close>

definition overtakes :: "arrival list \<Rightarrow> bool" where
  "overtakes ps \<longleftrightarrow> (\<exists>i<length ps. \<exists>k. 1 \<le> k \<and> k < unat (fst (ps ! i)) \<and> k \<notin> numbers (take i ps))"

lemma arrivals_snoc [simp]:
  "numbers [] = {}" "numbers (ps @ [p]) = numbers ps \<union> {unat (fst p)..<unat (fst p) + snd p}"
  "detect [] = gap_detector_new" "detect (ps @ [p]) = fst (on_packet (fst p) (snd p) (detect ps))"
  by (auto simp: numbers_def detect_def split: prod.splits)

lemma overtakes_snoc [simp]:
  "\<not> overtakes []" "overtakes (ps @ [p]) \<longleftrightarrow> overtakes ps \<or> (\<exists>k. 1 \<le> k \<and> k < unat (fst p) \<and> k \<notin> numbers ps)"
  unfolding overtakes_def by (auto simp: Ex_less_Suc nth_append cong: conj_cong)

lemma on_packet_eq:
  assumes "unat seq + n < 2 ^ 64"
  shows "gd_had_gap (fst (on_packet seq n g)) \<longleftrightarrow> gd_had_gap g \<or> unat (gd_expected g) < unat seq"
    "unat (gd_expected (fst (on_packet seq n g))) = max (unat (gd_expected g)) (if n = 0 \<and> unat seq \<le> unat (gd_expected g) then 0 else unat seq + n)"
  using unat_add_nat[OF assms] by (auto simp: on_packet_def Let_def word_less_nat_alt)

text \<open>Every number seen is below the expected one; without a gap so far, every number below it was seen.\<close>

lemma detect_inv:
  assumes "\<forall>(seq, cnt)\<in>set ps. unat seq + cnt < 2 ^ 64"
  shows "1 \<le> unat (gd_expected (detect ps))" "numbers ps \<subseteq> {..<unat (gd_expected (detect ps))}"
    "\<not> gd_had_gap (detect ps) \<Longrightarrow> {1..<unat (gd_expected (detect ps))} \<subseteq> numbers ps" "gd_had_gap (detect ps) \<longleftrightarrow> overtakes ps"
proof -
  have "1 \<le> unat (gd_expected (detect ps)) \<and> numbers ps \<subseteq> {..<unat (gd_expected (detect ps))} \<and>
    (\<not> gd_had_gap (detect ps) \<longrightarrow> {1..<unat (gd_expected (detect ps))} \<subseteq> numbers ps) \<and> (gd_had_gap (detect ps) \<longleftrightarrow> overtakes ps)"
    using assms
  proof (induction ps rule: rev_induct)
    case (snoc p ps)
    let ?x = "unat (gd_expected (detect ps))" and ?s = "unat (fst p)"
    have I: "1 \<le> ?x" "numbers ps \<subseteq> {..<?x}" "\<not> gd_had_gap (detect ps) \<Longrightarrow> {1..<?x} \<subseteq> numbers ps"
      "gd_had_gap (detect ps) \<longleftrightarrow> overtakes ps" using snoc by auto
    have p: "unat (fst p) + snd p < 2 ^ 64" using snoc.prems by (cases p) simp
    have "?x < ?s \<Longrightarrow> \<exists>k. 1 \<le> k \<and> k < ?s \<and> k \<notin> numbers ps" using I(1,2) by (intro exI[of _ ?x]) auto
    moreover have "k \<in> numbers ps" if "\<not> gd_had_gap (detect ps)" "\<not> ?x < ?s" "1 \<le> k" "k < ?s" for k
      using I(3) that by (meson atLeastLessThan_iff less_le_trans not_less subsetD)
    ultimately have "gd_had_gap (detect (ps @ [p])) \<longleftrightarrow> overtakes (ps @ [p])" using I(4) on_packet_eq(1)[OF p, of "detect ps"] by auto
    moreover have "{1..<unat (gd_expected (detect (ps @ [p])))} \<subseteq> numbers (ps @ [p])" if "\<not> gd_had_gap (detect (ps @ [p]))"
      using that I(3) on_packet_eq[OF p, of "detect ps"] by (fastforce split: if_splits)
    moreover have "1 \<le> unat (gd_expected (detect (ps @ [p])))" "numbers (ps @ [p]) \<subseteq> {..<unat (gd_expected (detect (ps @ [p])))}"
      using I(1,2) on_packet_eq(2)[OF p, of "detect ps"] by auto
    ultimately show ?case by blast
  qed (simp add: gap_detector_new_def)
  then show "1 \<le> unat (gd_expected (detect ps))" "numbers ps \<subseteq> {..<unat (gd_expected (detect ps))}"
    "\<not> gd_had_gap (detect ps) \<Longrightarrow> {1..<unat (gd_expected (detect ps))} \<subseteq> numbers ps" "gd_had_gap (detect ps) \<longleftrightarrow> overtakes ps" by blast+
qed

end
