(* ===== verification/Capture.thy ===== *)
theory Capture
  imports Framing
begin

text \<open>
  The capture files of \<^verbatim>\<open>src/feed/capture.hpp\<close> and \<^verbatim>\<open>capture.cpp\<close>. A file open for writing is the bytes
  written so far, a file open for reading the bytes not read yet, a null \<^verbatim>\<open>FILE*\<close> is \<open>None\<close>; whether
  \<^verbatim>\<open>fopen\<close> succeeds is an argument. \<^verbatim>\<open>fread\<close> returns what is left when that is less than requested.
\<close>

definition kCaptureMagic :: bytes where
  "kCaptureMagic = [0x4E, 0x53, 0x51, 0x43, 0x41, 0x50, 0x30, 0x31]"

definition fread :: "nat \<Rightarrow> bytes \<Rightarrow> bytes \<times> bytes" where
  "fread n f = (take n f, drop n f)"

section \<open>Writing\<close>

type_synonym capture_writer = "bytes option"

definition capture_writer_new :: "bool \<Rightarrow> capture_writer" where
  "capture_writer_new opened = (if opened then Some kCaptureMagic else None)"

definition capture_write :: "u64 \<Rightarrow> bytes \<Rightarrow> capture_writer \<Rightarrow> capture_writer" where
  "capture_write ts_ns data w =
     (case w of
        None \<Rightarrow> None
      | Some f \<Rightarrow>
          let hdr = replicate 10 0;
              hdr = put_be64 hdr 0 ts_ns;
              hdr = put_be16 hdr 8 (of_nat (length data));
              f = f @ hdr;
              f = f @ data
          in Some f)"

section \<open>Reading\<close>

type_synonym capture_reader = "bytes option"

record capture_record =
  crec_ts_ns :: u64
  crec_bytes :: bytes

definition capture_reader_new :: "bytes option \<Rightarrow> capture_reader" where
  "capture_reader_new file =
     (case file of
        None \<Rightarrow> None
      | Some f \<Rightarrow>
          let (magic, f) = fread 8 f in
          if length magic \<noteq> 8 \<or> magic \<noteq> kCaptureMagic then None else Some f)"

definition capture_next :: "capture_reader \<Rightarrow> capture_record option \<times> capture_reader" where
  "capture_next r =
     (case r of
        None \<Rightarrow> (None, None)
      | Some f \<Rightarrow>
          let (hdr, f) = fread 10 f in
          if length hdr \<noteq> 10 then (None, Some f)
          else let len = unat (get_be16 hdr 8);
                   (data, f) = fread len f in
            if length data \<noteq> len then (None, Some f)
            else (Some \<lparr>crec_ts_ns = get_be64 hdr 0, crec_bytes = data\<rparr>, Some f))"

text \<open>The reading loop of the callers: records until there is none.\<close>

function capture_read_all :: "capture_reader \<Rightarrow> capture_record list" where
  "capture_read_all r = (case capture_next r of (None, _) \<Rightarrow> [] | (Some rec, r') \<Rightarrow> rec # capture_read_all r')"
  by auto
termination
  by (relation "measure (\<lambda>r. case r of None \<Rightarrow> 0 | Some f \<Rightarrow> length f)")
    (auto simp: capture_next_def fread_def Let_def split: option.splits if_splits prod.splits)

declare capture_read_all.simps [simp del]

section \<open>What is written is read back\<close>

definition record_bytes :: "capture_record \<Rightarrow> bytes" where
  "record_bytes rec = be64 (crec_ts_ns rec) @ be16 (of_nat (length (crec_bytes rec))) @ crec_bytes rec"

lemma capture_write_bytes: "capture_write (crec_ts_ns rec) (crec_bytes rec) (Some f) = Some (f @ record_bytes rec)"
proof -
  have "poke (poke (replicate 8 0 @ replicate 2 0) 0 (be64 t)) 8 (be16 v) = be64 t @ be16 v" for t v
    using poke_append_left[of "be64 t" "replicate 2 0" "be16 v"] by (simp add: buf_simps poke_all)
  moreover have "replicate 10 (0 :: u8) = replicate 8 0 @ replicate 2 0" by (simp flip: replicate_add)
  ultimately show ?thesis by (simp add: capture_write_def record_bytes_def put_be64_poke put_be16_poke)
qed

definition capture_write_all :: "capture_record list \<Rightarrow> capture_writer \<Rightarrow> capture_writer" where
  "capture_write_all recs w = fold (\<lambda>rec. capture_write (crec_ts_ns rec) (crec_bytes rec)) recs w"

lemma capture_write_all_bytes: "capture_write_all recs (Some f) = Some (f @ concat (map record_bytes recs))"
  unfolding capture_write_all_def by (induction recs arbitrary: f) (simp_all add: capture_write_bytes)

lemma capture_next_record:
  assumes "length (crec_bytes rec) < 2 ^ 16"
  shows "capture_next (Some (record_bytes rec @ f)) = (Some rec, Some f)"
proof -
  let ?h = "be64 (crec_ts_ns rec) @ be16 (of_nat (length (crec_bytes rec)))"
  have "get_be64 ?h 0 = crec_ts_ns rec" using get_be64_at[of "[]"] by simp
  moreover have "unat (get_be16 ?h 8) = length (crec_bytes rec)"
    using get_be16_at[of "be64 (crec_ts_ns rec)" "of_nat (length (crec_bytes rec))" "[]"] assms by (simp add: unat_of_nat)
  ultimately show ?thesis by (simp add: capture_next_def record_bytes_def fread_def Let_def)
qed

text \<open>A cut in the middle of a record loses that record only.\<close>

lemma capture_next_cut:
  assumes "length (crec_bytes rec) < 2 ^ 16" "k < length (record_bytes rec)"
  shows "fst (capture_next (Some (take k (record_bytes rec)))) = None"
proof (cases "k < 10")
  case True
  then show ?thesis by (simp add: capture_next_def fread_def min_def)
next
  case False
  let ?h = "be64 (crec_ts_ns rec) @ be16 (of_nat (length (crec_bytes rec)))"
  have "take k (record_bytes rec) = ?h @ take (k - 10) (crec_bytes rec)" using False by (simp add: record_bytes_def)
  moreover have "unat (get_be16 ?h 8) = length (crec_bytes rec)"
    using get_be16_at[of "be64 (crec_ts_ns rec)" "of_nat (length (crec_bytes rec))" "[]"] assms by (simp add: unat_of_nat)
  moreover have "k - 10 < length (crec_bytes rec)" using assms(2) False by (simp add: record_bytes_def)
  ultimately show ?thesis by (simp add: capture_next_def fread_def Let_def)
qed

lemma capture_read_cut:
  "\<forall>rec\<in>set recs. length (crec_bytes rec) < 2 ^ 16 \<Longrightarrow>
   \<exists>n\<le>length recs. capture_read_all (Some (take k (concat (map record_bytes recs)))) = take n recs \<and>
     length (concat (map record_bytes (take n recs))) \<le> k \<and>
     (n < length recs \<longrightarrow> k < length (concat (map record_bytes (take (Suc n) recs))))"
proof (induction recs arbitrary: k)
  case Nil
  have "capture_read_all (Some []) = []" by (subst capture_read_all.simps) (simp add: capture_next_def fread_def)
  then show ?case by simp
next
  case (Cons rec recs)
  let ?L = "length (record_bytes rec)" and ?rest = "concat (map record_bytes recs)"
  have ok: "length (crec_bytes rec) < 2 ^ 16" using Cons.prems by simp
  show ?case
  proof (cases "?L \<le> k")
    case True
    from Cons.IH[of "k - ?L"] Cons.prems obtain n where n: "n \<le> length recs"
      "capture_read_all (Some (take (k - ?L) ?rest)) = take n recs" "length (concat (map record_bytes (take n recs))) \<le> k - ?L"
      "n < length recs \<longrightarrow> k - ?L < length (concat (map record_bytes (take (Suc n) recs)))" by auto
    have "capture_read_all (Some (take k (concat (map record_bytes (rec # recs))))) = rec # take n recs"
      using True n(2) by (subst capture_read_all.simps) (simp add: capture_next_record[OF ok])
    then show ?thesis using True n by (intro exI[of _ "Suc n"]) auto
  next
    case False
    then have "capture_read_all (Some (take k (concat (map record_bytes (rec # recs))))) = []"
      using capture_next_cut[OF ok, of k] by (subst capture_read_all.simps) (auto split: prod.splits)
    then show ?thesis using False by (intro exI[of _ 0]) simp
  qed
qed

lemma capture_reader_file: "capture_reader_new (Some (kCaptureMagic @ f)) = Some f"
  by (simp add: capture_reader_new_def fread_def kCaptureMagic_def)

end
