(* ===== verification/Feed.thy ===== *)
theory Feed
  imports Engine Mold Capture Itch
begin

text \<open>
  The market data publisher of \<^verbatim>\<open>src/feed/feed.hpp\<close> and \<^verbatim>\<open>feed.cpp\<close>: market events become ITCH messages,
  MoldUDP64 packets and datagrams. The datagrams handed to \<^verbatim>\<open>sendto\<close> are a list; the clock of the
  capture tee is an argument, read once per datagram. The events arrive in the batches that the queue
  hands out; a batch may be empty, with the flag that tells whether the queue has been stopped.
\<close>

section \<open>Messages\<close>

definition encode_bytes :: "message \<Rightarrow> bytes" where
  "encode_bytes m = itch_encode m (replicate (itch_kSize m) 0)"

fun itch_of :: "market_event \<Rightarrow> u16 \<Rightarrow> book_event \<Rightarrow> message" where
  "itch_of me loc (EvAdded e) = MAddOrder \<lparr>h_stock_locate = loc, h_tracking = 0, h_timestamp = me_ts me,
     ao_order_ref = ad_id e, ao_side = ad_side e, ao_shares = ad_qty e, ao_stock = me_symbol me, ao_price = ad_price e\<rparr>"
| "itch_of me loc (EvExecuted e) = MOrderExecuted \<lparr>h_stock_locate = loc, h_tracking = 0, h_timestamp = me_ts me,
     oe_order_ref = xe_resting_id e, oe_executed_shares = xe_qty e, oe_match_number = xe_match_id e\<rparr>"
| "itch_of me loc (EvCanceled e) =
     (if ce_removed e then MOrderDelete \<lparr>h_stock_locate = loc, h_tracking = 0, h_timestamp = me_ts me, od_order_ref = ce_id e\<rparr>
      else MOrderCancel \<lparr>h_stock_locate = loc, h_tracking = 0, h_timestamp = me_ts me,
        oc_order_ref = ce_id e, oc_canceled_shares = ce_canceled_qty e\<rparr>)"
| "itch_of me loc (EvReplaced e) = MOrderReplace \<lparr>h_stock_locate = loc, h_tracking = 0, h_timestamp = me_ts me,
     orp_original_ref = re_old_id e, orp_new_ref = re_new_id e, orp_shares = re_qty e, orp_price = re_price e\<rparr>"

definition to_itch :: "market_event \<Rightarrow> u16 \<Rightarrow> bytes" where
  "to_itch me stock_locate = encode_bytes (itch_of me stock_locate (me_ev me))"

section \<open>The publisher\<close>

record feed_publisher =
  fp_packetizer :: packetizer
  fp_locates :: "(symbol \<times> u16) list"
  fp_capture :: "capture_writer option"
  fp_packets_sent :: u64
  fp_sent :: "bytes list"

text \<open>\<open>capture\<close> is \<open>None\<close> for an empty capture path, and else whether the capture file could be opened.\<close>

definition feed_publisher_new :: "bytes \<Rightarrow> nat \<Rightarrow> bool option \<Rightarrow> feed_publisher" where
  "feed_publisher_new session mtu capture = \<lparr>fp_packetizer = packetizer_new (make_session session) mtu, fp_locates = [],
     fp_capture = map_option capture_writer_new capture, fp_packets_sent = 0, fp_sent = []\<rparr>"

definition send_datagram :: "(nat \<Rightarrow> u64) \<Rightarrow> bytes \<Rightarrow> feed_publisher \<Rightarrow> feed_publisher" where
  "send_datagram clock data fp =
     fp\<lparr>fp_sent := fp_sent fp @ [data],
        fp_capture := map_option (capture_write (clock (length (fp_sent fp))) data) (fp_capture fp),
        fp_packets_sent := fp_packets_sent fp + 1\<rparr>"

definition send_ready :: "(nat \<Rightarrow> u64) \<Rightarrow> feed_publisher \<Rightarrow> feed_publisher" where
  "send_ready clock fp =
     (case take_packets (fp_packetizer fp) of
        (pkts, pk) \<Rightarrow> fold (send_datagram clock) pkts (fp\<lparr>fp_packetizer := pk\<rparr>))"

definition locate_for :: "symbol \<Rightarrow> feed_publisher \<Rightarrow> u16 \<times> feed_publisher" where
  "locate_for symbol fp =
     (case map_of (fp_locates fp) symbol of
        Some loc \<Rightarrow> (loc, fp)
      | None \<Rightarrow>
          let loc = of_nat (length (fp_locates fp) + 1)
          in (loc, fp\<lparr>fp_locates := (symbol, loc) # fp_locates fp\<rparr>))"

definition add_event :: "market_event \<Rightarrow> feed_publisher \<Rightarrow> feed_publisher" where
  "add_event me fp =
     (case locate_for (me_symbol me) fp of
        (loc, fp) \<Rightarrow> fp\<lparr>fp_packetizer := add_message (to_itch me loc) (fp_packetizer fp)\<rparr>)"

definition publish :: "(nat \<Rightarrow> u64) \<Rightarrow> market_event list \<Rightarrow> feed_publisher \<Rightarrow> feed_publisher" where
  "publish clock evs fp =
     (let fp = fold add_event evs fp;
          fp = fp\<lparr>fp_packetizer := flush (fp_packetizer fp)\<rparr>
      in send_ready clock fp)"

text \<open>The loop of \<^verbatim>\<open>run\<close> on the results of \<^verbatim>\<open>wait_drain_for\<close>, and what follows it.\<close>

fun run_batches :: "(nat \<Rightarrow> u64) \<Rightarrow> (market_event list \<times> bool) list \<Rightarrow> feed_publisher \<Rightarrow> feed_publisher" where
  "run_batches clock [] fp = fp"
| "run_batches clock ((evs, stopped) # batches) fp =
     (if evs = [] then
        if stopped then fp
        else run_batches clock batches (send_datagram clock (heartbeat (fp_packetizer fp)) fp)
      else run_batches clock batches (publish clock evs fp))"

definition feed_run :: "(nat \<Rightarrow> u64) \<Rightarrow> (market_event list \<times> bool) list \<Rightarrow> market_event list \<Rightarrow> feed_publisher \<Rightarrow> feed_publisher" where
  "feed_run clock batches final fp =
     (let fp = run_batches clock batches fp;
          fp = publish clock final fp
      in send_datagram clock (end_of_session (fp_packetizer fp)) fp)"

end
