(* ===== verification/Raw_Itch.thy ===== *)
theory Raw_Itch
  imports Framing Itch Capture
begin

text \<open>
  The reader of raw ITCH files of \<^verbatim>\<open>src/itch/raw_itch.hpp\<close>: length-prefixed messages, with a framing
  error when the length contradicts the type. As in \<^verbatim>\<open>Capture\<close>, a file is the bytes not read yet.
\<close>

definition append_raw :: "bytes \<Rightarrow> bytes \<Rightarrow> bytes" where
  "append_raw out msg =
     (let at = length out;
          out = out @ replicate 2 0;
          out = put_be16 out at (of_nat (length msg))
      in out @ msg)"

record raw_itch_reader =
  rr_file :: bytes
  rr_offset :: u64
  rr_error :: bytes

definition raw_itch_reader_new :: "bytes \<Rightarrow> raw_itch_reader" where
  "raw_itch_reader_new f = \<lparr>rr_file = f, rr_offset = 0, rr_error = []\<rparr>"

definition ascii :: "string \<Rightarrow> bytes" where
  "ascii s = map of_char s"

definition raw_next :: "raw_itch_reader \<Rightarrow> bytes option \<times> raw_itch_reader" where
  "raw_next r =
     (let (hdr, f) = fread 2 (rr_file r); r = r\<lparr>rr_file := f\<rparr> in
      if length hdr \<noteq> 2 then (None, r)
      else let len = unat (get_be16 hdr 0) in
        if len = 0 then
          (None, r\<lparr>rr_error := ascii ''zero-length message at offset '' @ to_string_nat (unat (rr_offset r))\<rparr>)
        else let (msg, f) = fread len (rr_file r); r = r\<lparr>rr_file := f\<rparr> in
          if length msg \<noteq> len then (None, r)
          else let expect = message_size (msg ! 0) in
            if expect \<noteq> 0 \<and> expect \<noteq> len then
              (None, r\<lparr>rr_error := ascii ''message type '' @ [0x27, msg ! 0, 0x27] @ ascii '' with length '' @
                 to_string_nat len @ ascii '' (expected '' @ to_string_nat expect @ ascii '') at offset '' @
                 to_string_nat (unat (rr_offset r))\<rparr>)
            else (Some msg, r\<lparr>rr_offset := rr_offset r + 2 + of_nat len\<rparr>))"

section \<open>Reading what was appended\<close>

definition raw_ok :: "bytes \<Rightarrow> bool" where
  "raw_ok m \<longleftrightarrow> m \<noteq> [] \<and> length m < 2 ^ 16 \<and> (message_size (m ! 0) = 0 \<or> message_size (m ! 0) = length m)"

lemma append_raw_block: "append_raw out m = out @ msg_block m"
  using poke_append_left[of out "replicate 2 0" "be16 (of_nat (length m))"]
  by (simp add: append_raw_def put_be16_poke poke_all msg_block_def)

lemma append_raw_all: "fold (\<lambda>m out. append_raw out m) ms out = out @ blocks ms"
  by (induction ms arbitrary: out) (simp_all add: append_raw_block)

lemma raw_next_block:
  assumes "length m < 2 ^ 16" "m \<noteq> []" "rr_file r = msg_block m @ f"
  shows "raw_next r =
    (if message_size (m ! 0) \<noteq> 0 \<and> message_size (m ! 0) \<noteq> length m then
       (None, r\<lparr>rr_file := f, rr_error := ascii ''message type '' @ [0x27, m ! 0, 0x27] @ ascii '' with length '' @
          to_string_nat (length m) @ ascii '' (expected '' @ to_string_nat (message_size (m ! 0)) @ ascii '') at offset '' @
          to_string_nat (unat (rr_offset r))\<rparr>)
     else (Some m, r\<lparr>rr_file := f, rr_offset := rr_offset r + 2 + of_nat (length m)\<rparr>))"
proof -
  have "get_be16 (be16 (of_nat (length m))) 0 = of_nat (length m)" using get_be16_at[of "[]" _ "[]"] by simp
  then have "unat (get_be16 (be16 (of_nat (length m))) 0) = length m" using assms(1) by (simp add: unat_of_nat)
  then show ?thesis using assms(2,3) by (simp add: raw_next_def fread_def Let_def msg_block_def)
qed

end
