(* ===== verification/Itch_Book.thy ===== *)
theory Itch_Book
  imports Book_Types Mold Raw_Itch
begin

text \<open>
  The reader's side of the market data: the book builder of \<^verbatim>\<open>src/client/itch_book.hpp\<close> and
  \<^verbatim>\<open>itch_book.cpp\<close>, and the raw file loop of \<^verbatim>\<open>src/client/itch_file_processor.hpp\<close>. The price maps are
  association lists in the order of their comparator, a price level is the list of its order
  references. \<^verbatim>\<open>orders_.at\<close> throws for an unknown reference, so a snapshot is an option.
\<close>

section \<open>State\<close>

record builder_order =
  bo_symbol :: symbol
  bo_side :: side
  bo_price :: price
  bo_qty :: qty

type_synonym level_map = "(price \<times> u64 list) list"

record symbol_book =
  sy_bids :: level_map
  sy_asks :: level_map

record itch_book_builder =
  bb_orders :: "u64 \<rightharpoonup> builder_order"
  bb_books :: "symbol \<rightharpoonup> symbol_book"
  bb_gaps :: gap_detector
  bb_messages :: u64
  bb_last_ts :: u64
  bb_executed_shares :: u64
  bb_last_trade_price :: price
  bb_last_trade_qty :: qty

definition bb_new :: itch_book_builder where
  "bb_new = \<lparr>bb_orders = Map.empty, bb_books = Map.empty, bb_gaps = gap_detector_new, bb_messages = 0,
     bb_last_ts = 0, bb_executed_shares = 0, bb_last_trade_price = 0, bb_last_trade_qty = 0\<rparr>"

text \<open>\<^verbatim>\<open>books_[symbol]\<close> inserts an empty book for a new symbol.\<close>

definition bb_book :: "symbol \<Rightarrow> itch_book_builder \<Rightarrow> symbol_book" where
  "bb_book symbol b = (case bb_books b symbol of None \<Rightarrow> \<lparr>sy_bids = [], sy_asks = []\<rparr> | Some book \<Rightarrow> book)"

section \<open>Orders\<close>

definition level_push :: "(price \<Rightarrow> price \<Rightarrow> bool) \<Rightarrow> price \<Rightarrow> u64 \<Rightarrow> level_map \<Rightarrow> level_map" where
  "level_push lt p ref m = omap_upd lt p (case map_of m p of None \<Rightarrow> [ref] | Some refs \<Rightarrow> refs @ [ref]) m"

definition erase_from :: "(price \<Rightarrow> price \<Rightarrow> bool) \<Rightarrow> price \<Rightarrow> u64 \<Rightarrow> level_map \<Rightarrow> level_map" where
  "erase_from lt p ref m =
     (case map_of m p of
        None \<Rightarrow> m
      | Some refs \<Rightarrow>
          let refs' = filter (\<lambda>r. r \<noteq> ref) refs in
          if refs' = [] then AList.delete p m else omap_upd lt p refs' m)"

definition bb_add_order :: "u64 \<Rightarrow> symbol \<Rightarrow> side \<Rightarrow> price \<Rightarrow> qty \<Rightarrow> itch_book_builder \<Rightarrow> itch_book_builder" where
  "bb_add_order ref symbol side p shares b =
     (let b = b\<lparr>bb_orders := (bb_orders b)(ref \<mapsto> \<lparr>bo_symbol = symbol, bo_side = side, bo_price = p, bo_qty = shares\<rparr>)\<rparr>;
          book = bb_book symbol b;
          book = (if side = Buy then book\<lparr>sy_bids := level_push (>) p ref (sy_bids book)\<rparr>
                  else book\<lparr>sy_asks := level_push (<) p ref (sy_asks book)\<rparr>)
      in b\<lparr>bb_books := (bb_books b)(symbol \<mapsto> book)\<rparr>)"

definition bb_remove_order :: "u64 \<Rightarrow> itch_book_builder \<Rightarrow> itch_book_builder" where
  "bb_remove_order ref b =
     (case bb_orders b ref of
        None \<Rightarrow> b
      | Some ord \<Rightarrow>
          let book = bb_book (bo_symbol ord) b;
              book = (if bo_side ord = Buy then book\<lparr>sy_bids := erase_from (>) (bo_price ord) ref (sy_bids book)\<rparr>
                      else book\<lparr>sy_asks := erase_from (<) (bo_price ord) ref (sy_asks book)\<rparr>)
          in b\<lparr>bb_books := (bb_books b)(bo_symbol ord \<mapsto> book), bb_orders := (bb_orders b)(ref := None)\<rparr>)"

definition bb_reduce_order :: "u64 \<Rightarrow> qty \<Rightarrow> itch_book_builder \<Rightarrow> itch_book_builder" where
  "bb_reduce_order ref by b =
     (case bb_orders b ref of
        None \<Rightarrow> b
      | Some ord \<Rightarrow>
          if by \<ge> bo_qty ord then bb_remove_order ref b
          else b\<lparr>bb_orders := (bb_orders b)(ref \<mapsto> ord\<lparr>bo_qty := bo_qty ord - by\<rparr>)\<rparr>)"

section \<open>Messages\<close>

definition bb_on_executed :: "u64 \<Rightarrow> qty \<Rightarrow> itch_book_builder \<Rightarrow> itch_book_builder" where
  "bb_on_executed ref shares b =
     bb_reduce_order ref shares (b\<lparr>bb_last_trade_qty := shares, bb_executed_shares := bb_executed_shares b + ucast shares\<rparr>)"

fun bb_on_message :: "message \<Rightarrow> itch_book_builder \<Rightarrow> itch_book_builder" where
  "bb_on_message (MAddOrder m) b =
     (let b = b\<lparr>bb_messages := bb_messages b + 1, bb_last_ts := h_timestamp m\<rparr>
      in bb_add_order (ao_order_ref m) (ao_stock m) (ao_side m) (ao_price m) (ao_shares m) b)"
| "bb_on_message (MAddOrderMpid m) b =
     (let a = aom_add m; b = b\<lparr>bb_messages := bb_messages b + 1, bb_last_ts := h_timestamp a\<rparr>
      in bb_add_order (ao_order_ref a) (ao_stock a) (ao_side a) (ao_price a) (ao_shares a) b)"
| "bb_on_message (MOrderExecuted m) b =
     (let b = b\<lparr>bb_messages := bb_messages b + 1, bb_last_ts := h_timestamp m\<rparr>;
          b = (case bb_orders b (oe_order_ref m) of None \<Rightarrow> b | Some ord \<Rightarrow> b\<lparr>bb_last_trade_price := bo_price ord\<rparr>)
      in bb_on_executed (oe_order_ref m) (oe_executed_shares m) b)"
| "bb_on_message (MOrderExecutedWithPrice m) b =
     (let x = oep_exec m;
          b = b\<lparr>bb_messages := bb_messages b + 1, bb_last_ts := h_timestamp x, bb_last_trade_price := oep_execution_price m\<rparr>
      in bb_on_executed (oe_order_ref x) (oe_executed_shares x) b)"
| "bb_on_message (MOrderCancel m) b =
     (let b = b\<lparr>bb_messages := bb_messages b + 1, bb_last_ts := h_timestamp m\<rparr>
      in bb_reduce_order (oc_order_ref m) (oc_canceled_shares m) b)"
| "bb_on_message (MOrderDelete m) b =
     (let b = b\<lparr>bb_messages := bb_messages b + 1, bb_last_ts := h_timestamp m\<rparr>
      in bb_remove_order (od_order_ref m) b)"
| "bb_on_message (MOrderReplace m) b =
     (let b = b\<lparr>bb_messages := bb_messages b + 1, bb_last_ts := h_timestamp m\<rparr>
      in case bb_orders b (orp_original_ref m) of
           None \<Rightarrow> b
         | Some ord \<Rightarrow> bb_add_order (orp_new_ref m) (bo_symbol ord) (bo_side ord) (orp_price m) (orp_shares m)
             (bb_remove_order (orp_original_ref m) b))"
| "bb_on_message (MSystemEvent m) b = b\<lparr>bb_messages := bb_messages b + 1\<rparr>"
| "bb_on_message (MStockDirectory m) b = b\<lparr>bb_messages := bb_messages b + 1\<rparr>"
| "bb_on_message (MTradingAction m) b = b\<lparr>bb_messages := bb_messages b + 1\<rparr>"
| "bb_on_message (MTrade m) b = b\<lparr>bb_messages := bb_messages b + 1\<rparr>"

definition bb_on_bytes :: "bytes \<Rightarrow> itch_book_builder \<Rightarrow> itch_book_builder" where
  "bb_on_bytes data b = (case itch_decode data (length data) of None \<Rightarrow> b | Some msg \<Rightarrow> bb_on_message msg b)"

definition on_mold_packet :: "bytes \<Rightarrow> itch_book_builder \<Rightarrow> itch_book_builder \<times> bool" where
  "on_mold_packet data b =
     (case parse data of
        None \<Rightarrow> (b, False)
      | Some pkt \<Rightarrow>
          let b = b\<lparr>bb_gaps := fst (on_packet (dp_seq pkt) (length (dp_messages pkt)) (bb_gaps b))\<rparr>;
              b = fold bb_on_bytes (dp_messages pkt) b
          in (b, dp_end_of_session pkt))"

section \<open>Snapshots\<close>

fun fill_orders :: "(u64 \<rightharpoonup> builder_order) \<Rightarrow> u64 list \<Rightarrow> snapshot_order list option" where
  "fill_orders ords [] = Some []"
| "fill_orders ords (ref # refs) = do {
     ord \<leftarrow> ords ref;
     rest \<leftarrow> fill_orders ords refs;
     Some (\<lparr>so_id = ref, so_qty = bo_qty ord\<rparr> # rest)
   }"

fun fill_side :: "(u64 \<rightharpoonup> builder_order) \<Rightarrow> level_map \<Rightarrow> snapshot_level list option" where
  "fill_side ords [] = Some []"
| "fill_side ords ((p, refs) # m) = do {
     lvl \<leftarrow> fill_orders ords refs;
     rest \<leftarrow> fill_side ords m;
     Some (\<lparr>sl_price = p, sl_orders = lvl\<rparr> # rest)
   }"

definition bb_snapshot :: "symbol \<Rightarrow> itch_book_builder \<Rightarrow> book_snapshot option" where
  "bb_snapshot symbol b =
     (case bb_books b symbol of
        None \<Rightarrow> Some \<lparr>bs_bids = [], bs_asks = []\<rparr>
      | Some book \<Rightarrow> do {
          bids \<leftarrow> fill_side (bb_orders b) (sy_bids book);
          asks \<leftarrow> fill_side (bb_orders b) (sy_asks book);
          Some \<lparr>bs_bids = bids, bs_asks = asks\<rparr>
        })"

section \<open>Raw files\<close>

record itch_file_stats =
  fs_decoded :: "u64 list"
  fs_skipped :: "u64 list"
  fs_filtered :: u64
  fs_total :: u64
  fs_error :: bytes

definition file_stats_new :: itch_file_stats where
  "file_stats_new = \<lparr>fs_decoded = replicate 256 0, fs_skipped = replicate 256 0, fs_filtered = 0, fs_total = 0, fs_error = []\<rparr>"

definition bump :: "u8 \<Rightarrow> u64 list \<Rightarrow> u64 list" where
  "bump t xs = xs[unat t := xs ! unat t + 1]"

definition tracked :: "symbol list \<Rightarrow> symbol \<Rightarrow> bool" where
  "tracked symbols s \<longleftrightarrow> symbols = [] \<or> s \<in> set symbols"

fun add_symbol :: "message \<Rightarrow> symbol option" where
  "add_symbol (MAddOrder m) = Some (ao_stock m)"
| "add_symbol (MAddOrderMpid m) = Some (ao_stock (aom_add m))"
| "add_symbol _ = None"

definition file_message :: "symbol list \<Rightarrow> bytes \<Rightarrow> itch_book_builder \<Rightarrow> itch_file_stats \<Rightarrow> itch_book_builder \<times> itch_file_stats" where
  "file_message symbols data b st =
     (let st = st\<lparr>fs_total := fs_total st + 1\<rparr>;
          type = data ! 0
      in case itch_decode data (length data) of
           None \<Rightarrow> (b, st\<lparr>fs_skipped := bump type (fs_skipped st)\<rparr>)
         | Some msg \<Rightarrow>
             let st = st\<lparr>fs_decoded := bump type (fs_decoded st)\<rparr> in
             (case add_symbol msg of
                Some s \<Rightarrow> if tracked symbols s then (bb_on_message msg b, st) else (b, st\<lparr>fs_filtered := fs_filtered st + 1\<rparr>)
              | None \<Rightarrow> (bb_on_message msg b, st)))"

lemma raw_next_shrinks: "raw_next r = (Some msg, r') \<Longrightarrow> length (rr_file r') < length (rr_file r)"
  by (auto simp: raw_next_def fread_def Let_def split: if_splits)

function process_loop :: "symbol list \<Rightarrow> u64 \<Rightarrow> raw_itch_reader \<Rightarrow> itch_book_builder \<Rightarrow> itch_file_stats \<Rightarrow>
    raw_itch_reader \<times> itch_book_builder \<times> itch_file_stats" where
  "process_loop symbols max_messages r b st =
     (if max_messages = 0 \<or> fs_total st < max_messages then
        (case raw_next r of
           (None, r) \<Rightarrow> (r, b, st)
         | (Some data, r) \<Rightarrow> (case file_message symbols data b st of (b, st) \<Rightarrow> process_loop symbols max_messages r b st))
      else (r, b, st))"
  by auto
termination
  by (relation "measure (\<lambda>(symbols, mx, r, b, st). length (rr_file r))") (auto dest: raw_next_shrinks[OF sym])

declare process_loop.simps [simp del]

definition process_raw_itch :: "bytes \<Rightarrow> symbol list \<Rightarrow> u64 \<Rightarrow> itch_book_builder \<Rightarrow> itch_file_stats \<Rightarrow>
    bool \<times> itch_book_builder \<times> itch_file_stats" where
  "process_raw_itch f symbols max_messages b st =
     (case process_loop symbols max_messages (raw_itch_reader_new f) b st of
        (r, b, st) \<Rightarrow> (rr_error r = [], b, st\<lparr>fs_error := rr_error r\<rparr>))"

end
