(* ===== verification/Engine_Feed.thy ===== *)
theory Engine_Feed
  imports Engine_Step
begin

text \<open>
  What a reader of the market events can rely on: an execution or a cancel is of an order that rests
  in the named symbol's book, a new order has a reference no book knows, and a replacement stays on
  the side of the order it replaces. The prices and symbols are those of the commands.
\<close>

section \<open>Events of one operation\<close>

text \<open>\<open>new\<close> and \<open>p\<close> are the reference and the price of the one order the operation can add.\<close>

fun ev_local :: "order_id \<Rightarrow> price \<Rightarrow> book_event \<Rightarrow> spec_book \<Rightarrow> bool" where
  "ev_local new p (EvAdded a) sb \<longleftrightarrow> ad_id a = new \<and> ad_price a = p \<and> valid_side (ad_side a) \<and> spec_find sb new = None"
| "ev_local new p (EvExecuted x) sb \<longleftrightarrow> spec_find sb (xe_resting_id x) \<noteq> None"
| "ev_local new p (EvCanceled c) sb \<longleftrightarrow> spec_find sb (ce_id c) \<noteq> None"
| "ev_local new p (EvReplaced r) sb \<longleftrightarrow> re_new_id r = new \<and> re_price r = p \<and> re_old_id r \<noteq> new \<and> spec_find sb new = None \<and>
     (\<exists>rs. spec_find sb (re_old_id r) = Some (re_side r, rs))"

fun evs_local :: "order_id \<Rightarrow> price \<Rightarrow> book_event list \<Rightarrow> spec_book \<Rightarrow> bool" where
  "evs_local new p [] sb = True"
| "evs_local new p (ev # evs) sb \<longleftrightarrow> ev_local new p ev sb \<and> evs_local new p evs (replay_event ev sb)"

lemma evs_local_append: "evs_local new p (evs @ evs') sb \<longleftrightarrow> evs_local new p evs sb \<and> evs_local new p evs' (fold replay_event evs sb)"
  by (induction evs arbitrary: sb) auto

lemma sweep_local:
  "sweep oid side limit mid q rs = (evs, q', mid', rs') \<Longrightarrow> spec_inv sb \<Longrightarrow> valid_side side \<Longrightarrow>
   queue_of (opp side) sb = rs \<Longrightarrow> sb_match sb = mid \<Longrightarrow> evs_local new p evs sb"
proof (induction oid side limit mid q rs arbitrary: evs q' mid' rs' sb rule: sweep.induct)
  case (2 oid side limit mid q r rs)
  have o: "valid_side (opp side)" by (simp add: opp_def)
  have h: "spec_find sb (rs_id r) \<noteq> None" using spec_find_eq[OF 2(3) o, of r] 2(5) by simp
  consider "q = 0 \<or> \<not> crosses side limit (rs_price r)" | "q \<noteq> 0" "crosses side limit (rs_price r)" "q < rs_qty r"
    | "q \<noteq> 0" "crosses side limit (rs_price r)" "\<not> q < rs_qty r" by blast
  then show ?case
  proof cases
    case 3
    let ?sb = "set_queue (opp side) rs (sb\<lparr>sb_match := mid + 1\<rparr>)"
    obtain evs1 where S: "sweep oid side limit (mid + 1) (q - rs_qty r) rs = (evs1, q', mid', rs')"
      "evs = exec_event r oid side (rs_qty r) mid # evs1"
      using "2.prems"(1) 3 by (auto split: prod.splits)
    have "spec_inv ?sb" using spec_inv_delete_at[of "sb\<lparr>sb_match := mid + 1\<rparr>" "opp side" "[]" r rs] "2.prems"(2,4) o by simp
    then have "evs_local new p evs1 ?sb" using "2.IH"[OF _ _ S(1)] 3 "2.prems"(3) o by auto
    then show ?thesis using S(2) h replay_head(1)[OF "2.prems"(2) o "2.prems"(4)] by (simp add: exec_event_def)
  qed (use "2.prems" h in \<open>auto simp: exec_event_def\<close>)
qed simp

lemma match_local:
  "spec_match oid side limit q sb = (sb', evs, f) \<Longrightarrow> spec_inv sb \<Longrightarrow> valid_side side \<Longrightarrow> evs_local new p evs sb"
  using sweep_local[of oid side limit "sb_match sb" q "queue_of (opp side) sb"] by (auto simp: spec_match_def split: prod.splits)

lemma spec_match_find:
  assumes "spec_match oid side limit q sb = (sb', evs, f)" "spec_inv sb" "valid_side side" "spec_find sb k = None"
  shows "spec_find sb' k = None"
  using spec_match_inv[OF assms(2,3), of oid limit q] assms(1,4) by (auto simp: spec_find_None)

lemma enter_local:
  assumes "spec_enter oid side p q sb = (sb', evs, f)" "spec_inv sb" "valid_side side" "spec_find sb oid = None"
  shows "evs_local oid p evs sb"
proof -
  obtain sb1 evs1 f1 where M: "spec_match oid side p q sb = (sb1, evs1, f1)" by (metis prod_cases3)
  show ?thesis
    using assms(1,3) M match_local[OF M assms(2,3)] replay_match[OF assms(2,3) M] spec_match_find[OF M assms(2,3,4)]
    by (auto simp: spec_enter_def evs_local_append split: if_splits)
qed

lemma cancel_local: "spec_cancel sb oid keep = (sb', evs, f) \<Longrightarrow> evs_local new p evs sb"
  by (auto simp: spec_cancel_def split: option.splits if_splits)

lemma replace_local:
  assumes "spec_replace sb old_id new_id p q = (sb', evs, f)" "spec_inv sb" "spec_find sb new_id = None"
  shows "evs_local new_id p evs sb"
proof (cases "spec_find sb old_id")
  case None
  then show ?thesis using assms(1) by (simp add: spec_replace_def)
next
  case (Some sr)
  then obtain s r where F: "spec_find sb old_id = Some (s, r)" by (metis surj_pair)
  have "valid_side s" using spec_find_Some(1)[OF F] .
  then show ?thesis using assms(1,3) F enter_local[OF _ spec_remove_inv(1)[OF assms(2)], of new_id s p q]
    by (auto simp: spec_replace_def spec_find_remove Let_def split: if_splits prod.splits)
qed

text \<open>No operation reports more events than there are orders, and two.\<close>

lemma sweep_events: "sweep oid side limit mid q rs = (evs, q', mid', rs') \<Longrightarrow> length evs \<le> length rs"
  by (induction oid side limit mid q rs arbitrary: evs q' mid' rs' rule: sweep.induct) (auto split: if_splits prod.splits)

lemma match_events: "spec_match oid side limit q sb = (sb', evs, f) \<Longrightarrow> length evs \<le> spec_size sb"
  using sweep_events[of oid side limit "sb_match sb" q "queue_of (opp side) sb"]
  by (auto simp: spec_match_def spec_size_def queue_of_def split: prod.splits if_splits)

lemma enter_events: "spec_enter oid side p q sb = (sb', evs, f) \<Longrightarrow> length evs \<le> spec_size sb + 1"
  using match_events[of oid side p q sb] by (auto simp: spec_enter_def split: prod.splits if_splits)

lemma add_events: "spec_add sb oid side p q = (sb', evs, r) \<Longrightarrow> length evs \<le> spec_size sb + 1"
  using enter_events[of oid side p q sb] by (auto simp: spec_add_def split: prod.splits if_splits)

lemma cancel_events: "spec_cancel sb oid keep = (sb', evs, f) \<Longrightarrow> length evs \<le> spec_size sb + 2"
  by (auto simp: spec_cancel_def split: option.splits if_splits)

lemma replace_events: "spec_replace sb old_id new_id p q = (sb', evs, f) \<Longrightarrow> length evs \<le> spec_size sb + 2"
  using enter_events[of new_id _ p q "spec_remove old_id sb"] spec_remove_size[of old_id sb]
  by (fastforce simp: spec_replace_def Let_def split: option.splits prod.splits if_splits)

section \<open>The published sequence\<close>

text \<open>Every event fits the books that the events before it give.\<close>

fun ev_new :: "book_event \<Rightarrow> order_id option" where
  "ev_new (EvAdded a) = Some (ad_id a)"
| "ev_new (EvReplaced r) = Some (re_new_id r)"
| "ev_new _ = None"

definition market_ok :: "market_event \<Rightarrow> books \<Rightarrow> bool" where
  "market_ok m S \<longleftrightarrow> (\<exists>new p. ev_local new p (me_ev m) (S (me_symbol m))) \<and>
     (\<forall>new sm. ev_new (me_ev m) = Some new \<longrightarrow> spec_find (S sm) new = None)"

fun feed_from :: "books \<Rightarrow> market_event list \<Rightarrow> bool" where
  "feed_from S [] = True"
| "feed_from S (m # ms) \<longleftrightarrow> market_ok m S \<and> feed_from (replay_market m S) ms"

text \<open>What the wire format can carry.\<close>

fun ev_price :: "book_event \<Rightarrow> price option" where
  "ev_price (EvAdded a) = Some (ad_price a)"
| "ev_price (EvReplaced r) = Some (re_price r)"
| "ev_price _ = None"

definition wire_event :: "market_event \<Rightarrow> bool" where
  "wire_event m \<longleftrightarrow> length (me_symbol m) = 8 \<and> take_bit 48 (me_ts m) = me_ts m \<and>
     (case ev_price (me_ev m) of None \<Rightarrow> True | Some p \<Rightarrow> wire_price p)"

lemma feed_from_append: "feed_from S (ms @ ms') \<longleftrightarrow> feed_from S ms \<and> feed_from (fold replay_market ms S) ms'"
  by (induction ms arbitrary: S) auto

lemma local_feed:
  assumes "evs_local new p evs (S sm)" "\<And>sm'. sm' \<noteq> sm \<Longrightarrow> spec_find (S sm') new = None"
  shows "feed_from S (map (\<lambda>ev. \<lparr>me_ts = t, me_symbol = sm, me_ev = ev\<rparr>) evs)"
  using assms
proof (induction evs arbitrary: S)
  case (Cons ev evs)
  let ?m = "\<lparr>me_ts = t, me_symbol = sm, me_ev = ev\<rparr>"
  have "market_ok ?m S" unfolding market_ok_def
  proof (intro conjI allI impI)
    show "\<exists>new p. ev_local new p (me_ev ?m) (S (me_symbol ?m))" using Cons.prems(1) by auto
    fix id sm' assume "ev_new (me_ev ?m) = Some id"
    then have "id = new" "spec_find (S sm) new = None" using Cons.prems(1) by (cases ev; auto)+
    then show "spec_find (S sm') id = None" using Cons.prems(2) by (cases "sm' = sm") auto
  qed
  moreover have "feed_from (replay_market ?m S) (map (\<lambda>ev. \<lparr>me_ts = t, me_symbol = sm, me_ev = ev\<rparr>) evs)"
    using Cons.prems by (intro Cons.IH) (auto simp: replay_market_def)
  ultimately show ?case by simp
qed simp

lemma local_prices: "evs_local new p evs sb \<Longrightarrow> ev \<in> set evs \<Longrightarrow> ev_price ev = Some p' \<Longrightarrow> p' = p"
proof (induction evs arbitrary: sb)
  case (Cons e evs)
  then show ?case by (cases e) auto
qed simp

section \<open>One command\<close>

text \<open>The price a command can put into a book, and the symbol it names.\<close>

fun cmd_price :: "ouch_in \<Rightarrow> price" where
  "cmd_price (EnterOrder m) = eo_price m"
| "cmd_price (ReplaceOrder m) = ro_price m"
| "cmd_price (CancelOrder m) = 0"

fun cmd_stock :: "ouch_in \<Rightarrow> symbol option" where
  "cmd_stock (EnterOrder m) = Some (eo_stock m)"
| "cmd_stock _ = None"

definition step_feed :: "u64 \<Rightarrow> ouch_in \<Rightarrow> books \<Rightarrow> engine \<Rightarrow> engine \<Rightarrow> bool" where
  "step_feed now m S e e' \<longleftrightarrow> (\<exists>sm evs new. en_to_feed e' = en_to_feed e @ map (\<lambda>ev. \<lparr>me_ts = now, me_symbol = sm, me_ev = ev\<rparr>) evs \<and>
     evs_local new (cmd_price m) evs (S sm) \<and> (\<forall>sm'. spec_find (S sm') new = None) \<and>
     length evs \<le> spec_size (S sm) + 2 \<and>
     (evs = [] \<or> cmd_stock m = Some sm \<or> (\<exists>ref i. en_orders e ref = Some i \<and> oi_symbol i = sm)))"

lemma new_ref_unknown:
  assumes "engine_inv n S e"
  shows "spec_find (S sm) (en_next_ref e) = None"
  using tbl_ok_absent[OF engine_invD(2)[OF assms] fresh_ref[OF engine_baseD(5)[OF engine_invD(1)[OF assms]]], of sm]
  by (simp add: book_view_def)

lemma step_feedI:
  assumes "engine_inv n S e" "en_to_feed e' = en_to_feed e @ map (\<lambda>ev. \<lparr>me_ts = now, me_symbol = sm, me_ev = ev\<rparr>) evs"
    "evs_local (en_next_ref e) (cmd_price m) evs (S sm)"
    "length evs \<le> spec_size (S sm) + 2"
    "evs = [] \<or> cmd_stock m = Some sm \<or> (\<exists>ref i. en_orders e ref = Some i \<and> oi_symbol i = sm)"
  shows "step_feed now m S e e'"
  unfolding step_feed_def using assms(2-) new_ref_unknown[OF assms(1)] by blast

lemma step_feed_same: "engine_inv n S e \<Longrightarrow> en_to_feed e' = en_to_feed e \<Longrightarrow> step_feed now m S e e'"
  by (rule step_feedI[of n S e e' now _ "[]"]) simp_all

lemma enter_step_feed:
  assumes inv: "engine_inv n S e" and n: "n < 2 ^ 32 - 2" and p: "process now \<lparr>cm_client_id = client, cm_msg = EnterOrder m\<rparr> e = Some e'"
  shows "step_feed now (EnterOrder m) S e e'"
proof (cases "enter_refused client m e")
  case True
  then have "en_to_feed e' = en_to_feed e" using p
    by (auto simp: process_def handle_enter_def enter_refused_def token_used_def reject_def en_respond_def Let_def split: if_splits)
  then show ?thesis by (rule step_feed_same[OF inv])
next
  case False
  define i where "i = \<lparr>oi_client_id = client, oi_token = eo_token m, oi_symbol = eo_stock m, oi_side = eo_side m, oi_open = eo_shares m\<rparr>"
  obtain e1 where en: "entering (Suc n) S e1 (en_next_ref e) i" and r: "enter_book client m (en_next_ref e) e1 = Some e'"
    and "en_to_gateway e1 = en_to_gateway e @ [\<lparr>cr_client_id = client, cr_msg = Accepted (accepted_for m (en_next_ref e) now)\<rparr>]"
    and e1: "en_to_feed e1 = en_to_feed e" "en_now e1 = now" by (rule enter_start[OF inv n False p i_def])
  let ?sb = "S (eo_stock m)"
  obtain sb evs f where mt: "spec_match (en_next_ref e) (eo_side m) (enter_limit m) (eo_shares m) ?sb = (sb, evs, f)" by (metis prod_cases3)
  obtain sa evsa x where ad: "spec_add ?sb (en_next_ref e) (eo_side m) (eo_price m) (eo_shares m) = (sa, evsa, x)" by (metis prod_cases3)
  note E = enteringD[OF en, unfolded i_def, simplified]
  have "evs_local (en_next_ref e) (eo_price m) evs ?sb" by (rule match_local[OF mt E(10,6)])
  moreover have "evs_local (en_next_ref e) (eo_price m) evsa ?sb"
    using ad enter_local[OF _ E(10,6) new_ref_unknown[OF inv]] by (auto simp: spec_add_def split: if_splits prod.splits)
  moreover obtain b1 b2 b3 where "fb_sim b1 ?sb" "fb_sim b2 sb" "fb_sim b3 sa" and run: "enter_book client m (en_next_ref e) e1 = Some (
      if enter_killed m ?sb then cancel_unrested client (en_next_ref e) (eo_token m) (eo_shares m) 0x44 (put_book (eo_stock m) b1 e1)
      else if enter_ioc m then let e3 = fold on_event evs (put_book (eo_stock m) b2 e1) in
        if eo_shares m - f > 0 then cancel_unrested client (en_next_ref e) (eo_token m) (eo_shares m - f) 0x49 e3 else e3
      else fold on_event evsa (put_book (eo_stock m) b3 e1))"
    by (rule enter_book_run[OF en _ _ _ mt ad, of client]) (simp_all add: i_def)
  let ?feed = "\<lambda>evs. en_to_feed e @ map (\<lambda>ev. \<lparr>me_ts = now, me_symbol = eo_stock m, me_ev = ev\<rparr>) evs"
  have "en_to_feed e' = ?feed [] \<or> en_to_feed e' = ?feed evs \<or> en_to_feed e' = ?feed evsa"
    using r e1 E(4) unfolding run by (auto simp: Let_def cancel_unrested_def fold_on_event split: if_splits)
  ultimately show ?thesis
    using step_feedI[OF inv, of e' now "eo_stock m" "[]" "EnterOrder m"] step_feedI[OF inv, of e' now "eo_stock m" evs "EnterOrder m"]
      step_feedI[OF inv, of e' now "eo_stock m" evsa "EnterOrder m"] match_events[OF mt] add_events[OF ad]
    by fastforce
qed

lemma process_step_feed:
  assumes inv: "engine_inv n S e" and n: "n < 2 ^ 32 - 2" and p: "process now cmd e = Some e'"
  shows "step_feed now (cm_msg cmd) S e e'"
proof (cases "cm_msg cmd")
  case (EnterOrder m)
  then show ?thesis using enter_step_feed[OF inv n, of now "cm_client_id cmd" m e'] p by (simp add: process_def)
next
  case (CancelOrder m)
  let ?e = "e\<lparr>en_now := now\<rparr>" and ?c = "cm_client_id cmd"
  have inv': "engine_inv n S ?e" using engine_inv_fields(1)[OF inv] .
  have h: "handle_cancel ?c m ?e = Some e'" using p CancelOrder by (simp add: process_def)
  show ?thesis
  proof (cases "en_live_tokens ?e (?c, token_str (co_token m))")
    case None
    then show ?thesis using h by (intro step_feed_same[OF inv]) (auto simp: handle_cancel_def)
  next
    case (Some ref)
    obtain i sb evs f b1 where i: "en_orders ?e ref = Some i" and "order_key i = (?c, token_str (co_token m))"
      and c: "spec_cancel (S (oi_symbol i)) ref (co_shares m) = (sb, evs, f)" and "fb_sim b1 sb"
      and h': "handle_cancel ?c m ?e = Some (fold on_event evs (put_book (oi_symbol i) b1 (?e\<lparr>en_current_symbol := oi_symbol i\<rparr>)))"
      by (rule handle_cancel_run[OF inv' Some])
    show ?thesis using h h' i cancel_local[OF c] cancel_events[OF c] by (intro step_feedI[OF inv, of e' now "oi_symbol i" evs]) (auto simp: fold_on_event)
  qed
next
  case (ReplaceOrder m)
  let ?e = "e\<lparr>en_now := now\<rparr>" and ?c = "cm_client_id cmd"
  have inv': "engine_inv n S ?e" using engine_inv_fields(1)[OF inv] .
  have h: "handle_replace ?c m ?e = Some e'" using p ReplaceOrder by (simp add: process_def)
  show ?thesis
  proof (cases "en_live_tokens ?e (?c, token_str (ro_existing_token m)) = None \<or> replace_refused ?c m ?e")
    case True
    from h handle_replace_refused[OF this] show ?thesis by (intro step_feed_same[OF inv]) auto
  next
    case False
    then obtain old where live: "en_live_tokens ?e (?c, token_str (ro_existing_token m)) = Some old" and ok: "\<not> replace_refused ?c m ?e" by auto
    have n': "n + 1 < 2 ^ 32 - 1" using n by simp
    obtain info e1 sb evs f b1 where i: "en_orders ?e old = Some info" and a: "swap_order ?c m old info ?e = (e1, en_next_ref ?e)"
      and c: "spec_replace (S (oi_symbol info)) old (en_next_ref ?e) (ro_price m) (ro_shares m) = (sb, evs, f)" and "fb_sim b1 sb"
      and h': "handle_replace ?c m ?e = Some ((fold on_event evs (put_book (oi_symbol info) b1 (e1\<lparr>en_suppress_ouch_cancel := True\<rparr>)))\<lparr>en_suppress_ouch_cancel := False\<rparr>)"
      by (rule handle_replace_run[OF inv' n' live ok])
    have "evs_local (en_next_ref e) (ro_price m) evs (S (oi_symbol info))"
      using replace_local[OF c books_ok_inv[OF engine_baseD(1)[OF engine_invD(1)[OF inv]]]] new_ref_unknown[OF inv] by simp
    moreover have "en_to_feed e' = en_to_feed e @ map (\<lambda>ev. \<lparr>me_ts = now, me_symbol = oi_symbol info, me_ev = ev\<rparr>) evs"
      using h h' a by (auto simp: fold_on_event swap_order_def Let_def)
    ultimately show ?thesis using i ReplaceOrder replace_events[OF c] by (intro step_feedI[OF inv, of e' now "oi_symbol info" evs]) auto
  qed
qed

section \<open>Any sequence of commands\<close>

definition cmd_wf :: "u64 \<times> command \<Rightarrow> bool" where
  "cmd_wf c \<longleftrightarrow> take_bit 48 (fst c) = fst c \<and> wire_price (cmd_price (cm_msg (snd c))) \<and>
     (case cmd_stock (cm_msg (snd c)) of None \<Rightarrow> True | Some sm \<Rightarrow> length sm = 8)"

definition feed_good :: "market_event list \<Rightarrow> bool" where
  "feed_good ms \<longleftrightarrow> feed_from (\<lambda>_. spec_empty) ms \<and> (\<forall>m\<in>set ms. wire_event m)"

lemma replay_feed_quiet: "\<forall>m\<in>set ms. me_symbol m \<noteq> sm \<Longrightarrow> replay_feed ms sm = spec_empty"
proof -
  have "\<forall>m\<in>set ms. me_symbol m \<noteq> sm \<Longrightarrow> fold replay_market ms S sm = S sm" for S
    by (induction ms arbitrary: S) (auto simp: replay_market_def)
  then show "\<forall>m\<in>set ms. me_symbol m \<noteq> sm \<Longrightarrow> replay_feed ms sm = spec_empty" by (simp add: replay_feed_def)
qed

text \<open>The symbol of an order in the table has been published before.\<close>

lemma table_symbol:
  assumes "engine_inv n S e" "en_orders e ref = Some i"
  shows "\<exists>m\<in>set (en_to_feed e). me_symbol m = oi_symbol i"
proof (rule ccontr)
  assume "\<not> ?thesis"
  then have "S (oi_symbol i) = spec_empty"
    using replay_feed_quiet engine_baseD(8)[OF engine_invD(1)[OF assms(1)]] by blast
  then show False using live_order[OF assms] by (metis option.distinct(1) spec_find_None spec_empty_def spec_ids_def
    append_Nil empty_iff list.set(1) list.simps(8) spec_book.select_convs(1,2))
qed

lemma step_feed_good:
  assumes inv: "engine_inv n S e" and good: "feed_good (en_to_feed e)" and st: "step_feed now (cm_msg cmd) S e e'" and wf: "cmd_wf (now, cmd)"
  shows "feed_good (en_to_feed e')"
proof -
  obtain sm evs new where F: "en_to_feed e' = en_to_feed e @ map (\<lambda>ev. \<lparr>me_ts = now, me_symbol = sm, me_ev = ev\<rparr>) evs"
    and L: "evs_local new (cmd_price (cm_msg cmd)) evs (S sm)" and N: "\<forall>sm'. spec_find (S sm') new = None"
    and M: "evs = [] \<or> cmd_stock (cm_msg cmd) = Some sm \<or> (\<exists>ref i. en_orders e ref = Some i \<and> oi_symbol i = sm)"
    using st unfolding step_feed_def by blast
  have S: "fold replay_market (en_to_feed e) (\<lambda>_. spec_empty) = S"
    using engine_baseD(8)[OF engine_invD(1)[OF inv]] by (simp add: replay_feed_def)
  have "feed_from S (map (\<lambda>ev. \<lparr>me_ts = now, me_symbol = sm, me_ev = ev\<rparr>) evs)" using L N by (intro local_feed) auto
  then have "feed_from (\<lambda>_. spec_empty) (en_to_feed e')" using good S by (simp add: F feed_from_append feed_good_def)
  moreover have "evs = [] \<or> length sm = 8"
    using M wf good table_symbol[OF inv] unfolding cmd_wf_def feed_good_def wire_event_def by fastforce
  then have "wire_event \<lparr>me_ts = now, me_symbol = sm, me_ev = ev\<rparr>" if "ev \<in> set evs" for ev
    using that wf local_prices[OF L that] by (cases "ev_price ev") (auto simp: wire_event_def cmd_wf_def)
  ultimately show ?thesis using good by (auto simp: feed_good_def F)
qed

lemma step_feed_length:
  assumes "engine_inv n S e" "step_feed now m S e e'" "length (en_to_feed e) \<le> n * (n + 2)"
  shows "length (en_to_feed e') \<le> Suc n * (Suc n + 2)"
proof -
  obtain sm evs where "en_to_feed e' = en_to_feed e @ map (\<lambda>ev. \<lparr>me_ts = now, me_symbol = sm, me_ev = ev\<rparr>) evs"
    "length evs \<le> spec_size (S sm) + 2" using assms(2) unfolding step_feed_def by blast
  moreover have "spec_size (S sm) \<le> n" using engine_baseD(7)[OF engine_invD(1)[OF assms(1)]] .
  ultimately show ?thesis using assms(3) by simp
qed

lemma process_all_feed:
  "engine_inv n S e \<Longrightarrow> n + length cmds < 2 ^ 32 - 1 \<Longrightarrow> feed_good (en_to_feed e) \<Longrightarrow> \<forall>c\<in>set cmds. cmd_wf c \<Longrightarrow>
   process_all cmds e = Some e' \<Longrightarrow> length (en_to_feed e) \<le> n * (n + 2) \<Longrightarrow>
   feed_good (en_to_feed e') \<and> engine_inv (n + length cmds) (replay_feed (en_to_feed e')) e' \<and>
   length (en_to_feed e') \<le> (n + length cmds) * (n + length cmds + 2)"
proof (induction cmds arbitrary: n S e)
  case Nil
  then show ?case using engine_baseD(8)[OF engine_invD(1)[OF Nil(1)]] by auto
next
  case (Cons c cmds)
  obtain now cmd where c: "c = (now, cmd)" by (cases c)
  have n: "n + 1 < 2 ^ 32 - 1" "n < 2 ^ 32 - 2" using Cons.prems(2) by simp_all
  obtain e1 where p: "process now cmd e = Some e1" "process_all cmds e1 = Some e'"
    using Cons.prems(5) c by (auto simp: bind_eq_Some_conv)
  obtain S1 where "engine_inv (Suc n) S1 e1" using process_ok[OF Cons.prems(1) n(1), of now cmd] p(1) by auto
  moreover have "feed_good (en_to_feed e1)"
    using step_feed_good[OF Cons.prems(1,3) process_step_feed[OF Cons.prems(1) n(2) p(1)]] Cons.prems(4) c by simp
  moreover have "length (en_to_feed e1) \<le> Suc n * (Suc n + 2)"
    by (rule step_feed_length[OF Cons.prems(1) process_step_feed[OF Cons.prems(1) n(2) p(1)] Cons.prems(6)])
  ultimately show ?case using Cons.IH[of "Suc n" S1 e1] Cons.prems(2,4) p(2) by simp
qed

end
