(* ===== verification/Itch_Book_Refine.thy ===== *)
theory Itch_Book_Refine
  imports Itch_Book Engine_Feed Order_Book_Refine
begin

text \<open>
  The builder follows the published events: its price levels are the queues of the abstract books
  the events replay to, its order table has exactly the resting orders, and its snapshots are theirs.
\<close>

section \<open>Levels and queues\<close>

definition lv_flat :: "level_map \<Rightarrow> (u64 \<times> price) list" where
  "lv_flat m = concat (map (\<lambda>(p, refs). map (\<lambda>r. (r, p)) refs) m)"

lemma lv_flat_simps [simp]:
  "lv_flat [] = []" "lv_flat ((p, refs) # m) = map (\<lambda>r. (r, p)) refs @ lv_flat m" "lv_flat (m1 @ m2) = lv_flat m1 @ lv_flat m2"
  by (simp_all add: lv_flat_def)

lemma lv_flat_price: "(r, p) \<in> set (lv_flat m) \<Longrightarrow> p \<in> fst ` set m"
  by (force simp: lv_flat_def)

definition lv_ok :: "side \<Rightarrow> level_map \<Rightarrow> resting list \<Rightarrow> bool" where
  "lv_ok s m q \<longleftrightarrow> omap_sorted (better s) m \<and> (\<forall>(p, refs)\<in>set m. refs \<noteq> []) \<and> lv_flat m = map rs_key q"

lemma lv_push:
  assumes "lv_ok s m q"
  shows "lv_ok s (level_push (better s) p ref m) (enqueue s \<lparr>rs_id = ref, rs_price = p, rs_qty = x\<rparr> q)"
proof -
  define lv where "lv = (case map_of m p of None \<Rightarrow> [] | Some refs \<Rightarrow> refs)"
  let ?r = "\<lparr>rs_id = ref, rs_price = p, rs_qty = x\<rparr>"
  have srt: "omap_sorted (better s) m" using assms by (simp add: lv_ok_def)
  obtain m1 ls m2 where sp: "m = m1 @ ls @ m2" "level_push (better s) p ref m = m1 @ (p, lv @ [ref]) # m2"
    "\<forall>x\<in>set m1. better s (fst x) p" "\<forall>x\<in>set m2. better s p (fst x)" "ls = [] \<and> lv = [] \<or> ls = [(p, lv)]"
  proof (cases "map_of m p")
    case None
    obtain m1 m2 where "m = m1 @ m2" "\<forall>x\<in>set m1. better s (fst x) p" "\<forall>x\<in>set m2. better s p (fst x)"
      "\<forall>w. omap_upd (better s) p w m = m1 @ (p, w) # m2" by (rule better.split_absent[OF srt None])
    then show ?thesis using None by (intro that[of m1 "[]" m2]) (simp_all add: level_push_def lv_def map_add_def)
  next
    case (Some refs)
    obtain m1 m2 where "m = m1 @ (p, refs) # m2" "\<forall>x\<in>set m1. better s (fst x) p" "\<forall>x\<in>set m2. better s p (fst x)"
      "\<forall>w. omap_upd (better s) p w m = m1 @ (p, w) # m2" by (rule better.split_present[OF srt Some])
    then show ?thesis using Some by (intro that[of m1 "[(p, refs)]" m2]) (simp_all add: level_push_def lv_def map_add_def)
  qed
  have "map rs_key q = lv_flat m1 @ map (\<lambda>r. (r, p)) lv @ lv_flat m2" using assms sp(1,5) by (auto simp: lv_ok_def)
  then obtain q1 q2 q3 where q: "q = q1 @ q2 @ q3" "map rs_key q1 = lv_flat m1" "map rs_key q2 = map (\<lambda>r. (r, p)) lv"
    "map rs_key q3 = lv_flat m2" by (auto simp: map_eq_append_conv append_eq_map_conv)
  have "\<not> better s p (rs_price x)" if "x \<in> set q1" for x
    using that q(2) lv_flat_price[of "rs_id x" "rs_price x" m1] sp(3) better.asym by (metis (no_types, lifting) imageE imageI image_set)
  moreover have "\<not> better s p (rs_price x)" if "x \<in> set q2" for x
    using that arg_cong[OF q(3), of set] better.irrefl by force
  moreover have "better s p (rs_price x)" if "x \<in> set q3" for x
    using that q(4) lv_flat_price[of "rs_id x" "rs_price x" m2] sp(4) by (metis (no_types, lifting) imageE imageI image_set)
  ultimately have "enqueue s ?r q = q1 @ q2 @ ?r # q3" by (simp add: q(1) enqueue_append enqueue_front)
  moreover have "omap_sorted (better s) (level_push (better s) p ref m)"
    using better.sorted_omap_upd[OF srt] by (simp add: level_push_def)
  moreover have "\<forall>(p, refs)\<in>set (m1 @ m2). refs \<noteq> []" using assms by (auto simp: lv_ok_def sp(1))
  ultimately show ?thesis using q(2-4) unfolding lv_ok_def sp(2) by auto
qed

lemma lv_erase:
  assumes "lv_ok s m q" "(ref, p) \<in> set (lv_flat m)" "distinct (map rs_id q)"
  shows "lv_ok s (erase_from (better s) p ref m) (filter (\<lambda>r. rs_id r \<noteq> ref) q)"
proof -
  have srt: "omap_sorted (better s) m" using assms by (simp add: lv_ok_def)
  have "p \<in> fst ` set m" using lv_flat_price[OF assms(2)] .
  then obtain refs where refs: "map_of m p = Some refs" by (metis map_of_eq_None_iff not_None_eq)
  obtain m1 m2 where sp: "m = m1 @ (p, refs) # m2" "\<forall>x\<in>set m1. better s (fst x) p" "\<forall>x\<in>set m2. better s p (fst x)"
    "\<forall>w. omap_upd (better s) p w m = m1 @ (p, w) # m2" "AList.delete p m = m1 @ m2"
    by (rule better.split_present[OF srt refs])
  have "p \<notin> fst ` set m1" "p \<notin> fst ` set m2" using sp(2,3) better.irrefl[of s p] by auto
  then have r: "ref \<in> set refs" using assms(2) lv_flat_price[of ref p m1] lv_flat_price[of ref p m2] by (auto simp: sp(1))
  have "map fst (lv_flat m) = map rs_id q" using assms(1) by (simp add: lv_ok_def)
  then have d: "distinct (map fst (lv_flat m))" using assms(3) by simp
  then have out: "ref \<notin> fst ` set (lv_flat m1)" "ref \<notin> fst ` set (lv_flat m2)" using r by (auto simp: sp(1) disjoint_iff)
  have keep: "filter (\<lambda>y. fst y \<noteq> ref) (lv_flat m1) = lv_flat m1" "filter (\<lambda>y. fst y \<noteq> ref) (lv_flat m2) = lv_flat m2"
    using out by (auto intro: filter_key_absent)
  have "lv_flat (erase_from (better s) p ref m) = filter (\<lambda>y. fst y \<noteq> ref) (lv_flat m)"
    using keep refs sp(4,5) by (simp add: erase_from_def Let_def sp(1) filter_map comp_def)
  also have "\<dots> = map rs_key (filter (\<lambda>r. rs_id r \<noteq> ref) q)" using assms(1) by (simp add: lv_ok_def filter_map comp_def)
  finally show ?thesis using assms(1) refs sp(4,5) srt by (auto simp: lv_ok_def erase_from_def Let_def sp(1) sorted_wrt_append)
qed

lemma lv_fill:
  "lv_ok s m q \<Longrightarrow> \<forall>r\<in>set q. \<exists>ord. ords (rs_id r) = Some ord \<and> bo_qty ord = rs_qty r \<Longrightarrow> fill_side ords m = Some (group_levels q)"
proof (induction m arbitrary: q)
  case (Cons pr m)
  obtain p refs where pr: "pr = (p, refs)" by (cases pr)
  have ok: "refs \<noteq> []" "omap_sorted (better s) m" "\<forall>x\<in>set m. better s p (fst x)" "\<forall>(p, refs)\<in>set m. refs \<noteq> []"
    using Cons.prems(1) by (auto simp: lv_ok_def pr)
  have "map rs_key q = map (\<lambda>r. (r, p)) refs @ lv_flat m" using Cons.prems(1) by (simp add: lv_ok_def pr)
  then obtain q1 q2 where q: "q = q1 @ q2" "map rs_key q1 = map (\<lambda>r. (r, p)) refs" "map rs_key q2 = lv_flat m"
    by (auto simp: map_eq_append_conv)
  have p1: "\<forall>r\<in>set q1. rs_price r = p" using arg_cong[OF q(2), of set] by force
  have p2: "q2 = [] \<or> rs_price (hd q2) \<noteq> p"
  proof (cases q2)
    case (Cons r q')
    then have "(rs_id r, rs_price r) \<in> set (lv_flat m)" using q(3) by (metis list.set_intros(1) list.simps(9))
    then show ?thesis using Cons lv_flat_price ok(3) better.irrefl by fastforce
  qed simp
  have "fill_orders ords (map rs_id qs) = Some (map (\<lambda>r. \<lparr>so_id = rs_id r, so_qty = rs_qty r\<rparr>) qs)" if "set qs \<subseteq> set q" for qs
    using that Cons.prems(2) by (induction qs) fastforce+
  moreover have "refs = map rs_id q1" using arg_cong[OF q(2), of "map fst"] by (simp add: comp_def)
  moreover have "fill_side ords m = Some (group_levels q2)"
    using Cons.IH[of q2] Cons.prems(2) ok q(1,3) by (auto simp: lv_ok_def)
  ultimately show ?case using group_levels_block[OF _ p1 p2] ok(1) by (auto simp: pr q(1))
qed (simp add: lv_ok_def)

section \<open>The builder and the abstract books\<close>

definition bb_levels :: "symbol \<Rightarrow> side \<Rightarrow> itch_book_builder \<Rightarrow> level_map" where
  "bb_levels sm s b = (if s = Buy then sy_bids (bb_book sm b) else sy_asks (bb_book sm b))"

definition bb_rel :: "itch_book_builder \<Rightarrow> books \<Rightarrow> bool" where
  "bb_rel b S \<longleftrightarrow> (\<forall>sm. distinct (spec_ids (S sm))) \<and>
     (\<forall>sm s. valid_side s \<longrightarrow> lv_ok s (bb_levels sm s b) (queue_of s (S sm))) \<and>
     (\<forall>ref sm s r. spec_find (S sm) ref = Some (s, r) \<longleftrightarrow>
        rs_id r = ref \<and> bb_orders b ref = Some \<lparr>bo_symbol = sm, bo_side = s, bo_price = rs_price r, bo_qty = rs_qty r\<rparr>)"

lemma bb_relD:
  assumes "bb_rel b S"
  shows "distinct (spec_ids (S sm))" "valid_side s \<Longrightarrow> lv_ok s (bb_levels sm s b) (queue_of s (S sm))"
    "spec_find (S sm) ref = Some (s, r) \<longleftrightarrow>
       rs_id r = ref \<and> bb_orders b ref = Some \<lparr>bo_symbol = sm, bo_side = s, bo_price = rs_price r, bo_qty = rs_qty r\<rparr>"
  using assms unfolding bb_rel_def by blast+

lemma bb_rel_new: "bb_rel bb_new (\<lambda>_. spec_empty)"
  by (simp add: bb_rel_def bb_new_def bb_levels_def bb_book_def lv_ok_def spec_empty_def spec_ids_def spec_find_def queue_of_def)

lemma bb_orders_None: "bb_rel b S \<Longrightarrow> (\<And>sm. spec_find (S sm) ref = None) \<Longrightarrow> bb_orders b ref = None"
proof (rule ccontr)
  assume "bb_rel b S" and n: "\<And>sm. spec_find (S sm) ref = None" and "bb_orders b ref \<noteq> None"
  then obtain ord where "bb_orders b ref = Some ord" by auto
  then have "spec_find (S (bo_symbol ord)) ref = Some (bo_side ord, \<lparr>rs_id = ref, rs_price = bo_price ord, rs_qty = bo_qty ord\<rparr>)"
    using bb_relD(3)[OF \<open>bb_rel b S\<close>] by simp
  then show False using n by simp
qed

text \<open>The rest of the builder's state plays no part.\<close>

lemma bb_rel_cong: "bb_rel b S \<Longrightarrow> bb_orders b' = bb_orders b \<Longrightarrow> bb_books b' = bb_books b \<Longrightarrow> bb_rel b' S"
  by (simp add: bb_rel_def bb_levels_def bb_book_def)

lemma bb_rel_books:
  assumes "bb_rel b S" "\<And>sm. sb_bids (S' sm) = sb_bids (S sm) \<and> sb_asks (S' sm) = sb_asks (S sm)"
  shows "bb_rel b S'"
proof -
  have "queue_of s (S' sm) = queue_of s (S sm)" "spec_ids (S' sm) = spec_ids (S sm)" "spec_find (S' sm) k = spec_find (S sm) k" for s sm k
    using assms(2)[of sm] by (simp_all add: queue_of_def spec_ids_def spec_find_def cong: option.case_cong)
  then show ?thesis using assms(1) unfolding bb_rel_def by simp
qed

lemma distinct_ids_rest:
  assumes "valid_side s" "distinct (spec_ids sb)" "ref \<notin> set (spec_ids sb)"
  shows "distinct (spec_ids (spec_rest ref s p q sb))"
proof -
  have "mset (spec_ids (spec_rest ref s p q sb)) = mset (ref # spec_ids sb)"
    using assms(1) mset_ids_enqueue[of Buy "\<lparr>rs_id = ref, rs_price = p, rs_qty = q\<rparr>" "sb_bids sb"]
      mset_ids_enqueue[of Sell "\<lparr>rs_id = ref, rs_price = p, rs_qty = q\<rparr>" "sb_asks sb"]
    by (auto simp: spec_rest_def spec_ids_def set_queue_def queue_of_def)
  from mset_eq_imp_distinct_iff[OF this] assms(2,3) show ?thesis by simp
qed

lemma bb_add:
  assumes rel: "bb_rel b S" and new: "\<And>sm. spec_find (S sm) ref = None" and s: "valid_side s"
  shows "bb_rel (bb_add_order ref sm s p q b) (S(sm := spec_rest ref s p q (S sm)))"
proof -
  let ?b = "bb_add_order ref sm s p q b" and ?S = "S(sm := spec_rest ref s p q (S sm))"
  have n: "ref \<notin> set (spec_ids (S sm))" using new spec_find_None by blast
  have "distinct (spec_ids (?S sm'))" for sm'
    using bb_relD(1)[OF rel] distinct_ids_rest[OF s _ n] by (cases "sm' = sm") simp_all
  moreover have "lv_ok s' (bb_levels sm' s' ?b) (queue_of s' (?S sm'))" if "valid_side s'" for sm' s'
    using bb_relD(2)[OF rel, of s' sm'] that s lv_push[of s "bb_levels sm s b" "queue_of s (S sm)" p ref q] bb_relD(2)[OF rel s, of sm]
    by (auto simp: bb_add_order_def bb_levels_def bb_book_def Let_def spec_rest_def set_queue_def queue_of_def better_fun)
  moreover have "spec_find (?S sm') k = Some (s', r) \<longleftrightarrow>
      rs_id r = k \<and> bb_orders ?b k = Some \<lparr>bo_symbol = sm', bo_side = s', bo_price = rs_price r, bo_qty = rs_qty r\<rparr>" for sm' k s' r
    using bb_relD(3)[OF rel, of sm' k s' r] new spec_find_rest[OF s n, of p q k]
    by (cases "sm' = sm"; cases "k = ref"; cases r) (auto simp: bb_add_order_def Let_def)
  ultimately show ?thesis unfolding bb_rel_def by blast
qed

lemma distinct_ids_queue: "distinct (spec_ids sb) \<Longrightarrow> distinct (map rs_id (queue_of s sb))"
  by (simp add: spec_ids_def queue_of_def)

lemma bb_levels_put:
  "bb_levels sm' s (b\<lparr>bb_books := (bb_books b)(sm \<mapsto> k), bb_orders := ords\<rparr>) =
     (if sm' = sm then if s = Buy then sy_bids k else sy_asks k else bb_levels sm' s b)"
  by (simp add: bb_levels_def bb_book_def)

lemma bb_remove:
  assumes rel: "bb_rel b S" and f: "spec_find (S sm) ref = Some (s, r)"
  shows "bb_rel (bb_remove_order ref b) (S(sm := spec_remove ref (S sm)))"
proof -
  let ?b = "bb_remove_order ref b" and ?S = "S(sm := spec_remove ref (S sm))" and ?ord = "\<lparr>bo_symbol = sm, bo_side = s, bo_price = rs_price r, bo_qty = rs_qty r\<rparr>"
  have ord: "rs_id r = ref" "bb_orders b ref = Some ?ord" using bb_relD(3)[OF rel, of sm ref s r] f by simp_all
  have s: "valid_side s" "r \<in> set (queue_of s (S sm))" using spec_find_Some[OF f] by blast+
  have d: "distinct (spec_ids (S sm))" by (rule bb_relD(1)[OF rel])
  have b: "?b = b\<lparr>bb_books := (bb_books b)(sm \<mapsto> if s = Buy
      then (bb_book sm b)\<lparr>sy_bids := erase_from (>) (rs_price r) ref (sy_bids (bb_book sm b))\<rparr>
      else (bb_book sm b)\<lparr>sy_asks := erase_from (<) (rs_price r) ref (sy_asks (bb_book sm b))\<rparr>), bb_orders := (bb_orders b)(ref := None)\<rparr>"
    using ord by (simp add: bb_remove_order_def Let_def)
  note L = bb_relD(2)[OF rel]
  have "(ref, rs_price r) \<in> set (lv_flat (bb_levels sm s b))" using L[OF s(1), of sm] s(2) ord(1) by (force simp: lv_ok_def)
  then have lv: "lv_ok s (erase_from (better s) (rs_price r) ref (bb_levels sm s b)) (filter (\<lambda>r. rs_id r \<noteq> ref) (queue_of s (S sm)))"
    by (rule lv_erase[OF L[OF s(1)] _ distinct_ids_queue[OF d]])
  have other: "filter (\<lambda>r. rs_id r \<noteq> ref) (queue_of (opp s) (S sm)) = queue_of (opp s) (S sm)"
  proof (rule filter_key_absent)
    have "rs_id ` set (sb_bids (S sm)) \<inter> rs_id ` set (sb_asks (S sm)) = {}" using d by (simp add: spec_ids_def)
    moreover have "ref \<in> rs_id ` set (queue_of s (S sm))" using s(2) ord(1) by blast
    ultimately show "ref \<notin> rs_id ` set (queue_of (opp s) (S sm))" using s(1)
      by (elim disjE) (simp_all add: queue_of_def opp_def disjoint_iff, blast+)
  qed
  have q: "queue_of s' (spec_remove ref (S sm)) = filter (\<lambda>r. rs_id r \<noteq> ref) (queue_of s' (S sm))" for s'
    by (simp add: queue_of_def spec_remove_def)
  have "lv_ok s' (bb_levels sm' s' ?b) (queue_of s' (?S sm'))" if "valid_side s'" for sm' s'
  proof (cases "sm' = sm")
    case True
    have "s' = s \<or> s' = opp s" using that s(1) by (auto simp: opp_def)
    then show ?thesis using True lv other L[OF that, of sm] s(1) unfolding b bb_levels_put
      by (auto simp: q bb_levels_def better_fun)
  next
    case False
    then show ?thesis using L[OF that, of sm'] unfolding b bb_levels_put by simp
  qed
  moreover have "distinct (spec_ids (?S sm'))" for sm'
    using bb_relD(1)[OF rel] d by (auto simp: spec_ids_def spec_remove_def distinct_map_filter)
  moreover have "spec_find (?S sm') k = Some (s', r') \<longleftrightarrow>
      rs_id r' = k \<and> bb_orders ?b k = Some \<lparr>bo_symbol = sm', bo_side = s', bo_price = rs_price r', bo_qty = rs_qty r'\<rparr>" for sm' k s' r'
    using bb_relD(3)[OF rel, of sm' k s' r'] ord by (cases "sm' = sm"; cases "k = ref") (auto simp: b spec_find_remove)
  ultimately show ?thesis unfolding bb_rel_def by blast
qed

lemma bb_set_qty:
  assumes rel: "bb_rel b S" and f: "spec_find (S sm) ref = Some (s, r)"
  shows "bb_rel (b\<lparr>bb_orders := (bb_orders b)(ref \<mapsto> \<lparr>bo_symbol = sm, bo_side = s, bo_price = rs_price r, bo_qty = q\<rparr>)\<rparr>)
    (S(sm := spec_reduce ref q (S sm)))"
proof -
  let ?S = "S(sm := spec_reduce ref q (S sm))"
  have ord: "rs_id r = ref" "bb_orders b ref = Some \<lparr>bo_symbol = sm, bo_side = s, bo_price = rs_price r, bo_qty = rs_qty r\<rparr>"
    using bb_relD(3)[OF rel, of sm ref s r] f by simp_all
  have keys: "map rs_key (queue_of s' (?S sm')) = map rs_key (queue_of s' (S sm'))" for s' sm'
    by (auto simp: queue_of_def spec_reduce_def set_qty_def)
  have "map rs_id (set_qty ref q rs) = map rs_id rs" for rs by (auto simp: set_qty_def)
  then have "spec_ids (?S sm') = spec_ids (S sm')" for sm' by (simp add: spec_ids_def spec_reduce_def)
  moreover have "spec_find (?S sm') k = Some (s', r') \<longleftrightarrow> rs_id r' = k \<and>
      ((bb_orders b)(ref \<mapsto> \<lparr>bo_symbol = sm, bo_side = s, bo_price = rs_price r, bo_qty = q\<rparr>)) k =
        Some \<lparr>bo_symbol = sm', bo_side = s', bo_price = rs_price r', bo_qty = rs_qty r'\<rparr>" for sm' k s' r'
  proof (cases "k = ref")
    case True
    have eq: "(s, r\<lparr>rs_qty := q\<rparr>) = (s', r') \<longleftrightarrow> rs_id r' = ref \<and> s = s' \<and> rs_price r = rs_price r' \<and> q = rs_qty r'"
      using ord(1) by (cases r; cases r') auto
    show ?thesis
    proof (cases "sm' = sm")
      case same: True
      have "spec_find (?S sm') k = Some (s, r\<lparr>rs_qty := q\<rparr>)" using True same f by (simp add: spec_find_reduce)
      then show ?thesis using True same eq by simp
    next
      case other: False
      then show ?thesis using True bb_relD(3)[OF rel, of sm' ref s' r'] ord(2) by simp
    qed
  next
    case False
    then show ?thesis using bb_relD(3)[OF rel, of sm' k s' r'] by (cases "sm' = sm") (simp_all add: spec_find_reduce)
  qed
  ultimately show ?thesis using rel keys unfolding bb_rel_def lv_ok_def by (simp add: bb_levels_def bb_book_def)
qed

lemma bb_reduce:
  assumes rel: "bb_rel b S" and f: "spec_find (S sm) ref = Some (s, r)"
  shows "bb_rel (bb_reduce_order ref by b) (S(sm := replay_reduce ref by (S sm)))"
proof -
  have "bb_orders b ref = Some \<lparr>bo_symbol = sm, bo_side = s, bo_price = rs_price r, bo_qty = rs_qty r\<rparr>"
    using bb_relD(3)[OF rel, of sm ref s r] f by simp
  then show ?thesis using f bb_remove[OF rel f] bb_set_qty[OF rel f, of "rs_qty r - by"]
    by (auto simp: bb_reduce_order_def replay_reduce_def)
qed

lemma bb_snapshot_rel:
  assumes "bb_rel b S"
  shows "bb_snapshot sm b = Some (spec_snapshot (S sm))"
proof -
  have q: "\<exists>ord. bb_orders b (rs_id r) = Some ord \<and> bo_qty ord = rs_qty r" if "valid_side s" "r \<in> set (queue_of s (S sm))" for s r
  proof -
    have "spec_find (S sm) (rs_id r) = Some (s, r)"
      using that bb_relD(1)[OF assms, of sm] by (intro spec_find_ids) auto
    then show ?thesis using bb_relD(3)[OF assms] by fastforce
  qed
  have "fill_side (bb_orders b) (bb_levels sm s b) = Some (group_levels (queue_of s (S sm)))" if "valid_side s" for s
    using lv_fill[OF bb_relD(2)[OF assms that]] q[OF that] by blast
  from this[of Buy] this[of Sell] show ?thesis
    by (auto simp: bb_snapshot_def bb_levels_def bb_book_def spec_snapshot_def queue_of_def split: option.splits)
qed

end
