(* ===== verification/Feed_Props.thy ===== *)
theory Feed_Props
  imports Feed Itch_Book_Refine Engine_Props
begin

text \<open>
  From the matching engine to the reader of its market data: the messages decode to the events, the
  packets carry them in order and without gaps, and the books built from them are the engine's.
\<close>

section \<open>One event\<close>

lemma itch_of_not_trade: "\<not> is_trade (itch_of me loc ev)"
  by (cases ev) simp_all

lemma itch_of_wf: "wire_event me \<Longrightarrow> wf_message (itch_of me loc (me_ev me))"
  by (cases "me_ev me") (auto simp: wire_event_def wf_header_def)

lemma to_itch_decode: "wire_event me \<Longrightarrow> itch_decode (to_itch me loc) (length (to_itch me loc)) = Some (itch_of me loc (me_ev me))"
  using itch.dec_enc[OF itch_of_not_trade itch_of_wf] by (simp add: to_itch_def encode_bytes_def itch_length_enc)

lemma length_to_itch: "length (to_itch me loc) < 2 ^ 16"
proof -
  have "length (to_itch me loc) = itch_kSize (itch_of me loc (me_ev me))" by (simp add: to_itch_def encode_bytes_def itch_length_enc)
  then show ?thesis by (cases "me_ev me") simp_all
qed

lemma bb_event:
  assumes rel: "bb_rel b S" and ok: "market_ok me S" and wire: "wire_event me"
  shows "bb_rel (bb_on_bytes (to_itch me loc) b) (replay_market me S)"
proof -
  let ?sm = "me_symbol me" and ?sb = "S (me_symbol me)"
  have rel1: "bb_rel (b\<lparr>bb_messages := x, bb_last_ts := y\<rparr>) S" for x y by (rule bb_rel_cong[OF rel]) simp_all
  obtain new p where loc: "ev_local new p (me_ev me) ?sb" using ok by (auto simp: market_ok_def)
  have fresh: "\<And>new sm. ev_new (me_ev me) = Some new \<Longrightarrow> spec_find (S sm) new = None" using ok by (simp add: market_ok_def)
  have d: "bb_on_bytes (to_itch me loc') b = bb_on_message (itch_of me loc' (me_ev me)) b" for loc'
    by (simp add: bb_on_bytes_def to_itch_decode[OF wire])
  show ?thesis
  proof (cases "me_ev me")
    case (EvAdded a)
    then show ?thesis using bb_add[OF rel1, where ref = "ad_id a" and s = "ad_side a" and sm = ?sm] loc fresh by (simp add: d replay_market_def)
  next
    case (EvExecuted x)
    then obtain s r where f: "spec_find ?sb (xe_resting_id x) = Some (s, r)" using loc by auto
    have "bb_rel (b\<lparr>bb_messages := m, bb_last_ts := t, bb_last_trade_price := p, bb_last_trade_qty := q, bb_executed_shares := y\<rparr>) S" for m t p q y
      by (rule bb_rel_cong[OF rel]) simp_all
    moreover have "bb_rel (b\<lparr>bb_messages := m, bb_last_ts := t, bb_last_trade_qty := q, bb_executed_shares := y\<rparr>) S" for m t q y
      by (rule bb_rel_cong[OF rel]) simp_all
    ultimately have "bb_rel (bb_on_bytes (to_itch me loc) b) (S(?sm := replay_reduce (xe_resting_id x) (xe_qty x) ?sb))"
      using bb_reduce[where S = S and sm = ?sm, OF _ f] EvExecuted by (simp add: d bb_on_executed_def Let_def split: option.splits)
    then show ?thesis by (rule bb_rel_books) (simp add: EvExecuted replay_market_def)
  next
    case (EvCanceled c)
    then obtain s r where f: "spec_find ?sb (ce_id c) = Some (s, r)" using loc by auto
    show ?thesis using bb_remove[OF rel1 f] bb_reduce[OF rel1 f] EvCanceled by (simp add: d replay_market_def)
  next
    case (EvReplaced c)
    then obtain r where f: "spec_find ?sb (re_old_id c) = Some (re_side c, r)" and ne: "re_old_id c \<noteq> re_new_id c" using loc by auto
    have "bb_orders b (re_old_id c) = Some \<lparr>bo_symbol = ?sm, bo_side = re_side c, bo_price = rs_price r, bo_qty = rs_qty r\<rparr>"
      using bb_relD(3)[OF rel] f by simp
    moreover have "spec_find ((S(?sm := spec_remove (re_old_id c) ?sb)) sm) (re_new_id c) = None" for sm
      using fresh[of "re_new_id c" sm] EvReplaced by (auto simp: spec_find_remove)
    moreover have "valid_side (re_side c)" using spec_find_Some(1)[OF f] .
    ultimately show ?thesis using bb_add[OF bb_remove[OF rel1 f], where ref = "re_new_id c" and s = "re_side c" and sm = ?sm] EvReplaced
      by (simp add: d replay_market_def)
  qed
qed

text \<open>Events paired with the stock locates they are published under.\<close>

type_synonym located = "(market_event \<times> u16) list"

abbreviation itch_bytes :: "located \<Rightarrow> bytes list" where
  "itch_bytes es \<equiv> map (\<lambda>(me, loc). to_itch me loc) es"

lemma bb_events:
  "bb_rel b S \<Longrightarrow> feed_from S (map fst es) \<Longrightarrow> \<forall>e\<in>set es. wire_event (fst e) \<Longrightarrow>
   bb_rel (fold bb_on_bytes (itch_bytes es) b) (fold replay_market (map fst es) S)"
proof (induction es arbitrary: b S)
  case (Cons e es)
  obtain me loc where "e = (me, loc)" by (cases e)
  then show ?case using Cons.IH[OF bb_event[OF Cons.prems(1), of me loc]] Cons.prems by simp
qed simp

section \<open>The packets of a publisher\<close>

text \<open>A receiver of every datagram, in order.\<close>

definition receive :: "bytes list \<Rightarrow> itch_book_builder \<Rightarrow> itch_book_builder" where
  "receive ds b = fold (\<lambda>d b. fst (on_mold_packet d b)) ds b"

lemma receive_simps [simp]: "receive [] b = b" "receive (d # ds) b = receive ds (fst (on_mold_packet d b))"
  "receive (ds @ es) b = receive es (receive ds b)"
  by (simp_all add: receive_def)

lemma bb_on_bytes_gaps [simp]: "bb_gaps (bb_on_bytes m b) = bb_gaps b"
proof -
  have "bb_gaps (bb_remove_order ref b) = bb_gaps b" for ref b by (simp add: bb_remove_order_def Let_def split: option.splits)
  moreover have "bb_gaps (bb_add_order ref sm s p q b) = bb_gaps b" for ref sm s p q b by (simp add: bb_add_order_def Let_def)
  moreover have "bb_gaps (bb_reduce_order ref q b) = bb_gaps b" for ref q b using calculation(1)
    by (simp add: bb_reduce_order_def split: option.splits)
  ultimately have "bb_gaps (bb_on_message msg b) = bb_gaps b" for msg
    by (cases msg) (simp_all add: bb_on_executed_def Let_def split: option.splits)
  then show ?thesis by (simp add: bb_on_bytes_def split: option.splits)
qed

lemma fold_bb_gaps [simp]: "bb_gaps (fold bb_on_bytes ms b) = bb_gaps b"
  by (induction ms arbitrary: b) simp_all

definition in_step :: "itch_book_builder \<Rightarrow> u64 \<Rightarrow> bool" where
  "in_step b seq \<longleftrightarrow> bb_gaps b = \<lparr>gd_expected = seq, gd_had_gap = False\<rparr>"

text \<open>The receiver's books do not see the sequencing, only the messages.\<close>

lemma bb_rel_gaps: "bb_rel b S \<Longrightarrow> bb_rel (b\<lparr>bb_gaps := g\<rparr>) S"
  by (rule bb_rel_cong) simp_all

lemma receive_packets:
  assumes sess: "length session = 10" and mtu: "mtu < 131090"
  shows "in_step b seq \<Longrightarrow> bb_rel b S \<Longrightarrow> \<forall>seg\<in>set segs. seg_ok mtu seg \<Longrightarrow> concat segs = itch_bytes es \<Longrightarrow>
    feed_from S (map fst es) \<Longrightarrow> \<forall>e\<in>set es. wire_event (fst e) \<Longrightarrow> unat seq + length es < 2 ^ 64 \<Longrightarrow>
    in_step (receive (packets session seq segs) b) (seq + of_nat (length es)) \<and>
    bb_rel (receive (packets session seq segs) b) (fold replay_market (map fst es) S)"
proof (induction segs arbitrary: b seq S es)
  case (Cons seg segs)
  obtain es1 es2 where es: "es = es1 @ es2" "seg = itch_bytes es1" "concat segs = itch_bytes es2"
    using Cons.prems(4) by (auto simp: map_eq_append_conv append_eq_map_conv)
  let ?seq = "seq + of_nat (length seg)" and ?b = "fst (on_mold_packet (packet session seq (of_nat (length seg)) seg) b)"
  have l: "length seg = length es1" by (simp add: es(2))
  have "\<forall>m\<in>set seg. length m < 2 ^ 16" using length_to_itch by (auto simp: es(2))
  then have p: "parse (packet session seq (of_nat (length seg)) seg) =
      Some \<lparr>dp_session = session, dp_seq = seq, dp_end_of_session = False, dp_messages = seg\<rparr>"
    using seg_ok_packet[OF _ mtu sess] Cons.prems(3) by simp
  have b: "?b = fold bb_on_bytes seg (b\<lparr>bb_gaps := fst (on_packet seq (length seg) (bb_gaps b))\<rparr>)"
    by (simp add: on_mold_packet_def p Let_def)
  have seg: "0 < length seg" using Cons.prems(3) by (auto simp: seg_ok_def)
  have u: "unat ?seq = unat seq + length seg" using Cons.prems(7) by (intro unat_add_nat) (simp add: es(1) l)
  have "fst (on_packet seq (length seg) (bb_gaps b)) = \<lparr>gd_expected = ?seq, gd_had_gap = False\<rparr>"
    using on_packet_messages[of "bb_gaps b" seq "length seg"] Cons.prems(1,7) seg by (simp add: in_step_def es(1) l)
  then have "in_step ?b ?seq" unfolding b by (simp add: in_step_def)
  moreover have "bb_rel (fold bb_on_bytes seg (b\<lparr>bb_gaps := g\<rparr>)) (fold replay_market (map fst es1) S)" for g
    unfolding es(2) using Cons.prems(5,6) by (intro bb_events bb_rel_gaps Cons.prems(2)) (simp_all add: es(1) feed_from_append)
  then have "bb_rel ?b (fold replay_market (map fst es1) S)" unfolding b .
  ultimately show ?case
    using Cons.IH[of ?b ?seq "fold replay_market (map fst es1) S" es2] Cons.prems(3,5,6,7) u es(3)
    by (simp add: es(1) feed_from_append l add.assoc)
qed simp

lemma receive_empty:
  assumes "in_step b seq" "parse d = Some \<lparr>dp_session = session, dp_seq = seq, dp_end_of_session = eos, dp_messages = []\<rparr>"
  shows "fst (on_mold_packet d b) = b"
proof -
  have "fst (on_packet seq 0 (bb_gaps b)) = bb_gaps b" using assms(1) by (simp add: in_step_def on_packet_def Let_def)
  then show ?thesis using assms(2) by (simp add: on_mold_packet_def Let_def)
qed

section \<open>The publisher and its receiver\<close>

lemma add_event_all:
  "\<exists>es. map fst es = evs \<and> fp_packetizer (fold add_event evs fp) = fold add_message (itch_bytes es) (fp_packetizer fp) \<and>
     fp_sent (fold add_event evs fp) = fp_sent fp"
proof (induction evs arbitrary: fp)
  case (Cons me evs)
  obtain loc fp1 where l: "locate_for (me_symbol me) fp = (loc, fp1)" by (metis surj_pair)
  have "fp_packetizer fp1 = fp_packetizer fp" "fp_sent fp1 = fp_sent fp"
    using l by (auto simp: locate_for_def Let_def split: option.splits)
  then have 1: "fp_packetizer (add_event me fp) = add_message (to_itch me loc) (fp_packetizer fp)" "fp_sent (add_event me fp) = fp_sent fp"
    by (simp_all add: add_event_def l)
  obtain es where "map fst es = evs" "fp_packetizer (fold add_event evs (add_event me fp)) = fold add_message (itch_bytes es) (fp_packetizer (add_event me fp))"
    "fp_sent (fold add_event evs (add_event me fp)) = fp_sent (add_event me fp)" using Cons.IH by blast
  then show ?case using 1 by (intro exI[of _ "(me, loc) # es"]) simp
qed simp

lemma send_datagrams [simp]:
  "fp_packetizer (fold (send_datagram clock) ds fp) = fp_packetizer fp"
  "fp_sent (fold (send_datagram clock) ds fp) = fp_sent fp @ ds"
  by (induction ds arbitrary: fp) (simp_all add: send_datagram_def)

text \<open>Everything published so far has reached the receiver, whose books are the ones the events replay to.\<close>

definition feed_sync :: "nat \<Rightarrow> feed_publisher \<Rightarrow> market_event list \<Rightarrow> bool" where
  "feed_sync mtu fp ms \<longleftrightarrow> (\<exists>session. pk_state session mtu (1 + of_nat (length ms)) [] [] (fp_packetizer fp)) \<and>
     in_step (receive (fp_sent fp) bb_new) (1 + of_nat (length ms)) \<and>
     bb_rel (receive (fp_sent fp) bb_new) (replay_feed ms)"

lemma feed_sync_new: "feed_sync mtu (feed_publisher_new session mtu capture) []"
  using pk_state_new[of "make_session session" mtu] bb_rel_new
  by (auto simp: feed_sync_def feed_publisher_new_def in_step_def bb_new_def gap_detector_new_def replay_feed_def)

lemma sync_publish:
  assumes sync: "feed_sync mtu fp ms" and good: "feed_good (ms @ evs)" and mtu: "mtu < 131090" and n: "1 + length (ms @ evs) < 2 ^ 64"
  shows "feed_sync mtu (publish clock evs fp) (ms @ evs)"
proof -
  let ?seq = "1 + of_nat (length ms) :: u64"
  obtain session where pk: "pk_state session mtu ?seq [] [] (fp_packetizer fp)" using sync by (auto simp: feed_sync_def)
  obtain es where es: "map fst es = evs" "fp_packetizer (fold add_event evs fp) = fold add_message (itch_bytes es) (fp_packetizer fp)"
    "fp_sent (fold add_event evs fp) = fp_sent fp" using add_event_all by blast
  obtain sg cur where sg: "concat sg @ cur = itch_bytes es" "pk_state session mtu ?seq sg cur (fold add_message (itch_bytes es) (fp_packetizer fp))"
    using add_messages_state[OF pk, of "itch_bytes es"] by auto
  define segs where "segs = (if cur = [] then sg else sg @ [cur])"
  have segs: "concat segs = itch_bytes es" "pk_state session mtu ?seq segs [] (flush (fold add_message (itch_bytes es) (fp_packetizer fp)))"
    using sg(1) flush_state[OF sg(2)] by (auto simp: segs_def)
  note P = segs(2)[unfolded pk_state_def]
  have sent: "fp_sent (publish clock evs fp) = fp_sent fp @ packets session ?seq segs"
    "fp_packetizer (publish clock evs fp) = (flush (fold add_message (itch_bytes es) (fp_packetizer fp)))\<lparr>pk_ready := []\<rparr>"
    using P es by (simp_all add: publish_def send_ready_def take_packets_def)
  have len: "length es = length evs" using es(1) by auto
  have "pk_state session mtu (1 + of_nat (length (ms @ evs))) [] [] (fp_packetizer (publish clock evs fp))"
    using P segs(1) len unfolding sent pk_state_def by (simp add: add.assoc)
  moreover have "unat ?seq + length es < 2 ^ 64" using n len by (simp add: unat_word_ariths unat_of_nat)
  moreover have "feed_from (replay_feed ms) (map fst es)" "\<forall>e\<in>set es. wire_event (fst e)"
    using good by (simp_all add: feed_good_def feed_from_append replay_feed_def flip: es(1))
  moreover have "replay_feed (ms @ evs) = fold replay_market (map fst es) (replay_feed ms)" by (simp add: replay_feed_def es(1))
  ultimately show ?thesis
    using receive_packets[of session mtu "receive (fp_sent fp) bb_new" ?seq "replay_feed ms" segs es] sync P segs(1) mtu len
    unfolding feed_sync_def sent by (auto simp: add.assoc)
qed

lemma sync_send_empty:
  assumes sync: "feed_sync mtu fp ms" and d: "d = make_header (pk_session (fp_packetizer fp)) (pk_next_seq (fp_packetizer fp)) cnt"
    and cnt: "cnt = 0 \<or> cnt = kEndOfSessionCount"
  shows "feed_sync mtu (send_datagram clock d fp) ms"
proof -
  let ?seq = "1 + of_nat (length ms) :: u64"
  obtain session where pk: "pk_state session mtu ?seq [] [] (fp_packetizer fp)" using sync by (auto simp: feed_sync_def)
  let ?d = "\<lparr>dp_session = session, dp_seq = ?seq, dp_end_of_session = (cnt = kEndOfSessionCount), dp_messages = []\<rparr>"
  have "d = packet_of ?d" using d cnt pk by (auto simp: pk_state_def packet_of_def make_header_eq kEndOfSessionCount_def)
  moreover have "wf_packet ?d" using pk by (simp add: wf_packet_def pk_state_def)
  ultimately have "parse d = Some ?d" using parse_packet by blast
  then have "fst (on_mold_packet d (receive (fp_sent fp) bb_new)) = receive (fp_sent fp) bb_new"
    using sync receive_empty by (auto simp: feed_sync_def)
  then show ?thesis using sync by (simp add: feed_sync_def send_datagram_def)
qed

lemma sync_run_batches:
  "feed_sync mtu fp ms \<Longrightarrow> mtu < 131090 \<Longrightarrow> \<forall>(evs, stopped)\<in>set batches. stopped \<longrightarrow> evs \<noteq> [] \<Longrightarrow>
   feed_good (ms @ concat (map fst batches)) \<Longrightarrow> 1 + length (ms @ concat (map fst batches)) < 2 ^ 64 \<Longrightarrow>
   feed_sync mtu (run_batches clock batches fp) (ms @ concat (map fst batches))"
proof (induction batches arbitrary: fp ms)
  case (Cons bt batches)
  obtain evs stopped where bt: "bt = (evs, stopped)" by (cases bt)
  show ?case
  proof (cases "evs = []")
    case True
    have "feed_sync mtu (send_datagram clock (heartbeat (fp_packetizer fp)) fp) ms"
      using Cons.prems(1) by (intro sync_send_empty) (auto simp: heartbeat_def)
    then show ?thesis using Cons.IH Cons.prems True by (simp add: bt)
  next
    case False
    have "feed_good (ms @ evs)" using Cons.prems(4) by (auto simp: bt feed_good_def feed_from_append)
    then have "feed_sync mtu (publish clock evs fp) (ms @ evs)"
      using sync_publish[OF Cons.prems(1) _ Cons.prems(2)] Cons.prems(5) by (simp add: bt)
    then show ?thesis using Cons.IH[of "publish clock evs fp" "ms @ evs"] Cons.prems False by (simp add: bt)
  qed
qed simp

lemma run_batches_stop: "run_batches clock (batches @ [([], True)]) fp = run_batches clock batches fp"
  by (induction clock batches fp rule: run_batches.induct) simp_all

lemma sync_feed_run:
  assumes "mtu < 131090" "\<forall>(evs, stopped)\<in>set batches. stopped \<longrightarrow> evs \<noteq> []"
    and "ms = concat (map fst batches) @ final" "feed_good ms" "1 + length ms < 2 ^ 64"
  shows "feed_sync mtu (feed_run clock batches final (feed_publisher_new session mtu capture)) ms"
proof -
  let ?fp = "run_batches clock batches (feed_publisher_new session mtu capture)"
  have "feed_good (concat (map fst batches))" using assms(3,4) by (auto simp: feed_good_def feed_from_append)
  then have "feed_sync mtu ?fp (concat (map fst batches))"
    using sync_run_batches[OF feed_sync_new[of mtu session capture] assms(1,2), of clock] assms(3,5) by simp
  then have "feed_sync mtu (publish clock final ?fp) ms" using sync_publish[OF _ _ assms(1)] assms(3-5) by blast
  then show ?thesis unfolding feed_run_def Let_def by (rule sync_send_empty[where cnt = kEndOfSessionCount]) (simp_all add: end_of_session_def)
qed

section \<open>Properties\<close>

text \<open>
  C3. Market data is faithful from end to end: whatever commands the engine processes and however its
  market events are split into batches, a receiver of all datagrams of the publisher sees no gap and
  builds, for every symbol, exactly the book the engine holds: the same levels, orders and quantities
  in the same order.
\<close>

theorem market_data_end_to_end:
  assumes "process_all cmds en_init = Some e" "\<forall>c\<in>set cmds. cmd_wf c" "length cmds < 2 ^ 32 - 1"
    and "concat (map fst batches) @ final = en_to_feed e" "\<forall>(evs, stopped)\<in>set batches. stopped \<longrightarrow> evs \<noteq> []" "mtu < 131090"
    and "fp = feed_run clock (batches @ [([], True)]) final (feed_publisher_new session mtu capture)"
    and "b = receive (fp_sent fp) bb_new"
  shows "bb_snapshot sm b = book_snapshot_of e sm \<and> \<not> gd_had_gap (bb_gaps b)"
proof -
  have E: "feed_good (en_to_feed e)" "engine_inv (length cmds) (replay_feed (en_to_feed e)) e"
    "length (en_to_feed e) \<le> length cmds * (length cmds + 2)"
    using process_all_feed[OF engine_inv_init _ _ assms(2,1)] assms(3) by (simp_all add: en_init_def feed_good_def)
  have "length cmds * (length cmds + 2) \<le> (2 ^ 32 - 2) * 2 ^ 32" using assms(3) by (intro mult_le_mono) simp_all
  then have "1 + length (en_to_feed e) < 2 ^ 64" using E(3) by simp
  from sync_feed_run[OF assms(6,5) assms(4)[symmetric] E(1) this, of clock session capture]
  have "feed_sync mtu fp (en_to_feed e)" by (simp add: assms(7) feed_run_def run_batches_stop)
  then have "bb_rel b (replay_feed (en_to_feed e))" "\<not> gd_had_gap (bb_gaps b)"
    by (simp_all add: feed_sync_def assms(8) in_step_def)
  then show ?thesis using bb_snapshot_rel snapshot_of_inv[OF E(2)] by simp
qed

theorem market_data_end_to_end_witness:
  "\<exists>e. process_all demo_flow en_init = Some e \<and>
     (let fp = feed_run (\<lambda>_. 7) [([], False), ([], True)] (en_to_feed e) (feed_publisher_new [0x4E] 1400 None) in
      bb_snapshot (make_symbol [0x41]) (receive (fp_sent fp) bb_new) = book_snapshot_of e (make_symbol [0x41]))"
proof -
  obtain e where e: "process_all demo_flow en_init = Some e" by (rule demo_flow_reach)
  have "\<forall>c\<in>set demo_flow. cmd_wf c" by (simp add: demo_flow_def demo_enter_def cmd_wf_def wire_price_def make_symbol_def)
  from market_data_end_to_end[OF e this _ _ _ _ refl refl, of "[([], False)]" "en_to_feed e" 1400 "make_symbol [0x41]"] e show ?thesis
    by (auto simp: demo_flow_def)
qed

end
