(* ===== verification/Wire_Props.thy ===== *)
theory Wire_Props
  imports Mold Capture Itch_Book
begin

text \<open>
  What the framing layers guarantee: MoldUDP64 packets are parsed exactly and lose nothing, a gap is
  reported if and only if a packet overtakes a message, capture files and raw ITCH files are read back.
\<close>

section \<open>MoldUDP64\<close>

text \<open>
  C31. The MoldUDP64 parser accepts exactly the well-formed packets: it returns a packet if and only if
  the datagram is the encoding of that packet. In particular no truncated or over-long datagram, and no
  wrong message count, is accepted.
\<close>

theorem mold_parse_exact: "parse p = Some d \<longleftrightarrow> wf_packet d \<and> p = packet_of d"
  using parse_Some parse_packet by blast

lemma packets_nth:
  "i < length segs \<Longrightarrow> packets session seq segs ! i =
     packet session (seq + of_nat (length (concat (take i segs)))) (of_nat (length (segs ! i))) (segs ! i)"
  by (induction segs arbitrary: seq i) (auto simp: nth_Cons add.assoc split: nat.splits)

lemma length_packets [simp]: "length (packets session seq segs) = length segs"
  by (induction segs arbitrary: seq) simp_all

text \<open>
  C28. The packetizer loses and reorders nothing: the packets it has closed after a flush carry exactly
  the messages it was given, in order, numbered from 1 without holes; every packet parses, and stays
  within the MTU unless it holds a single message. The bound on the MTU keeps the 16-bit count from
  wrapping and from reading as an end of session.
\<close>

theorem packetizer_lossless:
  assumes "\<forall>m\<in>set ms. length m < 2 ^ 16" "mtu < 131090"
    and "s = flush (fold add_message ms (packetizer_new (make_session sv) mtu))"
  shows "\<exists>segs. concat segs = ms \<and> length segs = length (pk_ready s) \<and> (\<forall>i<length segs.
    segs ! i \<noteq> [] \<and> (length (pk_ready s ! i) \<le> mtu \<or> length (segs ! i) = 1) \<and>
    parse (pk_ready s ! i) = Some \<lparr>dp_session = make_session sv, dp_seq = 1 + of_nat (length (concat (take i segs))),
      dp_end_of_session = False, dp_messages = segs ! i\<rparr>)"
proof -
  have new: "pk_state (make_session sv) mtu 1 [] [] (packetizer_new (make_session sv) mtu)" by (rule pk_state_new) simp
  obtain sg cur where sg: "concat sg @ cur = ms" "pk_state (make_session sv) mtu 1 sg cur (fold add_message ms (packetizer_new (make_session sv) mtu))"
    using add_messages_state[OF new, of ms] by auto
  define segs where "segs = (if cur = [] then sg else sg @ [cur])"
  have segs: "concat segs = ms" "pk_state (make_session sv) mtu 1 segs [] s"
    using sg(1) flush_state[OF sg(2)] by (auto simp: segs_def assms(3))
  then have r: "pk_ready s = packets (make_session sv) 1 segs" "\<forall>seg\<in>set segs. seg_ok mtu seg" by (simp_all add: pk_state_def)
  have "segs ! i \<noteq> [] \<and> (length (pk_ready s ! i) \<le> mtu \<or> length (segs ! i) = 1) \<and>
      parse (pk_ready s ! i) = Some \<lparr>dp_session = make_session sv, dp_seq = 1 + of_nat (length (concat (take i segs))),
        dp_end_of_session = False, dp_messages = segs ! i\<rparr>" if i: "i < length segs" for i
  proof -
    have ok: "seg_ok mtu (segs ! i)" "\<forall>m\<in>set (segs ! i). length m < 2 ^ 16" using r(2) i assms(1) segs(1) by fastforce+
    then show ?thesis using packets_nth[OF i] seg_ok_packet[OF ok(1) assms(2) _ ok(2)]
      by (auto simp: r(1) seg_ok_def length_packet)
  qed
  then show ?thesis using segs(1) r(1) by auto
qed

theorem packetizer_lossless_witness:
  "\<exists>segs. concat segs = ([[1, 2], [3]] :: bytes list) \<and> length segs = length (pk_ready (flush (fold add_message [[1, 2], [3]] (packetizer_new (make_session []) 24))))"
  using packetizer_lossless[of "[[1, 2], [3]]" 24 _ "[]", OF _ _ refl] by auto

text \<open>
  C29. Gap detection is exact, for packets that are lost, doubled or delivered in any order, with
  heartbeats anywhere among them: the detector has reported a gap if and only if some packet, or
  heartbeat, arrived while a message numbered before it had not; a message that arrives later does not
  take the report back. Without a report the messages received are exactly those from 1 up to, and
  without, the number expected next. So messages lost at the end show only with the next packet or
  heartbeat. Sequence numbers do not wrap.
\<close>

theorem gap_reported_exactly:
  assumes "\<forall>(seq, cnt)\<in>set ps. unat seq + cnt < 2 ^ 64"
  shows "(gd_had_gap (detect ps) \<longleftrightarrow> (\<exists>i<length ps. \<exists>k. 1 \<le> k \<and> k < unat (fst (ps ! i)) \<and> k \<notin> numbers (take i ps))) \<and>
    (\<not> gd_had_gap (detect ps) \<longrightarrow> {k \<in> numbers ps. 1 \<le> k} = {1..<unat (gd_expected (detect ps))})"
  using detect_inv[OF assms] unfolding overtakes_def by auto

theorem gap_reported_exactly_witness:
  "gd_had_gap (detect [(1, 2), (4, 1), (3, 1)]) \<and> \<not> gd_had_gap (detect [(1, 2), (1, 2), (3, 0)]) \<and>
   {k \<in> numbers [(1, 2), (1, 2), (3, 0)]. 1 \<le> k} = {1..<3}"
proof -
  let ?ps = "[(1, 2), (4, 1), (3, 1)] :: arrival list"
  have "\<exists>i<length ?ps. \<exists>k. 1 \<le> k \<and> k < unat (fst (?ps ! i)) \<and> k \<notin> numbers (take i ?ps)"
    by (intro exI[of _ 1] exI[of _ 3] conjI) (simp_all add: numbers_def)
  then have "gd_had_gap (detect ?ps)" using gap_reported_exactly[of ?ps] by simp
  moreover have d: "detect [(1, 2), (1, 2), (3, 0)] = \<lparr>gd_expected = 3, gd_had_gap = False\<rparr>" by code_simp
  moreover have "{k \<in> numbers [(1, 2), (1, 2), (3, 0)]. 1 \<le> k} = {1..<3}"
    using gap_reported_exactly[of "[(1, 2), (1, 2), (3, 0)]"] d by simp
  ultimately show ?thesis by simp
qed

section \<open>Files\<close>

text \<open>
  C32. A capture file reads back as the records written to it; and when it is cut off anywhere behind its
  magic number, reading gives exactly the records that are complete, and stops.
\<close>

theorem capture_file_reads_back:
  assumes "\<forall>rec\<in>set recs. length (crec_bytes rec) < 2 ^ 16" "8 \<le> k"
    and "capture_write_all recs (capture_writer_new True) = Some file"
  shows "\<exists>n\<le>length recs. capture_read_all (capture_reader_new (Some (take k file))) = take n recs \<and>
    (if length file \<le> k then n = length recs
     else 8 + length (concat (map record_bytes (take n recs))) \<le> k \<and> k < 8 + length (concat (map record_bytes (take (Suc n) recs))))"
proof -
  have f: "file = kCaptureMagic @ concat (map record_bytes recs)" using assms(3) by (simp add: capture_writer_new_def capture_write_all_bytes)
  have L: "length kCaptureMagic = 8" by (simp add: kCaptureMagic_def)
  then have r: "capture_reader_new (Some (take k file)) = Some (take (k - 8) (concat (map record_bytes recs)))"
    using assms(2) capture_reader_file by (simp add: f)
  obtain n where n: "n \<le> length recs" "capture_read_all (Some (take (k - 8) (concat (map record_bytes recs)))) = take n recs"
    "length (concat (map record_bytes (take n recs))) \<le> k - 8"
    "n < length recs \<longrightarrow> k - 8 < length (concat (map record_bytes (take (Suc n) recs)))" using capture_read_cut[OF assms(1)] by blast
  have mono: "length (concat (map record_bytes (take j recs))) \<le> length (concat (map record_bytes recs))" for j
    by (metis append_take_drop_id concat_append le_add1 length_append map_append)
  show ?thesis
  proof (cases "length file \<le> k")
    case True
    then have "n = length recs" using n(1,4) mono[of "Suc n"] assms(2) L by (auto simp: f)
    then show ?thesis using n(2) r True by auto
  next
    case False
    then have "n < length recs" using n(1,3) assms(2) L by (cases "n = length recs") (auto simp: f)
    then show ?thesis using n r assms(2) False by (intro exI[of _ n]) auto
  qed
qed

theorem capture_file_reads_back_witness:
  "\<exists>file. capture_write_all [\<lparr>crec_ts_ns = 7, crec_bytes = [1, 2]\<rparr>] (capture_writer_new True) = Some file \<and>
     (\<exists>n\<le>1. capture_read_all (capture_reader_new (Some (take 15 file))) = take n [\<lparr>crec_ts_ns = 7, crec_bytes = [1, 2]\<rparr>])"
proof -
  obtain fl where f: "capture_write_all [\<lparr>crec_ts_ns = 7, crec_bytes = [1, 2]\<rparr>] (capture_writer_new True) = Some fl"
    by (simp add: capture_writer_new_def capture_write_all_bytes)
  from capture_file_reads_back[OF _ _ this, of 15] f show ?thesis by auto
qed

text \<open>The reading loop consumes a well-framed message and goes on behind it.\<close>

lemma process_loop_block:
  assumes "raw_ok m" "max_messages = 0 \<or> fs_total st < max_messages" "rr_file r = msg_block m @ f"
  shows "process_loop symbols max_messages r b st =
    (case file_message symbols m b st of (b, st) \<Rightarrow>
      process_loop symbols max_messages (r\<lparr>rr_file := f, rr_offset := rr_offset r + 2 + of_nat (length m)\<rparr>) b st)"
  using assms raw_next_block[of m r f] by (subst process_loop.simps) (auto simp: raw_ok_def)

definition file_messages :: "symbol list \<Rightarrow> bytes list \<Rightarrow> itch_book_builder \<times> itch_file_stats \<Rightarrow> itch_book_builder \<times> itch_file_stats" where
  "file_messages symbols ms bs = fold (\<lambda>m (b, st). file_message symbols m b st) ms bs"

lemma process_loop_blocks:
  "\<forall>m\<in>set ms. raw_ok m \<Longrightarrow> rr_file r = blocks ms @ f \<Longrightarrow> rr_error r = [] \<Longrightarrow>
   \<exists>off. process_loop symbols 0 r b st =
     (case file_messages symbols ms (b, st) of (b, st) \<Rightarrow> process_loop symbols 0 (r\<lparr>rr_file := f, rr_offset := off\<rparr>) b st)"
proof (induction ms arbitrary: r b st)
  case Nil
  then have "r\<lparr>rr_file := f, rr_offset := rr_offset r\<rparr> = r" by (cases r) simp
  then show ?case by (intro exI[of _ "rr_offset r"]) (simp only: file_messages_def fold_simps prod.case)
next
  case (Cons m ms)
  obtain b1 st1 where m: "file_message symbols m b st = (b1, st1)" by (metis surj_pair)
  let ?r = "r\<lparr>rr_file := blocks ms @ f, rr_offset := rr_offset r + 2 + of_nat (length m)\<rparr>"
  have "process_loop symbols 0 r b st = process_loop symbols 0 ?r b1 st1"
    using process_loop_block[of m 0 st r "blocks ms @ f" symbols b] Cons.prems m by simp
  then show ?case using Cons.IH[of ?r b1 st1] Cons.prems m by (simp add: file_messages_def)
qed

lemma raw_next_cut:
  assumes "length m < 2 ^ 16" "k < length (msg_block m)" "rr_file r = take k (msg_block m)"
  shows "\<exists>r'. raw_next r = (None, r') \<and> rr_error r' = rr_error r"
proof (cases "k < 2")
  case True
  then show ?thesis using assms(3) by (simp add: raw_next_def fread_def min_def)
next
  case False
  have "get_be16 (be16 (of_nat (length m))) 0 = of_nat (length m)" using get_be16_at[of "[]" _ "[]"] by simp
  then have "unat (get_be16 (be16 (of_nat (length m))) 0) = length m" using assms(1) by (simp add: unat_of_nat)
  moreover have "rr_file r = be16 (of_nat (length m)) @ take (k - 2) m" using False assms(3) by (simp add: msg_block_def)
  moreover have "k - 2 < length m" using assms(2) False by (simp add: msg_block_def)
  ultimately show ?thesis by (auto simp: raw_next_def fread_def Let_def)
qed

lemma raw_next_bad:
  assumes "length m < 2 ^ 16" "\<not> raw_ok m" "rr_file r = msg_block m @ f"
  shows "\<exists>r'. raw_next r = (None, r') \<and> rr_error r' \<noteq> []"
proof (cases "m = []")
  case True
  have "get_be16 [0, 0] 0 = 0" by (simp add: get_be16_def)
  then show ?thesis using assms(3) True by (simp add: raw_next_def fread_def Let_def msg_block_def be16_def)
next
  case False
  then show ?thesis using raw_next_block[OF assms(1) False assms(3)] assms(1,2) by (auto simp: raw_ok_def)
qed

lemma process_raw_blocks:
  assumes "\<forall>m\<in>set ms. raw_ok m"
  shows "\<exists>off. process_raw_itch (blocks ms @ f) symbols 0 b st = (case file_messages symbols ms (b, st) of (b, st) \<Rightarrow>
    (case process_loop symbols 0 \<lparr>rr_file = f, rr_offset = off, rr_error = []\<rparr> b st of
      (r, b, st) \<Rightarrow> (rr_error r = [], b, st\<lparr>fs_error := rr_error r\<rparr>)))"
proof -
  obtain b1 st1 where fm: "file_messages symbols ms (b, st) = (b1, st1)" by (metis surj_pair)
  obtain off where "process_loop symbols 0 (raw_itch_reader_new (blocks ms @ f)) b st =
      process_loop symbols 0 \<lparr>rr_file = f, rr_offset = off, rr_error = []\<rparr> b1 st1"
    using process_loop_blocks[OF assms, of "raw_itch_reader_new (blocks ms @ f)" f symbols b st] fm
    by (auto simp: raw_itch_reader_new_def)
  then show ?thesis by (intro exI[of _ off]) (simp add: process_raw_itch_def fm)
qed



end
