(* ===== verification/Itch_File_Props.thy ===== *)
theory Itch_File_Props
  imports Feed_Props Wire_Props
begin

text \<open>
  Reading a file of published messages with a symbol filter gives the same books for the tracked
  symbols as reading all of it: messages about orders of other symbols have no effect.
\<close>

definition track :: "symbol list \<Rightarrow> books \<Rightarrow> books" where
  "track symbols S = (\<lambda>sm. if tracked symbols sm then S sm else spec_empty)"

lemma spec_find_empty [simp]: "spec_find spec_empty k = None"
  by (simp add: spec_find_def spec_empty_def)

lemma track_find: "spec_find (track symbols S sm) k = (if tracked symbols sm then spec_find (S sm) k else None)"
  by (simp add: track_def)

lemma track_ok: "market_ok me S \<Longrightarrow> tracked symbols (me_symbol me) \<Longrightarrow> market_ok me (track symbols S)"
  unfolding market_ok_def by (auto simp: track_find track_def)

lemma track_replay:
  "replay_market me (track symbols S) = track symbols (replay_market me S)" if "tracked symbols (me_symbol me)"
  using that by (auto simp: track_def replay_market_def)

lemma track_replay_other: "\<not> tracked symbols (me_symbol me) \<Longrightarrow> track symbols (replay_market me S) = track symbols S"
  by (auto simp: track_def replay_market_def fun_eq_iff)

lemma raw_ok_to_itch: "raw_ok (to_itch me loc)"
proof -
  have "message_size (itch_encode m (replicate (itch_kSize m) 0) ! 0) = itch_kSize m" for m
    by (cases m) (simp_all add: itch_simps poke_type_commute poke_type_twice del: poke.simps)
  moreover have "length (to_itch me loc) = itch_kSize (itch_of me loc (me_ev me))" by (simp add: to_itch_def encode_bytes_def itch_length_enc)
  moreover have "0 < itch_kSize (itch_of me loc (me_ev me))" by (cases "me_ev me") simp_all
  ultimately show ?thesis using length_to_itch[of me loc] by (auto simp: raw_ok_def to_itch_def encode_bytes_def)
qed

text \<open>An order of the books \<open>S\<close> that rests under an untracked symbol is unknown to the filtered builder.\<close>

lemma untracked_unknown:
  assumes "bb_rel b0 S" "bb_rel b (track symbols S)" "spec_find (S sm) ref = Some (s, r)" "\<not> tracked symbols sm"
  shows "bb_orders b ref = None"
proof (rule bb_orders_None[OF assms(2)])
  fix sm'
  have "spec_find (S sm') ref = None" if "sm' \<noteq> sm"
    using that bb_relD(3)[OF assms(1), of sm' ref] bb_relD(3)[OF assms(1), of sm ref s r] assms(3)
    by (cases "spec_find (S sm') ref") auto
  then show "spec_find (track symbols S sm') ref = None" using assms(4) by (auto simp: track_find)
qed

lemma file_event:
  assumes rel0: "bb_rel b0 S" and rel: "bb_rel b (track symbols S)" and ok: "market_ok me S" and wire: "wire_event me"
  shows "bb_rel (fst (file_message symbols (to_itch me loc) b st)) (track symbols (replay_market me S))"
proof (cases "tracked symbols (me_symbol me)")
  case True
  have "fst (file_message symbols (to_itch me loc) b st) = bb_on_bytes (to_itch me loc) b"
    using True by (cases "me_ev me") (auto simp: file_message_def bb_on_bytes_def to_itch_decode[OF wire] Let_def)
  then show ?thesis using bb_event[OF rel track_ok[OF ok True] wire] track_replay[OF True] by simp
next
  case False
  let ?b = "fst (file_message symbols (to_itch me loc) b st)"
  obtain new p where loc: "ev_local new p (me_ev me) (S (me_symbol me))" using ok by (auto simp: market_ok_def)
  note U = untracked_unknown[OF rel0 rel _ False]
  have "bb_orders ?b = bb_orders b \<and> bb_books ?b = bb_books b"
  proof (cases "me_ev me")
    case (EvAdded a)
    then show ?thesis using False by (simp add: file_message_def to_itch_decode[OF wire] Let_def)
  next
    case (EvExecuted x)
    then have "bb_orders b (xe_resting_id x) = None" using loc U by auto
    then show ?thesis using EvExecuted
      by (simp add: file_message_def to_itch_decode[OF wire] Let_def bb_on_executed_def bb_reduce_order_def)
  next
    case (EvCanceled c)
    then have "bb_orders b (ce_id c) = None" using loc U by auto
    then show ?thesis using EvCanceled
      by (simp add: file_message_def to_itch_decode[OF wire] Let_def bb_remove_order_def bb_reduce_order_def)
  next
    case (EvReplaced r)
    then have "bb_orders b (re_old_id r) = None" using loc U by auto
    then show ?thesis using EvReplaced by (simp add: file_message_def to_itch_decode[OF wire] Let_def)
  qed
  then have "bb_rel ?b (track symbols S)" by (intro bb_rel_cong[OF rel]) simp_all
  then show ?thesis by (simp add: track_replay_other[OF False])
qed

lemma file_events:
  "bb_rel b0 S \<Longrightarrow> bb_rel b (track symbols S) \<Longrightarrow> feed_from S (map fst es) \<Longrightarrow> \<forall>e\<in>set es. wire_event (fst e) \<Longrightarrow>
   bb_rel (fst (file_messages symbols (itch_bytes es) (b, st))) (track symbols (fold replay_market (map fst es) S))"
proof (induction es arbitrary: b0 b st S)
  case (Cons e es)
  obtain me loc where e: "e = (me, loc)" by (cases e)
  obtain b1 st1 where m: "file_message symbols (to_itch me loc) b st = (b1, st1)" by (metis surj_pair)
  have "bb_rel (bb_on_bytes (to_itch me loc) b0) (replay_market me S)" using bb_event[OF Cons.prems(1)] Cons.prems(3,4) by (simp add: e)
  moreover have "bb_rel b1 (track symbols (replay_market me S))" using file_event[OF Cons.prems(1,2), of me loc st] Cons.prems(3,4) m by (simp add: e)
  ultimately show ?case using Cons.IH Cons.prems(3,4) m by (simp add: e file_messages_def)
qed (simp add: file_messages_def)

text \<open>
  C30. A file of the engine's published messages, read with a list of symbols, is read to its end without
  an error; for a tracked symbol (every symbol when the list is empty) the builder has exactly the book
  of the engine, for any other symbol an empty one.
\<close>

theorem itch_file_filter:
  assumes "process_all cmds en_init = Some e" "\<forall>c\<in>set cmds. cmd_wf c" "length cmds < 2 ^ 32 - 1"
    and "map fst es = en_to_feed e" "file = fold (\<lambda>m out. append_raw out m) (itch_bytes es) []"
    and "process_raw_itch file symbols 0 bb_new st = (ok, b, st')"
  shows "ok \<and> bb_snapshot sm b = (if tracked symbols sm then book_snapshot_of e sm else Some \<lparr>bs_bids = [], bs_asks = []\<rparr>)"
proof -
  have E: "feed_good (en_to_feed e)" "engine_inv (length cmds) (replay_feed (en_to_feed e)) e"
    using process_all_feed[OF engine_inv_init _ _ assms(2,1)] assms(3) by (simp_all add: en_init_def feed_good_def)
  let ?b = "fst (file_messages symbols (itch_bytes es) (bb_new, st))"
  have es: "feed_from (\<lambda>_. spec_empty) (map fst es)" "\<forall>e\<in>set es. wire_event (fst e)"
    using E(1) by (simp_all add: feed_good_def flip: assms(4))
  have "bb_rel bb_new (track symbols (\<lambda>_. spec_empty))" using bb_rel_new by (simp add: track_def)
  from file_events[OF bb_rel_new this es, of st] have "bb_rel ?b (track symbols (replay_feed (en_to_feed e)))"
    by (simp add: replay_feed_def assms(4))
  then have "bb_snapshot sm ?b = Some (spec_snapshot (track symbols (replay_feed (en_to_feed e)) sm))" by (rule bb_snapshot_rel)
  moreover have "\<exists>st'. process_raw_itch file symbols 0 bb_new st = (True, ?b, st')"
  proof -
    have raw: "\<forall>m\<in>set (itch_bytes es). raw_ok m" using raw_ok_to_itch by auto
    obtain off where p: "process_raw_itch (blocks (itch_bytes es) @ []) symbols 0 bb_new st = (case file_messages symbols (itch_bytes es) (bb_new, st) of (b, st) \<Rightarrow>
      (case process_loop symbols 0 \<lparr>rr_file = [], rr_offset = off, rr_error = []\<rparr> b st of
        (r, b, st) \<Rightarrow> (rr_error r = [], b, st\<lparr>fs_error := rr_error r\<rparr>)))"
      using process_raw_blocks[OF raw] by blast
    have "raw_next \<lparr>rr_file = [], rr_offset = off, rr_error = []\<rparr> = (None, \<lparr>rr_file = [], rr_offset = off, rr_error = []\<rparr>)"
      by (simp add: raw_next_def fread_def)
    then have "process_loop symbols 0 \<lparr>rr_file = [], rr_offset = off, rr_error = []\<rparr> b st = (\<lparr>rr_file = [], rr_offset = off, rr_error = []\<rparr>, b, st)" for b st
      by (subst process_loop.simps) simp
    then show ?thesis using p assms(5) by (simp add: append_raw_all case_prod_unfold)
  qed
  ultimately show ?thesis using assms(6) snapshot_of_inv[OF E(2), of sm]
    by (auto simp: track_def spec_snapshot_def spec_empty_def)
qed

theorem itch_file_filter_witness:
  "\<exists>e b st. process_all demo_flow en_init = Some e \<and>
     process_raw_itch (fold (\<lambda>m out. append_raw out m) (itch_bytes (map (\<lambda>m. (m, 1)) (en_to_feed e))) []) [make_symbol [0x42]] 0 bb_new file_stats_new = (True, b, st) \<and>
     bb_snapshot (make_symbol [0x41]) b = Some \<lparr>bs_bids = [], bs_asks = []\<rparr>"
proof -
  obtain e where e: "process_all demo_flow en_init = Some e" by (rule demo_flow_reach)
  have wf: "\<forall>c\<in>set demo_flow. cmd_wf c" by (simp add: demo_flow_def demo_enter_def cmd_wf_def wire_price_def make_symbol_def)
  let ?file = "fold (\<lambda>m out. append_raw out m) (itch_bytes (map (\<lambda>m. (m, 1)) (en_to_feed e))) []"
  obtain ok b st where p: "process_raw_itch ?file [make_symbol [0x42]] 0 bb_new file_stats_new = (ok, b, st)" by (metis prod_cases3)
  have "\<not> tracked [make_symbol [0x42]] (make_symbol [0x41])" by (simp add: tracked_def make_symbol_def eval_nat_numeral)
  with itch_file_filter[OF e wf _ _ refl p, of "make_symbol [0x41]"] e p show ?thesis by (auto simp: demo_flow_def comp_def)
qed

end
