(* ===== verification/Soup.thy ===== *)
theory Soup
  imports Common_Types Framing
begin

text \<open>
  SoupBinTCP of \<^verbatim>\<open>src/soup/soup.hpp\<close> and \<^verbatim>\<open>soup.cpp\<close>: the packet framing with its incremental parser, the
  login request codec and the server side of a session. The callbacks of the session's listener are
  functions on the listener's own state and the session; the private parser of the session, which no
  method that a listener may call touches, is kept beside it.
\<close>

section \<open>Packets\<close>

definition kLoginRequest :: u8 where "kLoginRequest = 0x4C"
definition kLoginAccepted :: u8 where "kLoginAccepted = 0x41"
definition kLoginRejected :: u8 where "kLoginRejected = 0x4A"
definition kSequenced :: u8 where "kSequenced = 0x53"
definition kUnsequenced :: u8 where "kUnsequenced = 0x55"
definition kClientHeartbeat :: u8 where "kClientHeartbeat = 0x52"
definition kServerHeartbeat :: u8 where "kServerHeartbeat = 0x48"
definition kDebug :: u8 where "kDebug = 0x2B"
definition kLogoutRequest :: u8 where "kLogoutRequest = 0x4F"
definition kEndOfSession :: u8 where "kEndOfSession = 0x5A"

lemmas soup_types = kLoginRequest_def kLoginAccepted_def kLoginRejected_def kSequenced_def kUnsequenced_def
  kClientHeartbeat_def kServerHeartbeat_def kDebug_def kLogoutRequest_def kEndOfSession_def

definition kHeartbeatIntervalNs :: u64 where "kHeartbeatIntervalNs = 1000000000"
definition kSessionTimeoutNs :: u64 where "kSessionTimeoutNs = 15000000000"

definition append_alpha :: "bytes \<Rightarrow> nat \<Rightarrow> bytes \<Rightarrow> bytes" where
  "append_alpha s width out = out @ map (\<lambda>i. if i < length s then s ! i else 0x20) [0..<width]"

definition append_seq :: "u64 \<Rightarrow> nat \<Rightarrow> bytes \<Rightarrow> bytes" where
  "append_seq seq width out =
     (let digits = to_string_nat (unat seq) in out @ replicate (width - length digits) 0x20 @ digits)"

text \<open>The two loops of \<^verbatim>\<open>trim_field\<close> drop the spaces at the front and then those at the back.\<close>

definition trim_field :: "bytes \<Rightarrow> bytes" where
  "trim_field p = rev (dropWhile (\<lambda>c. c = 0x20) (rev (dropWhile (\<lambda>c. c = 0x20) p)))"

definition append_packet :: "u8 \<Rightarrow> bytes \<Rightarrow> bytes \<Rightarrow> bytes" where
  "append_packet type payload out =
     (let len = of_nat (length payload + 1) :: u16;
          at = length out;
          out = out @ [0, 0];
          out = put_be16 out at len;
          out = out @ [type]
      in out @ payload)"

definition append_login_request :: "bytes \<Rightarrow> bytes \<Rightarrow> bytes \<Rightarrow> u64 \<Rightarrow> bytes \<Rightarrow> bytes" where
  "append_login_request username password requested_session requested_seq out =
     (let payload = append_alpha username 6 [];
          payload = append_alpha password 10 payload;
          payload = append_alpha requested_session 10 payload;
          payload = append_seq requested_seq 20 payload
      in append_packet kLoginRequest payload out)"

record login_request =
  lr_username :: bytes
  lr_password :: bytes
  lr_requested_session :: bytes
  lr_requested_seq :: u64

fun decode_seq :: "u64 \<Rightarrow> bytes \<Rightarrow> u64 option" where
  "decode_seq acc [] = Some acc"
| "decode_seq acc (c # cs) = (if is_digit c then decode_seq (acc * 10 + ucast (c - 0x30)) cs else None)"

definition decode_login_request :: "bytes \<Rightarrow> login_request option" where
  "decode_login_request p =
     (if length p \<noteq> 46 then None
      else map_option (\<lambda>seq. \<lparr>lr_username = trim_field (peek p 0 6), lr_password = trim_field (peek p 6 10),
             lr_requested_session = trim_field (peek p 16 10), lr_requested_seq = seq\<rparr>)
           (decode_seq 0 (trim_field (peek p 26 20))))"

section \<open>The frame parser\<close>

record soup_packet =
  sp_type :: u8
  sp_payload :: bytes

record frame_parser =
  fr_buf :: bytes
  fr_consumed :: nat

definition frame_new :: frame_parser where
  "frame_new = \<lparr>fr_buf = [], fr_consumed = 0\<rparr>"

definition frame_push :: "bytes \<Rightarrow> frame_parser \<Rightarrow> frame_parser" where
  "frame_push data fr = fr\<lparr>fr_buf := fr_buf fr @ data\<rparr>"

definition frame_next :: "frame_parser \<Rightarrow> (soup_packet \<times> frame_parser) option" where
  "frame_next fr =
     (let avail = length (fr_buf fr) - fr_consumed fr
      in if avail < 2 then None
         else let len = unat (get_be16 (fr_buf fr) (fr_consumed fr))
           in if len < 1 \<or> avail < 2 + len then None
              else let pkt = \<lparr>sp_type = fr_buf fr ! (fr_consumed fr + 2),
                         sp_payload = peek (fr_buf fr) (fr_consumed fr + 3) (len - 1)\<rparr>;
                       consumed = fr_consumed fr + (2 + len)
                in if consumed > 4096 \<and> consumed * 2 > length (fr_buf fr)
                   then Some (pkt, \<lparr>fr_buf = drop consumed (fr_buf fr), fr_consumed = 0\<rparr>)
                   else Some (pkt, fr\<lparr>fr_consumed := consumed\<rparr>))"

section \<open>The server session\<close>

datatype session_state = AwaitingLogin | LoggedIn | Closed

record server_session =
  ss_state :: session_state
  ss_out :: bytes
  ss_last_recv_ns :: u64
  ss_last_send_ns :: u64

definition session_new :: "u64 \<Rightarrow> server_session" where
  "session_new now = \<lparr>ss_state = AwaitingLogin, ss_out = [], ss_last_recv_ns = now, ss_last_send_ns = now\<rparr>"

definition queue_packet :: "u8 \<Rightarrow> bytes \<Rightarrow> server_session \<Rightarrow> server_session" where
  "queue_packet type payload s = s\<lparr>ss_out := append_packet type payload (ss_out s)\<rparr>"

definition accept_login :: "bytes \<Rightarrow> u64 \<Rightarrow> server_session \<Rightarrow> server_session" where
  "accept_login session next_seq s =
     (let payload = map (\<lambda>i. if i < length session then session ! i else 0x20) [0..<10];
          digits = to_string_nat (unat next_seq);
          payload = payload @ replicate (20 - length digits) 0x20 @ digits
      in (queue_packet kLoginAccepted payload s)\<lparr>ss_state := LoggedIn\<rparr>)"

definition reject_login :: "u8 \<Rightarrow> server_session \<Rightarrow> server_session" where
  "reject_login reason s = (queue_packet kLoginRejected [reason] s)\<lparr>ss_state := Closed\<rparr>"

definition send_sequenced :: "bytes \<Rightarrow> server_session \<Rightarrow> server_session" where
  "send_sequenced payload s = queue_packet kSequenced payload s"

definition send_end_of_session :: "server_session \<Rightarrow> server_session" where
  "send_end_of_session s = queue_packet kEndOfSession [] s"

definition take_output :: "server_session \<Rightarrow> bytes \<times> server_session" where
  "take_output s = (ss_out s, s\<lparr>ss_out := []\<rparr>)"

record 'c listener =
  on_login_request :: "login_request \<Rightarrow> 'c \<times> server_session \<Rightarrow> 'c \<times> server_session"
  on_unsequenced :: "bytes \<Rightarrow> 'c \<times> server_session \<Rightarrow> 'c \<times> server_session"
  on_logout :: "'c \<times> server_session \<Rightarrow> 'c \<times> server_session"
  on_timeout :: "'c \<times> server_session \<Rightarrow> 'c \<times> server_session"

text \<open>One pass of the loop of \<^verbatim>\<open>on_bytes\<close>: the flag tells whether the loop is left.\<close>

definition session_packet :: "'c listener \<Rightarrow> soup_packet \<Rightarrow> 'c \<times> server_session \<Rightarrow> bool \<times> 'c \<times> server_session" where
  "session_packet li pkt cs =
     (case ss_state (snd cs) of
        AwaitingLogin \<Rightarrow>
          if sp_type pkt = kLoginRequest then
            case decode_login_request (sp_payload pkt) of
              Some req \<Rightarrow> let cs = on_login_request li req cs in (ss_state (snd cs) = Closed, cs)
            | None \<Rightarrow> (True, apsnd (reject_login 0x41) cs)
          else (False, cs)
      | LoggedIn \<Rightarrow>
          if sp_type pkt = kUnsequenced then
            let cs = on_unsequenced li (sp_payload pkt) cs in (ss_state (snd cs) = Closed, cs)
          else if sp_type pkt = kLogoutRequest then
            (True, on_logout li (apsnd (\<lambda>s. s\<lparr>ss_state := Closed\<rparr>) cs))
          else (False, cs)
      | Closed \<Rightarrow> (True, cs))"

lemma frame_next_shrinks:
  "frame_next fr = Some (pkt, fr') \<Longrightarrow>
     length (fr_buf fr') - fr_consumed fr' < length (fr_buf fr) - fr_consumed fr"
  by (auto simp: frame_next_def Let_def split: if_splits)

function session_packets :: "'c listener \<Rightarrow> frame_parser \<Rightarrow> 'c \<times> server_session \<Rightarrow> frame_parser \<times> 'c \<times> server_session" where
  "session_packets li fr cs =
     (case frame_next fr of
        None \<Rightarrow> (fr, cs)
      | Some (pkt, fr) \<Rightarrow>
          case session_packet li pkt cs of
            (left, cs) \<Rightarrow> if left then (fr, cs) else session_packets li fr cs)"
  by auto
termination
  by (relation "measure (\<lambda>(li, fr, cs). length (fr_buf fr) - fr_consumed fr)") (auto dest: frame_next_shrinks)

declare session_packets.simps [simp del]

definition session_on_bytes :: "'c listener \<Rightarrow> bytes \<Rightarrow> u64 \<Rightarrow> frame_parser \<times> 'c \<times> server_session \<Rightarrow> frame_parser \<times> 'c \<times> server_session" where
  "session_on_bytes li data now st =
     (case st of (fr, c, s) \<Rightarrow>
        if ss_state s = Closed then st
        else session_packets li (frame_push data fr) (c, s\<lparr>ss_last_recv_ns := now\<rparr>))"

definition session_tick :: "'c listener \<Rightarrow> u64 \<Rightarrow> 'c \<times> server_session \<Rightarrow> 'c \<times> server_session" where
  "session_tick li now cs =
     (let s = snd cs
      in if ss_state s = Closed then cs
         else if now - ss_last_recv_ns s \<ge> kSessionTimeoutNs then
           on_timeout li (fst cs, s\<lparr>ss_state := Closed\<rparr>)
         else if ss_state s = LoggedIn \<and> now - ss_last_send_ns s \<ge> kHeartbeatIntervalNs then
           (fst cs, (queue_packet kServerHeartbeat [] s)\<lparr>ss_last_send_ns := now\<rparr>)
         else cs)"

end
