(* ===== verification/Gateway.thy ===== *)
theory Gateway
  imports Engine Soup
begin

text \<open>
  The order entry gateway of \<^verbatim>\<open>src/gateway/gateway.hpp\<close> and \<^verbatim>\<open>gateway.cpp\<close>: its connections, the risk
  checks in front of the engine and the event loop. What the operating system returns is an argument:
  the pieces of data read from a socket and how the reading ended, the result of each \<^verbatim>\<open>send\<close>, and the
  clock. A connection object lives as long as its entry in \<^verbatim>\<open>conns_\<close>; a pointer to it is its id, and
  using an object after its entry is gone is \<open>None\<close>. The interest registered with the poller is a map
  from descriptors to whether writability is asked for.
\<close>

section \<open>Connections\<close>

definition kMaxOrderShares :: qty where "kMaxOrderShares = 1000000"
definition kMaxOrderPrice :: price where "kMaxOrderPrice = 1999999900"

text \<open>\<^verbatim>\<open>encoded_size\<close> and \<^verbatim>\<open>encode_ouch\<close>: each message into a zeroed buffer of its size.\<close>

fun encode_ouch :: "ouch_out \<Rightarrow> bytes" where
  "encode_ouch (SystemEvent m) = encode_ouch_system_event m (replicate kSystemEventSize 0)"
| "encode_ouch (Accepted m) = encode_accepted m (replicate kAcceptedSize 0)"
| "encode_ouch (Executed m) = encode_executed m (replicate kExecutedSize 0)"
| "encode_ouch (Canceled m) = encode_canceled m (replicate kCanceledSize 0)"
| "encode_ouch (Replaced m) = encode_replaced m (replicate kReplacedSize 0)"
| "encode_ouch (Rejected m) = encode_rejected m (replicate kRejectedSize 0)"

record conn =
  gc_fd :: int
  gc_id :: u64
  gc_session :: server_session
  gc_parser :: frame_parser
  gc_outbuf :: bytes
  gc_write_enabled :: bool

text \<open>\<open>gw_wire\<close> is what each connection has handed to the kernel; \<open>gw_clock_reads\<close> counts the readings of the clock.\<close>

record gateway =
  gw_next_client_id :: u64
  gw_conns :: "u64 \<rightharpoonup> conn"
  gw_by_fd :: "int \<rightharpoonup> u64"
  gw_poll :: "int \<rightharpoonup> bool"
  gw_to_engine :: "command list"
  gw_clock_reads :: nat
  gw_wire :: "u64 \<Rightarrow> bytes"

definition gw_new :: gateway where
  "gw_new = \<lparr>gw_next_client_id = 1, gw_conns = Map.empty, gw_by_fd = Map.empty, gw_poll = Map.empty,
     gw_to_engine = [], gw_clock_reads = 0, gw_wire = (\<lambda>_. [])\<rparr>"

definition conn_new :: "int \<Rightarrow> u64 \<Rightarrow> u64 \<Rightarrow> conn" where
  "conn_new fd cid now = \<lparr>gc_fd = fd, gc_id = cid, gc_session = session_new now, gc_parser = frame_new,
     gc_outbuf = [], gc_write_enabled = False\<rparr>"

definition put_conn :: "u64 \<Rightarrow> conn \<Rightarrow> gateway \<Rightarrow> gateway" where
  "put_conn cid c gw = gw\<lparr>gw_conns := (gw_conns gw)(cid \<mapsto> c)\<rparr>"

section \<open>Risk checks\<close>

definition push_command :: "u64 \<Rightarrow> ouch_in \<Rightarrow> gateway \<Rightarrow> gateway" where
  "push_command cid m gw = gw\<lparr>gw_to_engine := gw_to_engine gw @ [\<lparr>cm_client_id = cid, cm_msg = m\<rparr>]\<rparr>"

definition risk_reject :: "(nat \<Rightarrow> u64) \<Rightarrow> token \<Rightarrow> gateway \<times> server_session \<Rightarrow> gateway \<times> server_session" where
  "risk_reject clock token gs =
     (let r = \<lparr>rj_timestamp = clock (gw_clock_reads (fst gs)), rj_token = token, rj_reason = 0x52\<rparr>;
          buf = encode_rejected r (replicate kRejectedSize 0)
      in ((fst gs)\<lparr>gw_clock_reads := gw_clock_reads (fst gs) + 1\<rparr>, send_sequenced buf (snd gs)))"

definition handle_ouch :: "(nat \<Rightarrow> u64) \<Rightarrow> u64 \<Rightarrow> bytes \<Rightarrow> gateway \<times> server_session \<Rightarrow> gateway \<times> server_session" where
  "handle_ouch clock cid data gs =
     (if data = [] then gs
      else if data ! 0 = 0x4F then
        case decode_enter_order data (length data) of
          None \<Rightarrow> gs
        | Some m \<Rightarrow>
            let market = (eo_price m = kMarketPrice)
            in if eo_shares m > kMaxOrderShares \<or> (\<not> market \<and> eo_price m > kMaxOrderPrice)
               then risk_reject clock (eo_token m) gs
               else apfst (push_command cid (EnterOrder m)) gs
      else if data ! 0 = 0x58 then
        case decode_cancel_order data (length data) of
          None \<Rightarrow> gs
        | Some m \<Rightarrow> apfst (push_command cid (CancelOrder m)) gs
      else if data ! 0 = 0x55 then
        case decode_replace_order data (length data) of
          None \<Rightarrow> gs
        | Some m \<Rightarrow>
            if ro_shares m > kMaxOrderShares \<or> ro_price m > kMaxOrderPrice
            then risk_reject clock (ro_replacement_token m) gs
            else apfst (push_command cid (ReplaceOrder m)) gs
      else gs)"

text \<open>The session listener that a connection is: every login is accepted.\<close>

definition conn_listener :: "(nat \<Rightarrow> u64) \<Rightarrow> u64 \<Rightarrow> gateway listener" where
  "conn_listener clock cid = \<lparr>on_login_request = \<lambda>req. apsnd (accept_login [0x53, 0x49, 0x4D, 0x30, 0x31] 1),
     on_unsequenced = handle_ouch clock cid, on_logout = \<lambda>gs. gs, on_timeout = \<lambda>gs. gs\<rparr>"

section \<open>Sockets\<close>

datatype read_end = REof | RError | RWouldBlock
datatype send_result = Sent nat | SendAgain | SendFailed

definition close_conn :: "u64 \<Rightarrow> gateway \<Rightarrow> gateway" where
  "close_conn cid gw =
     (case gw_conns gw cid of
        None \<Rightarrow> gw
      | Some c \<Rightarrow> gw\<lparr>gw_poll := (gw_poll gw)(gc_fd c := None), gw_by_fd := (gw_by_fd gw)(gc_fd c := None),
          gw_conns := (gw_conns gw)(cid := None)\<rparr>)"

definition set_write :: "int \<Rightarrow> bool \<Rightarrow> gateway \<Rightarrow> gateway" where
  "set_write fd enable gw =
     (case gw_poll gw fd of None \<Rightarrow> gw | Some _ \<Rightarrow> gw\<lparr>gw_poll := (gw_poll gw)(fd \<mapsto> enable)\<rparr>)"

definition update_write_filter :: "u64 \<Rightarrow> conn \<Rightarrow> bool \<Rightarrow> gateway \<Rightarrow> gateway" where
  "update_write_filter cid c enable gw =
     (if enable = gc_write_enabled c then put_conn cid c gw
      else put_conn cid (c\<lparr>gc_write_enabled := enable\<rparr>) (set_write (gc_fd c) enable gw))"

definition gw_flush :: "u64 \<Rightarrow> send_result \<Rightarrow> gateway \<Rightarrow> gateway" where
  "gw_flush cid res gw =
     (case gw_conns gw cid of
        None \<Rightarrow> gw
      | Some c \<Rightarrow>
          case take_output (gc_session c) of
            (fresh, s) \<Rightarrow>
              let c = c\<lparr>gc_session := s, gc_outbuf := gc_outbuf c @ fresh\<rparr>
              in if gc_outbuf c = [] then put_conn cid c gw
                 else case res of
                   Sent n \<Rightarrow>
                     let gw = gw\<lparr>gw_wire := (gw_wire gw)(cid := gw_wire gw cid @ take n (gc_outbuf c))\<rparr>;
                         c = c\<lparr>gc_outbuf := drop n (gc_outbuf c)\<rparr>
                     in update_write_filter cid c (gc_outbuf c \<noteq> []) gw
                 | SendAgain \<Rightarrow> update_write_filter cid c (gc_outbuf c \<noteq> []) gw
                 | SendFailed \<Rightarrow> close_conn cid gw)"

definition accept_one :: "int \<times> u64 \<Rightarrow> gateway \<Rightarrow> gateway" where
  "accept_one fn gw =
     (let fd = fst fn; cid = gw_next_client_id gw
      in gw\<lparr>gw_next_client_id := cid + 1,
            gw_by_fd := (gw_by_fd gw)(fd \<mapsto> cid),
            gw_poll := (gw_poll gw)(fd \<mapsto> False),
            gw_conns := (case gw_conns gw cid of
               None \<Rightarrow> (gw_conns gw)(cid \<mapsto> conn_new fd cid (snd fn))
             | Some _ \<Rightarrow> gw_conns gw)\<rparr>)"

definition handle_accept :: "(int \<times> u64) list \<Rightarrow> gateway \<Rightarrow> gateway" where
  "handle_accept accepted gw = fold accept_one accepted gw"

definition read_chunk :: "(nat \<Rightarrow> u64) \<Rightarrow> u64 \<Rightarrow> bytes \<times> u64 \<Rightarrow> gateway \<Rightarrow> gateway" where
  "read_chunk clock cid dt gw =
     (case gw_conns gw cid of
        None \<Rightarrow> gw
      | Some c \<Rightarrow>
          case session_on_bytes (conn_listener clock cid) (fst dt) (snd dt) (gc_parser c, gw, gc_session c) of
            (fr, gw, s) \<Rightarrow> put_conn cid (c\<lparr>gc_session := s, gc_parser := fr\<rparr>) gw)"

definition handle_readable :: "(nat \<Rightarrow> u64) \<Rightarrow> u64 \<Rightarrow> (bytes \<times> u64) list \<Rightarrow> read_end \<Rightarrow> send_result \<Rightarrow> gateway \<Rightarrow> gateway option" where
  "handle_readable clock cid chunks stop res gw =
     (if gw_conns gw cid = None then None
      else
        let gw = fold (read_chunk clock cid) chunks gw
        in case stop of
             REof \<Rightarrow> Some (close_conn cid gw)
           | RError \<Rightarrow> Some (close_conn cid gw)
           | RWouldBlock \<Rightarrow>
               let gw = gw_flush cid res gw
               in case gw_conns gw cid of
                    None \<Rightarrow> None
                  | Some c \<Rightarrow>
                      if ss_state (gc_session c) = Closed \<and> gc_outbuf c = [] then Some (close_conn cid gw)
                      else Some gw)"

definition handle_writable :: "u64 \<Rightarrow> send_result \<Rightarrow> gateway \<Rightarrow> gateway option" where
  "handle_writable cid res gw = (if gw_conns gw cid = None then None else Some (gw_flush cid res gw))"

definition pump_one :: "client_response \<times> send_result \<Rightarrow> gateway \<Rightarrow> gateway" where
  "pump_one rr gw =
     (case gw_conns gw (cr_client_id (fst rr)) of
        None \<Rightarrow> gw
      | Some c \<Rightarrow>
          gw_flush (cr_client_id (fst rr)) (snd rr)
            (put_conn (cr_client_id (fst rr))
               (c\<lparr>gc_session := send_sequenced (encode_ouch (cr_msg (fst rr))) (gc_session c)\<rparr>) gw))"

definition pump_responses :: "(client_response \<times> send_result) list \<Rightarrow> gateway \<Rightarrow> gateway" where
  "pump_responses resps gw = fold pump_one resps gw"

text \<open>
  The first loop of \<^verbatim>\<open>tick_sessions\<close> visits the connections in the order of the hash table, which is an
  argument; it collects the connections to close.
\<close>

fun tick_loop :: "(nat \<Rightarrow> u64) \<Rightarrow> u64 \<Rightarrow> (u64 \<times> send_result) list \<Rightarrow> u64 list \<Rightarrow> gateway \<Rightarrow> (u64 list \<times> gateway) option" where
  "tick_loop clock now [] to_close gw = Some (to_close, gw)"
| "tick_loop clock now ((cid, res) # conns) to_close gw =
     (case gw_conns gw cid of
        None \<Rightarrow> None
      | Some c \<Rightarrow>
          case session_tick (conn_listener clock cid) now (gw, gc_session c) of
            (gw, s) \<Rightarrow>
              let gw = gw_flush cid res (put_conn cid (c\<lparr>gc_session := s\<rparr>) gw)
              in case gw_conns gw cid of
                   None \<Rightarrow> None
                 | Some c \<Rightarrow>
                     tick_loop clock now conns
                       (if ss_state (gc_session c) = Closed \<and> gc_outbuf c = [] then to_close @ [cid] else to_close) gw)"

definition tick_sessions :: "(nat \<Rightarrow> u64) \<Rightarrow> u64 \<Rightarrow> (u64 \<times> send_result) list \<Rightarrow> gateway \<Rightarrow> gateway option" where
  "tick_sessions clock now conns gw =
     map_option (\<lambda>(to_close, gw). fold close_conn to_close gw) (tick_loop clock now conns [] gw)"

section \<open>The event loop\<close>

datatype gw_event =
    Tick u64 "(u64 \<times> send_result) list"
  | Accept "(int \<times> u64) list"
  | Wake "(client_response \<times> send_result) list"
  | Ready int "((bytes \<times> u64) list \<times> read_end \<times> send_result) option" "send_result option"

fun gw_step :: "(nat \<Rightarrow> u64) \<Rightarrow> gw_event \<Rightarrow> gateway \<Rightarrow> gateway option" where
  "gw_step clock (Tick now conns) gw = tick_sessions clock now conns gw"
| "gw_step clock (Accept accepted) gw = Some (handle_accept accepted gw)"
| "gw_step clock (Wake resps) gw = Some (pump_responses resps gw)"
| "gw_step clock (Ready fd readable writable) gw =
     (case gw_by_fd gw fd of
        None \<Rightarrow> Some gw
      | Some cid \<Rightarrow> do {
          gw \<leftarrow> (case readable of
             None \<Rightarrow> Some gw
           | Some (chunks, stop, res) \<Rightarrow> handle_readable clock cid chunks stop res gw);
          case gw_by_fd gw fd of
            None \<Rightarrow> Some gw
          | Some cid \<Rightarrow> (case writable of None \<Rightarrow> Some gw | Some res \<Rightarrow> handle_writable cid res gw)
        })"

fun gw_run :: "(nat \<Rightarrow> u64) \<Rightarrow> gw_event list \<Rightarrow> gateway \<Rightarrow> gateway option" where
  "gw_run clock [] gw = Some gw"
| "gw_run clock (ev # evs) gw = do { gw \<leftarrow> gw_step clock ev gw; gw_run clock evs gw }"

text \<open>What \<^verbatim>\<open>run\<close> does after the loop; \<open>ids\<close> are the connections in the order of the hash table.\<close>

definition gw_shutdown :: "u64 list \<Rightarrow> gateway \<Rightarrow> gateway" where
  "gw_shutdown ids gw =
     (fold (\<lambda>cid g. case gw_conns g cid of None \<Rightarrow> g | Some c \<Rightarrow> g\<lparr>gw_poll := (gw_poll g)(gc_fd c := None)\<rparr>) ids gw)
       \<lparr>gw_conns := Map.empty, gw_by_fd := Map.empty\<rparr>"

end
