(* ===== verification/Soup_Stream.thy ===== *)
theory Soup_Stream
  imports Soup
begin

text \<open>
  SoupBinTCP on a byte stream. A stream determines its complete packets, however it is cut into the
  pieces that arrive; the parser yields them, and a session whose listener meets a small contract acts
  on them one after the other. The contract is a locale; the gateway's connections interpret it.
\<close>

section \<open>The packets of a stream\<close>

definition next_frame :: "bytes \<Rightarrow> (soup_packet \<times> bytes) option" where
  "next_frame b =
     (if length b < 2 then None
      else let len = unat (get_be16 b 0)
        in if len < 1 \<or> length b < 2 + len then None
           else Some (\<lparr>sp_type = b ! 2, sp_payload = peek b 3 (len - 1)\<rparr>, drop (2 + len) b))"

lemma next_frame_shrinks: "next_frame b = Some (p, r) \<Longrightarrow> length r < length b"
  by (auto simp: next_frame_def Let_def split: if_splits)

function frames :: "bytes \<Rightarrow> soup_packet list \<times> bytes" where
  "frames b = (case next_frame b of None \<Rightarrow> ([], b) | Some (p, r) \<Rightarrow> apfst ((#) p) (frames r))"
  by auto
termination
  by (relation "measure length") (auto dest: next_frame_shrinks)

declare frames.simps [simp del]

lemma frames_None [simp]: "next_frame b = None \<Longrightarrow> frames b = ([], b)"
  by (simp add: frames.simps)

lemma frames_Some: "next_frame b = Some (p, r) \<Longrightarrow> frames b = apfst ((#) p) (frames r)"
  by (subst frames.simps) simp

lemma frames_rest: "next_frame (snd (frames b)) = None"
proof (induction b rule: frames.induct)
  case (1 b)
  then show ?case by (cases "next_frame b") (auto simp: frames_Some)
qed

lemma next_frame_append: "next_frame b = Some (p, r) \<Longrightarrow> next_frame (b @ d) = Some (p, r @ d)"
  by (auto simp: next_frame_def Let_def get_be16_append peek_append_right nth_append split: if_splits)

lemma frames_append:
  "frames (b @ d) = (fst (frames b) @ fst (frames (snd (frames b) @ d)), snd (frames (snd (frames b) @ d)))"
proof (induction b rule: frames.induct)
  case (1 b)
  show ?case
  proof (cases "next_frame b")
    case (Some pr)
    obtain p r where pr: "pr = (p, r)" by (cases pr)
    have "frames (b @ d) = apfst ((#) p) (frames (r @ d))"
      using Some pr by (intro frames_Some next_frame_append) simp
    then show ?thesis using 1[OF Some pr[symmetric]] frames_Some Some pr by simp
  qed simp
qed

section \<open>The wire form of packets\<close>

definition packet_bytes :: "soup_packet \<Rightarrow> bytes" where
  "packet_bytes p = append_packet (sp_type p) (sp_payload p) []"

definition packet_fits :: "soup_packet \<Rightarrow> bool" where
  "packet_fits p \<longleftrightarrow> length (sp_payload p) < 65535"

lemma append_packet_block: "append_packet t payload out = out @ msg_block (t # payload)"
  by (simp add: append_packet_def msg_block_def Let_def put_be16_poke poke_append_left poke_all)

lemma packet_bytes_block: "packet_bytes p = msg_block (sp_type p # sp_payload p)"
  by (simp add: packet_bytes_def append_packet_block)

lemma next_frame_packet:
  assumes "packet_fits p"
  shows "next_frame (packet_bytes p @ r) = Some (p, r)"
proof -
  let ?n = "Suc (length (sp_payload p))"
  have n: "unat (of_nat ?n :: u16) = ?n" using assms by (simp add: packet_fits_def unat_of_nat del: of_nat_Suc)
  have g: "get_be16 (packet_bytes p @ r) 0 = of_nat ?n"
    using get_be16_at[of "[]"] by (simp add: packet_bytes_block msg_block_def)
  have "length (packet_bytes p @ r) \<ge> 2 + ?n" by (simp add: packet_bytes_block msg_block_def)
  then show ?thesis
    by (simp add: next_frame_def g n n[unfolded of_nat_Suc] Let_def) (simp add: packet_bytes_block msg_block_def peek_def nth_append)
qed

lemma frames_packets:
  "\<forall>p\<in>set ps. packet_fits p \<Longrightarrow> frames (concat (map packet_bytes ps) @ r) = (ps @ fst (frames r), snd (frames r))"
  by (induction ps) (simp_all add: next_frame_packet frames_Some)

section \<open>The parser reads the stream\<close>

definition frame_ok :: "frame_parser \<Rightarrow> bool" where
  "frame_ok fr \<longleftrightarrow> fr_consumed fr \<le> length (fr_buf fr)"

definition pending :: "frame_parser \<Rightarrow> bytes" where
  "pending fr = drop (fr_consumed fr) (fr_buf fr)"

lemma frame_new_ok [simp]: "frame_ok frame_new" "pending frame_new = []"
  by (simp_all add: frame_ok_def frame_new_def pending_def)

lemma frame_push_ok [simp]:
  "frame_ok fr \<Longrightarrow> frame_ok (frame_push d fr)" "frame_ok fr \<Longrightarrow> pending (frame_push d fr) = pending fr @ d"
  by (simp_all add: frame_ok_def frame_push_def pending_def)

lemma get_be16_drop: "i + 2 \<le> length p \<Longrightarrow> get_be16 (drop i p) 0 = get_be16 p i"
  by (simp add: get_be16_def)

lemma peek_drop: "peek (drop i p) j n = peek p (i + j) n"
  by (simp add: peek_def add.commute)

text \<open>The parser takes the next packet of what is pending, compacting its buffer or not.\<close>

lemma frame_next_None: "frame_ok fr \<Longrightarrow> frame_next fr = None \<longleftrightarrow> next_frame (pending fr) = None"
  by (auto simp: frame_ok_def frame_next_def next_frame_def pending_def get_be16_drop Let_def split: if_splits)

lemma frame_next_Some:
  assumes "frame_ok fr" "frame_next fr = Some (p, fr')"
  shows "next_frame (pending fr) = Some (p, pending fr')" "frame_ok fr'"
  using assms
  by (auto simp: frame_ok_def frame_next_def next_frame_def pending_def get_be16_drop peek_drop Let_def
        add.commute add.left_commute nth_drop split: if_splits)

section \<open>Sessions act on the packets of the stream\<close>

fun deliver_packets :: "'c listener \<Rightarrow> soup_packet list \<Rightarrow> 'c \<times> server_session \<Rightarrow> bool \<times> 'c \<times> server_session" where
  "deliver_packets li [] cs = (False, cs)"
| "deliver_packets li (p # ps) cs =
     (case session_packet li p cs of (left, cs) \<Rightarrow> if left then (True, cs) else deliver_packets li ps cs)"

lemma session_packets_deliver:
  assumes "frame_ok fr" "session_packets li fr cs = (fr', cs')"
  shows "\<exists>left. deliver_packets li (fst (frames (pending fr))) cs = (left, cs') \<and>
    (left \<or> frame_ok fr' \<and> pending fr' = snd (frames (pending fr)))"
  using assms
proof (induction li fr cs arbitrary: fr' cs' rule: session_packets.induct)
  case (1 li fr cs)
  show ?case
  proof (cases "frame_next fr")
    case None
    then show ?thesis using 1(2,3) frame_next_None[OF 1(2)] by (intro exI[of _ False]) (simp add: session_packets.simps[of li fr])
  next
    case (Some pf)
    obtain p fr1 where pf: "pf = (p, fr1)" by (cases pf)
    obtain left cs1 where s: "session_packet li p cs = (left, cs1)" by (cases "session_packet li p cs")
    note n = frame_next_Some[OF 1(2) Some[unfolded pf]]
    show ?thesis
    proof (cases left)
      case True
      then show ?thesis using 1(3) Some pf s n
        by (intro exI[of _ True]) (simp add: session_packets.simps[of li fr] frames_Some)
    next
      case False
      then have "session_packets li fr1 cs1 = (fr', cs')"
        using 1(3) Some pf s by (simp add: session_packets.simps[of li fr])
      from 1(1)[OF Some pf[symmetric] s[symmetric] False n(2) this] show ?thesis using n s False by (simp add: frames_Some)
    qed
  qed
qed

definition recv_at :: "u64 \<Rightarrow> 'c \<times> server_session \<Rightarrow> 'c \<times> server_session" where
  "recv_at t cs = (fst cs, (snd cs)\<lparr>ss_last_recv_ns := t\<rparr>)"

lemma recv_at_simps [simp]:
  "fst (recv_at t cs) = fst cs" "ss_state (snd (recv_at t cs)) = ss_state (snd cs)"
  "ss_out (snd (recv_at t cs)) = ss_out (snd cs)" "recv_at u (recv_at t cs) = recv_at u cs"
  by (simp_all add: recv_at_def)

text \<open>
  What a session relies on in its listener: its callbacks do not look at the time of the last
  reception, and a session that has logged out stays closed.
\<close>

locale session_listener =
  fixes li :: "'c listener"
  assumes login_recv: "on_login_request li r (recv_at t cs) = recv_at t (on_login_request li r cs)"
    and unsequenced_recv: "on_unsequenced li d (recv_at t cs) = recv_at t (on_unsequenced li d cs)"
    and logout_recv: "on_logout li (recv_at t cs) = recv_at t (on_logout li cs)"
    and logout_closed: "ss_state (snd cs) = Closed \<Longrightarrow> ss_state (snd (on_logout li cs)) = Closed"
begin

lemma packet_recv: "session_packet li p (recv_at t cs) = apsnd (recv_at t) (session_packet li p cs)"
proof -
  obtain c s where cs: "cs = (c, s)" by (cases cs)
  have l: "on_login_request li r (c, s\<lparr>ss_last_recv_ns := t\<rparr>) = recv_at t (on_login_request li r (c, s))"
    "on_unsequenced li d (c, s\<lparr>ss_last_recv_ns := t\<rparr>) = recv_at t (on_unsequenced li d (c, s))" for r d
    using login_recv[where cs = "(c, s)"] unsequenced_recv[where cs = "(c, s)"] by (simp_all add: recv_at_def)
  have o: "on_logout li (c, s\<lparr>ss_last_recv_ns := t, ss_state := Closed\<rparr>) = recv_at t (on_logout li (c, s\<lparr>ss_state := Closed\<rparr>))"
    using logout_recv[where t = t and cs = "(c, s\<lparr>ss_state := Closed\<rparr>)"] by (cases s) (simp add: recv_at_def)
  show ?thesis
  proof (cases "ss_state s")
    case AwaitingLogin
    then show ?thesis by (cases "decode_login_request (sp_payload p)")
      (simp_all add: cs recv_at_def session_packet_def Let_def l reject_login_def queue_packet_def)
  qed (simp_all add: cs recv_at_def session_packet_def Let_def l o)
qed

lemma deliver_recv: "deliver_packets li ps (recv_at t cs) = apsnd (recv_at t) (deliver_packets li ps cs)"
proof (induction ps arbitrary: cs)
  case (Cons p ps)
  obtain left cs1 where s: "session_packet li p cs = (left, cs1)" by (cases "session_packet li p cs")
  then show ?case using packet_recv[of p t cs] Cons.IH[of cs1] by simp
qed simp

lemma left_closed: "session_packet li p cs = (True, cs') \<Longrightarrow> ss_state (snd cs') = Closed"
  by (auto simp: session_packet_def reject_login_def Let_def logout_closed split: session_state.splits if_splits option.splits)

lemma deliver_left_closed: "deliver_packets li ps cs = (True, cs') \<Longrightarrow> ss_state (snd cs') = Closed"
proof (induction ps arbitrary: cs)
  case (Cons p ps)
  then show ?case by (auto split: prod.splits if_splits dest: left_closed)
qed simp

lemma deliver_closed: "ss_state (snd cs) = Closed \<Longrightarrow> snd (deliver_packets li ps cs) = cs"
  by (cases ps) (simp_all add: session_packet_def)

lemma deliver_append:
  "snd (deliver_packets li (ps @ qs) cs) = snd (deliver_packets li qs (snd (deliver_packets li ps cs)))"
proof (induction ps arbitrary: cs)
  case (Cons p ps)
  obtain left cs1 where s: "session_packet li p cs = (left, cs1)" by (cases "session_packet li p cs")
  show ?case using Cons.IH[of cs1] s left_closed[of p cs cs1] deliver_closed[of cs1 qs] by (cases left) simp_all
qed simp

lemma bytes_closed: "ss_state (snd (snd st)) = Closed \<Longrightarrow> fold (\<lambda>(d, t). session_on_bytes li d t) chunks st = st"
  by (induction chunks) (auto simp: session_on_bytes_def split: prod.splits)

text \<open>However a stream is cut into pieces, the session acts on its packets, in order.\<close>

lemma any_chunking:
  assumes "frame_ok fr" "next_frame (pending fr) = None \<or> ss_state (snd cs) = Closed"
  shows "recv_at u (snd (fold (\<lambda>(d, t). session_on_bytes li d t) chunks (fr, cs))) =
    recv_at u (snd (deliver_packets li (fst (frames (pending fr @ concat (map fst chunks)))) cs))"
  using assms
proof (induction chunks arbitrary: fr cs)
  case Nil
  then show ?case using deliver_closed[of cs] by auto
next
  case (Cons ch chunks)
  obtain d t where ch: "ch = (d, t)" by (cases ch)
  show ?case
  proof (cases "ss_state (snd cs) = Closed")
    case True
    then show ?thesis using bytes_closed[of "(fr, cs)" "ch # chunks"] deliver_closed[OF True] by simp
  next
    case False
    let ?ps = "fst (frames (pending fr @ d))"
    obtain fr1 cs1 where 1: "session_packets li (frame_push d fr) (recv_at t cs) = (fr1, cs1)"
      by (cases "session_packets li (frame_push d fr) (recv_at t cs)")
    then have b: "session_on_bytes li d t (fr, cs) = (fr1, cs1)" using False by (cases cs) (simp add: session_on_bytes_def recv_at_def)
    obtain left where l: "deliver_packets li ?ps (recv_at t cs) = (left, cs1)"
      "left \<or> frame_ok fr1 \<and> pending fr1 = snd (frames (pending fr @ d))"
      using session_packets_deliver[OF _ 1] Cons.prems(1) by auto
    have eq: "recv_at u (snd (deliver_packets li qs cs1)) = recv_at u (snd (deliver_packets li (?ps @ qs) cs))" for qs
    proof -
      have r: "recv_at u (snd (deliver_packets li qs z)) = snd (deliver_packets li qs (recv_at u z))" for z
        by (simp add: deliver_recv)
      have "cs1 = recv_at t (snd (deliver_packets li ?ps cs))" using l(1) deliver_recv[of ?ps t cs] by (metis snd_apsnd snd_conv)
      then have "recv_at u cs1 = recv_at u (snd (deliver_packets li ?ps cs))" by simp
      then show ?thesis unfolding r deliver_append by simp
    qed
    show ?thesis
    proof (cases left)
      case True
      then have c: "ss_state (snd cs1) = Closed" using l(1) deliver_left_closed[of ?ps "recv_at t cs" cs1] by simp
      let ?qs = "fst (frames (snd (frames (pending fr @ d)) @ concat (map fst chunks)))"
      show ?thesis using eq[of ?qs] bytes_closed[of "(fr1, cs1)" chunks] c deliver_closed[OF c]
        by (simp add: ch b frames_append[of "pending fr @ d"] flip: append_assoc)
    next
      case False
      then have p: "frame_ok fr1" "pending fr1 = snd (frames (pending fr @ d))" using l(2) by auto
      then have "next_frame (pending fr1) = None" by (simp add: frames_rest)
      from Cons.IH[OF p(1) disjI1[OF this]] show ?thesis using eq p(2)
        by (simp add: ch b frames_append[of "pending fr @ d"] flip: append_assoc)
    qed
  qed
qed

end

section \<open>The login request\<close>

lemma append_alpha_length [simp]: "length (append_alpha s w out) = length out + w"
  by (simp add: append_alpha_def)

lemma trim_digits: "\<forall>c\<in>set ds. is_digit c \<Longrightarrow> trim_field (replicate k 0x20 @ ds) = ds"
proof -
  assume d: "\<forall>c\<in>set ds. is_digit c"
  then have n: "\<forall>c\<in>set ds. c \<noteq> 0x20" by (auto simp: is_digit_def word_le_nat_alt)
  have "dropWhile (\<lambda>c. c = 0x20) (replicate k 0x20 @ ds) = dropWhile (\<lambda>c. c = 0x20) ds" by (induction k) simp_all
  also have "\<dots> = ds" using n by (cases ds) auto
  moreover have "dropWhile (\<lambda>c. c = 0x20) (rev ds) = rev ds" using n by (auto simp: dropWhile_eq_self_iff hd_rev)
  ultimately show ?thesis by (simp add: trim_field_def)
qed

lemma decode_seq_digits: "\<forall>c\<in>set ds. is_digit c \<Longrightarrow> decode_seq (of_nat a) ds = Some (of_nat (dec_value a ds))"
proof (induction ds arbitrary: a)
  case (Cons c ds)
  have "of_nat a * 10 + ucast (c - 0x30) = (of_nat (a * 10 + unat (c - 0x30)) :: u64)" by simp
  then show ?case using Cons.IH[of "a * 10 + unat (c - 0x30)"] Cons.prems by (simp add: dec_value_def del: of_nat_add of_nat_mult)
qed (simp add: dec_value_def)

lemma seq_digits: "length (to_string_nat (unat (q :: u64))) \<le> 20"
proof -
  have "unat q < 2 ^ LENGTH(64)" by (rule unsigned_less)
  then have "unat q < 10 ^ Suc 19" by simp
  from length_to_string_nat[OF this] show ?thesis by simp
qed

text \<open>A login request decodes to its trimmed fields and its sequence number.\<close>

lemma login_request_decodes:
  "\<exists>payload. append_login_request user pass sess q out = append_packet kLoginRequest payload out \<and> length payload = 46 \<and>
     decode_login_request payload = Some \<lparr>lr_username = trim_field (append_alpha user 6 []),
       lr_password = trim_field (append_alpha pass 10 []), lr_requested_session = trim_field (append_alpha sess 10 []),
       lr_requested_seq = q\<rparr>"
proof -
  define d a b c where "d = to_string_nat (unat q)" and "a = append_alpha user 6 []"
    and "b = append_alpha pass 10 []" and "c = append_alpha sess 10 []"
  define p where "p = a @ b @ c @ replicate (20 - length d) 0x20 @ d"
  have len: "length a = 6" "length b = 10" "length c = 10" "length d \<le> 20"
    using seq_digits[of q] by (simp_all add: a_def b_def c_def d_def)
  have dig: "\<forall>c\<in>set d. is_digit c" and val: "dec_value 0 d = unat q"
    by (simp_all add: d_def to_string_nat_digits dec_value_to_string)
  have 1: "append_login_request user pass sess q out = append_packet kLoginRequest p out"
    by (simp add: append_login_request_def p_def a_def b_def c_def d_def append_alpha_def append_seq_def Let_def del: upt_rec_numeral)
  have 2: "length p = 46" using len by (simp add: p_def)
  have "peek p 0 6 = a" "peek p 6 10 = b" "peek p 16 10 = c" "peek p 26 20 = replicate (20 - length d) 0x20 @ d"
    using len by (simp_all add: peek_def p_def)
  moreover have "decode_seq 0 d = Some q" using decode_seq_digits[OF dig, of 0] val by simp
  ultimately have "decode_login_request p = Some \<lparr>lr_username = trim_field a, lr_password = trim_field b,
    lr_requested_session = trim_field c, lr_requested_seq = q\<rparr>"
    using 2 by (simp add: decode_login_request_def trim_digits[OF dig])
  with 1 2 show ?thesis unfolding a_def b_def c_def by blast
qed

section \<open>A frame of length zero\<close>

text \<open>
  A header announcing no byte at all is never consumed: whatever follows, the parser yields no
  packet any more, while every piece that arrives still counts as a sign of life.
\<close>

lemma zero_length_frame_wedges:
  assumes "frame_ok fr" "pending fr = [0, 0] @ rest"
  shows "frame_next (frame_push d fr) = None \<and> pending (frame_push d fr) = [0, 0] @ rest @ d"
proof -
  have "next_frame ([0, 0] @ rest @ d) = None" by (simp add: next_frame_def get_be16_def)
  then show ?thesis using assms frame_next_None[of "frame_push d fr"] by simp
qed

section \<open>Midnight\<close>

text \<open>
  The clock restarts at midnight, and the unsigned difference of the first reading after it and the
  last reception before it is huge: a session heard from a moment ago is timed out.
\<close>

lemma tick_after_midnight:
  assumes "ss_state s \<noteq> Closed" "now < ss_last_recv_ns s" "ss_last_recv_ns s \<le> 86400000000000"
  shows "session_tick li now (c, s) = on_timeout li (c, s\<lparr>ss_state := Closed\<rparr>)"
proof -
  have "kSessionTimeoutNs \<le> now - ss_last_recv_ns s"
    using assms(2,3) by (simp add: kSessionTimeoutNs_def word_le_nat_alt word_less_nat_alt unat_sub_if')
  then show ?thesis using assms(1) by (simp add: session_tick_def)
qed

end
