(* ===== verification/Gateway_Inv.thy ===== *)
theory Gateway_Inv
  imports Gateway Soup_Stream
begin

text \<open>
  The invariant of the gateway: connections, descriptors and the poller agree, and writability is
  asked for exactly where output is unsent. A session's callbacks only queue commands and output, so
  every connection is a listener in the sense of the session contract.
\<close>

section \<open>The listener of a connection\<close>

lemma risk_reject_recv: "risk_reject clock tk (recv_at t gs) = recv_at t (risk_reject clock tk gs)"
  by (simp add: risk_reject_def recv_at_def send_sequenced_def queue_packet_def Let_def)

lemma apfst_recv: "apfst f (recv_at t gs) = recv_at t (apfst f gs)"
  by (cases gs) (simp add: recv_at_def)

lemma handle_ouch_recv: "handle_ouch clock cid d (recv_at t gs) = recv_at t (handle_ouch clock cid d gs)"
  by (simp add: handle_ouch_def risk_reject_recv apfst_recv Let_def split: option.split)

interpretation conn: session_listener "conn_listener clock cid"
proof
  show "on_login_request (conn_listener clock cid) r (recv_at t cs) = recv_at t (on_login_request (conn_listener clock cid) r cs)" for r t cs
    by (cases cs) (simp add: conn_listener_def recv_at_def accept_login_def queue_packet_def Let_def)
qed (simp_all add: conn_listener_def handle_ouch_recv)

lemma session_packets_keep:
  "(\<And>p cs. P (fst cs) \<Longrightarrow> P (fst (snd (session_packet li p cs)))) \<Longrightarrow> P (fst cs) \<Longrightarrow> P (fst (snd (session_packets li fr cs)))"
proof (induction li fr cs rule: session_packets.induct)
  case (1 li fr cs)
  show ?case
  proof (cases "frame_next fr")
    case None
    then show ?thesis using 1(3) by (simp add: session_packets.simps[of li fr])
  next
    case (Some pf)
    obtain p fr1 where pf: "pf = (p, fr1)" by (cases pf)
    obtain left cs1 where s: "session_packet li p cs = (left, cs1)" by (cases "session_packet li p cs")
    have "P (fst cs1)" using 1(2)[of cs p] 1(3) s by simp
    then show ?thesis using 1(1)[OF Some pf[symmetric] s[symmetric] _ 1(2)] Some pf s
      by (simp add: session_packets.simps[of li fr])
  qed
qed

text \<open>What the callbacks leave alone.\<close>

definition same_net :: "gateway \<Rightarrow> gateway \<Rightarrow> bool" where
  "same_net gw gw' \<longleftrightarrow> gw_next_client_id gw' = gw_next_client_id gw \<and> gw_conns gw' = gw_conns gw \<and>
     gw_by_fd gw' = gw_by_fd gw \<and> gw_poll gw' = gw_poll gw \<and> gw_wire gw' = gw_wire gw"

lemma same_net_trans: "same_net a b \<Longrightarrow> same_net b c \<Longrightarrow> same_net a c"
  by (simp add: same_net_def)

lemma handle_ouch_net: "same_net (fst gs) (fst (handle_ouch clock cid d gs))"
  by (cases gs) (simp add: handle_ouch_def same_net_def risk_reject_def push_command_def Let_def split: option.split)

lemma packet_net: "same_net (fst gs) (fst (snd (session_packet (conn_listener clock cid) p gs)))"
  using handle_ouch_net[of gs clock cid]
  by (cases gs) (auto simp: session_packet_def conn_listener_def Let_def same_net_def split: session_state.split option.split)

lemma on_bytes_net: "same_net gw (fst (snd (session_on_bytes (conn_listener clock cid) d t (fr, gw, s))))"
proof -
  have "same_net gw (fst (snd (session_packets (conn_listener clock cid) fr (gw, s))))" for fr s
    by (rule session_packets_keep) (auto intro: same_net_trans packet_net simp: same_net_def[of gw gw])
  then show ?thesis by (simp add: session_on_bytes_def same_net_def)
qed

section \<open>The invariant\<close>

definition conn_ok :: "gateway \<Rightarrow> u64 \<Rightarrow> conn \<Rightarrow> bool" where
  "conn_ok gw cid c \<longleftrightarrow> gc_id c = cid \<and> gw_by_fd gw (gc_fd c) = Some cid \<and>
     gw_poll gw (gc_fd c) = Some (gc_write_enabled c) \<and> (gc_write_enabled c \<longleftrightarrow> gc_outbuf c \<noteq> []) \<and>
     unat cid < unat (gw_next_client_id gw)"

definition net_ok :: "gateway \<Rightarrow> bool" where
  "net_ok gw \<longleftrightarrow> (\<forall>cid c. gw_conns gw cid = Some c \<longrightarrow> conn_ok gw cid c) \<and>
     (\<forall>fd cid. gw_by_fd gw fd = Some cid \<longrightarrow> (\<exists>c. gw_conns gw cid = Some c \<and> gc_fd c = fd))"

definition all_flushed :: "gateway \<Rightarrow> bool" where
  "all_flushed gw \<longleftrightarrow> (\<forall>cid c. gw_conns gw cid = Some c \<longrightarrow> ss_out (gc_session c) = [])"

definition gw_inv :: "gateway \<Rightarrow> bool" where
  "gw_inv gw \<longleftrightarrow> net_ok gw \<and> all_flushed gw"

lemma net_ok_same: "same_net gw gw' \<Longrightarrow> net_ok gw' = net_ok gw"
  by (simp add: net_ok_def conn_ok_def same_net_def)

lemma net_ok_conn: "net_ok gw \<Longrightarrow> gw_conns gw cid = Some c \<Longrightarrow> conn_ok gw cid c"
  by (simp add: net_ok_def)

lemma net_ok_put:
  assumes "net_ok gw" "gw_conns gw cid = Some c" "gc_fd c' = gc_fd c" "gc_id c' = gc_id c"
    "gc_write_enabled c' = gc_write_enabled c" "gc_outbuf c' = gc_outbuf c"
  shows "net_ok (put_conn cid c' gw)"
  using assms unfolding net_ok_def put_conn_def conn_ok_def by (auto split: if_splits) (metis option.inject)+

lemma net_ok_close: "net_ok gw \<Longrightarrow> net_ok (close_conn cid gw)"
  unfolding net_ok_def close_conn_def conn_ok_def by (auto split: option.splits if_splits) (metis option.inject)+

lemma net_ok_filter:
  assumes "net_ok gw" "gw_conns gw cid = Some c0" "gc_fd c = gc_fd c0" "gc_id c = gc_id c0" "gc_write_enabled c = gc_write_enabled c0"
  shows "net_ok (update_write_filter cid c (gc_outbuf c \<noteq> []) gw)"
proof -
  have ok: "conn_ok gw cid c0" using assms(1,2) by (rule net_ok_conn)
  have other: "gc_fd d \<noteq> gc_fd c" if "gw_conns gw j = Some d" "j \<noteq> cid" for j d
    using net_ok_conn[OF assms(1) that(1)] ok that(2) assms(3) by (auto simp: conn_ok_def)
  show ?thesis using assms ok other unfolding net_ok_def update_write_filter_def set_write_def put_conn_def conn_ok_def
    by (auto split: if_splits option.splits) (metis option.inject)+
qed

section \<open>Operations keep the invariant\<close>

text \<open>An operation on one connection leaves the others and next to nothing else.\<close>

definition touches_only :: "u64 \<Rightarrow> gateway \<Rightarrow> gateway \<Rightarrow> bool" where
  "touches_only cid gw gw' \<longleftrightarrow> (\<forall>j. j \<noteq> cid \<longrightarrow> gw_conns gw' j = gw_conns gw j)"

definition flushed_but :: "u64 \<Rightarrow> gateway \<Rightarrow> bool" where
  "flushed_but cid gw \<longleftrightarrow> (\<forall>j c. j \<noteq> cid \<longrightarrow> gw_conns gw j = Some c \<longrightarrow> ss_out (gc_session c) = [])"

lemma flushed_but_touch: "flushed_but cid gw \<Longrightarrow> touches_only cid gw gw' \<Longrightarrow> flushed_but cid gw'"
  by (simp add: flushed_but_def touches_only_def)

lemma flushed_but_all: "all_flushed gw \<Longrightarrow> flushed_but cid gw"
  by (simp add: all_flushed_def flushed_but_def)

lemma conns_filter:
  "gw_conns (update_write_filter cid c b gw) = (gw_conns gw)(cid \<mapsto> c\<lparr>gc_write_enabled := b\<rparr>)"
  by (cases c) (auto simp: update_write_filter_def put_conn_def set_write_def split: option.split)

lemma conns_put: "gw_conns (put_conn cid c gw) = (gw_conns gw)(cid \<mapsto> c)"
  by (simp add: put_conn_def)

lemma conns_close: "gw_conns (close_conn cid gw) = (gw_conns gw)(cid := None)"
  by (auto simp: close_conn_def split: option.split)

lemmas conns_simps [simp] = conns_filter conns_put conns_close

lemma flush_touches: "touches_only cid gw (gw_flush cid res gw)"
  by (simp add: touches_only_def gw_flush_def take_output_def Let_def split: option.split send_result.split)

lemma flush_out: "gw_conns (gw_flush cid res gw) cid = Some c \<Longrightarrow> ss_out (gc_session c) = []"
  by (auto simp: gw_flush_def take_output_def Let_def split: option.splits send_result.splits if_splits)

lemma flush_alive: "gw_conns gw cid = Some c \<Longrightarrow> res \<noteq> SendFailed \<Longrightarrow> \<exists>c'. gw_conns (gw_flush cid res gw) cid = Some c'"
  by (simp add: gw_flush_def take_output_def Let_def split: send_result.split)

lemma flush_net_ok:
  assumes "net_ok gw"
  shows "net_ok (gw_flush cid res gw)"
proof (cases "gw_conns gw cid")
  case (Some c)
  define b where "b = gc_outbuf c @ ss_out (gc_session c)"
  define d where "d = c\<lparr>gc_session := (gc_session c)\<lparr>ss_out := []\<rparr>, gc_outbuf := b\<rparr>"
  have d: "gc_fd d = gc_fd c" "gc_id d = gc_id c" "gc_write_enabled d = gc_write_enabled c" "gc_outbuf d = b"
    by (simp_all add: d_def)
  have flush: "gw_flush cid res gw =
    (if b = [] then put_conn cid d gw
     else case res of
       Sent n \<Rightarrow> update_write_filter cid (d\<lparr>gc_outbuf := drop n b\<rparr>) (gc_outbuf (d\<lparr>gc_outbuf := drop n b\<rparr>) \<noteq> [])
         (gw\<lparr>gw_wire := (gw_wire gw)(cid := gw_wire gw cid @ take n b)\<rparr>)
     | SendAgain \<Rightarrow> update_write_filter cid d (gc_outbuf d \<noteq> []) gw
     | SendFailed \<Rightarrow> close_conn cid gw)"
    by (cases res) (simp_all add: gw_flush_def Some take_output_def Let_def d_def b_def)
  have "net_ok (gw\<lparr>gw_wire := w\<rparr>)" for w using assms by (simp add: net_ok_def conn_ok_def)
  then have "net_ok (update_write_filter cid (d\<lparr>gc_outbuf := drop n b\<rparr>) (gc_outbuf (d\<lparr>gc_outbuf := drop n b\<rparr>) \<noteq> []) (gw\<lparr>gw_wire := w\<rparr>))" for n w
    by (rule net_ok_filter[of _ _ c]) (simp_all add: Some d)
  moreover have "net_ok (update_write_filter cid d (gc_outbuf d \<noteq> []) gw)" by (rule net_ok_filter[OF assms Some d(1-3)])
  moreover have "net_ok (put_conn cid d gw)" if "b = []"
    using that b_def by (intro net_ok_put[OF assms Some d(1-3)]) (simp add: d)
  ultimately show ?thesis unfolding flush using net_ok_close[OF assms] by (cases res) simp_all
qed (simp add: gw_flush_def assms)

lemma flush_inv:
  assumes "net_ok gw" "flushed_but cid gw"
  shows "gw_inv (gw_flush cid res gw)"
proof -
  have "flushed_but cid (gw_flush cid res gw)" using assms(2) flush_touches by (rule flushed_but_touch)
  then have "all_flushed (gw_flush cid res gw)" using flush_out[of cid res gw] unfolding all_flushed_def flushed_but_def by metis
  then show ?thesis using flush_net_ok[OF assms(1)] by (simp add: gw_inv_def)
qed

lemma close_inv: "gw_inv gw \<Longrightarrow> gw_inv (close_conn cid gw)"
  using net_ok_close[of gw cid] by (auto simp: gw_inv_def all_flushed_def)

lemma close_inv_but: "net_ok gw \<Longrightarrow> flushed_but cid gw \<Longrightarrow> gw_inv (close_conn cid gw)"
  using net_ok_close[of gw cid] by (auto simp: gw_inv_def all_flushed_def flushed_but_def)

text \<open>Reading leaves the connection in place, with its unsent output.\<close>

lemma read_chunk_ok:
  assumes "net_ok gw" "gw_conns gw cid = Some c"
  shows "net_ok (read_chunk clock cid dt gw)" "touches_only cid gw (read_chunk clock cid dt gw)"
    "\<exists>c'. gw_conns (read_chunk clock cid dt gw) cid = Some c' \<and> gc_outbuf c' = gc_outbuf c"
proof -
  obtain fr gw1 s where b: "session_on_bytes (conn_listener clock cid) (fst dt) (snd dt) (gc_parser c, gw, gc_session c) = (fr, gw1, s)"
    by (cases "session_on_bytes (conn_listener clock cid) (fst dt) (snd dt) (gc_parser c, gw, gc_session c)") auto
  have net: "same_net gw gw1" using on_bytes_net[of gw clock cid "fst dt" "snd dt" "gc_parser c" "gc_session c"] b by simp
  have e: "read_chunk clock cid dt gw = put_conn cid (c\<lparr>gc_session := s, gc_parser := fr\<rparr>) gw1"
    by (simp add: read_chunk_def assms(2) b)
  show "net_ok (read_chunk clock cid dt gw)" unfolding e
    using net assms by (intro net_ok_put[of gw1 cid c]) (simp_all add: net_ok_same[OF net], simp add: same_net_def)
  show "touches_only cid gw (read_chunk clock cid dt gw)"
    "\<exists>c'. gw_conns (read_chunk clock cid dt gw) cid = Some c' \<and> gc_outbuf c' = gc_outbuf c"
    using net by (auto simp: e touches_only_def same_net_def)
qed

lemma read_chunks_ok:
  assumes "net_ok gw" "gw_conns gw cid = Some c"
  shows "net_ok (fold (read_chunk clock cid) chunks gw) \<and> touches_only cid gw (fold (read_chunk clock cid) chunks gw) \<and>
    (\<exists>c'. gw_conns (fold (read_chunk clock cid) chunks gw) cid = Some c' \<and> gc_outbuf c' = gc_outbuf c)"
  using assms
proof (induction chunks arbitrary: gw c)
  case (Cons dt chunks)
  obtain c' where c': "gw_conns (read_chunk clock cid dt gw) cid = Some c'" "gc_outbuf c' = gc_outbuf c"
    using read_chunk_ok(3)[OF Cons.prems, of clock dt] by blast
  show ?case using Cons.IH[OF read_chunk_ok(1)[OF Cons.prems, of clock dt] c'(1)] c'(2) read_chunk_ok(2)[OF Cons.prems, of clock dt]
    by (auto simp: touches_only_def)
qed (simp add: touches_only_def)

lemma handle_readable_ok:
  assumes "gw_inv gw" "gw_conns gw cid = Some c" "res \<noteq> SendFailed"
  shows "\<exists>gw'. handle_readable clock cid chunks stop res gw = Some gw' \<and> gw_inv gw'"
proof -
  let ?r = "fold (read_chunk clock cid) chunks gw"
  have n: "net_ok gw" "flushed_but cid gw" using assms(1) flushed_but_all by (auto simp: gw_inv_def)
  note r = read_chunks_ok[OF n(1) assms(2), of clock chunks]
  have f: "net_ok ?r" "flushed_but cid ?r" using r flushed_but_touch[OF n(2)] by auto
  obtain c1 where "gw_conns ?r cid = Some c1" using r by blast
  from flush_alive[OF this assms(3)] obtain c2 where c2: "gw_conns (gw_flush cid res ?r) cid = Some c2" by blast
  note inv = flush_inv[OF f, of res]
  show ?thesis using assms(2) c2 inv close_inv[OF inv] close_inv_but[OF f]
    by (cases stop) (simp_all add: handle_readable_def Let_def)
qed

lemma handle_writable_ok:
  assumes "gw_inv gw" "gw_conns gw cid = Some c"
  shows "\<exists>gw'. handle_writable cid res gw = Some gw' \<and> gw_inv gw'"
  using assms flush_inv[of gw cid res] flushed_but_all by (auto simp: handle_writable_def gw_inv_def)

lemma pump_one_inv:
  assumes "gw_inv gw"
  shows "gw_inv (pump_one rr gw)"
proof (cases "gw_conns gw (cr_client_id (fst rr))")
  case (Some c)
  let ?gw = "put_conn (cr_client_id (fst rr)) (c\<lparr>gc_session := send_sequenced (encode_ouch (cr_msg (fst rr))) (gc_session c)\<rparr>) gw"
  have "net_ok ?gw" using assms Some by (intro net_ok_put[of gw _ c]) (simp_all add: gw_inv_def)
  moreover have "flushed_but (cr_client_id (fst rr)) ?gw" using assms by (simp add: gw_inv_def all_flushed_def flushed_but_def)
  ultimately show ?thesis using flush_inv by (simp add: pump_one_def Some)
qed (simp add: pump_one_def assms)

lemma pump_responses_inv: "gw_inv gw \<Longrightarrow> gw_inv (pump_responses resps gw)"
  by (induction resps arbitrary: gw) (simp_all add: pump_responses_def pump_one_inv)

lemma close_all_inv: "gw_inv gw \<Longrightarrow> gw_inv (fold close_conn ids gw)"
  by (induction ids arbitrary: gw) (simp_all add: close_inv)

lemma session_tick_net: "fst (session_tick (conn_listener clock cid) now (gw, s)) = gw"
  by (simp add: session_tick_def conn_listener_def Let_def)

lemma tick_loop_ok:
  assumes "gw_inv gw" "distinct (map fst conns)" "\<forall>(cid, res)\<in>set conns. gw_conns gw cid \<noteq> None \<and> res \<noteq> SendFailed"
  shows "\<exists>ids gw'. tick_loop clock now conns to_close gw = Some (ids, gw') \<and> gw_inv gw'"
  using assms
proof (induction conns arbitrary: to_close gw)
  case (Cons cr conns)
  obtain cid res where cr: "cr = (cid, res)" by (cases cr)
  obtain c where c: "gw_conns gw cid = Some c" using Cons.prems(3) cr by auto
  obtain s where s: "session_tick (conn_listener clock cid) now (gw, gc_session c) = (gw, s)"
    using session_tick_net[of clock cid now gw "gc_session c"] by (cases "session_tick (conn_listener clock cid) now (gw, gc_session c)") auto
  let ?p = "put_conn cid (c\<lparr>gc_session := s\<rparr>) gw"
  let ?f = "gw_flush cid res ?p"
  have "net_ok ?p" "flushed_but cid ?p"
    using Cons.prems(1) c net_ok_put[of gw cid c] by (simp_all add: gw_inv_def all_flushed_def flushed_but_def)
  then have inv: "gw_inv ?f" by (rule flush_inv)
  obtain c2 where c2: "gw_conns ?f cid = Some c2" using flush_alive[of ?p cid _ res] Cons.prems(3) cr by auto
  have "\<forall>(j, r)\<in>set conns. gw_conns ?f j \<noteq> None \<and> r \<noteq> SendFailed"
    using Cons.prems(2,3) flush_touches[of cid ?p res] cr by (fastforce simp: touches_only_def)
  from Cons.IH[OF inv _ this] show ?case using Cons.prems(2) by (simp add: cr c s c2 Let_def)
qed simp

lemma accept_one_inv:
  assumes "gw_inv gw" "gw_by_fd gw (fst fn) = None" "unat (gw_next_client_id gw) + 1 < 2 ^ 64"
  shows "gw_inv (accept_one fn gw)" "gw_by_fd (accept_one fn gw) = (gw_by_fd gw)(fst fn \<mapsto> gw_next_client_id gw)"
    "unat (gw_next_client_id (accept_one fn gw)) = unat (gw_next_client_id gw) + 1"
proof -
  let ?n = "gw_next_client_id gw"
  have un: "unat (?n + 1) = unat ?n + 1" using assms(3) iffD1[OF unat_add_lem, of ?n 1] by simp
  have fresh: "gw_conns gw ?n = None"
  proof (rule ccontr)
    assume "gw_conns gw ?n \<noteq> None"
    then show False using assms(1) by (auto simp: gw_inv_def net_ok_def conn_ok_def)
  qed
  have fds: "gc_fd c \<noteq> fst fn" if "gw_conns gw j = Some c" for j c
    using net_ok_conn[of gw j c] assms(1,2) that by (auto simp: gw_inv_def conn_ok_def)
  show "gw_by_fd (accept_one fn gw) = (gw_by_fd gw)(fst fn \<mapsto> ?n)" "unat (gw_next_client_id (accept_one fn gw)) = unat ?n + 1"
    by (simp_all add: accept_one_def Let_def un)
  have "net_ok (accept_one fn gw)" using assms(1) fresh fds un unfolding gw_inv_def net_ok_def conn_ok_def
    by (auto simp: accept_one_def conn_new_def Let_def split: if_splits) (metis option.distinct(1) less_SucI)+
  moreover have "all_flushed (accept_one fn gw)" using assms(1) fresh
    by (auto simp: gw_inv_def all_flushed_def accept_one_def conn_new_def session_new_def Let_def split: if_splits)
  ultimately show "gw_inv (accept_one fn gw)" by (simp add: gw_inv_def)
qed

lemma handle_accept_inv:
  assumes "gw_inv gw" "distinct (map fst acc)" "\<forall>fn\<in>set acc. gw_by_fd gw (fst fn) = None"
    "unat (gw_next_client_id gw) + length acc < 2 ^ 64"
  shows "gw_inv (handle_accept acc gw)"
  using assms
proof (induction acc arbitrary: gw)
  case (Cons fn acc)
  have n: "gw_by_fd gw (fst fn) = None" "unat (gw_next_client_id gw) + 1 < 2 ^ 64" using Cons.prems by auto
  note a = accept_one_inv[OF Cons.prems(1) n]
  have "\<forall>x\<in>set acc. gw_by_fd (accept_one fn gw) (fst x) = None"
  proof
    fix x assume x: "x \<in> set acc"
    then have "fst x \<in> fst ` set acc" by simp
    then have "fst x \<noteq> fst fn" using Cons.prems(2) by (metis distinct.simps(2) list.simps(9) set_map)
    then show "gw_by_fd (accept_one fn gw) (fst x) = None" using Cons.prems(3) x by (simp add: a(2))
  qed
  then show ?case using Cons.IH[OF a(1)] Cons.prems(2,4) a(3) by (simp add: handle_accept_def)
qed (simp add: handle_accept_def)

end
