(* ===== verification/Ouch_Client.thy ===== *)
theory Ouch_Client
  imports Gateway
begin

text \<open>
  The order entry client of \<^verbatim>\<open>src/client/ouch_client.hpp\<close> and \<^verbatim>\<open>ouch_client.cpp\<close>. The socket is the bytes that the
  kernel has taken; how many bytes of a \<^verbatim>\<open>send\<close> it takes, the pieces that \<^verbatim>\<open>recv\<close> returns and the clock
  are arguments. The calls of the handler are the list of messages it has seen.
\<close>

record ouch_client =
  cl_open :: bool
  cl_parser :: frame_parser
  cl_last_send_ns :: u64
  cl_wire :: bytes
  cl_seen :: "ouch_out list"

definition cl_new :: ouch_client where
  "cl_new = \<lparr>cl_open = False, cl_parser = frame_new, cl_last_send_ns = 0, cl_wire = [], cl_seen = []\<rparr>"

definition send_raw :: "nat \<times> u64 \<Rightarrow> bytes \<Rightarrow> ouch_client \<Rightarrow> ouch_client" where
  "send_raw io data cl =
     (if \<not> cl_open cl then cl
      else cl\<lparr>cl_wire := cl_wire cl @ take (fst io) data, cl_last_send_ns := snd io\<rparr>)"

definition send_ouch :: "nat \<times> u64 \<Rightarrow> bytes \<Rightarrow> ouch_client \<Rightarrow> ouch_client" where
  "send_ouch io msg cl = send_raw io (append_packet kUnsequenced msg []) cl"

definition cl_close :: "nat \<Rightarrow> ouch_client \<Rightarrow> ouch_client" where
  "cl_close taken cl =
     (if cl_open cl then cl\<lparr>cl_wire := cl_wire cl @ take taken (append_packet kLogoutRequest [] []), cl_open := False\<rparr>
      else cl)"

section \<open>Logging in\<close>

text \<open>The inner loop of \<^verbatim>\<open>connect\<close>: the first login answer among the pending packets.\<close>

function login_answer :: "frame_parser \<Rightarrow> bool option \<times> frame_parser" where
  "login_answer fr =
     (case frame_next fr of
        None \<Rightarrow> (None, fr)
      | Some (p, fr) \<Rightarrow>
          if sp_type p = kLoginAccepted then (Some True, fr)
          else if sp_type p = kLoginRejected then (Some False, fr)
          else login_answer fr)"
  by auto
termination
  by (relation "measure (\<lambda>fr. length (fr_buf fr) - fr_consumed fr)") (auto dest: frame_next_shrinks)

declare login_answer.simps [simp del]

text \<open>\<^verbatim>\<open>recv\<close> returns pieces of data and then fails: by the two-second cap at the latest.\<close>

fun connect_loop :: "nat \<Rightarrow> bytes list \<Rightarrow> ouch_client \<Rightarrow> bool \<times> ouch_client" where
  "connect_loop taken [] cl = (False, cl_close taken cl)"
| "connect_loop taken (buf # bufs) cl =
     (case login_answer (frame_push buf (cl_parser cl)) of
        (ans, fr) \<Rightarrow>
          let cl = cl\<lparr>cl_parser := fr\<rparr>
          in case ans of
               Some True \<Rightarrow> (True, cl)
             | Some False \<Rightarrow> (False, cl_close taken cl)
             | None \<Rightarrow> connect_loop taken bufs cl)"

definition send_login :: "nat \<times> u64 \<Rightarrow> bytes \<Rightarrow> bytes \<Rightarrow> ouch_client \<Rightarrow> ouch_client" where
  "send_login io username password cl = send_raw io (append_login_request username password [] 1 []) cl"

definition connect :: "bool \<Rightarrow> nat \<times> u64 \<Rightarrow> nat \<Rightarrow> bytes list \<Rightarrow> bytes \<Rightarrow> bytes \<Rightarrow> ouch_client \<Rightarrow> bool \<times> ouch_client" where
  "connect reached io taken bufs username password cl =
     (if \<not> reached then (False, cl\<lparr>cl_open := False\<rparr>)
      else connect_loop taken bufs (send_login io username password (cl\<lparr>cl_open := True\<rparr>)))"

section \<open>Orders\<close>

definition enter_msg :: "bytes \<Rightarrow> side \<Rightarrow> bytes \<Rightarrow> price \<Rightarrow> qty \<Rightarrow> enter_order" where
  "enter_msg token side symbol price shs = \<lparr>eo_token = make_token token, eo_side = side, eo_shares = shs,
     eo_stock = make_symbol symbol, eo_price = price, eo_tif = 99999, eo_firm = [0x53, 0x49, 0x4D, 0x20],
     eo_display = 0x59, eo_capacity = 0x41, eo_intermarket_sweep = 0x4E, eo_min_qty = 0, eo_cross_type = 0x4E,
     eo_customer_type = 0x52\<rparr>"

definition cl_enter :: "nat \<times> u64 \<Rightarrow> bytes \<Rightarrow> side \<Rightarrow> bytes \<Rightarrow> price \<Rightarrow> qty \<Rightarrow> ouch_client \<Rightarrow> ouch_client" where
  "cl_enter io token side symbol price shs cl =
     send_ouch io (encode_enter_order (enter_msg token side symbol price shs) (replicate kEnterOrderSize 0)) cl"

definition cancel_msg :: "bytes \<Rightarrow> qty \<Rightarrow> cancel_order" where
  "cancel_msg token keep_shares = \<lparr>co_token = make_token token, co_shares = keep_shares\<rparr>"

definition cl_cancel :: "nat \<times> u64 \<Rightarrow> bytes \<Rightarrow> qty \<Rightarrow> ouch_client \<Rightarrow> ouch_client" where
  "cl_cancel io token keep_shares cl =
     send_ouch io (encode_cancel_order (cancel_msg token keep_shares) (replicate kCancelOrderSize 0)) cl"

definition replace_msg :: "bytes \<Rightarrow> bytes \<Rightarrow> price \<Rightarrow> qty \<Rightarrow> replace_order" where
  "replace_msg existing replacement price shs = \<lparr>ro_existing_token = make_token existing,
     ro_replacement_token = make_token replacement, ro_shares = shs, ro_price = price, ro_tif = 99999,
     ro_display = 0x59, ro_intermarket_sweep = 0x4E, ro_min_qty = 0\<rparr>"

definition cl_replace :: "nat \<times> u64 \<Rightarrow> bytes \<Rightarrow> bytes \<Rightarrow> price \<Rightarrow> qty \<Rightarrow> ouch_client \<Rightarrow> ouch_client" where
  "cl_replace io existing replacement price shs cl =
     send_ouch io (encode_replace_order (replace_msg existing replacement price shs) (replicate kReplaceOrderSize 0)) cl"

section \<open>Answers\<close>

definition dispatch :: "bytes \<Rightarrow> ouch_out option" where
  "dispatch p =
     (if p ! 0 = 0x41 then map_option Accepted (decode_accepted p (length p))
      else if p ! 0 = 0x45 then map_option Executed (decode_executed p (length p))
      else if p ! 0 = 0x43 then map_option Canceled (decode_canceled p (length p))
      else if p ! 0 = 0x55 then map_option Replaced (decode_replaced p (length p))
      else if p ! 0 = 0x4A then map_option Rejected (decode_rejected p (length p))
      else if p ! 0 = 0x53 then map_option SystemEvent (decode_ouch_system_event p (length p))
      else None)"

function dispatch_packets :: "frame_parser \<Rightarrow> ouch_out list \<times> frame_parser" where
  "dispatch_packets fr =
     (case frame_next fr of
        None \<Rightarrow> ([], fr)
      | Some (p, fr) \<Rightarrow>
          apfst ((@) (if sp_type p = kSequenced \<and> sp_payload p \<noteq> []
                      then (case dispatch (sp_payload p) of None \<Rightarrow> [] | Some m \<Rightarrow> [m]) else []))
            (dispatch_packets fr))"
  by auto
termination
  by (relation "measure (\<lambda>fr. length (fr_buf fr) - fr_consumed fr)") (auto dest: frame_next_shrinks)

declare dispatch_packets.simps [simp del]

text \<open>\<open>bufs\<close> is what \<^verbatim>\<open>recv\<close> returns until it would block.\<close>

definition cl_poll :: "bytes list \<Rightarrow> nat \<times> u64 \<Rightarrow> ouch_client \<Rightarrow> ouch_client" where
  "cl_poll bufs io cl =
     (if \<not> cl_open cl then cl
      else
        case dispatch_packets (fold frame_push bufs (cl_parser cl)) of
          (seen, fr) \<Rightarrow>
            let cl = cl\<lparr>cl_parser := fr, cl_seen := cl_seen cl @ seen\<rparr>
            in if snd io - cl_last_send_ns cl > 1000000000 then send_raw io (append_packet kClientHeartbeat [] []) cl
               else cl)"

end
