(* ===== verification/Gateway_Props.thy ===== *)
theory Gateway_Props
  imports Gateway_Inv Ouch_Client Engine_Feed
begin

text \<open>
  Order entry from end to end: the commands the gateway lets through, the orders of a client on their
  way to the engine, the engine's answers on their way back, and the runs of the event loop.
\<close>

section \<open>What the gateway lets through\<close>

fun within_risk :: "ouch_in \<Rightarrow> bool" where
  "within_risk (EnterOrder m) \<longleftrightarrow> eo_shares m \<le> 1000000 \<and> (eo_price m = kMarketPrice \<or> eo_price m \<le> 1999999900)"
| "within_risk (CancelOrder m) \<longleftrightarrow> True"
| "within_risk (ReplaceOrder m) \<longleftrightarrow> ro_shares m \<le> 1000000 \<and> ro_price m \<le> 1999999900"

fun wf_in :: "ouch_in \<Rightarrow> bool" where
  "wf_in (EnterOrder m) \<longleftrightarrow> wf_enter_order m"
| "wf_in (CancelOrder m) \<longleftrightarrow> wf_cancel_order m"
| "wf_in (ReplaceOrder m) \<longleftrightarrow> wf_replace_order m"

fun encode_in :: "ouch_in \<Rightarrow> bytes" where
  "encode_in (EnterOrder m) = encode_enter_order m (replicate kEnterOrderSize 0)"
| "encode_in (CancelOrder m) = encode_cancel_order m (replicate kCancelOrderSize 0)"
| "encode_in (ReplaceOrder m) = encode_replace_order m (replicate kReplaceOrderSize 0)"

definition cmds_ok :: "gateway \<Rightarrow> bool" where
  "cmds_ok gw \<longleftrightarrow> (\<forall>cmd\<in>set (gw_to_engine gw). within_risk (cm_msg cmd) \<and> wf_in (cm_msg cmd))"

lemma decode_type:
  "decode_enter_order d n = Some m \<Longrightarrow> d ! 0 = 0x4F" "decode_cancel_order d n = Some m' \<Longrightarrow> d ! 0 = 0x58"
  "decode_replace_order d n = Some m'' \<Longrightarrow> d ! 0 = 0x55"
  by (auto simp: decode_enter_order_def decode_cancel_order_def decode_replace_order_def split: if_splits)

lemma encode_in_not_Nil [simp]: "encode_in m \<noteq> []"
  by (cases m; rule notI; drule arg_cong[where f = length])
    (simp_all add: enter_order.length_enc cancel_order.length_enc replace_order.length_enc
      kEnterOrderSize_def kCancelOrderSize_def kReplaceOrderSize_def)

lemma decode_encode_in:
  "wf_enter_order m \<Longrightarrow> decode_enter_order (encode_in (EnterOrder m)) (length (encode_in (EnterOrder m))) = Some m"
  "wf_cancel_order m' \<Longrightarrow> decode_cancel_order (encode_in (CancelOrder m')) (length (encode_in (CancelOrder m'))) = Some m'"
  "wf_replace_order m'' \<Longrightarrow> decode_replace_order (encode_in (ReplaceOrder m'')) (length (encode_in (ReplaceOrder m''))) = Some m''"
  by (simp_all add: enter_order.dec_enc cancel_order.dec_enc replace_order.dec_enc
    enter_order.length_enc cancel_order.length_enc replace_order.length_enc)

lemma push_queues:
  "gw_to_engine (push_command cid m gw) = gw_to_engine gw @ [\<lparr>cm_client_id = cid, cm_msg = m\<rparr>]"
  by (simp add: push_command_def)

lemma reject_queues:
  "gw_to_engine (fst (risk_reject clock tk gs)) = gw_to_engine (fst gs)"
  "ss_state (snd (risk_reject clock tk gs)) = ss_state (snd gs)"
  by (simp_all add: risk_reject_def send_sequenced_def queue_packet_def Let_def)

text \<open>A well-formed message is queued for the engine if it is within the limits, and is rejected otherwise.\<close>

lemma handle_ouch_encode:
  assumes "wf_in m"
  shows "gw_to_engine (fst (handle_ouch clock cid (encode_in m) gs)) =
      gw_to_engine (fst gs) @ (if within_risk m then [\<lparr>cm_client_id = cid, cm_msg = m\<rparr>] else [])"
    "ss_state (snd (handle_ouch clock cid (encode_in m) gs)) = ss_state (snd gs)"
proof -
  have eq: "handle_ouch clock cid (encode_in m) gs = (if within_risk m then apfst (push_command cid m) gs else
    risk_reject clock (case m of EnterOrder m \<Rightarrow> eo_token m | CancelOrder m \<Rightarrow> co_token m | ReplaceOrder m \<Rightarrow> ro_replacement_token m) gs)"
  proof (cases m)
    case (EnterOrder x)
    then have d: "decode_enter_order (encode_in m) (length (encode_in m)) = Some x" using assms decode_encode_in(1) by simp
    show ?thesis using d decode_type(1)[OF d] EnterOrder
      by (auto simp: handle_ouch_def kMaxOrderShares_def kMaxOrderPrice_def not_less Let_def simp del: encode_in.simps)
  next
    case (CancelOrder x)
    then have d: "decode_cancel_order (encode_in m) (length (encode_in m)) = Some x" using assms decode_encode_in(2) by simp
    show ?thesis using d decode_type(2)[OF d] CancelOrder by (auto simp: handle_ouch_def simp del: encode_in.simps)
  next
    case (ReplaceOrder x)
    then have d: "decode_replace_order (encode_in m) (length (encode_in m)) = Some x" using assms decode_encode_in(3) by simp
    show ?thesis using d decode_type(3)[OF d] ReplaceOrder
      by (auto simp: handle_ouch_def kMaxOrderShares_def kMaxOrderPrice_def not_less simp del: encode_in.simps)
  qed
  show "gw_to_engine (fst (handle_ouch clock cid (encode_in m) gs)) =
      gw_to_engine (fst gs) @ (if within_risk m then [\<lparr>cm_client_id = cid, cm_msg = m\<rparr>] else [])"
    "ss_state (snd (handle_ouch clock cid (encode_in m) gs)) = ss_state (snd gs)"
    unfolding eq by (simp_all add: push_queues reject_queues)
qed

lemma cmds_ok_push: "cmds_ok gw \<Longrightarrow> within_risk m \<Longrightarrow> wf_in m \<Longrightarrow> cmds_ok (push_command cid m gw)"
  by (simp add: cmds_ok_def push_command_def)

lemma cmds_ok_ouch:
  assumes "cmds_ok (fst gs)"
  shows "cmds_ok (fst (handle_ouch clock cid d gs))"
proof -
  have r: "cmds_ok (fst (risk_reject clock tk gs))" for tk using assms by (simp add: risk_reject_def cmds_ok_def Let_def)
  note p = cmds_ok_push[OF assms]
  have w: "decode_enter_order d (length d) = Some m \<Longrightarrow> wf_enter_order m"
    "decode_cancel_order d (length d) = Some m' \<Longrightarrow> wf_cancel_order m'"
    "decode_replace_order d (length d) = Some m'' \<Longrightarrow> wf_replace_order m''" for m m' m''
    using enter_order.dec_wf cancel_order.dec_wf replace_order.dec_wf by blast+
  show ?thesis using assms w r
    by (simp add: handle_ouch_def kMaxOrderShares_def kMaxOrderPrice_def Let_def not_less p split: option.split)
qed

text \<open>Everything else leaves the commands alone.\<close>

lemma cmds_ok_cong: "gw_to_engine gw' = gw_to_engine gw \<Longrightarrow> cmds_ok gw' = cmds_ok gw"
  by (simp add: cmds_ok_def)

lemma to_engine_simps [simp]:
  "gw_to_engine (put_conn cid c gw) = gw_to_engine gw" "gw_to_engine (close_conn cid gw) = gw_to_engine gw"
  "gw_to_engine (update_write_filter cid c b gw) = gw_to_engine gw" "gw_to_engine (accept_one fn gw) = gw_to_engine gw"
  by (simp_all add: put_conn_def close_conn_def update_write_filter_def set_write_def accept_one_def Let_def split: option.split)

lemma to_engine_flush [simp]: "gw_to_engine (gw_flush cid res gw) = gw_to_engine gw"
  by (simp add: gw_flush_def take_output_def Let_def split: option.split send_result.split)

lemma to_engine_folds [simp]:
  "gw_to_engine (fold close_conn ids gw) = gw_to_engine gw" "gw_to_engine (handle_accept acc gw) = gw_to_engine gw"
  "gw_to_engine (pump_responses resps gw) = gw_to_engine gw"
proof -
  show "gw_to_engine (fold close_conn ids gw) = gw_to_engine gw" by (induction ids arbitrary: gw) simp_all
  show "gw_to_engine (handle_accept acc gw) = gw_to_engine gw" by (induction acc arbitrary: gw) (simp_all add: handle_accept_def)
  have "gw_to_engine (pump_one r gw) = gw_to_engine gw" for r gw by (simp add: pump_one_def split: option.split)
  then show "gw_to_engine (pump_responses resps gw) = gw_to_engine gw"
    by (induction resps arbitrary: gw) (simp_all add: pump_responses_def)
qed

lemma to_engine_tick:
  "tick_loop clock now conns to_close gw = Some (ids, gw') \<Longrightarrow> gw_to_engine gw' = gw_to_engine gw"
proof (induction conns arbitrary: to_close gw)
  case (Cons cr conns)
  obtain cid res where cr: "cr = (cid, res)" by (cases cr)
  obtain c where c: "gw_conns gw cid = Some c" using Cons.prems cr by (cases "gw_conns gw cid") auto
  obtain s where s: "session_tick (conn_listener clock cid) now (gw, gc_session c) = (gw, s)"
    using session_tick_net[of clock cid now gw "gc_session c"] by (metis prod.collapse)
  show ?case using Cons.prems Cons.IH by (fastforce simp: cr c s Let_def split: option.splits)
qed simp

lemma cmds_ok_packet: "cmds_ok (fst gs) \<Longrightarrow> cmds_ok (fst (snd (session_packet (conn_listener clock cid) p gs)))"
  using cmds_ok_ouch[of gs clock cid]
  by (simp add: session_packet_def conn_listener_def Let_def split: session_state.split option.split)

lemma cmds_ok_read: "cmds_ok gw \<Longrightarrow> cmds_ok (read_chunk clock cid dt gw)"
proof (cases "gw_conns gw cid")
  case (Some c)
  assume ok: "cmds_ok gw"
  have "cmds_ok (fst (snd (session_packets (conn_listener clock cid) fr (gw, s))))" for fr s
    by (rule session_packets_keep[where P = cmds_ok]) (simp_all add: ok cmds_ok_packet)
  then have "cmds_ok (fst (snd (session_on_bytes (conn_listener clock cid) d t (fr, gw, s))))" for d t fr s
    using ok by (simp add: session_on_bytes_def)
  then show ?thesis using cmds_ok_cong[OF to_engine_simps(1)]
    by (simp add: read_chunk_def Some split: prod.split) (metis fst_conv snd_conv)
qed (simp add: read_chunk_def)

lemma cmds_ok_reads: "cmds_ok gw \<Longrightarrow> cmds_ok (fold (read_chunk clock cid) chunks gw)"
  by (induction chunks arbitrary: gw) (simp_all add: cmds_ok_read)

lemma cmds_ok_readable:
  assumes "cmds_ok gw" "handle_readable clock cid chunks stop res gw = Some gw'"
  shows "cmds_ok gw'"
  using assms cmds_ok_reads[OF assms(1), of clock cid chunks]
  by (auto simp: handle_readable_def Let_def cmds_ok_def split: if_splits read_end.splits option.splits)

lemma cmds_ok_step:
  assumes "cmds_ok gw" "gw_step clock ev gw = Some gw'"
  shows "cmds_ok gw'"
proof (cases ev)
  case (Tick now conns)
  then show ?thesis using assms to_engine_tick by (fastforce simp: tick_sessions_def cmds_ok_def)
next
  case (Ready fd readable writable)
  show ?thesis
  proof (cases "gw_by_fd gw fd")
    case (Some cid)
    obtain g where g: "(case readable of None \<Rightarrow> Some gw
        | Some (chunks, stop, res) \<Rightarrow> handle_readable clock cid chunks stop res gw) = Some g"
      and w: "(case gw_by_fd g fd of None \<Rightarrow> Some g
        | Some cid \<Rightarrow> (case writable of None \<Rightarrow> Some g | Some res \<Rightarrow> handle_writable cid res g)) = Some gw'"
      using assms(2) Ready Some by (auto simp: bind_eq_Some_conv)
    have "cmds_ok g" using g assms(1) cmds_ok_readable[OF assms(1)] by (auto split: option.splits)
    moreover have "gw_to_engine gw' = gw_to_engine g" using w by (auto simp: handle_writable_def split: option.splits if_splits)
    ultimately show ?thesis using cmds_ok_cong by blast
  qed (use Ready assms in simp)
qed (use assms in \<open>auto simp: cmds_ok_def\<close>)

lemma cmds_ok_run: "cmds_ok gw \<Longrightarrow> gw_run clock evs gw = Some gw' \<Longrightarrow> cmds_ok gw'"
  by (induction evs arbitrary: gw) (auto simp: bind_eq_Some_conv dest: cmds_ok_step)

section \<open>Runs of the event loop\<close>

text \<open>
  What the operating system guarantees: a tick visits every connection once, and an accepted
  descriptor is not in use. The last condition on a tick and on a readable connection is that their
  \<^verbatim>\<open>send\<close> does not fail for good.
\<close>

fun ev_ok :: "gateway \<Rightarrow> gw_event \<Rightarrow> bool" where
  "ev_ok gw (Tick now conns) \<longleftrightarrow> distinct (map fst conns) \<and> set (map fst conns) = dom (gw_conns gw) \<and>
     SendFailed \<notin> snd ` set conns"
| "ev_ok gw (Accept acc) \<longleftrightarrow> distinct (map fst acc) \<and> (\<forall>fn\<in>set acc. gw_by_fd gw (fst fn) = None) \<and>
     unat (gw_next_client_id gw) + length acc < 2 ^ 64"
| "ev_ok gw (Wake resps) \<longleftrightarrow> True"
| "ev_ok gw (Ready fd readable writable) \<longleftrightarrow> (case readable of None \<Rightarrow> True | Some (chunks, stop, res) \<Rightarrow> res \<noteq> SendFailed)"

fun evs_ok :: "(nat \<Rightarrow> u64) \<Rightarrow> gw_event list \<Rightarrow> gateway \<Rightarrow> bool" where
  "evs_ok clock [] gw \<longleftrightarrow> True"
| "evs_ok clock (ev # evs) gw \<longleftrightarrow> ev_ok gw ev \<and> (case gw_step clock ev gw of None \<Rightarrow> True | Some gw \<Rightarrow> evs_ok clock evs gw)"

lemma by_fd_conn: "gw_inv gw \<Longrightarrow> gw_by_fd gw fd = Some cid \<Longrightarrow> \<exists>c. gw_conns gw cid = Some c"
  unfolding gw_inv_def net_ok_def by metis

lemma gw_step_ok:
  assumes "gw_inv gw" "ev_ok gw ev"
  shows "\<exists>gw'. gw_step clock ev gw = Some gw' \<and> gw_inv gw'"
proof (cases ev)
  case (Tick now conns)
  have "\<forall>(cid, res)\<in>set conns. gw_conns gw cid \<noteq> None \<and> res \<noteq> SendFailed" 
  proof (clarify, intro conjI)
    fix cid res assume m: "(cid, res) \<in> set conns"
    from imageI[OF m, of fst] imageI[OF m, of snd] have "cid \<in> dom (gw_conns gw)" "res \<in> snd ` set conns"
      using assms(2) Tick by simp_all
    moreover have "SendFailed \<notin> snd ` set conns" using assms(2) Tick by simp
    ultimately show "gw_conns gw cid \<noteq> None" "res \<noteq> SendFailed" by (metis domIff)+
  qed
  from tick_loop_ok[OF assms(1) _ this, of clock now "[]"] show ?thesis using assms(2) Tick
    by (auto simp: tick_sessions_def intro: close_all_inv)
next
  case (Accept acc)
  then show ?thesis using assms handle_accept_inv by simp
next
  case (Wake resps)
  then show ?thesis using assms pump_responses_inv by simp
next
  case (Ready fd readable writable)
  have w: "\<exists>gw'. (case gw_by_fd g fd of None \<Rightarrow> Some g
      | Some cid \<Rightarrow> (case writable of None \<Rightarrow> Some g | Some res \<Rightarrow> handle_writable cid res g)) = Some gw' \<and> gw_inv gw'"
    if "gw_inv g" for g
  proof (cases "gw_by_fd g fd")
    case (Some cid)
    then obtain c where "gw_conns g cid = Some c" using by_fd_conn[OF \<open>gw_inv g\<close>] by blast
    then show ?thesis using Some \<open>gw_inv g\<close> handle_writable_ok[OF \<open>gw_inv g\<close>] by (cases writable) auto
  qed (simp add: that)
  show ?thesis
  proof (cases "gw_by_fd gw fd")
    case (Some cid)
    obtain c where c: "gw_conns gw cid = Some c" using by_fd_conn[OF assms(1) Some] by blast
    have "\<exists>g. (case readable of None \<Rightarrow> Some gw | Some (chunks, stop, res) \<Rightarrow> handle_readable clock cid chunks stop res gw) = Some g \<and> gw_inv g"
      using handle_readable_ok[OF assms(1) c] assms Ready by (auto split: option.split)
    then show ?thesis using w Ready Some by auto
  qed (use Ready assms in simp)
qed

lemma gw_run_ok: "gw_inv gw \<Longrightarrow> evs_ok clock evs gw \<Longrightarrow> \<exists>gw'. gw_run clock evs gw = Some gw' \<and> gw_inv gw'"
proof (induction evs arbitrary: gw)
  case (Cons ev evs)
  obtain gw1 where "gw_step clock ev gw = Some gw1" "gw_inv gw1" using gw_step_ok[of gw ev clock] Cons.prems by auto
  then show ?case using Cons by simp
qed simp

text \<open>After the loop no connection, no descriptor and no interest of one is left, and the invariant holds again.\<close>

lemma gw_shutdown_poll:
  "gw_poll (gw_shutdown ids gw) = (\<lambda>fd. if \<exists>cid\<in>set ids. \<exists>c. gw_conns gw cid = Some c \<and> gc_fd c = fd then None else gw_poll gw fd)"
proof -
  let ?f = "\<lambda>cid g. case gw_conns g cid of None \<Rightarrow> g | Some c \<Rightarrow> g\<lparr>gw_poll := (gw_poll g)(gc_fd c := None)\<rparr>"
  have "gw_poll (fold ?f ids gw) = (\<lambda>fd. if \<exists>cid\<in>set ids. \<exists>c. gw_conns gw cid = Some c \<and> gc_fd c = fd then None else gw_poll gw fd)"
    by (induction ids arbitrary: gw) (auto simp: fun_eq_iff split: option.splits)
  then show ?thesis by (simp add: gw_shutdown_def)
qed

lemma gw_shutdown_clean:
  assumes "set ids = dom (gw_conns gw)"
  shows "gw_conns (gw_shutdown ids gw) = Map.empty" "gw_by_fd (gw_shutdown ids gw) = Map.empty"
    "gw_conns gw cid = Some c \<Longrightarrow> gw_poll (gw_shutdown ids gw) (gc_fd c) = None" "gw_inv (gw_shutdown ids gw)"
  using assms by (auto simp: gw_shutdown_poll) (simp_all add: gw_shutdown_def gw_inv_def net_ok_def all_flushed_def)

lemma gw_inv_conn:
  assumes "gw_inv gw" "gw_conns gw cid = Some c"
  shows "gw_by_fd gw (gc_fd c) = Some cid \<and> ss_out (gc_session c) = [] \<and> gw_poll gw (gc_fd c) = Some (gc_outbuf c \<noteq> [])"
  using net_ok_conn[of gw cid c] assms by (auto simp: gw_inv_def conn_ok_def all_flushed_def)

lemma gw_inv_new: "gw_inv gw_new"
  by (simp add: gw_inv_def net_ok_def all_flushed_def gw_new_def)

section \<open>From the client to the engine\<close>

datatype client_call =
    Enter bytes side bytes price qty
  | Cancel bytes qty
  | Replace bytes bytes price qty

fun cl_call :: "client_call \<times> nat \<times> u64 \<Rightarrow> ouch_client \<Rightarrow> ouch_client" where
  "cl_call (Enter token side symbol price shs, io) cl = cl_enter io token side symbol price shs cl"
| "cl_call (Cancel token keep, io) cl = cl_cancel io token keep cl"
| "cl_call (Replace existing replacement price shs, io) cl = cl_replace io existing replacement price shs cl"

fun call_msg :: "client_call \<Rightarrow> ouch_in" where
  "call_msg (Enter token side symbol price shs) = EnterOrder (enter_msg token side symbol price shs)"
| "call_msg (Cancel token keep) = CancelOrder (cancel_msg token keep)"
| "call_msg (Replace existing replacement price shs) = ReplaceOrder (replace_msg existing replacement price shs)"

text \<open>The price fits the wire field, and the kernel takes the whole packet.\<close>

fun call_price :: "client_call \<Rightarrow> price" where
  "call_price (Enter token side symbol price shs) = price"
| "call_price (Cancel token keep) = 0"
| "call_price (Replace existing replacement price shs) = price"

definition call_ok :: "client_call \<times> nat \<times> u64 \<Rightarrow> bool" where
  "call_ok c \<longleftrightarrow> wire_price (call_price (fst c)) \<and> 64 \<le> fst (snd c)"

abbreviation order_packet :: "ouch_in \<Rightarrow> soup_packet" where
  "order_packet m \<equiv> \<lparr>sp_type = kUnsequenced, sp_payload = encode_in m\<rparr>"

lemma length_make_token [simp]: "length (make_token sv) = 14"
  by (simp add: make_token_def)

lemma call_msg_wf: "call_ok c \<Longrightarrow> wf_in (call_msg (fst c))"
  by (cases "fst c") (simp_all add: call_ok_def wf_enter_order_def wf_cancel_order_def wf_replace_order_def
      enter_msg_def cancel_msg_def replace_msg_def wire_price_def)

lemma length_encode_in: "length (encode_in m) \<le> 49"
  by (cases m) (simp_all add: enter_order.length_enc cancel_order.length_enc replace_order.length_enc
      kEnterOrderSize_def kCancelOrderSize_def kReplaceOrderSize_def)

lemma order_packet_fits: "packet_fits (order_packet m)"
  using length_encode_in[of m] by (simp add: packet_fits_def)

lemma send_order:
  assumes "cl_open cl" "64 \<le> fst io"
  shows "cl_wire (send_ouch io (encode_in m) cl) = cl_wire cl @ packet_bytes (order_packet m)"
    "cl_open (send_ouch io (encode_in m) cl)"
  using assms length_encode_in[of m]
  by (simp_all add: send_ouch_def send_raw_def packet_bytes_block append_packet_block msg_block_def)

lemma cl_call_sends:
  assumes "cl_open cl" "call_ok c"
  shows "cl_wire (cl_call c cl) = cl_wire cl @ packet_bytes (order_packet (call_msg (fst c)))" "cl_open (cl_call c cl)"
proof -
  obtain call io where c: "c = (call, io)" by (cases c)
  have "cl_call c cl = send_ouch io (encode_in (call_msg call)) cl"
    by (cases call) (simp_all add: c cl_enter_def cl_cancel_def cl_replace_def)
  then show "cl_wire (cl_call c cl) = cl_wire cl @ packet_bytes (order_packet (call_msg (fst c)))" "cl_open (cl_call c cl)"
    using send_order[OF assms(1), of io "call_msg call"] assms(2) by (simp_all add: c call_ok_def)
qed

lemma cl_calls_send:
  "cl_open cl \<Longrightarrow> \<forall>c\<in>set calls. call_ok c \<Longrightarrow>
   cl_wire (fold cl_call calls cl) = cl_wire cl @ concat (map (packet_bytes \<circ> order_packet \<circ> call_msg \<circ> fst) calls)"
  by (induction calls arbitrary: cl) (simp_all add: cl_call_sends)

lemma login_sends:
  assumes "64 \<le> fst io"
  shows "\<exists>p req. cl_wire (send_login io user pass (cl_new\<lparr>cl_open := True\<rparr>)) = packet_bytes p \<and> packet_fits p \<and>
    sp_type p = kLoginRequest \<and> decode_login_request (sp_payload p) = Some req"
    "cl_open (send_login io user pass (cl_new\<lparr>cl_open := True\<rparr>))"
proof -
  obtain payload where p: "append_login_request user pass [] 1 [] = append_packet kLoginRequest payload []" "length payload = 46"
    "decode_login_request payload \<noteq> None" using login_request_decodes[of user pass "[]" 1 "[]"] by auto
  then show "\<exists>p req. cl_wire (send_login io user pass (cl_new\<lparr>cl_open := True\<rparr>)) = packet_bytes p \<and> packet_fits p \<and>
    sp_type p = kLoginRequest \<and> decode_login_request (sp_payload p) = Some req"
    using assms by (intro exI[of _ "\<lparr>sp_type = kLoginRequest, sp_payload = payload\<rparr>"])
      (auto simp: send_login_def send_raw_def cl_new_def packet_bytes_block append_packet_block msg_block_def packet_fits_def)
  show "cl_open (send_login io user pass (cl_new\<lparr>cl_open := True\<rparr>))" by (simp add: send_login_def send_raw_def)
qed

text \<open>A logged-in session hands the orders of its packets to the engine.\<close>

lemma deliver_orders:
  assumes "ss_state (snd gs) = LoggedIn" "\<forall>m\<in>set ms. wf_in m"
  shows "gw_to_engine (fst (snd (deliver_packets (conn_listener clock cid) (map order_packet ms) gs))) =
    gw_to_engine (fst gs) @ map (\<lambda>m. \<lparr>cm_client_id = cid, cm_msg = m\<rparr>) (filter within_risk ms)"
  using assms
proof (induction ms arbitrary: gs)
  case (Cons m ms)
  let ?h = "handle_ouch clock cid (encode_in m) gs"
  note h = handle_ouch_encode[of m clock cid gs]
  have "session_packet (conn_listener clock cid) (order_packet m) gs = (False, ?h)"
    using Cons.prems h(2) by (simp add: session_packet_def conn_listener_def)
  then show ?case using Cons.IH[of ?h] Cons.prems h by simp
qed simp

lemma deliver_login_orders:
  assumes "ss_state (snd gs) = AwaitingLogin" "sp_type p = kLoginRequest" "decode_login_request (sp_payload p) = Some req"
    "\<forall>m\<in>set ms. wf_in m"
  shows "gw_to_engine (fst (snd (deliver_packets (conn_listener clock cid) (p # map order_packet ms) gs))) =
    gw_to_engine (fst gs) @ map (\<lambda>m. \<lparr>cm_client_id = cid, cm_msg = m\<rparr>) (filter within_risk ms)"
proof -
  let ?g = "apsnd (accept_login [0x53, 0x49, 0x4D, 0x30, 0x31] 1) gs"
  have l: "ss_state (snd ?g) = LoggedIn" by (simp add: accept_login_def Let_def)
  have "session_packet (conn_listener clock cid) p gs = (False, ?g)"
    using assms(1-3) l by (simp add: session_packet_def conn_listener_def)
  then show ?thesis using deliver_orders[OF l assms(4), of clock cid] by simp
qed

text \<open>
  The callbacks do not look at the table of connections, so reading in pieces, with the connection
  stored back after each, is the session acting on the pieces.
\<close>

abbreviation with_conns :: "(u64 \<rightharpoonup> conn) \<Rightarrow> gateway \<times> server_session \<Rightarrow> gateway \<times> server_session" where
  "with_conns X \<equiv> apfst (\<lambda>gw. gw\<lparr>gw_conns := X\<rparr>)"

lemma handle_ouch_conns: "handle_ouch clock cid d (with_conns X gs) = with_conns X (handle_ouch clock cid d gs)"
  by (cases gs) (simp add: handle_ouch_def risk_reject_def push_command_def Let_def split: option.split)

lemma packet_conns:
  "session_packet (conn_listener clock cid) p (with_conns X gs) = apsnd (with_conns X) (session_packet (conn_listener clock cid) p gs)"
proof (cases "ss_state (snd gs)")
  case AwaitingLogin
  then show ?thesis by (cases "decode_login_request (sp_payload p)"; cases gs)
    (simp_all add: session_packet_def conn_listener_def Let_def)
next
  case LoggedIn
  then show ?thesis using handle_ouch_conns[of clock cid "sp_payload p" X gs]
    by (cases gs) (simp add: session_packet_def conn_listener_def Let_def)
qed (simp add: session_packet_def)

lemma packets_conns:
  "session_packets (conn_listener clock cid) fr (with_conns X gs) = apsnd (with_conns X) (session_packets (conn_listener clock cid) fr gs)"
proof (induction "conn_listener clock cid" fr gs rule: session_packets.induct)
  case (1 fr gs)
  show ?case
  proof (cases "frame_next fr")
    case (Some pf)
    obtain p fr1 where pf: "pf = (p, fr1)" by (cases pf)
    obtain left gs1 where s: "session_packet (conn_listener clock cid) p gs = (left, gs1)"
      by (cases "session_packet (conn_listener clock cid) p gs")
    show ?thesis using 1[OF Some pf[symmetric] s[symmetric]] Some pf s packet_conns[of clock cid p X gs]
      by (simp add: session_packets.simps[of _ fr])
  qed (simp add: session_packets.simps[of _ fr])
qed

lemma on_bytes_conns:
  "session_on_bytes (conn_listener clock cid) d t (fr, with_conns X gs) = apsnd (with_conns X) (session_on_bytes (conn_listener clock cid) d t (fr, gs))"
  using packets_conns[of clock cid "frame_push d fr" X "(fst gs, (snd gs)\<lparr>ss_last_recv_ns := t\<rparr>)"]
  by (cases gs) (simp add: session_on_bytes_def)

lemma fold_bytes_conns:
  "fold (\<lambda>(d, t). session_on_bytes (conn_listener clock cid) d t) chunks (apsnd (with_conns X) st) =
   apsnd (with_conns X) (fold (\<lambda>(d, t). session_on_bytes (conn_listener clock cid) d t) chunks st)"
proof (induction chunks arbitrary: st)
  case (Cons dt chunks)
  obtain fr gs where "st = (fr, gs)" by (cases st)
  then show ?case using Cons.IH[of "session_on_bytes (conn_listener clock cid) (fst dt) (snd dt) st"]
    on_bytes_conns[of clock cid "fst dt" "snd dt" fr X gs] by (simp add: split_beta)
qed simp

lemma read_chunks_session:
  assumes "gw_conns gw cid = Some c"
  shows "\<exists>c' X. fold (read_chunk clock cid) chunks gw =
      (fst (snd (fold (\<lambda>(d, t). session_on_bytes (conn_listener clock cid) d t) chunks (gc_parser c, gw, gc_session c))))\<lparr>gw_conns := X\<rparr> \<and>
    X cid = Some c' \<and> gc_session c' = snd (snd (fold (\<lambda>(d, t). session_on_bytes (conn_listener clock cid) d t) chunks (gc_parser c, gw, gc_session c)))"
  using assms
proof (induction chunks arbitrary: gw c)
  case Nil
  then show ?case by (auto intro!: exI[of _ c] exI[of _ "gw_conns gw"])
next
  case (Cons dt chunks)
  obtain d t where dt: "dt = (d, t)" by (cases dt)
  let ?f = "\<lambda>(d, t). session_on_bytes (conn_listener clock cid) d t"
  obtain fr gw1 s where b: "session_on_bytes (conn_listener clock cid) d t (gc_parser c, gw, gc_session c) = (fr, gw1, s)"
    by (cases "session_on_bytes (conn_listener clock cid) d t (gc_parser c, gw, gc_session c)") auto
  define c1 where "c1 = c\<lparr>gc_session := s, gc_parser := fr\<rparr>"
  define X1 where "X1 = (gw_conns gw1)(cid \<mapsto> c1)"
  have r: "read_chunk clock cid dt gw = gw1\<lparr>gw_conns := X1\<rparr>"
    by (simp add: read_chunk_def Cons.prems dt b put_conn_def c1_def X1_def)
  have X1: "gw_conns (gw1\<lparr>gw_conns := X1\<rparr>) cid = Some c1" by (simp add: X1_def)
  have "fold ?f chunks (gc_parser c1, gw1\<lparr>gw_conns := X1\<rparr>, gc_session c1) = apsnd (with_conns X1) (fold ?f chunks (fr, gw1, s))"
    using fold_bytes_conns[of clock cid chunks X1 "(fr, gw1, s)"] by (simp add: c1_def)
  then show ?case using Cons.IH[OF X1] by (simp add: r[unfolded dt] dt b) 
qed

lemma read_orders:
  assumes "gw_conns gw cid = Some (conn_new fd cid now)" "fst (frames (concat (map fst chunks))) = p # map order_packet ms"
    and "sp_type p = kLoginRequest" "decode_login_request (sp_payload p) = Some req" "\<forall>m\<in>set ms. wf_in m"
  shows "gw_to_engine (fold (read_chunk clock cid) chunks gw) =
    gw_to_engine gw @ map (\<lambda>m. \<lparr>cm_client_id = cid, cm_msg = m\<rparr>) (filter within_risk ms)"
proof -
  let ?gs = "(gw, session_new now)" and ?li = "conn_listener clock cid"
  obtain X where "fold (read_chunk clock cid) chunks gw =
      (fst (snd (fold (\<lambda>(d, t). session_on_bytes ?li d t) chunks (frame_new, ?gs))))\<lparr>gw_conns := X\<rparr>"
    using read_chunks_session[OF assms(1), of clock chunks] by (auto simp: conn_new_def)
  then have "gw_to_engine (fold (read_chunk clock cid) chunks gw) =
      gw_to_engine (fst (recv_at 0 (snd (fold (\<lambda>(d, t). session_on_bytes ?li d t) chunks (frame_new, ?gs)))))" by simp
  also have "\<dots> = gw_to_engine (fst (snd (deliver_packets ?li (p # map order_packet ms) ?gs)))"
    using conn.any_chunking[of frame_new ?gs 0 clock cid chunks] assms(2) by (simp add: next_frame_def)
  also have "\<dots> = gw_to_engine gw @ map (\<lambda>m. \<lparr>cm_client_id = cid, cm_msg = m\<rparr>) (filter within_risk ms)"
    using deliver_login_orders[of ?gs p req ms clock cid] assms(3-5) by (simp add: session_new_def)
  finally show ?thesis .
qed

text \<open>The packets of what a client sends.\<close>

lemma client_frames:
  assumes "64 \<le> fst io" "\<forall>c\<in>set calls. call_ok c"
  obtains p req where "fst (frames (cl_wire (fold cl_call calls (send_login io user pass (cl_new\<lparr>cl_open := True\<rparr>))))) =
      p # map order_packet (map (call_msg \<circ> fst) calls)"
    "sp_type p = kLoginRequest" "decode_login_request (sp_payload p) = Some req"
proof -
  let ?ms = "map (call_msg \<circ> fst) calls"
  obtain p req where p: "cl_wire (send_login io user pass (cl_new\<lparr>cl_open := True\<rparr>)) = packet_bytes p" "packet_fits p"
    "sp_type p = kLoginRequest" "decode_login_request (sp_payload p) = Some req" using login_sends(1)[OF assms(1)] by blast
  have "cl_wire (fold cl_call calls (send_login io user pass (cl_new\<lparr>cl_open := True\<rparr>))) =
      concat (map packet_bytes (p # map order_packet ?ms)) @ []"
    using cl_calls_send[OF login_sends(2)[OF assms(1)] assms(2)] p(1) by (simp add: comp_assoc)
  then show ?thesis using that[OF _ p(3,4)] frames_packets[of "p # map order_packet ?ms" "[]"] p(2) order_packet_fits
    by (simp add: next_frame_def)
qed

section \<open>From the engine to the client\<close>

fun wf_out :: "ouch_out \<Rightarrow> bool" where
  "wf_out (SystemEvent m) \<longleftrightarrow> wf_ouch_system_event m"
| "wf_out (Accepted m) \<longleftrightarrow> wf_accepted m"
| "wf_out (Executed m) \<longleftrightarrow> wf_executed m"
| "wf_out (Canceled m) \<longleftrightarrow> wf_canceled m"
| "wf_out (Replaced m) \<longleftrightarrow> wf_replaced m"
| "wf_out (Rejected m) \<longleftrightarrow> wf_rejected m"

lemmas out_length = ouch_system_event.length_enc accepted.length_enc executed.length_enc canceled.length_enc
  replaced.length_enc rejected.length_enc
lemmas out_dec_enc = ouch_system_event.dec_enc accepted.dec_enc executed.dec_enc canceled.dec_enc
  replaced.dec_enc rejected.dec_enc
lemmas out_sizes = kSystemEventSize_def kAcceptedSize_def kExecutedSize_def kCanceledSize_def kReplacedSize_def kRejectedSize_def

lemma decode_out_type:
  "decode_ouch_system_event d n = Some a \<Longrightarrow> d ! 0 = 0x53" "decode_accepted d n = Some b \<Longrightarrow> d ! 0 = 0x41"
  "decode_executed d n = Some c \<Longrightarrow> d ! 0 = 0x45" "decode_canceled d n = Some e \<Longrightarrow> d ! 0 = 0x43"
  "decode_replaced d n = Some f \<Longrightarrow> d ! 0 = 0x55" "decode_rejected d n = Some g \<Longrightarrow> d ! 0 = 0x4A"
  by (auto simp: decode_ouch_system_event_def decode_accepted_def decode_executed_def decode_canceled_def
      decode_replaced_def decode_rejected_def split: if_splits)

lemma length_encode_ouch: "0 < length (encode_ouch m)" "length (encode_ouch m) < 65535"
  by (cases m; simp add: out_length out_sizes)+

lemma dispatch_encode: "wf_out m \<Longrightarrow> dispatch (encode_ouch m) = Some m"
  by (cases m) (simp_all add: dispatch_def out_length out_dec_enc decode_out_type(1)[OF out_dec_enc(1)] decode_out_type(2)[OF out_dec_enc(2)]
      decode_out_type(3)[OF out_dec_enc(3)] decode_out_type(4)[OF out_dec_enc(4)] decode_out_type(5)[OF out_dec_enc(5)] decode_out_type(6)[OF out_dec_enc(6)])

definition seen_of :: "soup_packet \<Rightarrow> ouch_out list" where
  "seen_of p = (if sp_type p = kSequenced \<and> sp_payload p \<noteq> []
     then (case dispatch (sp_payload p) of None \<Rightarrow> [] | Some m \<Rightarrow> [m]) else [])"

lemma dispatch_packets_frames:
  "frame_ok fr \<Longrightarrow> \<exists>fr'. dispatch_packets fr = (concat (map seen_of (fst (frames (pending fr)))), fr') \<and>
     frame_ok fr' \<and> pending fr' = snd (frames (pending fr))"
proof (induction fr rule: dispatch_packets.induct)
  case (1 fr)
  show ?case
  proof (cases "frame_next fr")
    case None
    then show ?thesis using frame_next_None[OF 1(2)] 1(2) by (simp add: dispatch_packets.simps[of fr])
  next
    case (Some pf)
    obtain p fr1 where pf: "pf = (p, fr1)" by (cases pf)
    note n = frame_next_Some[OF 1(2) Some[unfolded pf]]
    show ?thesis using 1(1)[OF Some pf[symmetric] n(2)] Some pf n(1)
      by (auto simp: dispatch_packets.simps[of fr] frames_Some seen_of_def)
  qed
qed

lemma fold_push_pending: "frame_ok fr \<Longrightarrow> frame_ok (fold frame_push bufs fr) \<and> pending (fold frame_push bufs fr) = pending fr @ concat bufs"
  by (induction bufs arbitrary: fr) simp_all

lemma cl_poll_sees:
  assumes "cl_open cl" "frame_ok (cl_parser cl)"
  shows "cl_open (cl_poll bufs io cl)" "frame_ok (cl_parser (cl_poll bufs io cl))"
    "pending (cl_parser (cl_poll bufs io cl)) = snd (frames (pending (cl_parser cl) @ concat bufs))"
    "cl_seen (cl_poll bufs io cl) = cl_seen cl @ concat (map seen_of (fst (frames (pending (cl_parser cl) @ concat bufs))))"
proof -
  obtain fr' where "dispatch_packets (fold frame_push bufs (cl_parser cl)) =
      (concat (map seen_of (fst (frames (pending (cl_parser cl) @ concat bufs)))), fr')"
    "frame_ok fr'" "pending fr' = snd (frames (pending (cl_parser cl) @ concat bufs))"
    using dispatch_packets_frames[of "fold frame_push bufs (cl_parser cl)"] fold_push_pending[OF assms(2), of bufs] by auto
  then show "cl_open (cl_poll bufs io cl)" "frame_ok (cl_parser (cl_poll bufs io cl))"
    "pending (cl_parser (cl_poll bufs io cl)) = snd (frames (pending (cl_parser cl) @ concat bufs))"
    "cl_seen (cl_poll bufs io cl) = cl_seen cl @ concat (map seen_of (fst (frames (pending (cl_parser cl) @ concat bufs))))"
    using assms by (simp_all add: cl_poll_def send_raw_def Let_def)
qed

lemma cl_polls_see:
  "cl_open cl \<Longrightarrow> frame_ok (cl_parser cl) \<Longrightarrow> next_frame (pending (cl_parser cl)) = None \<Longrightarrow>
   cl_seen (fold (\<lambda>(bufs, io). cl_poll bufs io) polls cl) =
     cl_seen cl @ concat (map seen_of (fst (frames (pending (cl_parser cl) @ concat (map (concat \<circ> fst) polls)))))"
proof (induction polls arbitrary: cl)
  case (Cons bi polls)
  obtain bufs io where bi: "bi = (bufs, io)" by (cases bi)
  note p = cl_poll_sees[OF Cons.prems(1,2), of bufs io]
  show ?case using Cons.IH[OF p(1,2)] p(3,4)
    by (simp add: bi frames_rest frames_append[of "pending (cl_parser cl) @ concat bufs"] flip: append_assoc)
qed simp

lemma wire_simps [simp]:
  "gw_wire (put_conn cid c gw) = gw_wire gw" "gw_wire (update_write_filter cid c b gw) = gw_wire gw"
  by (simp_all add: put_conn_def update_write_filter_def set_write_def split: option.split)

lemma flush_stream:
  assumes "gw_conns gw cid = Some c" "res \<noteq> SendFailed"
  shows "\<exists>c' sent. gw_conns (gw_flush cid res gw) cid = Some c' \<and> ss_out (gc_session c') = [] \<and>
    gw_wire (gw_flush cid res gw) cid = gw_wire gw cid @ sent \<and> sent @ gc_outbuf c' = gc_outbuf c @ ss_out (gc_session c)"
  using assms by (cases res) (auto simp: gw_flush_def take_output_def Let_def simp flip: append_assoc simp del: take_append drop_append)

abbreviation answer_packet :: "ouch_out \<Rightarrow> soup_packet" where
  "answer_packet m \<equiv> \<lparr>sp_type = kSequenced, sp_payload = encode_ouch m\<rparr>"

lemma pump_stream:
  assumes "gw_conns gw cid = Some c" "ss_out (gc_session c) = []" "\<forall>(r, res)\<in>set resps. cr_client_id r = cid \<and> res \<noteq> SendFailed"
  shows "\<exists>c' sent. gw_conns (pump_responses resps gw) cid = Some c' \<and> ss_out (gc_session c') = [] \<and>
    gw_wire (pump_responses resps gw) cid = gw_wire gw cid @ sent \<and>
    sent @ gc_outbuf c' = gc_outbuf c @ concat (map (packet_bytes \<circ> answer_packet \<circ> cr_msg \<circ> fst) resps)"
  using assms
proof (induction resps arbitrary: gw c)
  case Nil
  then show ?case by (simp add: pump_responses_def)
next
  case (Cons rr resps)
  obtain r res where rr: "rr = (r, res)" by (cases rr)
  have r: "cr_client_id r = cid" "res \<noteq> SendFailed" using Cons.prems(3) rr by auto
  let ?c = "c\<lparr>gc_session := send_sequenced (encode_ouch (cr_msg r)) (gc_session c)\<rparr>"
  have out: "ss_out (gc_session ?c) = packet_bytes (answer_packet (cr_msg r))"
    using Cons.prems(2) by (simp add: send_sequenced_def queue_packet_def packet_bytes_def)
  have one: "pump_one rr gw = gw_flush cid res (put_conn cid ?c gw)" using Cons.prems(1) by (simp add: pump_one_def rr r)
  obtain c1 sent1 where 1: "gw_conns (pump_one rr gw) cid = Some c1" "ss_out (gc_session c1) = []"
    "gw_wire (pump_one rr gw) cid = gw_wire gw cid @ sent1" "sent1 @ gc_outbuf c1 = gc_outbuf c @ packet_bytes (answer_packet (cr_msg r))"
    using flush_stream[of "put_conn cid ?c gw" cid ?c res] r(2) out by (auto simp: one)
  have tl: "\<forall>(r, res)\<in>set resps. cr_client_id r = cid \<and> res \<noteq> SendFailed" using Cons.prems(3) by simp
  obtain c2 sent2 where 2: "gw_conns (pump_responses resps (pump_one rr gw)) cid = Some c2" "ss_out (gc_session c2) = []"
    "gw_wire (pump_responses resps (pump_one rr gw)) cid = gw_wire (pump_one rr gw) cid @ sent2"
    "sent2 @ gc_outbuf c2 = gc_outbuf c1 @ concat (map (packet_bytes \<circ> answer_packet \<circ> cr_msg \<circ> fst) resps)"
    using Cons.IH[OF 1(1,2) tl] by blast
  have eq: "(sent1 @ sent2) @ gc_outbuf c2 = gc_outbuf c @ concat (map (packet_bytes \<circ> answer_packet \<circ> cr_msg \<circ> fst) (rr # resps))"
    using 2(4) 1(4)[symmetric] by (simp add: rr)
  have step: "pump_responses (rr # resps) gw = pump_responses resps (pump_one rr gw)" by (simp add: pump_responses_def)
  show ?case unfolding step
    by (intro exI[of _ c2] exI[of _ "sent1 @ sent2"] conjI 2(1,2) eq) (simp add: 1(3) 2(3))
qed

section \<open>Properties\<close>

text \<open>
  C4. Orders reach the engine: a client logs in and makes any calls; however the bytes it sends are cut
  into the pieces that the gateway reads, the gateway queues for the engine exactly the orders within the
  risk limits, as the client meant them, in the order of the calls and under the connection's id.
\<close>

theorem orders_reach_engine:
  assumes "gw_conns gw cid = Some (conn_new fd cid now)" "64 \<le> fst io" "\<forall>c\<in>set calls. call_ok c"
    and "concat (map fst chunks) = cl_wire (fold cl_call calls (send_login io user pass (cl_new\<lparr>cl_open := True\<rparr>)))"
  shows "gw_to_engine (fold (read_chunk clock cid) chunks gw) =
    gw_to_engine gw @ map (\<lambda>m. \<lparr>cm_client_id = cid, cm_msg = m\<rparr>) (filter within_risk (map (call_msg \<circ> fst) calls))"
proof -
  obtain p req where p: "fst (frames (concat (map fst chunks))) = p # map order_packet (map (call_msg \<circ> fst) calls)"
    "sp_type p = kLoginRequest" "decode_login_request (sp_payload p) = Some req"
    using client_frames[OF assms(2,3)] assms(4) by metis
  have "\<forall>m\<in>set (map (call_msg \<circ> fst) calls). wf_in m" using assms(3) call_msg_wf by auto
  from read_orders[OF assms(1) p this] show ?thesis .
qed

text \<open>
  C11. Answers reach the client: the answers of the engine to one client are sent, in whole or in part, or
  buffered; the bytes sent and buffered, received in any pieces over any number of polls, make the
  client's handler see exactly these answers, in order.
\<close>

theorem responses_reach_client:
  assumes "gw_conns gw cid = Some c" "gc_outbuf c = []" "ss_out (gc_session c) = []"
    and "\<forall>(r, res)\<in>set resps. cr_client_id r = cid \<and> res \<noteq> SendFailed \<and> wf_out (cr_msg r)"
    and "cl_open cl" "frame_ok (cl_parser cl)" "pending (cl_parser cl) = []"
  shows "\<exists>c' sent. gw_conns (pump_responses resps gw) cid = Some c' \<and> gw_wire (pump_responses resps gw) cid = gw_wire gw cid @ sent \<and>
    (\<forall>polls. concat (map (concat \<circ> fst) polls) = sent @ gc_outbuf c' \<longrightarrow>
       cl_seen (fold (\<lambda>(bufs, io). cl_poll bufs io) polls cl) = cl_seen cl @ map (cr_msg \<circ> fst) resps)"
proof -
  let ?ps = "map (answer_packet \<circ> cr_msg \<circ> fst) resps"
  have r: "\<forall>(r, res)\<in>set resps. cr_client_id r = cid \<and> res \<noteq> SendFailed" using assms(4) by auto
  obtain c' sent where c': "gw_conns (pump_responses resps gw) cid = Some c'" "gw_wire (pump_responses resps gw) cid = gw_wire gw cid @ sent"
    "sent @ gc_outbuf c' = concat (map packet_bytes ?ps)"
    using pump_stream[OF assms(1,3) r] assms(2) by (auto simp: comp_assoc)
  have "\<forall>p\<in>set ?ps. packet_fits p" using length_encode_ouch(2) by (auto simp: packet_fits_def)
  then have f: "fst (frames (concat (map packet_bytes ?ps))) = ?ps"
    using frames_packets[of ?ps "[]"] by (simp add: next_frame_def)
  have "seen_of (answer_packet m) = [m]" if "wf_out m" for m
    using that length_encode_ouch(1)[of m] by (simp add: seen_of_def dispatch_encode)
  then have s: "concat (map seen_of ?ps) = map (cr_msg \<circ> fst) resps" using assms(4) by (induction resps) auto
  have "cl_seen (fold (\<lambda>(bufs, io). cl_poll bufs io) polls cl) = cl_seen cl @ map (cr_msg \<circ> fst) resps"
    if "concat (map (concat \<circ> fst) polls) = sent @ gc_outbuf c'" for polls
    using cl_polls_see[OF assms(5,6), of polls] that assms(7) c'(3) f s by (simp add: next_frame_def)
  then show ?thesis using c'(1,2) by blast
qed

text \<open>
  C10. Whatever bytes arrive on whatever connections, every command that the gateway queues is a
  well-formed message within the risk limits; so the engine processes them all, as long as there are
  fewer than 2 ^ 32 - 1, and its market data can be published.
\<close>

theorem gateway_commands_typed:
  assumes "gw_run clock evs gw_new = Some gw" "cmds = map (Pair now) (gw_to_engine gw)" "take_bit 48 now = now" "length cmds < 2 ^ 32 - 1"
  shows "(\<forall>cmd\<in>set (gw_to_engine gw). within_risk (cm_msg cmd)) \<and> (\<forall>c\<in>set cmds. cmd_wf c) \<and>
    (\<exists>e. process_all cmds en_init = Some e \<and> feed_good (en_to_feed e))"
proof -
  have "cmds_ok gw" using cmds_ok_run[OF _ assms(1)] by (simp add: cmds_ok_def gw_new_def)
  then have ok: "within_risk (cm_msg cmd)" "wf_in (cm_msg cmd)" if "cmd \<in> set (gw_to_engine gw)" for cmd
    using that by (auto simp: cmds_ok_def)
  have wf: "cmd_wf (now, cmd)" if "cmd \<in> set (gw_to_engine gw)" for cmd
    using ok(2)[OF that] assms(3) by (cases "cm_msg cmd")
      (simp_all add: cmd_wf_def wf_enter_order_def wf_replace_order_def wire_price_def)
  then have W: "\<forall>c\<in>set cmds. cmd_wf c" using assms(2) by auto
  obtain e where e: "process_all cmds en_init = Some e" using process_all_ok[OF engine_inv_init, of cmds] assms(4) by auto
  have "feed_good (en_to_feed e)"
    using process_all_feed[OF engine_inv_init _ _ W e] assms(4) by (simp add: en_init_def feed_good_def)
  with e W ok(1) show ?thesis by blast
qed

text \<open>
  C14. As long as no \<^verbatim>\<open>send\<close> on a readable or ticking connection fails for good, the event loop never uses
  a destroyed connection, and after every event connections, descriptors and poller agree: every
  descriptor has its live connection, all output has left the sessions, and writability is
  asked for exactly where some of it is still unsent.
\<close>

theorem gateway_runs_safely:
  assumes "evs_ok clock evs gw_new"
  shows "\<exists>gw. gw_run clock evs gw_new = Some gw \<and>
    (\<forall>fd cid. gw_by_fd gw fd = Some cid \<longrightarrow> (\<exists>c. gw_conns gw cid = Some c \<and> gc_fd c = fd)) \<and>
    (\<forall>cid c. gw_conns gw cid = Some c \<longrightarrow> gw_by_fd gw (gc_fd c) = Some cid \<and> ss_out (gc_session c) = [] \<and>
       gw_poll gw (gc_fd c) = Some (gc_outbuf c \<noteq> []))"
proof -
  obtain gw where "gw_run clock evs gw_new = Some gw" "gw_inv gw" using gw_run_ok[OF gw_inv_new assms] by blast
  moreover from this(2) have "\<forall>fd cid. gw_by_fd gw fd = Some cid \<longrightarrow> (\<exists>c. gw_conns gw cid = Some c \<and> gc_fd c = fd)"
    unfolding gw_inv_def net_ok_def by blast
  moreover have "\<forall>cid c. gw_conns gw cid = Some c \<longrightarrow> gw_by_fd gw (gc_fd c) = Some cid \<and> ss_out (gc_session c) = [] \<and>
       gw_poll gw (gc_fd c) = Some (gc_outbuf c \<noteq> [])"
    using gw_inv_conn[OF \<open>gw_inv gw\<close>] by blast
  ultimately show ?thesis by blast
qed

text \<open>
  C15. When the \<^verbatim>\<open>send\<close> after reading from a connection with unsent output fails for good, the
  connection is destroyed and then used: \<^verbatim>\<open>handle_readable\<close> looks at the session and the buffer of the
  connection that \<^verbatim>\<open>flush\<close> has closed.
\<close>

theorem send_failure_uses_closed_connection:
  assumes "net_ok gw" "gw_conns gw cid = Some c" "gc_outbuf c \<noteq> []"
  shows "handle_readable clock cid chunks RWouldBlock SendFailed gw = None"
proof -
  obtain c' where "gw_conns (fold (read_chunk clock cid) chunks gw) cid = Some c'" "gc_outbuf c' = gc_outbuf c"
    using read_chunks_ok[OF assms(1,2), of clock chunks] by blast
  then have "gw_conns (gw_flush cid SendFailed (fold (read_chunk clock cid) chunks gw)) cid = None"
    using assms(3) by (simp add: gw_flush_def take_output_def Let_def)
  then show ?thesis using assms(2) by (simp add: handle_readable_def)
qed

section \<open>Witnesses\<close>

definition demo_gw :: gateway where
  "demo_gw = handle_accept [(5, 0)] gw_new"

definition demo_calls :: "(client_call \<times> nat \<times> u64) list" where
  "demo_calls = [(Enter [0x61] Buy [0x41] 1000000 100, 64, 1), (Enter [0x62] Buy [0x41] 1000000 2000000, 64, 2),
     (Cancel [0x61] 0, 64, 3)]"

definition demo_bytes :: bytes where
  "demo_bytes = cl_wire (fold cl_call demo_calls (send_login (64, 0) [0x75] [] (cl_new\<lparr>cl_open := True\<rparr>)))"

definition demo_answer :: client_response where
  "demo_answer = \<lparr>cr_client_id = 1, cr_msg = Canceled \<lparr>ca_timestamp = 9, ca_token = make_token [0x61],
     ca_decrement_shares = 100, ca_reason = 0x55\<rparr>\<rparr>"

definition demo_events :: "gw_event list" where
  "demo_events = [Accept [(5, 0)], Wake [(demo_answer, Sent 3)], Ready 5 (Some ([([0, 1, 0x52], 4)], RWouldBlock, SendAgain)) (Some (Sent 100))]"

lemma demo_gw_conns: "gw_conns demo_gw = [1 \<mapsto> conn_new 5 1 0]" "gw_to_engine demo_gw = []"
  by (simp_all add: demo_gw_def handle_accept_def accept_one_def gw_new_def Let_def)

lemma demo_calls_ok: "\<forall>c\<in>set demo_calls. call_ok c"
  by (simp add: demo_calls_def call_ok_def wire_price_def)

theorem orders_reach_engine_witness:
  "gw_to_engine (fold (read_chunk (\<lambda>_. 7) 1) [(take 70 demo_bytes, 1), (drop 70 demo_bytes, 2)] demo_gw) =
    [\<lparr>cm_client_id = 1, cm_msg = EnterOrder (enter_msg [0x61] Buy [0x41] 1000000 100)\<rparr>,
     \<lparr>cm_client_id = 1, cm_msg = CancelOrder (cancel_msg [0x61] 0)\<rparr>]"
  using orders_reach_engine[OF demo_gw_conns(1)[THEN fun_cong, of 1, simplified] _ demo_calls_ok, of "(64, 0)"
      "[(take 70 demo_bytes, 1), (drop 70 demo_bytes, 2)]" "[0x75]" "[]" "\<lambda>_. 7"]
  by (simp add: demo_bytes_def demo_gw_conns(2) demo_calls_def enter_msg_def)

theorem responses_reach_client_witness:
  "\<exists>c' sent. gw_conns (pump_responses [(demo_answer, Sent 3)] demo_gw) 1 = Some c' \<and>
     cl_seen (fold (\<lambda>(bufs, io). cl_poll bufs io) [([sent], (64, 0)), ([gc_outbuf c'], (64, 1))] (cl_new\<lparr>cl_open := True\<rparr>)) =
       [cr_msg demo_answer]"
proof -
  have "\<forall>(r, res)\<in>set [(demo_answer, Sent 3)]. cr_client_id r = 1 \<and> res \<noteq> SendFailed \<and> wf_out (cr_msg r)"
    by (simp add: demo_answer_def wf_canceled_def)
  from responses_reach_client[OF demo_gw_conns(1)[THEN fun_cong, of 1, simplified] _ _ this, of "cl_new\<lparr>cl_open := True\<rparr>"]
  obtain c' sent where c: "gw_conns (pump_responses [(demo_answer, Sent 3)] demo_gw) 1 = Some c'"
    and s: "\<And>polls. concat (map (concat \<circ> fst) polls) = sent @ gc_outbuf c' \<longrightarrow>
       cl_seen (fold (\<lambda>(bufs, io). cl_poll bufs io) polls (cl_new\<lparr>cl_open := True\<rparr>)) = [cr_msg demo_answer]"
    by (auto simp: conn_new_def session_new_def cl_new_def)
  then show ?thesis using s[of "[([sent], (64, 0)), ([gc_outbuf c'], (64, 1))]"] by auto
qed

lemma demo_run:
  obtains gw where "gw_run (\<lambda>_. 7) [Accept [(5, 0)], Ready 5 (Some ([(demo_bytes, 1)], RWouldBlock, SendAgain)) None] gw_new = Some gw"
    "map cm_msg (gw_to_engine gw) = [EnterOrder (enter_msg [0x61] Buy [0x41] 1000000 100), CancelOrder (cancel_msg [0x61] 0)]"
proof -
  have c: "gw_conns demo_gw 1 = Some (conn_new 5 1 0)" by (simp add: demo_gw_conns)
  have inv: "gw_inv demo_gw" using handle_accept_inv[OF gw_inv_new, of "[(5, 0)]"] by (simp add: demo_gw_def gw_new_def)
  obtain gw where gw: "handle_readable (\<lambda>_. 7) 1 [(demo_bytes, 1)] RWouldBlock SendAgain demo_gw = Some gw"
    using handle_readable_ok[OF inv c] by blast
  have "gw_by_fd demo_gw 5 = Some 1" by (simp add: demo_gw_def handle_accept_def accept_one_def gw_new_def Let_def)
  then have run: "gw_run (\<lambda>_. 7) [Accept [(5, 0)], Ready 5 (Some ([(demo_bytes, 1)], RWouldBlock, SendAgain)) None] gw_new = Some gw"
    using gw by (simp add: demo_gw_def[symmetric] split: option.split)
  obtain p req where p: "fst (frames demo_bytes) = p # map order_packet (map (call_msg \<circ> fst) demo_calls)"
    "sp_type p = kLoginRequest" "decode_login_request (sp_payload p) = Some req"
    using client_frames[OF _ demo_calls_ok, of "(64, 0)"] unfolding demo_bytes_def by (metis fst_conv order.refl)
  have wf: "\<forall>m\<in>set (map (call_msg \<circ> fst) demo_calls). wf_in m" using demo_calls_ok call_msg_wf by auto
  have "gw_to_engine gw = gw_to_engine (fold (read_chunk (\<lambda>_. 7) 1) [(demo_bytes, 1)] demo_gw)"
    using gw by (auto simp: handle_readable_def Let_def split: if_splits option.splits)
  also have "\<dots> = map (\<lambda>m. \<lparr>cm_client_id = 1, cm_msg = m\<rparr>) (filter within_risk (map (call_msg \<circ> fst) demo_calls))"
    using read_orders[OF c _ p(2,3) wf, of "[(demo_bytes, 1)]"] p(1) by (simp add: demo_gw_conns(2))
  finally show ?thesis using that[OF run] by (simp add: demo_calls_def enter_msg_def)
qed

theorem gateway_commands_typed_witness:
  "\<exists>gw e. gw_to_engine gw \<noteq> [] \<and> gw_run (\<lambda>_. 7) [Accept [(5, 0)], Ready 5 (Some ([(demo_bytes, 1)], RWouldBlock, SendAgain)) None] gw_new = Some gw \<and>
     process_all (map (Pair 7) (gw_to_engine gw)) en_init = Some e \<and> feed_good (en_to_feed e)"
proof -
  obtain gw where run: "gw_run (\<lambda>_. 7) [Accept [(5, 0)], Ready 5 (Some ([(demo_bytes, 1)], RWouldBlock, SendAgain)) None] gw_new = Some gw"
    and m: "map cm_msg (gw_to_engine gw) = [EnterOrder (enter_msg [0x61] Buy [0x41] 1000000 100), CancelOrder (cancel_msg [0x61] 0)]"
    by (rule demo_run)
  have l: "length (gw_to_engine gw) = 2" using arg_cong[OF m, of length] by simp
  from gateway_commands_typed[OF run refl, of 7] l run show ?thesis by (auto simp: take_bit_eq_mod)
qed

theorem gateway_runs_safely_witness: "\<exists>gw. gw_run (\<lambda>_. 7) demo_events gw_new = Some gw"
proof -
  have "evs_ok (\<lambda>_. 7) demo_events gw_new"
    by (simp add: demo_events_def gw_new_def split: option.split)
  from gateway_runs_safely[OF this] show ?thesis by blast
qed

theorem send_failure_uses_closed_connection_witness:
  "handle_readable (\<lambda>_. 7) 1 [] RWouldBlock SendFailed (pump_responses [(demo_answer, Sent 3)] demo_gw) = None"
proof -
  have "gw_inv demo_gw" using handle_accept_inv[OF gw_inv_new, of "[(5, 0)]"] by (simp add: demo_gw_def gw_new_def)
  then have n: "net_ok (pump_responses [(demo_answer, Sent 3)] demo_gw)" using pump_responses_inv by (simp add: gw_inv_def)
  have "\<exists>c. gw_conns (pump_responses [(demo_answer, Sent 3)] demo_gw) 1 = Some c \<and> gc_outbuf c \<noteq> []"
    using length_encode_ouch(1)[of "cr_msg demo_answer"]
    by (simp add: pump_responses_def pump_one_def demo_answer_def demo_gw_conns gw_flush_def take_output_def send_sequenced_def
        queue_packet_def append_packet_block msg_block_def conn_new_def session_new_def Let_def)
  then show ?thesis using send_failure_uses_closed_connection[OF n] by blast
qed

end
