(* ===== verification/Queues.thy ===== *)
theory Queues
  imports Nsq_Prelude
begin

text \<open>
  The queues between the threads: the lock-free ring of \<^verbatim>\<open>src/common/spsc_ring.hpp\<close> and the mutex-guarded
  queue of \<^verbatim>\<open>src/common/queue.hpp\<close>. An operation of the ring is a function, and also four steps, one per
  access of shared memory; the two threads of the ring are the interleavings of their steps. Each index
  is written by one thread only, stored with release and loaded by the other with acquire, so a load
  sees the slot that was written before the store it reads. The operations of the mutex-guarded queue
  hold its lock and are one step each; \<^verbatim>\<open>wait_drain\<close> is enabled when its condition holds.
\<close>

section \<open>The ring\<close>

record 'a spsc_ring =
  sr_head :: nat
  sr_tail :: nat
  sr_buf :: "'a list"

abbreviation sr_size :: "'a spsc_ring \<Rightarrow> nat" where
  "sr_size r \<equiv> length (sr_buf r)"

definition sr_new :: "nat \<Rightarrow> 'a \<Rightarrow> 'a spsc_ring" where
  "sr_new n x = \<lparr>sr_head = 0, sr_tail = 0, sr_buf = replicate n x\<rparr>"

definition sr_next :: "'a spsc_ring \<Rightarrow> nat \<Rightarrow> nat" where
  "sr_next r i = and (i + 1) (sr_size r - 1)"

definition try_push :: "'a \<Rightarrow> 'a spsc_ring \<Rightarrow> bool \<times> 'a spsc_ring" where
  "try_push v r =
     (let tail = sr_tail r;
          next = sr_next r tail
      in if next = sr_head r then (False, r)
         else (True, r\<lparr>sr_buf := (sr_buf r)[tail := v], sr_tail := next\<rparr>))"

definition try_pop :: "'a spsc_ring \<Rightarrow> 'a option \<times> 'a spsc_ring" where
  "try_pop r =
     (let head = sr_head r
      in if head = sr_tail r then (None, r)
         else (Some (sr_buf r ! head), r\<lparr>sr_head := sr_next r head\<rparr>))"

section \<open>The two threads\<close>

datatype 'a producer =
    PIdle
  | PLoaded 'a nat \<comment> \<open>tail loaded\<close>
  | PFree 'a nat \<comment> \<open>head loaded, not full\<close>
  | PStored 'a nat \<comment> \<open>slot written\<close>

datatype 'a consumer =
    CIdle
  | CLoaded nat \<comment> \<open>head loaded\<close>
  | CReady nat \<comment> \<open>tail loaded, not empty\<close>
  | CMoved nat 'a \<comment> \<open>slot read\<close>

text \<open>\<open>pushed\<close> and \<open>popped\<close> are the values for which \<^verbatim>\<open>try_push\<close> has returned true and those \<^verbatim>\<open>try_pop\<close> has returned.\<close>

record 'a threads =
  th_ring :: "'a spsc_ring"
  th_prod :: "'a producer"
  th_cons :: "'a consumer"
  th_pushed :: "'a list"
  th_popped :: "'a list"

definition th_init :: "nat \<Rightarrow> 'a \<Rightarrow> 'a threads" where
  "th_init n x = \<lparr>th_ring = sr_new n x, th_prod = PIdle, th_cons = CIdle, th_pushed = [], th_popped = []\<rparr>"

inductive push_step :: "'a threads \<Rightarrow> 'a threads \<Rightarrow> bool" where
  load_tail: "th_prod t = PIdle \<Longrightarrow> push_step t (t\<lparr>th_prod := PLoaded v (sr_tail (th_ring t))\<rparr>)"
| found_full: "th_prod t = PLoaded v tail \<Longrightarrow> sr_next (th_ring t) tail = sr_head (th_ring t) \<Longrightarrow>
    push_step t (t\<lparr>th_prod := PIdle\<rparr>)"
| found_free: "th_prod t = PLoaded v tail \<Longrightarrow> sr_next (th_ring t) tail \<noteq> sr_head (th_ring t) \<Longrightarrow>
    push_step t (t\<lparr>th_prod := PFree v tail\<rparr>)"
| write_slot: "th_prod t = PFree v tail \<Longrightarrow>
    push_step t (t\<lparr>th_prod := PStored v tail, th_ring := (th_ring t)\<lparr>sr_buf := (sr_buf (th_ring t))[tail := v]\<rparr>\<rparr>)"
| store_tail: "th_prod t = PStored v tail \<Longrightarrow>
    push_step t (t\<lparr>th_prod := PIdle, th_ring := (th_ring t)\<lparr>sr_tail := sr_next (th_ring t) tail\<rparr>,
      th_pushed := th_pushed t @ [v]\<rparr>)"

inductive pop_step :: "'a threads \<Rightarrow> 'a threads \<Rightarrow> bool" where
  load_head: "th_cons t = CIdle \<Longrightarrow> pop_step t (t\<lparr>th_cons := CLoaded (sr_head (th_ring t))\<rparr>)"
| found_empty: "th_cons t = CLoaded head \<Longrightarrow> head = sr_tail (th_ring t) \<Longrightarrow> pop_step t (t\<lparr>th_cons := CIdle\<rparr>)"
| found_value: "th_cons t = CLoaded head \<Longrightarrow> head \<noteq> sr_tail (th_ring t) \<Longrightarrow>
    pop_step t (t\<lparr>th_cons := CReady head\<rparr>)"
| read_slot: "th_cons t = CReady head \<Longrightarrow>
    pop_step t (t\<lparr>th_cons := CMoved head (sr_buf (th_ring t) ! head)\<rparr>)"
| store_head: "th_cons t = CMoved head v \<Longrightarrow>
    pop_step t (t\<lparr>th_cons := CIdle, th_ring := (th_ring t)\<lparr>sr_head := sr_next (th_ring t) head\<rparr>,
      th_popped := th_popped t @ [v]\<rparr>)"

definition ring_step :: "'a threads \<Rightarrow> 'a threads \<Rightarrow> bool" where
  "ring_step t t' \<longleftrightarrow> push_step t t' \<or> pop_step t t'"

definition ring_reach :: "nat \<Rightarrow> 'a \<Rightarrow> 'a threads \<Rightarrow> bool" where
  "ring_reach n x = ring_step\<^sup>*\<^sup>* (th_init n x)"

section \<open>The mutex-guarded queue\<close>

record 'a mpsc_queue =
  mq_items :: "'a list"
  mq_stopped :: bool

definition mq_new :: "'a mpsc_queue" where
  "mq_new = \<lparr>mq_items = [], mq_stopped = False\<rparr>"

definition mq_push :: "'a \<Rightarrow> 'a mpsc_queue \<Rightarrow> 'a mpsc_queue" where
  "mq_push v q = q\<lparr>mq_items := mq_items q @ [v]\<rparr>"

definition drain :: "'a mpsc_queue \<Rightarrow> 'a list \<times> 'a mpsc_queue" where
  "drain q = (mq_items q, q\<lparr>mq_items := []\<rparr>)"

text \<open>\<open>None\<close> is a thread that stays blocked.\<close>

definition wait_drain :: "'a mpsc_queue \<Rightarrow> ('a list \<times> 'a mpsc_queue) option" where
  "wait_drain q = (if mq_items q \<noteq> [] \<or> mq_stopped q then Some (mq_items q, q\<lparr>mq_items := []\<rparr>) else None)"

definition wait_drain_for :: "'a mpsc_queue \<Rightarrow> 'a list \<times> 'a mpsc_queue" where
  "wait_drain_for q = (mq_items q, q\<lparr>mq_items := []\<rparr>)"

definition mq_stop :: "'a mpsc_queue \<Rightarrow> 'a mpsc_queue" where
  "mq_stop q = q\<lparr>mq_stopped := True\<rparr>"

section \<open>The contents of a ring\<close>

lemma and_mask_nat: "and (i :: nat) (2 ^ k - Suc 0) = i mod 2 ^ k"
  using take_bit_eq_mask[of k i] by (simp add: mask_eq_exp_minus_1 take_bit_eq_mod)

definition ring_holds :: "'a spsc_ring \<Rightarrow> 'a list \<Rightarrow> bool" where
  "ring_holds r xs \<longleftrightarrow> (\<exists>k. sr_size r = 2 ^ k) \<and> sr_head r < sr_size r \<and> length xs < sr_size r \<and>
     sr_tail r = (sr_head r + length xs) mod sr_size r \<and>
     (\<forall>i<length xs. sr_buf r ! ((sr_head r + i) mod sr_size r) = xs ! i)"

lemma sr_next_mod: "ring_holds r xs \<Longrightarrow> sr_next r i = (i + 1) mod sr_size r"
  by (auto simp: ring_holds_def sr_next_def and_mask_nat)

lemma wrap_eq_iff:
  assumes "h < n" "i < n" "j < n"
  shows "(h + i) mod n = (h + j) mod n \<longleftrightarrow> i = (j :: nat)"
  using assms by (auto simp: mod_if split: if_splits)

lemma ring_holds_empty: "ring_holds r xs \<Longrightarrow> sr_head r = sr_tail r \<longleftrightarrow> xs = []"
  using wrap_eq_iff[of "sr_head r" "sr_size r" 0 "length xs"] by (force simp: ring_holds_def)

lemma ring_holds_full:
  assumes "ring_holds r xs"
  shows "sr_next r (sr_tail r) = sr_head r \<longleftrightarrow> Suc (length xs) = sr_size r"
proof -
  have h: "sr_head r < sr_size r" "length xs < sr_size r" using assms by (auto simp: ring_holds_def)
  have "sr_next r (sr_tail r) = (sr_head r + Suc (length xs)) mod sr_size r"
    using assms sr_next_mod[OF assms, of "sr_tail r"] by (simp add: ring_holds_def mod_simps)
  moreover have "sr_buf r \<noteq> []" using h by auto
  ultimately show ?thesis using h wrap_eq_iff[of "sr_head r" "sr_size r" 0 "Suc (length xs)"]
    by (cases "Suc (length xs) = sr_size r") auto
qed

text \<open>Writing the slot at the tail leaves the contents alone; moving the tail over it adds it.\<close>

lemma ring_holds_write:
  assumes "ring_holds r xs" "t = sr_tail r"
  shows "ring_holds (r\<lparr>sr_buf := (sr_buf r)[t := v]\<rparr>) xs"
  using assms wrap_eq_iff[of "sr_head r" "sr_size r"] by (auto simp: ring_holds_def nth_list_update)

lemma ring_holds_push:
  assumes "ring_holds r xs" "Suc (length xs) < sr_size r" "sr_buf r ! sr_tail r = v" "n = sr_next r (sr_tail r)"
  shows "ring_holds (r\<lparr>sr_tail := n\<rparr>) (xs @ [v])"
  using assms sr_next_mod[OF assms(1), of "sr_tail r"]
  by (auto simp: ring_holds_def nth_append mod_simps less_Suc_eq)

lemma ring_holds_pop:
  assumes "ring_holds r (x # xs)"
  shows "sr_buf r ! sr_head r = x" "ring_holds (r\<lparr>sr_head := sr_next r (sr_head r)\<rparr>) xs"
proof -
  have nth: "sr_buf r ! ((sr_head r + i) mod sr_size r) = (x # xs) ! i" if "i < Suc (length xs)" for i
    using assms that by (simp add: ring_holds_def)
  show "sr_buf r ! sr_head r = x" using nth[of 0] assms by (simp add: ring_holds_def)
  show "ring_holds (r\<lparr>sr_head := sr_next r (sr_head r)\<rparr>) xs"
    using assms nth[of "Suc i" for i] sr_next_mod[OF assms, of "sr_head r"]
    by (auto simp: ring_holds_def mod_simps)
qed

lemma ring_holds_new: "n = 2 ^ k \<Longrightarrow> ring_holds (sr_new n x) []"
  by (auto simp: ring_holds_def sr_new_def)

section \<open>Interleavings\<close>

text \<open>What a thread has read is still true while it acts on it, with \<open>xs\<close> in the ring.\<close>

fun prod_ok :: "'a spsc_ring \<Rightarrow> 'a list \<Rightarrow> 'a producer \<Rightarrow> bool" where
  "prod_ok r xs PIdle \<longleftrightarrow> True"
| "prod_ok r xs (PLoaded v i) \<longleftrightarrow> i = sr_tail r"
| "prod_ok r xs (PFree v i) \<longleftrightarrow> i = sr_tail r \<and> Suc (length xs) < sr_size r"
| "prod_ok r xs (PStored v i) \<longleftrightarrow> i = sr_tail r \<and> Suc (length xs) < sr_size r \<and> sr_buf r ! i = v"

fun cons_ok :: "'a spsc_ring \<Rightarrow> 'a list \<Rightarrow> 'a consumer \<Rightarrow> bool" where
  "cons_ok r xs CIdle \<longleftrightarrow> True"
| "cons_ok r xs (CLoaded i) \<longleftrightarrow> i = sr_head r"
| "cons_ok r xs (CReady i) \<longleftrightarrow> i = sr_head r \<and> xs \<noteq> []"
| "cons_ok r xs (CMoved i v) \<longleftrightarrow> i = sr_head r \<and> xs \<noteq> [] \<and> v = hd xs"

definition ring_inv :: "'a threads \<Rightarrow> bool" where
  "ring_inv t \<longleftrightarrow> (\<exists>xs. th_pushed t = th_popped t @ xs \<and> ring_holds (th_ring t) xs \<and>
     prod_ok (th_ring t) xs (th_prod t) \<and> cons_ok (th_ring t) xs (th_cons t))"

lemma cons_ok_cong: "sr_head r' = sr_head r \<Longrightarrow> cons_ok r xs c \<Longrightarrow> cons_ok r' xs c"
  by (cases c) auto

lemma cons_ok_more: "sr_head r' = sr_head r \<Longrightarrow> cons_ok r xs c \<Longrightarrow> cons_ok r' (xs @ ys) c"
  by (cases c) auto

lemma prod_ok_less: "sr_tail r' = sr_tail r \<Longrightarrow> sr_buf r' = sr_buf r \<Longrightarrow> prod_ok r (x # xs) p \<Longrightarrow> prod_ok r' xs p"
  by (cases p) auto

lemma ring_inv_init: "n = 2 ^ k \<Longrightarrow> ring_inv (th_init n x)"
  by (auto simp: ring_inv_def th_init_def ring_holds_new)

lemma tail_in_range: "ring_holds r xs \<Longrightarrow> sr_tail r < sr_size r"
  by (auto simp: ring_holds_def intro!: mod_less_divisor)

lemma ring_inv_push_step:
  assumes "push_step t t'" "ring_inv t"
  shows "ring_inv t'"
proof -
  obtain xs where xs: "th_pushed t = th_popped t @ xs" "ring_holds (th_ring t) xs"
    and p: "prod_ok (th_ring t) xs (th_prod t)" and c: "cons_ok (th_ring t) xs (th_cons t)"
    using assms(2) by (auto simp: ring_inv_def)
  have lt: "Suc (length xs) \<le> sr_size (th_ring t)" using xs(2) by (simp add: ring_holds_def)
  from assms(1) show ?thesis
  proof cases
    case (found_free v tail)
    then show ?thesis using xs p c lt ring_holds_full[OF xs(2)] by (auto simp: ring_inv_def)
  next
    case (write_slot v tail)
    then have "tail = sr_tail (th_ring t)" using p by auto
    then show ?thesis using xs p c write_slot ring_holds_write[OF xs(2)] tail_in_range[OF xs(2)]
      by (auto simp: ring_inv_def elim!: cons_ok_cong[rotated])
  next
    case (store_tail v tail)
    have "ring_holds ((th_ring t)\<lparr>sr_tail := sr_next (th_ring t) tail\<rparr>) (xs @ [v])"
      using p store_tail by (intro ring_holds_push[OF xs(2)]) auto
    then show ?thesis using xs(1) c store_tail
      by (auto simp: ring_inv_def intro!: exI[of _ "xs @ [v]"] elim!: cons_ok_more[rotated])
  qed (use xs p c in \<open>auto simp: ring_inv_def\<close>)
qed

lemma ring_inv_pop_step:
  assumes "pop_step t t'" "ring_inv t"
  shows "ring_inv t'"
proof -
  obtain xs where xs: "th_pushed t = th_popped t @ xs" "ring_holds (th_ring t) xs"
    and p: "prod_ok (th_ring t) xs (th_prod t)" and c: "cons_ok (th_ring t) xs (th_cons t)"
    using assms(2) by (auto simp: ring_inv_def)
  from assms(1) show ?thesis
  proof cases
    case (found_value head)
    then show ?thesis using xs p c ring_holds_empty[OF xs(2)] by (auto simp: ring_inv_def)
  next
    case (read_slot head)
    then obtain y ys where "xs = y # ys" using c by (cases xs) auto
    then show ?thesis using xs p c read_slot ring_holds_pop(1)[of "th_ring t" y ys] by (auto simp: ring_inv_def)
  next
    case (store_head head v)
    then obtain ys where ys: "xs = v # ys" using c by (cases xs) auto
    have "ring_holds ((th_ring t)\<lparr>sr_head := sr_next (th_ring t) head\<rparr>) ys"
      using c store_head ring_holds_pop(2)[of "th_ring t" v ys] xs(2) ys by auto
    then show ?thesis using xs(1) p store_head ys
      by (auto simp: ring_inv_def intro!: exI[of _ ys] elim!: prod_ok_less[rotated 2])
  qed (use xs p c in \<open>auto simp: ring_inv_def\<close>)
qed

lemma ring_inv_reach: "ring_reach n x t \<Longrightarrow> n = 2 ^ k \<Longrightarrow> ring_inv t"
  unfolding ring_reach_def
  by (induction rule: rtranclp_induct) (auto simp: ring_step_def ring_inv_init dest: ring_inv_push_step ring_inv_pop_step)

lemma ring_size_reach: "ring_reach n x t \<Longrightarrow> sr_size (th_ring t) = n"
  unfolding ring_reach_def
  by (induction rule: rtranclp_induct)
    (auto simp: th_init_def sr_new_def ring_step_def elim!: push_step.cases pop_step.cases)

text \<open>A whole operation is its four steps run without interruption.\<close>

lemma try_push_steps:
  assumes "ring_inv t" "th_prod t = PIdle" "try_push v (th_ring t) = (True, r)"
  shows "push_step\<^sup>*\<^sup>* t (t\<lparr>th_prod := PIdle, th_ring := r, th_pushed := th_pushed t @ [v]\<rparr>)"
proof -
  let ?i = "sr_tail (th_ring t)"
  let ?a = "t\<lparr>th_prod := PLoaded v ?i\<rparr>" let ?b = "t\<lparr>th_prod := PFree v ?i\<rparr>"
  let ?c = "?b\<lparr>th_prod := PStored v ?i, th_ring := (th_ring ?b)\<lparr>sr_buf := (sr_buf (th_ring ?b))[?i := v]\<rparr>\<rparr>"
  have n: "sr_next (th_ring t) ?i \<noteq> sr_head (th_ring t)" using assms(3) by (auto simp: try_push_def Let_def split: if_splits)
  have a: "push_step t ?a" using assms(2) by (rule load_tail)
  have ab: "push_step ?a ?b" using found_free[of ?a v ?i] n by simp
  have bc: "push_step ?b ?c" by (rule write_slot) simp
  have "push_step ?c (t\<lparr>th_prod := PIdle, th_ring := r, th_pushed := th_pushed t @ [v]\<rparr>)"
    using store_tail[of ?c v ?i] n assms(2,3) by (simp add: try_push_def Let_def sr_next_def)
  then show ?thesis using a ab bc by (meson converse_rtranclp_into_rtranclp r_into_rtranclp)
qed

lemma try_pop_steps:
  assumes "th_cons t = CIdle" "try_pop (th_ring t) = (Some v, r)"
  shows "pop_step\<^sup>*\<^sup>* t (t\<lparr>th_cons := CIdle, th_ring := r, th_popped := th_popped t @ [v]\<rparr>)"
proof -
  let ?i = "sr_head (th_ring t)"
  let ?a = "t\<lparr>th_cons := CLoaded ?i\<rparr>" let ?b = "t\<lparr>th_cons := CReady ?i\<rparr>" let ?c = "t\<lparr>th_cons := CMoved ?i v\<rparr>"
  have n: "?i \<noteq> sr_tail (th_ring t)" "v = sr_buf (th_ring t) ! ?i" "r = (th_ring t)\<lparr>sr_head := sr_next (th_ring t) ?i\<rparr>"
    using assms(2) by (auto simp: try_pop_def Let_def split: if_splits)
  have a: "pop_step t ?a" using assms(1) by (rule load_head)
  have ab: "pop_step ?a ?b" using found_value[of ?a ?i] n by simp
  have bc: "pop_step ?b ?c" using read_slot[of ?b ?i] n(2) by simp
  have "pop_step ?c (t\<lparr>th_cons := CIdle, th_ring := r, th_popped := th_popped t @ [v]\<rparr>)"
    using store_head[of ?c ?i v] n(3) by simp
  then show ?thesis using a ab bc by (meson converse_rtranclp_into_rtranclp r_into_rtranclp)
qed

section \<open>Progress of the consumer\<close>

fun phases_left :: "'a consumer \<Rightarrow> nat" where
  "phases_left CIdle = 3"
| "phases_left (CLoaded i) = 2"
| "phases_left (CReady i) = 1"
| "phases_left (CMoved i v) = 0"

text \<open>How many steps the consumer needs until it has popped \<open>n\<close> values.\<close>

definition steps_left :: "nat \<Rightarrow> 'a threads \<Rightarrow> nat" where
  "steps_left n t = 4 * (n - length (th_popped t)) + phases_left (th_cons t)"

lemma pop_step_progress:
  assumes "pop_step t t'" "ring_inv t" "length (th_popped t) < n" "n \<le> length (th_pushed t)"
  shows "steps_left n t' < steps_left n t"
  using assms(1)
proof cases
  case (found_empty head)
  obtain xs where xs: "th_pushed t = th_popped t @ xs" "ring_holds (th_ring t) xs" "cons_ok (th_ring t) xs (th_cons t)"
    using assms(2) by (auto simp: ring_inv_def)
  then have "xs = []" using found_empty ring_holds_empty[OF xs(2)] by simp
  then show ?thesis using assms(3,4) xs(1) by simp
qed (use assms(3) in \<open>auto simp: steps_left_def\<close>)

lemma step_mono:
  assumes "ring_step t t'"
  shows "\<exists>xs. th_pushed t' = th_pushed t @ xs" "\<exists>xs. th_popped t' = th_popped t @ xs"
  using assms by (auto simp: ring_step_def elim!: push_step.cases pop_step.cases)

lemma push_step_same: "push_step t t' \<Longrightarrow> steps_left n t' = steps_left n t"
  by (auto simp: steps_left_def elim!: push_step.cases)

definition ring_run :: "nat \<Rightarrow> 'a \<Rightarrow> (nat \<Rightarrow> 'a threads) \<Rightarrow> bool" where
  "ring_run n x \<sigma> \<longleftrightarrow> \<sigma> 0 = th_init n x \<and> (\<forall>i. ring_step (\<sigma> i) (\<sigma> (Suc i)))"

definition pops_forever :: "(nat \<Rightarrow> 'a threads) \<Rightarrow> bool" where
  "pops_forever \<sigma> \<longleftrightarrow> (\<forall>i. \<exists>j\<ge>i. pop_step (\<sigma> j) (\<sigma> (Suc j)))"

lemma ring_run_inv: "ring_run (2 ^ k) x \<sigma> \<Longrightarrow> ring_inv (\<sigma> i)"
  by (induction i) (auto simp: ring_run_def ring_step_def ring_inv_init dest: ring_inv_push_step ring_inv_pop_step)

lemma ring_run_mono:
  assumes "ring_run n x \<sigma>" "i \<le> j"
  shows "\<exists>xs. th_pushed (\<sigma> j) = th_pushed (\<sigma> i) @ xs"
  using assms(2)
proof (induction j rule: dec_induct)
  case (step j)
  then show ?case using step_mono(1)[of "\<sigma> j" "\<sigma> (Suc j)"] assms(1) by (auto simp: ring_run_def)
qed simp

text \<open>Until the next step of the consumer nothing changes for it.\<close>

lemma next_pop:
  assumes "ring_run n x \<sigma>" "pops_forever \<sigma>"
  obtains j where "i \<le> j" "pop_step (\<sigma> j) (\<sigma> (Suc j))" "steps_left m (\<sigma> j) = steps_left m (\<sigma> i)" "th_popped (\<sigma> j) = th_popped (\<sigma> i)"
proof -
  define j where "j = (LEAST j. i \<le> j \<and> pop_step (\<sigma> j) (\<sigma> (Suc j)))"
  have ex: "\<exists>j. i \<le> j \<and> pop_step (\<sigma> j) (\<sigma> (Suc j))" using assms(2) by (auto simp: pops_forever_def)
  have j: "i \<le> j" "pop_step (\<sigma> j) (\<sigma> (Suc j))" using LeastI_ex[OF ex] by (auto simp: j_def)
  have push: "push_step (\<sigma> l) (\<sigma> (Suc l))" if "i \<le> l" "l < j" for l
    using not_less_Least[of l "\<lambda>j. i \<le> j \<and> pop_step (\<sigma> j) (\<sigma> (Suc j))"] that assms(1)
    by (auto simp: j_def ring_run_def ring_step_def)
  have "l \<le> j \<Longrightarrow> steps_left m (\<sigma> l) = steps_left m (\<sigma> i) \<and> th_popped (\<sigma> l) = th_popped (\<sigma> i)" if "i \<le> l" for l
    using that
  proof (induction l rule: dec_induct)
    case (step l)
    then show ?case using push[of l] push_step_same[of "\<sigma> l" "\<sigma> (Suc l)" m]
      by (auto elim!: push_step.cases)
  qed simp
  then show ?thesis using j that by blast
qed

lemma pops_eventually:
  assumes "ring_run (2 ^ k) x \<sigma>" "pops_forever \<sigma>" "i0 \<le> i" "n = length (th_pushed (\<sigma> i0))"
  shows "\<exists>j\<ge>i. n \<le> length (th_popped (\<sigma> j))"
  using assms(3)
proof (induction "steps_left n (\<sigma> i)" arbitrary: i rule: less_induct)
  case less
  show ?case
  proof (cases "n \<le> length (th_popped (\<sigma> i))")
    case False
    obtain j where j: "i \<le> j" "pop_step (\<sigma> j) (\<sigma> (Suc j))" "steps_left n (\<sigma> j) = steps_left n (\<sigma> i)"
      "th_popped (\<sigma> j) = th_popped (\<sigma> i)" by (rule next_pop[OF assms(1,2)])
    have "n \<le> length (th_pushed (\<sigma> j))" using ring_run_mono[OF assms(1), of i0 j] less.prems j(1) assms(4) by auto
    then have "steps_left n (\<sigma> (Suc j)) < steps_left n (\<sigma> i)"
      using pop_step_progress[OF j(2) ring_run_inv[OF assms(1)], of n] False j by simp
    from less.hyps[OF this] show ?thesis using less.prems j(1) by (meson le_SucI le_trans)
  qed auto
qed

section \<open>Runs of the mutex-guarded queue\<close>

datatype 'a mq_op = MPush 'a | MDrain | MWait | MStop

text \<open>The batches handed to the consumer by a sequence of operations; \<open>None\<close> when a wait stays blocked.\<close>

fun mq_run :: "'a mq_op list \<Rightarrow> 'a mpsc_queue \<Rightarrow> ('a list list \<times> 'a mpsc_queue) option" where
  "mq_run [] q = Some ([], q)"
| "mq_run (MPush v # ops) q = mq_run ops (mq_push v q)"
| "mq_run (MDrain # ops) q = (case drain q of (b, q) \<Rightarrow> map_option (apfst ((#) b)) (mq_run ops q))"
| "mq_run (MWait # ops) q =
     (case wait_drain q of None \<Rightarrow> None | Some (b, q) \<Rightarrow> map_option (apfst ((#) b)) (mq_run ops q))"
| "mq_run (MStop # ops) q = mq_run ops (mq_stop q)"

fun mq_pushes :: "'a mq_op list \<Rightarrow> 'a list" where
  "mq_pushes [] = []"
| "mq_pushes (MPush v # ops) = v # mq_pushes ops"
| "mq_pushes (_ # ops) = mq_pushes ops"

lemma mq_run_conserves: "mq_run ops q = Some (bs, q') \<Longrightarrow> concat bs @ mq_items q' = mq_items q @ mq_pushes ops"
proof (induction ops q arbitrary: bs rule: mq_run.induct)
  case (2 v ops q)
  then show ?case by (simp add: mq_push_def)
next
  case (3 ops q)
  then show ?case by (auto simp: drain_def)
next
  case (4 ops q)
  then show ?case by (auto simp: wait_drain_def split: if_splits)
next
  case (5 ops q)
  then show ?case by (simp add: mq_stop_def)
qed auto

lemma wait_drain_empty: "wait_drain q = Some ([], q') \<longleftrightarrow> mq_stopped q \<and> mq_items q = [] \<and> q' = q"
  by (cases q) (auto simp: wait_drain_def)

section \<open>Properties\<close>

text \<open>
  C12. In every interleaving of one producer and one consumer thread on the lock-free ring, the values
  popped are the values pushed, in order, up to those still in the ring; the ring never holds more
  than its size less one; and the producer never writes the slot that the consumer is reading.
\<close>

theorem ring_interleaving_fifo:
  assumes "ring_reach (2 ^ k) x t"
  shows "\<exists>xs. th_pushed t = th_popped t @ xs \<and> ring_holds (th_ring t) xs \<and> length xs \<le> 2 ^ k - 1 \<and>
    (\<forall>v i j. th_prod t = PFree v i \<longrightarrow> th_cons t = CReady j \<longrightarrow> i \<noteq> j)"
proof -
  obtain xs where xs: "th_pushed t = th_popped t @ xs" "ring_holds (th_ring t) xs"
    and p: "prod_ok (th_ring t) xs (th_prod t)" and c: "cons_ok (th_ring t) xs (th_cons t)"
    using ring_inv_reach[OF assms] by (auto simp: ring_inv_def)
  have "length xs < 2 ^ k" using xs(2) ring_size_reach[OF assms] by (simp add: ring_holds_def)
  moreover have "\<forall>v i j. th_prod t = PFree v i \<longrightarrow> th_cons t = CReady j \<longrightarrow> i \<noteq> j"
    using p c ring_holds_empty[OF xs(2)] by auto
  ultimately show ?thesis using xs by auto
qed

text \<open>
  C13. If the consumer keeps polling the ring, every pushed value is eventually popped, whatever the
  producer does in between.
\<close>

theorem ring_delivers_eventually:
  assumes "ring_run (2 ^ k) x \<sigma>" "pops_forever \<sigma>"
  shows "\<exists>j xs. th_popped (\<sigma> j) = th_pushed (\<sigma> i) @ xs"
proof -
  obtain j where j: "i \<le> j" "length (th_pushed (\<sigma> i)) \<le> length (th_popped (\<sigma> j))"
    using pops_eventually[OF assms order.refl refl] by blast
  obtain ys where "th_pushed (\<sigma> j) = th_popped (\<sigma> j) @ ys" using ring_run_inv[OF assms(1), of j] by (auto simp: ring_inv_def)
  moreover obtain zs where "th_pushed (\<sigma> j) = th_pushed (\<sigma> i) @ zs" using ring_run_mono[OF assms(1) j(1)] by blast
  ultimately show ?thesis using j(2) by (metis append_eq_append_conv_if append_take_drop_id)
qed

text \<open>A run that pushes one value into a ring of two slots, pops it and then polls forever.\<close>

definition demo_start :: "nat threads list" where
  "demo_start =
     (let r0 = \<lparr>sr_head = 0, sr_tail = 0, sr_buf = [0, 0]\<rparr>; r1 = r0\<lparr>sr_buf := [7, 0]\<rparr>; r2 = r1\<lparr>sr_tail := 1\<rparr>;
          t = \<lparr>th_ring = r0, th_prod = PIdle, th_cons = CIdle, th_pushed = [], th_popped = []\<rparr>;
          u = t\<lparr>th_ring := r2, th_pushed := [7]\<rparr>
      in [t, t\<lparr>th_prod := PLoaded 7 0\<rparr>, t\<lparr>th_prod := PFree 7 0\<rparr>, t\<lparr>th_prod := PStored 7 0, th_ring := r1\<rparr>,
          u, u\<lparr>th_cons := CLoaded 0\<rparr>, u\<lparr>th_cons := CReady 0\<rparr>, u\<lparr>th_cons := CMoved 0 7\<rparr>])"

definition demo_polls :: "bool \<Rightarrow> nat threads" where
  "demo_polls idle = \<lparr>th_ring = \<lparr>sr_head = 1, sr_tail = 1, sr_buf = [7, 0]\<rparr>, th_prod = PIdle,
     th_cons = (if idle then CIdle else CLoaded 1), th_pushed = [7], th_popped = [7]\<rparr>"

definition demo_ring_run :: "nat \<Rightarrow> nat threads" where
  "demo_ring_run i = (if i < 8 then demo_start ! i else demo_polls (even i))"

lemmas demo_defs = demo_ring_run_def demo_start_def demo_polls_def Let_def sr_next_def

lemma demo_push_steps:
  "push_step (demo_ring_run 0) (demo_ring_run 1)" "push_step (demo_ring_run 1) (demo_ring_run 2)"
  "push_step (demo_ring_run 2) (demo_ring_run 3)" "push_step (demo_ring_run 3) (demo_ring_run 4)"
  using load_tail[of "demo_ring_run 0" 7] found_free[of "demo_ring_run 1" 7 0]
    write_slot[of "demo_ring_run 2" 7 0] store_tail[of "demo_ring_run 3" 7 0]
  by (simp_all add: demo_defs)

lemma demo_pop_steps:
  "pop_step (demo_ring_run 4) (demo_ring_run 5)" "pop_step (demo_ring_run 5) (demo_ring_run 6)"
  "pop_step (demo_ring_run 6) (demo_ring_run 7)" "pop_step (demo_ring_run 7) (demo_ring_run 8)"
  using load_head[of "demo_ring_run 4"] found_value[of "demo_ring_run 5" 0]
    read_slot[of "demo_ring_run 6" 0] store_head[of "demo_ring_run 7" 0 7]
  by (simp_all add: demo_defs)

lemma demo_polls_steps: "\<not> i < 8 \<Longrightarrow> pop_step (demo_ring_run i) (demo_ring_run (Suc i))"
  by (auto simp: demo_ring_run_def demo_polls_def pop_step.simps)

lemma demo_ring_run_ok: "ring_run (2 ^ 1) 0 demo_ring_run" "pops_forever demo_ring_run"
proof -
  have "ring_step (demo_ring_run i) (demo_ring_run (Suc i))" for i
  proof -
    consider "i = 0" | "i = 1" | "i = 2" | "i = 3" | "i = 4" | "i = 5" | "i = 6" | "i = 7" | "\<not> i < 8" by linarith
    then show ?thesis using demo_push_steps demo_pop_steps demo_polls_steps[of i] by cases (simp_all add: ring_step_def flip: numeral_2_eq_2)
  qed
  then show "ring_run (2 ^ 1) 0 demo_ring_run"
    by (simp add: ring_run_def demo_ring_run_def demo_start_def th_init_def sr_new_def Let_def numeral_eq_Suc)
  show "pops_forever demo_ring_run" unfolding pops_forever_def
  proof
    fix i
    show "\<exists>j\<ge>i. pop_step (demo_ring_run j) (demo_ring_run (Suc j))"
      using demo_polls_steps[of "i + 8"] by (intro exI[of _ "i + 8"]) simp
  qed
qed

lemma demo_reach: "ring_reach (2 ^ 1) 0 (demo_ring_run i)"
proof (induction i)
  case 0
  show ?case using demo_ring_run_ok(1) unfolding ring_reach_def ring_run_def by (metis rtranclp.rtrancl_refl)
next
  case (Suc i)
  have "ring_step (demo_ring_run i) (demo_ring_run (Suc i))" using demo_ring_run_ok(1) unfolding ring_run_def by blast
  with Suc show ?case unfolding ring_reach_def by (rule rtranclp.rtrancl_into_rtrancl)
qed

theorem ring_interleaving_fifo_witness: "\<exists>xs. th_pushed (demo_ring_run 6) = th_popped (demo_ring_run 6) @ xs \<and> length xs \<le> 1"
  using ring_interleaving_fifo[OF demo_reach[of 6]] by auto

theorem ring_delivers_eventually_witness: "\<exists>j xs. th_popped (demo_ring_run j) = th_pushed (demo_ring_run 4) @ xs"
  using demo_ring_run_ok by (rule ring_delivers_eventually)

end
