(* ===== verification/Histogram.thy ===== *)
theory Histogram
  imports Common_Types
begin

text \<open>
  The latency histogram of \<^verbatim>\<open>src/common/histogram.hpp\<close>: sixteen linear buckets per power of two in an
  array of 1024 counters. The target rank of \<^verbatim>\<open>percentile\<close> is computed there in floating point; here it
  is an argument. The lemmas show that a value lands in a bucket of the array, in an order-preserving
  way, and that the bound reported for a bucket is within a sixteenth of every value in it.
\<close>

section \<open>Buckets\<close>

text \<open>\<^verbatim>\<open>std::countl_zero\<close> of the standard library: the zero bits above the highest set bit.\<close>

fun zeros_below :: "nat \<Rightarrow> u64 \<Rightarrow> nat" where
  "zeros_below 0 v = 0"
| "zeros_below (Suc n) v = (if bit v n then 0 else Suc (zeros_below n v))"

definition countl_zero :: "u64 \<Rightarrow> nat" where
  "countl_zero v = zeros_below 64 v"

definition kMinorBits :: nat where "kMinorBits = 4"

definition slot :: "u64 \<Rightarrow> nat" where
  "slot v =
     (if v < push_bit kMinorBits 1 then unat v
      else
        let msb = 63 - countl_zero v;
            major = msb - kMinorBits + 1;
            minor = unat (and (drop_bit (msb - kMinorBits) v) (push_bit kMinorBits 1 - 1))
        in push_bit kMinorBits major + minor)"

definition upper_bound :: "nat \<Rightarrow> u64" where
  "upper_bound s =
     (let major = drop_bit kMinorBits s;
          minor = and s (push_bit kMinorBits 1 - 1)
      in if major = 0 then of_nat minor
         else push_bit (major - 1) (push_bit kMinorBits 1 + of_nat minor + 1))"

record latency_histogram =
  lh_buckets :: "u64 list"
  lh_count :: u64
  lh_max :: u64
  lh_min :: u64

definition lh_new :: latency_histogram where
  "lh_new = \<lparr>lh_buckets = replicate 1024 0, lh_count = 0, lh_max = 0, lh_min = 0\<rparr>"

definition lh_record :: "u64 \<Rightarrow> latency_histogram \<Rightarrow> latency_histogram" where
  "lh_record ns h =
     (let h = h\<lparr>lh_buckets := (lh_buckets h)[slot ns := lh_buckets h ! slot ns + 1], lh_count := lh_count h + 1\<rparr>;
          h = (if ns > lh_max h then h\<lparr>lh_max := ns\<rparr> else h)
      in if ns < lh_min h \<or> lh_count h = 1 then h\<lparr>lh_min := ns\<rparr> else h)"

definition lh_min_value :: "latency_histogram \<Rightarrow> u64" where
  "lh_min_value h = (if lh_count h \<noteq> 0 then lh_min h else 0)"

fun percentile_loop :: "u64 \<Rightarrow> u64 \<Rightarrow> nat \<Rightarrow> u64 \<Rightarrow> u64 list \<Rightarrow> u64" where
  "percentile_loop target mx i seen [] = mx"
| "percentile_loop target mx i seen (b # bs) =
     (let seen = seen + b
      in if seen \<ge> target \<and> b > 0 then upper_bound i
         else percentile_loop target mx (i + 1) seen bs)"

definition percentile :: "u64 \<Rightarrow> latency_histogram \<Rightarrow> u64" where
  "percentile target h =
     (if lh_count h = 0 then 0 else percentile_loop target (lh_max h) 0 0 (lh_buckets h))"

section \<open>The bucket of a value\<close>

lemma bit_unat: "bit v n \<longleftrightarrow> odd (unat v div 2 ^ n)" for v :: u64
  by (simp add: bit_unsigned_iff flip: bit_iff_odd)

lemma zeros_below_msb:
  "v \<noteq> 0 \<Longrightarrow> unat v < 2 ^ n \<Longrightarrow>
     zeros_below n v < n \<and> 2 ^ (n - 1 - zeros_below n v) \<le> unat v \<and> unat v < 2 ^ (n - zeros_below n v)"
proof (induction n)
  case (Suc n)
  show ?case
  proof (cases "bit v n")
    case True
    then have "2 ^ n \<le> unat v" by (metis bit_unat div_less even_zero not_le)
    then show ?thesis using True Suc.prems by simp
  next
    case False
    have "unat v div 2 ^ n < 2" using Suc.prems(2) by (simp add: div_less_iff_less_mult mult.commute)
    moreover have "even (unat v div 2 ^ n)" using False by (simp only: bit_unat not_not)
    ultimately have "unat v div 2 ^ n = 0" using less_2_cases[of "unat v div 2 ^ n"] by auto
    then have "unat v < 2 ^ n" by (simp add: div_eq_0_iff)
    then show ?thesis using Suc.IH Suc.prems False by auto
  qed
qed (simp add: unat_eq_zero)

definition msb_of :: "u64 \<Rightarrow> nat" where
  "msb_of v = 63 - countl_zero v"

lemma msb_of:
  assumes "v \<noteq> 0"
  shows "msb_of v < 64" "2 ^ msb_of v \<le> unat v" "unat v < 2 ^ Suc (msb_of v)"
proof -
  have "unat v < 2 ^ LENGTH(64)" by (rule unsigned_less)
  then have "unat v < 2 ^ 64" by simp
  note z = zeros_below_msb[OF assms this]
  have "Suc (63 - zeros_below 64 v) = 64 - zeros_below 64 v" using z by linarith
  then show "msb_of v < 64" "2 ^ msb_of v \<le> unat v" "unat v < 2 ^ Suc (msb_of v)"
    using z by (simp_all add: msb_of_def countl_zero_def)
qed

lemma small_iff: "v < 16 \<longleftrightarrow> unat v < 16" for v :: u64
  by (simp add: word_less_nat_alt)

lemma large_msb: "\<not> unat v < 16 \<Longrightarrow> 4 \<le> msb_of v"
proof (rule ccontr)
  assume v: "\<not> unat v < 16" and "\<not> 4 \<le> msb_of v"
  then have "(2 :: nat) ^ Suc (msb_of v) \<le> 2 ^ 4" by (intro power_increasing) auto
  moreover have "v \<noteq> 0" using v by auto
  ultimately show False using msb_of(3)[of v] v by simp
qed

text \<open>The leading five bits of a large value, and the width of its bucket.\<close>

lemma lead_bounds:
  assumes "\<not> unat v < 16"
  shows "16 \<le> unat v div 2 ^ (msb_of v - 4)" "unat v div 2 ^ (msb_of v - 4) < 32"
proof -
  have v: "v \<noteq> 0" using assms by auto
  have m: "msb_of v = (msb_of v - 4) + 4" using large_msb[OF assms] by simp
  have "(2 :: nat) ^ msb_of v = 16 * 2 ^ (msb_of v - 4)" by (subst m) (simp add: power_add)
  with msb_of[OF v] show "16 \<le> unat v div 2 ^ (msb_of v - 4)" "unat v div 2 ^ (msb_of v - 4) < 32"
    by (simp_all add: less_eq_div_iff_mult_less_eq div_less_iff_less_mult)
qed

lemma slot_small: "unat v < 16 \<Longrightarrow> slot v = unat v"
  by (simp add: slot_def kMinorBits_def small_iff)

lemma and_15: "and x (15 :: 'a :: len word) = take_bit 4 x"
  using take_bit_eq_mask[of 4 x] by (simp add: mask_eq_exp_minus_1)

lemma divmod16:
  "y < 16 \<Longrightarrow> (m * 16 + y) div 16 = m" "y < 16 \<Longrightarrow> (m * 16 + y) mod 16 = y"
  "16 \<le> m \<Longrightarrow> m < 32 \<Longrightarrow> m mod 16 = m - 16" for m y :: nat
  by (simp_all add: le_mod_geq)

lemma take_bit_unat: "take_bit 64 (unat v) = unat v" for v :: u64
proof -
  have "unat v < 2 ^ LENGTH(64)" by (rule unsigned_less)
  then show ?thesis by (simp add: take_bit_nat_eq_self)
qed

lemma slot_large:
  assumes "\<not> unat v < 16"
  shows "slot v = (msb_of v - 4) * 16 + unat v div 2 ^ (msb_of v - 4)"
proof -
  let ?x = "unat v div 2 ^ (msb_of v - 4)"
  have "unat (and (drop_bit (msb_of v - 4) v) 15) = take_bit 4 (drop_bit (msb_of v - 4) (unat v))"
    by (simp add: and_15 unsigned_take_bit_eq unsigned_drop_bit_eq take_bit_unat)
  also have "\<dots> = ?x mod 16" by (simp add: take_bit_eq_mod drop_bit_eq_div)
  also have "\<dots> = ?x - 16" using lead_bounds[OF assms] by (rule divmod16)
  finally show ?thesis using lead_bounds[OF assms] large_msb[OF assms] assms
    by (simp add: slot_def kMinorBits_def small_iff push_bit_eq_mult Let_def flip: msb_of_def)
qed

lemma slot_less: "slot v < 976"
proof (cases "unat v < 16")
  case False
  then have "v \<noteq> 0" by auto
  then show ?thesis using lead_bounds[OF False] msb_of(1)[of v] by (simp add: slot_large[OF False])
qed (simp add: slot_small)

lemma slot_mono:
  assumes "u \<le> v"
  shows "slot u \<le> slot v"
proof (cases "unat v < 16 \<or> unat u < 16")
  case True
  then show ?thesis
  proof (cases "unat v < 16")
    case v: False
    then have "unat u < 16" using True by simp
    then show ?thesis using lead_bounds[OF v] by (simp add: slot_small slot_large[OF v])
  qed (use assms in \<open>simp add: slot_small word_le_nat_alt\<close>)
next
  case False
  then have u: "\<not> unat u < 16" "u \<noteq> 0" and v: "\<not> unat v < 16" "v \<noteq> 0" by auto
  have le: "unat u \<le> unat v" using assms by (simp add: word_le_nat_alt)
  have "(2 :: nat) ^ msb_of u < 2 ^ Suc (msb_of v)" using msb_of(2)[OF u(2)] msb_of(3)[OF v(2)] le by linarith
  then have "msb_of u \<le> msb_of v" by (simp add: power_strict_increasing_iff[of 2] less_Suc_eq_le del: power_Suc)
  then consider "msb_of u = msb_of v" | "msb_of u < msb_of v" by linarith
  then show ?thesis
  proof cases
    case 1
    then show ?thesis using le by (simp add: slot_large[OF u(1)] slot_large[OF v(1)] div_le_mono)
  next
    case 2
    then show ?thesis using lead_bounds[OF u(1)] lead_bounds[OF v(1)] large_msb[OF u(1)]
      by (simp add: slot_large[OF u(1)] slot_large[OF v(1)])
  qed
qed

section \<open>The bound of a bucket\<close>

lemma and_15_nat: "and (s :: nat) 15 = s mod 16"
  using take_bit_eq_mask[of 4 s] by (simp add: mask_eq_exp_minus_1 take_bit_eq_mod)

lemma unat_upper_bound_small: "unat v < 16 \<Longrightarrow> upper_bound (slot v) = v"
  by (simp add: upper_bound_def slot_small kMinorBits_def drop_bit_eq_div and_15_nat Let_def)

lemma unat_upper_bound_large:
  assumes "\<not> unat v < 16"
  shows "unat (upper_bound (slot v)) = (unat v div 2 ^ (msb_of v - 4) + 1) * 2 ^ (msb_of v - 4) mod 2 ^ 64"
proof -
  let ?m = "msb_of v - 4" and ?x = "unat v div 2 ^ (msb_of v - 4)"
  have s: "slot v = (?m + 1) * 16 + (?x - 16)" and x: "?x - 16 < 16"
    using lead_bounds[OF assms] by (simp_all add: slot_large[OF assms])
  have d: "slot v div 16 = ?m + 1" "slot v mod 16 = ?x - 16" unfolding s using x by (simp_all only: divmod16)
  have "upper_bound (slot v) = push_bit ?m (of_nat (?x + 1))"
    using lead_bounds[OF assms]
    by (simp add: upper_bound_def kMinorBits_def drop_bit_eq_div and_15_nat d Let_def of_nat_diff add.commute)
  also have "\<dots> = of_nat ((?x + 1) * 2 ^ ?m)" by (simp add: push_bit_eq_mult algebra_simps)
  finally show ?thesis by (simp add: unat_of_nat del: of_nat_mult of_nat_add)
qed

text \<open>Only the last bucket in use ends at \<open>2 ^ 64\<close>, where the bound wraps to zero.\<close>

lemma bucket_below_top:
  assumes "v < 0xF800000000000000" "\<not> unat v < 16"
  shows "(unat v div 2 ^ (msb_of v - 4) + 1) * 2 ^ (msb_of v - 4) < 2 ^ 64"
proof -
  let ?m = "msb_of v - 4" and ?x = "unat v div 2 ^ (msb_of v - 4)"
  have v: "v \<noteq> 0" using assms(2) by auto
  have x: "?x + 1 \<le> 32" using lead_bounds[OF assms(2)] by simp
  consider "?m = 59" | "?m \<le> 58" using msb_of(1)[OF v] by linarith
  then show ?thesis
  proof cases
    case 1
    have "unat v < 31 * 2 ^ 59" using assms(1) by (simp add: word_less_nat_alt)
    then have "unat v div 2 ^ 59 < 31" by (simp add: div_less_iff_less_mult)
    then have "(unat v div 2 ^ 59 + 1) * 2 ^ 59 \<le> 31 * 2 ^ 59" by (intro mult_le_mono1) simp
    then show ?thesis unfolding 1 by simp
  next
    case 2
    then have "(2 :: nat) ^ ?m \<le> 2 ^ 58" by (rule power_increasing) simp
    with x have "(?x + 1) * 2 ^ ?m \<le> 32 * 2 ^ 58" by (rule mult_le_mono)
    then show ?thesis by simp
  qed
qed

lemma upper_bound_close:
  assumes "v < 0xF800000000000000"
  shows "v \<le> upper_bound (slot v)" "unat (upper_bound (slot v)) \<le> unat v + unat v div 16"
proof -
  have "v \<le> upper_bound (slot v) \<and> unat (upper_bound (slot v)) \<le> unat v + unat v div 16"
  proof (cases "unat v < 16")
    case False
    let ?m = "msb_of v - 4" and ?x = "unat v div 2 ^ (msb_of v - 4)"
    have v: "v \<noteq> 0" using False by auto
    have lo: "?x * 2 ^ ?m \<le> unat v" by simp
    have hi: "unat v < (?x + 1) * 2 ^ ?m" using dividend_less_times_div[of "2 ^ ?m" "unat v"] by (simp add: mult.commute)
    have "16 * 2 ^ ?m \<le> ?x * 2 ^ ?m" using lead_bounds(1)[OF False] by (rule mult_le_mono1)
    with lo have w: "2 ^ ?m \<le> unat v div 16" by (simp add: less_eq_div_iff_mult_less_eq)
    have nw: "(?x + 1) * 2 ^ ?m < 2 ^ 64" by (rule bucket_below_top[OF assms False])
    then have eq: "unat (upper_bound (slot v)) = (?x + 1) * 2 ^ ?m" by (simp add: unat_upper_bound_large[OF False])
    have "(?x + 1) * 2 ^ ?m = ?x * 2 ^ ?m + 2 ^ ?m" by (simp only: add_mult_distrib mult_1)
    with lo w have "(?x + 1) * 2 ^ ?m \<le> unat v + unat v div 16" by linarith
    with hi show ?thesis unfolding word_le_nat_alt eq by (simp only: less_imp_le)
  qed (simp add: unat_upper_bound_small)
  then show "v \<le> upper_bound (slot v)" "unat (upper_bound (slot v)) \<le> unat v + unat v div 16" by auto
qed

section \<open>Percentiles\<close>

definition lh_of :: "u64 list \<Rightarrow> latency_histogram" where
  "lh_of vs = fold lh_record vs lh_new"

abbreviation in_slot :: "nat \<Rightarrow> u64 list \<Rightarrow> nat" where
  "in_slot i vs \<equiv> length (filter (\<lambda>v. slot v = i) vs)"

lemma lh_of_snoc: "lh_of (vs @ [v]) = lh_record v (lh_of vs)"
  by (simp add: lh_of_def)

lemma lh_record_simps [simp]:
  "lh_buckets (lh_record v h) = (lh_buckets h)[slot v := lh_buckets h ! slot v + 1]"
  "lh_count (lh_record v h) = lh_count h + 1"
  by (simp_all add: lh_record_def Let_def)

lemma lh_of_length: "length (lh_buckets (lh_of vs)) = 1024"
  by (induction vs rule: rev_induct) (simp_all add: lh_of_snoc, simp add: lh_of_def lh_new_def)

lemma lh_of_nth: "i < 1024 \<Longrightarrow> lh_buckets (lh_of vs) ! i = of_nat (in_slot i vs)"
proof (induction vs rule: rev_induct)
  case Nil
  then show ?case by (simp add: lh_of_def lh_new_def)
next
  case (snoc v vs)
  then show ?case by (cases "slot v = i") (simp_all add: lh_of_snoc lh_of_length)
qed

lemma lh_of_count: "lh_count (lh_of vs) = of_nat (length vs)"
  by (induction vs rule: rev_induct) (simp_all add: lh_of_snoc, simp add: lh_of_def lh_new_def)

lemma percentile_loop_finds:
  assumes "j < length bs" "bs ! j > 0" "unat seen + sum_list (map unat bs) < 2 ^ 64"
    "\<forall>i<j. unat seen + sum_list (map unat (take (Suc i) bs)) < unat target"
    "unat target \<le> unat seen + sum_list (map unat (take (Suc j) bs))"
  shows "percentile_loop target mx k seen bs = upper_bound (k + j)"
  using assms
proof (induction bs arbitrary: j k seen)
  case (Cons b bs)
  have un: "unat (seen + b) = unat seen + unat b"
    using Cons.prems(3) by (subst unat_add_lem[symmetric]) simp
  show ?case
  proof (cases j)
    case 0
    then show ?thesis using Cons.prems(2,5) by (simp add: word_le_nat_alt un)
  next
    case (Suc i)
    have "\<not> seen + b \<ge> target" using Cons.prems(4)[rule_format, of 0] Suc by (simp add: word_le_nat_alt un)
    moreover have "percentile_loop target mx (Suc k) (seen + b) bs = upper_bound (Suc k + i)"
    proof (rule Cons.IH)
      show "\<forall>n<i. unat (seen + b) + sum_list (map unat (take (Suc n) bs)) < unat target"
        using Cons.prems(4) by (auto simp: un Suc add.assoc)
    qed (use Cons.prems in \<open>simp_all add: un Suc add.assoc\<close>)
    ultimately show ?thesis by (simp add: Suc)
  qed
qed simp

lemma sum_in_slot: "sum_list (map (\<lambda>i. in_slot i vs) [0..<n]) = length (filter (\<lambda>v. slot v < n) vs)"
proof (induction n)
  case (Suc n)
  have "in_slot n vs + length (filter (\<lambda>v. slot v < n) vs) = length (filter (\<lambda>v. slot v < Suc n) vs)"
    by (induction vs) auto
  then show ?case using Suc by simp
qed simp

lemma unat_in_slot:
  assumes "length vs < 2 ^ 64" "n \<le> 1024"
  shows "sum_list (map unat (take n (lh_buckets (lh_of vs)))) = length (filter (\<lambda>v. slot v < n) vs)"
proof -
  have le: "in_slot i vs < 2 ^ 64" for i using length_filter_le assms(1) by (rule le_less_trans)
  have "map unat (take n (lh_buckets (lh_of vs))) = map (\<lambda>i. in_slot i vs) [0..<n]"
    using lh_of_length[of vs] lh_of_nth[of _ vs] assms(2) le
    by (intro nth_equalityI) (simp_all add: unat_of_nat)
  then show ?thesis by (simp only: sum_in_slot)
qed

text \<open>In a sorted list, fewer than \<open>k\<close> elements lie below the bucket of the \<open>k\<close>-th, and at least \<open>k\<close> at or below it.\<close>

lemma rank_below:
  assumes "sorted vs" "k < length vs"
  shows "length (filter (\<lambda>v. slot v < slot (vs ! k)) vs) \<le> k" "k < length (filter (\<lambda>v. slot v \<le> slot (vs ! k)) vs)"
proof -
  have ge: "slot (vs ! k) \<le> slot v" if "v \<in> set (drop k vs)" for v
    using that assms by (auto simp: in_set_conv_nth intro!: slot_mono sorted_nth_mono)
  have le: "slot v \<le> slot (vs ! k)" if "v \<in> set (take (Suc k) vs)" for v
    using that assms by (auto simp: in_set_conv_nth intro!: slot_mono sorted_nth_mono)
  have split: "length (filter P vs) = length (filter P (take n vs)) + length (filter P (drop n vs))" for P n
    by (simp flip: length_append filter_append)
  have "filter (\<lambda>v. slot v < slot (vs ! k)) (drop k vs) = []" using ge by (auto simp: filter_empty_conv not_less)
  moreover have "length (filter P (take k vs)) \<le> k" for P using length_filter_le[of P "take k vs"] by simp
  ultimately show "length (filter (\<lambda>v. slot v < slot (vs ! k)) vs) \<le> k" by (simp add: split[of _ k])
  have "filter (\<lambda>v. slot v \<le> slot (vs ! k)) (take (Suc k) vs) = take (Suc k) vs" using le by (simp only: filter_id_conv) blast
  then show "k < length (filter (\<lambda>v. slot v \<le> slot (vs ! k)) vs)" using assms(2) by (simp add: split[of _ "Suc k"])
qed

lemma filter_sort_length: "length (filter P (sort vs)) = length (filter P vs)"
  by (metis mset_filter mset_sort size_mset)

lemma length_filter_mono: "(\<And>x. P x \<Longrightarrow> Q x) \<Longrightarrow> length (filter P xs) \<le> length (filter Q xs)"
  by (induction xs) auto

lemma percentile_finds:
  assumes "length vs < 2 ^ 64" "0 < target" "unat target \<le> length vs"
  shows "percentile target (lh_of vs) = upper_bound (slot (sort vs ! (unat target - 1)))"
proof -
  let ?k = "unat target - 1" and ?j = "slot (sort vs ! (unat target - 1))" and ?bs = "lh_buckets (lh_of vs)"
  have t: "0 < unat target" using assms(2) by (simp add: word_less_nat_alt)
  have k: "?k < length (sort vs)" using t assms(3) by simp
  note r = rank_below[OF sorted_sort k, unfolded filter_sort_length]
  have j: "?j < 1024" using slot_less[of "sort vs ! ?k"] by simp
  have c: "lh_count (lh_of vs) \<noteq> 0"
    using assms(1) k by (auto simp: lh_of_count word_of_nat_eq_0_iff dest: nat_dvd_not_less)
  have "percentile_loop target (lh_max (lh_of vs)) 0 0 ?bs = upper_bound (0 + ?j)"
  proof (rule percentile_loop_finds)
    have "sort vs ! ?k \<in> set vs" using nth_mem[OF k] by simp
    then have "0 < in_slot ?j vs" by (auto simp: filter_empty_conv)
    moreover have "in_slot ?j vs < 2 ^ 64" using length_filter_le assms(1) by (rule le_less_trans)
    ultimately show "0 < ?bs ! ?j" using lh_of_length[of vs] lh_of_nth[of _ vs] j by (simp add: word_less_nat_alt unat_of_nat)
    show "\<forall>i<?j. unat 0 + sum_list (map unat (take (Suc i) ?bs)) < unat target"
    proof (intro allI impI)
      fix i assume i: "i < ?j"
      have "length (filter (\<lambda>v. slot v < Suc i) vs) \<le> length (filter (\<lambda>v. slot v < ?j) vs)"
        using i by (intro length_filter_mono) simp
      then show "unat 0 + sum_list (map unat (take (Suc i) ?bs)) < unat target"
        using r(1) t i j by (simp add: unat_in_slot[OF assms(1)])
    qed
    show "unat target \<le> unat 0 + sum_list (map unat (take (Suc ?j) ?bs))"
      using r(2) j by (simp add: unat_in_slot[OF assms(1)] less_Suc_eq_le)
    have "sum_list (map unat ?bs) \<le> length vs"
      using unat_in_slot[OF assms(1), of 1024] lh_of_length[of vs] lh_of_nth[of _ vs] by simp
    then show "unat 0 + sum_list (map unat ?bs) < 2 ^ 64" using assms(1) by simp
  qed (use lh_of_length[of vs] lh_of_nth[of _ vs] j in simp)
  then show ?thesis using c by (simp add: percentile_def)
qed

section \<open>Properties\<close>

text \<open>
  C34. The percentile reported for a rank is the bucket bound of the value of that rank: it is never
  below it and at most a sixteenth above it, for any recorded values below the last bucket
  (292 years in nanoseconds are far below it) and any rank from one to the number of values.
\<close>

theorem histogram_percentile_close:
  assumes "length vs < 2 ^ 64" "0 < target" "unat target \<le> length vs" "\<forall>v \<in> set vs. v < 0xF800000000000000"
  shows "sort vs ! (unat target - 1) \<le> percentile target (fold lh_record vs lh_new) \<and>
    unat (percentile target (fold lh_record vs lh_new))
      \<le> unat (sort vs ! (unat target - 1)) + unat (sort vs ! (unat target - 1)) div 16"
proof -
  have "unat target - 1 < length (sort vs)" using assms(2,3) by (auto simp: word_less_nat_alt)
  from nth_mem[OF this] have "sort vs ! (unat target - 1) \<in> set vs" by (simp only: set_sort)
  then have "sort vs ! (unat target - 1) < 0xF800000000000000" using assms(4) by blast
  note upper_bound_close[OF this]
  then show ?thesis using percentile_finds[OF assms(1-3)] unfolding lh_of_def by simp
qed

theorem histogram_percentile_close_witness:
  "let vs = [100, 1000, 20, 5000] in
     (1000 :: u64) \<le> percentile 3 (fold lh_record vs lh_new) \<and> unat (percentile 3 (fold lh_record vs lh_new)) \<le> 1062"
  using histogram_percentile_close[of "[100, 1000, 20, 5000]" 3] by (simp add: Let_def)

text \<open>In the last bucket the reported bound wraps around to zero.\<close>

lemma upper_bound_wraps: "upper_bound (slot 0xFFFFFFFFFFFFFFFF) = 0"
  by code_simp

end
