(* ===== verification/Spec2Isabelle.thy ===== *)
theory Spec2Isabelle
  imports Order_Book_Props Codec_Props Fast_Book_Props Engine_Tokens Itch_File_Props Gateway_Props Queues Histogram
begin

text \<open>
  A verification of a NASDAQ-style exchange simulator: order entry over OUCH and SoupBinTCP, a
  matching engine with one order book per symbol, and market data over ITCH and MoldUDP64.

  \<^bold>\<open>The program and its parts.\<close> A client (\<^verbatim>\<open>src/client/ouch_client.*\<close>) sends OUCH messages in SoupBinTCP
  packets to the gateway (\<^verbatim>\<open>src/gateway/gateway.*\<close>, \<^verbatim>\<open>src/soup/soup.*\<close>), which checks risk limits and queues
  commands (\<^verbatim>\<open>src/common/queue.hpp\<close>, \<^verbatim>\<open>src/common/spsc_ring.hpp\<close>) for the engine (\<^verbatim>\<open>src/engine/engine.*\<close>). The engine
  keeps an optimised book per symbol (\<^verbatim>\<open>src/book/fast_book.*\<close> on top of \<^verbatim>\<open>src/book/flat_map.hpp\<close>), whose
  behaviour is that of the reference book (\<^verbatim>\<open>src/book/order_book.*\<close>); it answers clients and emits market
  events. The feed (\<^verbatim>\<open>src/feed/feed.*\<close>) turns these into ITCH messages (\<^verbatim>\<open>src/itch/itch.hpp\<close>) in MoldUDP64 packets
  (\<^verbatim>\<open>src/mold/mold.*\<close>), with an optional capture file (\<^verbatim>\<open>src/feed/capture.*\<close>). A receiver (\<^verbatim>\<open>src/client/itch_book.*\<close>)
  rebuilds the books from packets, or from raw ITCH files (\<^verbatim>\<open>src/itch/raw_itch.hpp\<close>,
  \<^verbatim>\<open>src/client/itch_file_processor.hpp\<close>). \<^verbatim>\<open>src/common/histogram.hpp\<close> collects latencies.

  \<^bold>\<open>Conventions.\<close> A struct or class is a record, a variant a datatype, a method a function on the
  record that returns the new one. Machine integers are words where they can wrap (quantities have 32
  bits, ids and times 64); prices are integers. Undefined behaviour, an out-of-range access, a
  dangling iterator or pointer and an uncaught exception are \<open>None\<close>; where a theorem says that an
  operation returns, that includes that none of these occurs. Callbacks of a listener are the list of events that
  an operation returns, or, where they act back on the caller, functions. What comes from outside is
  an argument: the clock, what a socket or file holds, what a system call returns, the order in which
  a hash table is visited.

  \<^bold>\<open>Theories and what their lemmas show.\<close>

  \<^item> \<open>Nsq_Prelude\<close>: byte buffers with stores at offsets, ordered association lists for \<^verbatim>\<open>std::map\<close> (locale
    \<open>std_map\<close>), word and list lemmas. \<open>Common_Types\<close>, \<open>Endian\<close>: \<^verbatim>\<open>src/common/types.hpp\<close>, \<^verbatim>\<open>endian.hpp\<close>.
  \<^item> \<open>Codec\<close>, \<open>Ouch\<close>, \<open>Itch\<close>, \<open>Codec_Props\<close>: every message encoder and decoder. The locale \<open>exact_codec\<close>
    states that a decoder accepts exactly the encodings of well-formed messages and touches no other
    byte; all OUCH messages and all ITCH messages but Trade satisfy it, and Trade is shown to overrun.
  \<^item> \<open>Book_Types\<close>, \<open>Book_Spec\<close>: the events of a book, and the abstract price-time priority book, two sorted
    queues. \<open>Matching_Book\<close>: the contract of a book (locale \<open>matching_book\<close>), and two implementations of it side by
    side (locale \<open>two_books\<close>).
  \<^item> \<open>Order_Book\<close>, \<open>Order_Book_Refine\<close>, \<open>Order_Book_Props\<close>: the reference book, with list nodes as addresses so
    that stored iterators can dangle; every run refines the abstract book; priority, conservation, cancel and replace.
  \<^item> \<open>Map_Index\<close>, \<open>Flat_Map\<close>: the open-addressing hash table with growth and backward-shift deletion,
    proved to be a finite map (locale \<open>map_index\<close>).
  \<^item> \<open>Fast_Book\<close>, \<open>Fast_Book_Rel\<close>, \<open>Fast_Book_Refine\<close>, \<open>Fast_Book_Sim\<close>, \<open>Fast_Book_Props\<close>: the order pool with its free
    list and links, the price ladder, the fallback maps, the cached best prices; the simulation by the
    abstract book, and equality with the reference book.
  \<^item> \<open>Engine\<close>, \<open>Engine_Inv\<close>, \<open>Engine_Account\<close>, \<open>Engine_Step\<close>, \<open>Engine_Props\<close>, \<open>Book_Replay\<close>: the engine; its tables against its
    books, the account of every share, each command on every branch, fill-or-kill orders. \<open>Engine_Tokens\<close>: the life of an
    order in the history of responses, and that no token is used twice. \<open>Engine_Feed\<close>: its market
    events are always applicable to the books they were taken from and fit the wire.
  \<^item> \<open>Framing\<close>, \<open>Mold\<close>, \<open>Capture\<close>, \<open>Raw_Itch\<close>, \<open>Wire_Props\<close>: frames, packets and files, with truncation and malformed lengths; gap
    detection for packets that arrive in any order, or not at all.
  \<^item> \<open>Feed\<close>, \<open>Itch_Book\<close>, \<open>Itch_Book_Refine\<close>, \<open>Feed_Props\<close>, \<open>Itch_File_Props\<close>: publisher and receiver; the receiver's books are
    the engine's books, over the network and through a filtered file.
  \<^item> \<open>Soup\<close>, \<open>Soup_Stream\<close>: packets on a byte stream, the incremental parser and the session state machine. The
    locale \<open>session_listener\<close> is what a session needs of its listener; in it, sessions are independent of
    how the stream is cut.
  \<^item> \<open>Gateway\<close>, \<open>Gateway_Inv\<close>, \<open>Ouch_Client\<close>, \<open>Gateway_Props\<close>: the gateway's connections satisfy that locale; orders reach
    the engine and answers the client; commands are well-formed and within the risk limits, which is what the
    engine and feed theorems assume; the event loop keeps its tables in agreement and uses a destroyed
    connection only after a failed send.
  \<^item> \<open>Queues\<close>: the ring at the granularity of its memory accesses, all interleavings of both
    threads, safety and progress; the mutex-guarded queue. \<open>Histogram\<close>: buckets and percentiles.

  \<^bold>\<open>Bounds.\<close> Theorems about the optimised book and the engine assume fewer than \<open>2 ^ 32 - 1\<close> commands:
  order pool indices have 32 bits and one value is reserved; the engine creates at most one order
  per command. With that bound, sequence numbers and match numbers of 64 bits cannot wrap. A
  packetizer of an MTU of 131090 or more could put 65535 messages in a packet, the count that means
  end of session; theorems about packets assume less. All loops of the model are total functions, except the probe
  and match loops of the optimised book, whose \<open>None\<close> for running forever is excluded by the theorems.

  The 32-bit sum of available shares that the minimum quantity is checked against does wrap, and the theorem on
  fill-or-kill orders says what happens then. Sizes and counts of type \<^verbatim>\<open>size_t\<close> that no container can
  reach (capacities, the MTU, the tick range) are natural numbers.

  \<^bold>\<open>Not modelled.\<close> The programs under \<^verbatim>\<open>src/apps\<close> parse arguments, generate random orders, print and open sockets
  and files around the components above; they hold no state of their own that others rely on. The creation of
  sockets, pipes and threads, waiting in the poller, CPU pinning and the clock (\<^verbatim>\<open>src/common/clock.hpp\<close>,
  \<^verbatim>\<open>src/common/cpu.hpp\<close>) are calls of the operating system. The percentile rank is computed in floating point; the
  model takes the rank as an argument. Relaxed memory orders are taken as interleavings, which
  is justified where each index has a single writer, stored with release and loaded with acquire.
\<close>

end
